(* ===== verification/Cxp_Prelude.thy ===== *)
theory Cxp_Prelude
  imports Main "HOL-Library.Word"
begin

text \<open>
  Shared vocabulary of the CXP development: the machine types of \<^verbatim>\<open>types.h\<close>, the result
  type in which every exit of the program is a value, and the singly linked lists that the ready
  queues (\<^verbatim>\<open>Process.next\<close>), the timer queues (\<^verbatim>\<open>TimeoutDesc.next\<close>) and the
  free lists (\<^verbatim>\<open>ChainedBlock.next\<close>) are made of. The search loop that three functions
  of the source repeat is the function \<open>walk\<close>; its closed form on a well-formed list and the
  lemmas on splicing a node into a list and out of it carry the proofs of all three.
\<close>

unbundle bit_operations_syntax


subsection \<open>Machine types (types.h)\<close>

type_synonym addr = "32 word"
type_synonym uint8 = "8 word"
type_synonym uint16 = "16 word"
type_synonym uint32 = "32 word"
type_synonym Time = "64 word"  \<comment> \<open>int64: compared through \<^const>\<open>sint\<close>\<close>

abbreviation NULL :: addr where "NULL \<equiv> 0"

definition MAX_TIME :: Time where
  "MAX_TIME = 0xffffffffffffffff"

text \<open>Signed comparisons of two \<^typ>\<open>Time\<close> values.\<close>

definition time_lt :: "Time \<Rightarrow> Time \<Rightarrow> bool" where
  "time_lt a b \<longleftrightarrow> sint a < sint b"

definition time_le :: "Time \<Rightarrow> Time \<Rightarrow> bool" where
  "time_le a b \<longleftrightarrow> sint a \<le> sint b"

subsection \<open>Results\<close>

text \<open>
  \<^verbatim>\<open>plotz\<close> prints its argument and exits the program; dereferencing a null pointer,
  indexing past an array and a busy-wait that only another processor can end are errors too,
  so that no path of the source is silently defined.
\<close>

datatype err =
    Plotz string
  | NullDeref
  | OutOfBounds string
  | SpinsForever string
  | DivByZero

type_synonym 'a res = "err + 'a"

definition res_bind :: "'a res \<Rightarrow> ('a \<Rightarrow> 'b res) \<Rightarrow> 'b res" where
  "res_bind r f = (case r of Inl e \<Rightarrow> Inl e | Inr a \<Rightarrow> f a)"

lemma res_bind_simps [simp]:
  "res_bind (Inl e) f = Inl e"
  "res_bind (Inr a) f = f a"
  by (simp_all add: res_bind_def)

lemma res_bind_Inr_iff:
  "res_bind r f = Inr b \<longleftrightarrow> (\<exists>a. r = Inr a \<and> f a = Inr b)"
  by (cases r) auto

lemma res_bind_Inr_E [elim!]:
  assumes "res_bind r f = Inr b"
  obtains a where "r = Inr a" and "f a = Inr b"
  using assms by (auto simp: res_bind_Inr_iff)

lemma res_bind_assoc: "res_bind (res_bind r f) g = res_bind r (\<lambda>a. res_bind (f a) g)"
  by (cases r) auto

text \<open>A loop that does not return has the value \<^term>\<open>None\<close>.\<close>

definition of_loop :: "string \<Rightarrow> 'a option \<Rightarrow> 'a res" where
  "of_loop msg r = (case r of None \<Rightarrow> Inl (SpinsForever msg) | Some a \<Rightarrow> Inr a)"

lemma of_loop_Some [simp]: "of_loop msg (Some a) = Inr a"
  by (simp add: of_loop_def)

subsection \<open>Linked lists\<close>

text \<open>
  \<open>chain nx p xs\<close>: following the next-field \<open>nx\<close> from \<open>p\<close> visits exactly \<open>xs\<close> and ends at
  \<^term>\<open>NULL\<close>; \<open>segment nx p xs q\<close>: it visits \<open>xs\<close> and arrives at \<open>q\<close>.
\<close>

primrec segment :: "(addr \<Rightarrow> addr) \<Rightarrow> addr \<Rightarrow> addr list \<Rightarrow> addr \<Rightarrow> bool" where
  "segment nx p [] q \<longleftrightarrow> p = q"
| "segment nx p (x # xs) q \<longleftrightarrow> x \<noteq> NULL \<and> p = x \<and> segment nx (nx x) xs q"

definition chain :: "(addr \<Rightarrow> addr) \<Rightarrow> addr \<Rightarrow> addr list \<Rightarrow> bool" where
  "chain nx p xs \<longleftrightarrow> segment nx p xs NULL"

lemma chain_Nil [simp]: "chain nx p [] \<longleftrightarrow> p = NULL"
  by (simp add: chain_def)

lemma chain_Cons [simp]:
  "chain nx p (x # xs) \<longleftrightarrow> x \<noteq> NULL \<and> p = x \<and> chain nx (nx x) xs"
  by (simp add: chain_def)

lemma chain_NULL [simp]: "chain nx NULL xs \<longleftrightarrow> xs = []"
  by (cases xs) auto

lemma chain_nonnull: "p \<noteq> NULL \<Longrightarrow> chain nx p xs \<longleftrightarrow> (\<exists>ys. xs = p # ys \<and> chain nx (nx p) ys)"
  by (cases xs) auto

lemma segment_append [simp]:
  "segment nx p (xs @ ys) q \<longleftrightarrow> (\<exists>r. segment nx p xs r \<and> segment nx r ys q)"
  by (induction xs arbitrary: p) auto

lemma chain_append: "chain nx p (xs @ ys) \<longleftrightarrow> (\<exists>r. segment nx p xs r \<and> chain nx r ys)"
  by (simp add: chain_def)

lemma chain_unique: "chain nx p xs \<Longrightarrow> chain nx p ys \<Longrightarrow> xs = ys"
proof (induction xs arbitrary: p ys)
  case Nil
  then show ?case by simp
next
  case (Cons x xs)
  then show ?case by (cases ys) auto
qed

lemma segment_nonnull: "segment nx p xs q \<Longrightarrow> NULL \<notin> set xs"
  by (induction xs arbitrary: p) auto

lemma chain_nonnull_set: "chain nx p xs \<Longrightarrow> NULL \<notin> set xs"
  by (auto simp: chain_def dest: segment_nonnull)

lemma chain_head: "chain nx p xs \<Longrightarrow> p = (if xs = [] then NULL else hd xs)"
  by (cases xs) auto

text \<open>A list that ends cannot come back to one of its nodes.\<close>

lemma chain_distinct: "chain nx p xs \<Longrightarrow> distinct xs"
proof (induction xs arbitrary: p)
  case Nil
  then show ?case by simp
next
  case (Cons x xs)
  have "x \<notin> set xs"
  proof
    assume "x \<in> set xs"
    then obtain us vs where "xs = us @ x # vs" by (auto simp: in_set_conv_decomp)
    with Cons.prems have "chain nx x (x # vs)" and "chain nx x (x # us @ x # vs)"
      by (auto simp: chain_append)
    then have "x # vs = x # us @ x # vs" by (rule chain_unique)
    then show False by simp
  qed
  with Cons show ?case by auto
qed

text \<open>The frame rule: writing the next-field of a node outside a list keeps the list.\<close>

lemma segment_cong: "(\<And>x. x \<in> set xs \<Longrightarrow> nx x = ny x) \<Longrightarrow> segment nx p xs q \<longleftrightarrow> segment ny p xs q"
  by (induction xs arbitrary: p) auto

lemma chain_cong: "(\<And>x. x \<in> set xs \<Longrightarrow> nx x = ny x) \<Longrightarrow> chain nx p xs \<longleftrightarrow> chain ny p xs"
  unfolding chain_def by (rule segment_cong)

lemma chain_frame [simp]: "a \<notin> set xs \<Longrightarrow> chain (nx(a := q)) p xs \<longleftrightarrow> chain nx p xs"
  by (rule chain_cong) auto

lemma segment_frame [simp]: "a \<notin> set xs \<Longrightarrow> segment (nx(a := q)) p xs r \<longleftrightarrow> segment nx p xs r"
  by (rule segment_cong) auto

subsection \<open>The search loop\<close>

text \<open>
  The loop \<^verbatim>\<open>while (curr != NULL && go(curr)) { prev = curr; curr = curr->next; }\<close> of
  \<^verbatim>\<open>enqueue0\<close>, \<^verbatim>\<open>insertInQueue\<close> and \<^verbatim>\<open>removeFromQueue\<close>. On a cyclic list it may
  not return.
\<close>

partial_function (option) walk ::
  "(addr \<Rightarrow> bool) \<Rightarrow> (addr \<Rightarrow> addr) \<Rightarrow> addr \<Rightarrow> addr \<Rightarrow> (addr \<times> addr) option" where
  "walk go nx prev cur =
     (if cur \<noteq> NULL \<and> go cur then walk go nx cur (nx cur) else Some (prev, cur))"

lemma walk_stop: "\<not> (cur \<noteq> NULL \<and> go cur) \<Longrightarrow> walk go nx prev cur = Some (prev, cur)"
  by (subst walk.simps) auto

lemma walk_go: "cur \<noteq> NULL \<Longrightarrow> go cur \<Longrightarrow> walk go nx prev cur = walk go nx cur (nx cur)"
  by (subst walk.simps) simp

text \<open>On a list the loop ends, at the first node the condition refuses.\<close>

lemma walk_chain:
  assumes "chain nx p xs"
  shows "walk go nx prev p =
    Some (last (prev # takeWhile go xs),
          (case dropWhile go xs of [] \<Rightarrow> NULL | y # ys \<Rightarrow> y))"
  using assms
proof (induction xs arbitrary: p prev)
  case Nil
  then show ?case by (simp add: walk_stop)
next
  case (Cons x xs)
  then show ?case by (cases "go x") (auto simp: walk_stop walk_go)
qed

subsection \<open>Splicing a node in\<close>

definition insert_at :: "('a \<Rightarrow> bool) \<Rightarrow> 'a \<Rightarrow> 'a list \<Rightarrow> 'a list" where
  "insert_at go x xs = takeWhile go xs @ x # dropWhile go xs"

lemma set_insert_at [simp]: "set (insert_at go x xs) = insert x (set xs)"
proof -
  have "set xs = set (takeWhile go xs) \<union> set (dropWhile go xs)"
    by (metis set_append takeWhile_dropWhile_id)
  then show ?thesis by (auto simp: insert_at_def)
qed

lemma length_insert_at [simp]: "length (insert_at go x xs) = Suc (length xs)"
  by (simp add: insert_at_def) (metis length_append takeWhile_dropWhile_id)

lemma insert_at_not_Nil [simp]: "insert_at go x xs \<noteq> []"
  by (simp add: insert_at_def)

lemma insert_at_cong:
  "(\<And>y. y \<in> set xs \<Longrightarrow> go y = go' y) \<Longrightarrow> insert_at go x xs = insert_at go' x xs"
  by (induction xs) (auto simp: insert_at_def)

lemma filter_insert_at: "\<not> P x \<Longrightarrow> filter P (insert_at go x xs) = filter P xs"
proof -
  assume "\<not> P x"
  then have "filter P (insert_at go x xs) = filter P (takeWhile go xs @ dropWhile go xs)"
    by (simp only: insert_at_def filter_append filter.simps if_False)
  then show ?thesis by (simp only: takeWhile_dropWhile_id)
qed

lemma chain_link_front:
  assumes "chain nx p xs" and "x \<noteq> NULL" and "x \<notin> set xs"
  shows "chain (nx(x := p)) x (x # xs)"
  using assms by simp

lemma chain_link_middle:
  assumes c: "chain nx p (us @ w # vs)" and x: "x \<noteq> NULL" "x \<notin> set (us @ w # vs)"
    and q: "q = (case vs of [] \<Rightarrow> NULL | v # vs' \<Rightarrow> v)"
  shows "chain (nx(w := x, x := q)) p (us @ w # x # vs)"
proof -
  from c have d: "distinct (us @ w # vs)" by (rule chain_distinct)
  from c obtain r where us: "segment nx p us r" and w: "chain nx r (w # vs)"
    by (auto simp: chain_append)
  from w have vs: "chain nx q vs" by (cases vs) (auto simp: q)
  have "segment (nx(w := x, x := q)) p us r"
    using us d x by simp
  moreover have "chain (nx(w := x, x := q)) r (w # x # vs)"
    using w vs d x by auto
  ultimately show ?thesis by (auto simp: chain_append)
qed

text \<open>Splicing a node out.\<close>

lemma chain_unlink:
  assumes c: "chain nx p (us @ w # x # vs)"
  shows "chain (nx(w := nx x)) p (us @ w # vs)"
proof -
  from c have d: "distinct (us @ w # x # vs)" by (rule chain_distinct)
  from c obtain r where us: "segment nx p us r" and w: "chain nx r (w # x # vs)"
    by (auto simp: chain_append)
  have "segment (nx(w := nx x)) p us r" using us d by simp
  moreover have "chain (nx(w := nx x)) r (w # vs)" using w d by auto
  ultimately show ?thesis by (auto simp: chain_append)
qed

subsection \<open>Order\<close>

text \<open>Insertion behind every node whose key is not larger keeps a list sorted by key.\<close>

lemma takeWhile_le_sorted:
  fixes key :: "'a \<Rightarrow> 'k::linorder"
  assumes "sorted (map key xs)"
  shows "takeWhile (\<lambda>y. key y \<le> k) xs = filter (\<lambda>y. key y \<le> k) xs"
    and "dropWhile (\<lambda>y. key y \<le> k) xs = filter (\<lambda>y. k < key y) xs"
  using assms
  by (induction xs) (force simp: not_le intro!: filter_True[symmetric] filter_False[symmetric])+

lemma insert_at_filter:
  fixes key :: "'a \<Rightarrow> 'k::linorder"
  assumes "sorted (map key xs)"
  shows "insert_at (\<lambda>y. key y \<le> key x) x xs =
    filter (\<lambda>y. key y \<le> key x) xs @ x # filter (\<lambda>y. key x < key y) xs"
  using assms by (simp add: insert_at_def takeWhile_le_sorted)

lemma sorted_insert_at:
  fixes key :: "'a \<Rightarrow> 'k::linorder"
  assumes "sorted (map key xs)"
  shows "sorted (map key (insert_at (\<lambda>y. key y \<le> key x) x xs))"
  using assms unfolding insert_at_filter [OF assms]
  by (auto simp: sorted_append sorted_map intro: sorted_wrt_filter)

lemma insort_insert_at:
  fixes key :: "'a \<Rightarrow> 'k::linorder"
  shows "insort_key key y (insert_at (\<lambda>z. key z \<le> key x) x xs) =
    insert_at (\<lambda>z. key z \<le> key x) x (insort_key key y xs)"
  by (induction xs) (auto simp: insert_at_def)

text \<open>Inserting behind equals, one after the other, is stable sorting.\<close>

lemma insert_at_sort_key:
  fixes key :: "'a \<Rightarrow> 'k::linorder"
  shows "insert_at (\<lambda>z. key z \<le> key x) x (sort_key key xs) = sort_key key (xs @ [x])"
proof (induction xs)
  case Nil
  then show ?case by (simp add: insert_at_def)
next
  case (Cons y xs)
  then show ?case by (simp add: insort_insert_at [symmetric])
qed

lemma insert_at_sorted:
  fixes key :: "'a \<Rightarrow> 'k::linorder"
  assumes "sorted (map key xs)"
  shows "insert_at (\<lambda>z. key z \<le> key x) x xs = sort_key key (xs @ [x])"
  using insert_at_sort_key [of key x xs] assms by (simp add: sort_key_id_if_sorted)

lemma sort_key_append_sort:
  fixes key :: "'a \<Rightarrow> 'k::linorder"
  shows "sort_key key (sort_key key xs @ ys) = sort_key key (xs @ ys)"
proof (induction ys rule: rev_induct)
  case Nil
  then show ?case by (simp add: sort_key_id_if_sorted)
next
  case (snoc y ys)
  then show ?case
    using insert_at_sort_key [of key y "sort_key key xs @ ys"] insert_at_sort_key [of key y "xs @ ys"]
    by simp
qed

end
