(* ===== verification/Priority.thy ===== *)
theory Priority
  imports Cxp_Prelude
begin

text \<open>
  The priority arithmetic of \<^verbatim>\<open>sched.h\<close>. A priority is a 16-bit field: the high three bits
  hold the nesting level of \<^verbatim>\<open>par_pri\<close>, the low twelve the value, and a smaller value is a
  higher priority. \<^verbatim>\<open>par_pri\<close> divides its parent's band of values into eight equal bands, one
  per child; the theorem \<open>path_priority_order\<close> says that the result orders the processes of
  a nest exactly as the nest does.
\<close>

subsection \<open>The macros\<close>

definition PRI_VAL_MASK :: uint16 where "PRI_VAL_MASK = 0x0fff"
definition PRI_LVL_MASK :: uint16 where "PRI_LVL_MASK = 0xe000"
definition PRI_LEVELS :: nat where "PRI_LEVELS = 4"
definition PRI_PROCS :: nat where "PRI_PROCS = 8"
definition PRI_LOW :: uint16 where "PRI_LOW = 0x0fff"
definition PRI_HIGH :: uint16 where "PRI_HIGH = 0"
definition INIT_PRI :: uint16 where "INIT_PRI = PRI_HIGH"
definition IDLE_PRI :: uint16 where "IDLE_PRI = PRI_LOW"

definition pri_value :: "uint16 \<Rightarrow> uint16" where
  "pri_value p = p AND PRI_VAL_MASK"

definition pri_level :: "uint16 \<Rightarrow> uint16" where
  "pri_level p = drop_bit 13 p"

definition priority :: "uint16 \<Rightarrow> uint16 \<Rightarrow> uint16" where
  "priority lvl val = push_bit 13 lvl OR (val AND PRI_VAL_MASK)"

definition pri_gt :: "uint16 \<Rightarrow> uint16 \<Rightarrow> bool" where
  "pri_gt p1 p2 \<longleftrightarrow> p1 AND PRI_VAL_MASK < p2 AND PRI_VAL_MASK"

definition pri_lt :: "uint16 \<Rightarrow> uint16 \<Rightarrow> bool" where
  "pri_lt p1 p2 \<longleftrightarrow> p1 AND PRI_VAL_MASK > p2 AND PRI_VAL_MASK"

definition pri_le :: "uint16 \<Rightarrow> uint16 \<Rightarrow> bool" where
  "pri_le p1 p2 \<longleftrightarrow> p1 AND PRI_VAL_MASK \<ge> p2 AND PRI_VAL_MASK"

definition pri_ge :: "uint16 \<Rightarrow> uint16 \<Rightarrow> bool" where
  "pri_ge p1 p2 \<longleftrightarrow> p1 AND PRI_VAL_MASK \<le> p2 AND PRI_VAL_MASK"

definition pri_eq :: "uint16 \<Rightarrow> uint16 \<Rightarrow> bool" where
  "pri_eq p1 p2 \<longleftrightarrow> p1 AND PRI_VAL_MASK = p2 AND PRI_VAL_MASK"

text \<open>\<^verbatim>\<open>(PRI_VAL_MASK+1)/(1 << (3*lvl))\<close>, an \<^verbatim>\<open>int\<close> that is never negative.\<close>

definition pri_delta :: "nat \<Rightarrow> nat" where
  "pri_delta lvl = (unat PRI_VAL_MASK + 1) div (2 ^ (3 * lvl))"

text \<open>
  The priority the loop of \<^verbatim>\<open>par_pri\<close> gives its child number \<open>i\<close>: the running value \<open>pri\<close>
  starts at the parent's priority and \<open>delta\<close> is added after each child.
\<close>

definition child_priority :: "uint16 \<Rightarrow> nat \<Rightarrow> uint16" where
  "child_priority ppri i =
     (let level = pri_level ppri + 1
      in priority level (ppri + of_nat (i * pri_delta (unat level))))"

subsection \<open>The value as a number\<close>

definition pval :: "uint16 \<Rightarrow> nat" where
  "pval p = unat (p AND PRI_VAL_MASK)"

lemma pri_iffs:
  "pri_gt p q \<longleftrightarrow> pval p < pval q"
  "pri_lt p q \<longleftrightarrow> pval q < pval p"
  "pri_le p q \<longleftrightarrow> pval q \<le> pval p"
  "pri_ge p q \<longleftrightarrow> pval p \<le> pval q"
  "pri_eq p q \<longleftrightarrow> pval p = pval q"
  by (auto simp: pri_gt_def pri_lt_def pri_le_def pri_ge_def pri_eq_def pval_def
        word_less_nat_alt word_le_nat_alt word_unat_eq_iff)

lemma mask_eq: "x AND PRI_VAL_MASK = take_bit 12 x"
proof -
  have "PRI_VAL_MASK = mask 12"
    by (simp add: PRI_VAL_MASK_def mask_numeral)
  then show ?thesis by (simp add: take_bit_eq_mask)
qed

lemma pval_mod: "pval p = unat p mod 4096"
  by (simp only: pval_def mask_eq unsigned_take_bit_eq) (simp add: take_bit_eq_mod)

lemma pval_less [simp]: "pval p < 4096"
  by (simp add: pval_mod)

lemma pri_delta_simps [simp]:
  "pri_delta 0 = 4096" "pri_delta (Suc 0) = 512" "pri_delta 2 = 64"
  "pri_delta 3 = 8" "pri_delta 4 = 1"
  by (simp_all add: pri_delta_def PRI_VAL_MASK_def)

lemma pri_delta_1 [simp]: "pri_delta 1 = 512"
  by (simp add: pri_delta_def PRI_VAL_MASK_def)

lemma pri_delta_step:
  assumes "l < 4"
  shows "pri_delta l = 8 * pri_delta (Suc l)"
proof -
  have "l = 0 \<or> l = 1 \<or> l = 2 \<or> l = 3" using assms by linarith
  then show ?thesis
    by (auto simp: pri_delta_def PRI_VAL_MASK_def)
qed

lemma pri_delta_pos:
  assumes "l \<le> 4"
  shows "0 < pri_delta l"
proof -
  have "l = 0 \<or> l = 1 \<or> l = 2 \<or> l = 3 \<or> l = 4" using assms by linarith
  then show ?thesis by (auto simp: pri_delta_def PRI_VAL_MASK_def)
qed

text \<open>Packing a level and a value loses neither.\<close>

lemma bit_priority:
  "bit (priority lvl val) n \<longleftrightarrow>
    n < 16 \<and> (13 \<le> n \<and> bit lvl (n - 13) \<or> n < 12 \<and> bit val n)"
  by (auto simp: priority_def mask_eq bit_or_iff bit_push_bit_iff bit_take_bit_iff
        dest: bit_imp_le_length)

lemma pval_priority: "pval (priority lvl val) = pval val"
proof -
  have "take_bit 12 (priority lvl val) = take_bit 12 val"
    by (rule bit_eqI) (auto simp: bit_take_bit_iff bit_priority)
  then show ?thesis by (simp add: pval_def mask_eq)
qed

lemma pri_level_priority:
  assumes "unat lvl < 8"
  shows "pri_level (priority lvl val) = lvl"
proof -
  have "take_bit 3 lvl = lvl"
  proof -
    have "unat (take_bit 3 lvl) = unat lvl"
      using assms by (simp add: unsigned_take_bit_eq take_bit_nat_eq_self)
    then show ?thesis by (simp only: word_unat_eq_iff)
  qed
  then have hi: "bit lvl n \<longleftrightarrow> n < 3 \<and> bit lvl n" for n
    by (metis bit_take_bit_iff)
  show ?thesis
    unfolding pri_level_def
    by (rule bit_eqI) (use hi in \<open>auto simp: bit_drop_bit_eq bit_priority add.commute\<close>)
qed

subsection \<open>Nests of par_pri\<close>

text \<open>
  A process of a nest is named by the list of child numbers that leads to it from the initial
  process. \<open>path_value\<close> is the value the numbering should give it.
\<close>

definition path_priority :: "nat list \<Rightarrow> uint16" where
  "path_priority path = foldl child_priority INIT_PRI path"

fun path_value :: "nat \<Rightarrow> nat list \<Rightarrow> nat" where
  "path_value l [] = 0"
| "path_value l (i # path) = i * pri_delta (Suc l) + path_value (Suc l) path"

definition legal_path :: "nat list \<Rightarrow> bool" where
  "legal_path path \<longleftrightarrow> length path \<le> PRI_LEVELS \<and> list_all (\<lambda>i. i < PRI_PROCS) path"

text \<open>The first difference decides.\<close>

fun comes_first :: "nat list \<Rightarrow> nat list \<Rightarrow> bool" where
  "comes_first (i # p) (j # q) \<longleftrightarrow> i < j \<or> i = j \<and> comes_first p q"
| "comes_first _ _ \<longleftrightarrow> False"

definition padded :: "nat list \<Rightarrow> nat list" where
  "padded path = path @ replicate (PRI_LEVELS - length path) 0"

lemma band_bounds:
  fixes i n d r :: nat
  assumes "i < n"
  shows "i * d + d \<le> n * d" and "r < d \<Longrightarrow> i * d + r < n * d"
proof -
  have "Suc i * d \<le> n * d" using assms by (intro mult_le_mono1) simp
  then show "i * d + d \<le> n * d" by simp
  then show "r < d \<Longrightarrow> i * d + r < n * d" by linarith
qed

lemma level_succ:
  assumes "unat lvl = l" and "l < 4"
  shows "unat (lvl + 1 :: uint16) = Suc l"
  using assms by (simp add: unat_word_ariths)

lemma child_priority_level:
  assumes "unat (pri_level p) = l" and "l < 4"
  shows "unat (pri_level (child_priority p i)) = Suc l"
  using assms level_succ [OF assms]
  by (simp add: child_priority_def Let_def pri_level_priority)

lemma child_priority_pval:
  assumes "unat (pri_level p) = l" and "l < 4" and "i < 8" and "pval p + pri_delta l \<le> 4096"
  shows "pval (child_priority p i) = pval p + i * pri_delta (Suc l)"
proof -
  have lt: "pval p + i * pri_delta (Suc l) < 4096"
  proof -
    have "0 < pri_delta (Suc l)"
      using assms(2) by (intro pri_delta_pos) simp
    then have "i * pri_delta (Suc l) < 8 * pri_delta (Suc l)"
      using band_bounds(2) [OF assms(3)] by fastforce
    then show ?thesis using assms(4) pri_delta_step [OF assms(2)] by linarith
  qed
  let ?k = "i * pri_delta (Suc l)"
  have "pval (child_priority p i) = unat (p + of_nat ?k :: uint16) mod 4096"
    using level_succ [OF assms(1,2)]
    by (simp only: child_priority_def Let_def pval_priority) (simp only: pval_mod)
  also have "\<dots> = (unat p + ?k) mod 4096"
  proof -
    have "unat (p + of_nat ?k :: uint16) = (unat p + ?k) mod 65536"
      by (simp only: unat_word_ariths unat_of_nat mod_add_right_eq) simp
    then show ?thesis by (simp add: mod_mod_cancel)
  qed
  also have "\<dots> = (pval p + ?k) mod 4096"
    by (simp only: pval_mod mod_add_left_eq)
  finally show ?thesis using lt by simp
qed

lemma path_value_less:
  assumes "l + length path \<le> 4" and "list_all (\<lambda>i. i < 8) path"
  shows "path_value l path < pri_delta l"
  using assms
proof (induction path arbitrary: l)
  case Nil
  then show ?case by (simp add: pri_delta_pos)
next
  case (Cons i path)
  then have "path_value (Suc l) path < pri_delta (Suc l)" by simp
  moreover have "pri_delta l = 8 * pri_delta (Suc l)"
    using Cons.prems by (intro pri_delta_step) simp
  ultimately show ?case using band_bounds(2) [of i 8] Cons.prems by simp
qed

lemma fold_child_priority:
  assumes "l + length path \<le> 4" and "list_all (\<lambda>i. i < 8) path"
    and "unat (pri_level p) = l" and "pval p + pri_delta l \<le> 4096"
  shows "pval (foldl child_priority p path) = pval p + path_value l path"
  using assms
proof (induction path arbitrary: p l)
  case Nil
  then show ?case by simp
next
  case (Cons i path)
  let ?c = "child_priority p i"
  from Cons.prems have l: "l < 4" and i: "i < 8" by auto
  note c = child_priority_pval [OF Cons.prems(3) l i Cons.prems(4)]
  have "pval ?c + pri_delta (Suc l) \<le> 4096"
    using c Cons.prems(4) pri_delta_step [OF l] band_bounds(1) [OF i, of "pri_delta (Suc l)"]
    by linarith
  then have "pval (foldl child_priority ?c path) = pval ?c + path_value (Suc l) path"
    using Cons.prems(1,2) child_priority_level [OF Cons.prems(3) l] by (intro Cons.IH) auto
  then show ?case using c by simp
qed

lemma pval_path_priority:
  assumes "legal_path path"
  shows "pval (path_priority path) = path_value 0 path"
proof -
  have "unat (pri_level INIT_PRI) = 0" and "pval INIT_PRI = 0"
    by (simp_all add: INIT_PRI_def PRI_HIGH_def pri_level_def pval_def)
  then show ?thesis
    using assms fold_child_priority [of 0 path INIT_PRI]
    by (simp add: path_priority_def legal_path_def PRI_LEVELS_def PRI_PROCS_def)
qed

lemma path_value_zeros: "path_value l (path @ replicate n 0) = path_value l path"
proof (induction path arbitrary: l)
  case Nil
  show ?case by (induction n arbitrary: l) auto
next
  case (Cons i path)
  then show ?case by simp
qed

lemma band_less_iff:
  fixes i j d r s :: nat
  assumes "r < d" and "s < d"
  shows "i * d + r < j * d + s \<longleftrightarrow> i < j \<or> i = j \<and> r < s"
proof (cases i j rule: linorder_cases)
  case less
  then have "Suc i * d \<le> j * d" by (intro mult_le_mono1) simp
  with less assms show ?thesis by simp
next
  case equal
  then show ?thesis by simp
next
  case greater
  then have "Suc j * d \<le> i * d" by (intro mult_le_mono1) simp
  with greater assms show ?thesis by simp
qed

lemma path_value_order:
  assumes "length p = length q" and "l + length p \<le> 4"
    and "list_all (\<lambda>i. i < 8) p" and "list_all (\<lambda>i. i < 8) q"
  shows "path_value l p < path_value l q \<longleftrightarrow> comes_first p q"
  using assms
proof (induction p q arbitrary: l rule: list_induct2)
  case Nil
  then show ?case by simp
next
  case (Cons i p j q)
  have "path_value (Suc l) p < pri_delta (Suc l)" "path_value (Suc l) q < pri_delta (Suc l)"
    using Cons.prems Cons.hyps by (auto intro!: path_value_less)
  from band_less_iff [OF this, of i j] show ?case
    using Cons.IH [of "Suc l"] Cons.prems by auto
qed

lemma legal_padded:
  assumes "legal_path p"
  shows "length (padded p) = 4" and "list_all (\<lambda>i. i < 8) (padded p)"
    and "path_value 0 (padded p) = path_value 0 p"
  using assms
  by (auto simp: legal_path_def padded_def PRI_LEVELS_def PRI_PROCS_def path_value_zeros
        list_all_iff)

text \<open>
  C28. In a nest of \<^verbatim>\<open>par_pri\<close> constructs of up to four levels and eight children each, one
  process has higher priority than another exactly if it (or its ancestor) comes first at the
  innermost construct the two have in common, a process counting as its own first child: the
  bands that \<^verbatim>\<open>par_pri\<close> hands out never overlap, whatever the nesting.
\<close>

theorem path_priority_order:
  assumes "legal_path p" and "legal_path q"
  shows "pri_gt (path_priority p) (path_priority q) \<longleftrightarrow> comes_first (padded p) (padded q)"
proof -
  have "pri_gt (path_priority p) (path_priority q) \<longleftrightarrow> path_value 0 p < path_value 0 q"
    using assms by (simp add: pri_iffs pval_path_priority)
  also have "\<dots> \<longleftrightarrow> comes_first (padded p) (padded q)"
    using path_value_order [of "padded p" "padded q" 0] legal_padded [OF assms(1)]
      legal_padded [OF assms(2)] by simp
  finally show ?thesis .
qed

theorem path_priority_order_witness:
  "legal_path [2, 7, 1] \<and> legal_path [3] \<and> pri_gt (path_priority [2, 7, 1]) (path_priority [3])"
proof -
  have l: "legal_path [2, 7, 1]" "legal_path [3]"
    by (simp_all add: legal_path_def PRI_LEVELS_def PRI_PROCS_def)
  have "comes_first (padded [2, 7, 1]) (padded [3 :: nat])"
    by (simp add: padded_def PRI_LEVELS_def numeral_eq_Suc)
  with l show ?thesis using path_priority_order [OF l] by simp
qed

lemma path_value_max:
  assumes "length p = n" and "l + n = 4" and "list_all (\<lambda>i. i < 8) p"
  shows "path_value l p + 1 = pri_delta l \<longleftrightarrow> p = replicate n 7"
  using assms
proof (induction p arbitrary: l n)
  case Nil
  then show ?case by simp
next
  case (Cons i p)
  then obtain m where n: "n = Suc m" and m: "length p = m" by (cases n) auto
  let ?d = "pri_delta (Suc l)"
  have IH: "path_value (Suc l) p + 1 = ?d \<longleftrightarrow> p = replicate m 7"
    using Cons.prems n m by (intro Cons.IH) auto
  have r: "path_value (Suc l) p < ?d"
    using Cons.prems n m by (intro path_value_less) auto
  have d: "pri_delta l = 8 * ?d" using Cons.prems n by (intro pri_delta_step) simp
  have "i * ?d + (path_value (Suc l) p + 1) = 8 * ?d \<longleftrightarrow> i = 7 \<and> path_value (Suc l) p + 1 = ?d"
  proof (cases "i = 7")
    case True
    then show ?thesis by auto
  next
    case False
    then have "i < 7" using Cons.prems by simp
    from band_bounds(2) [OF this r] False r show ?thesis by linarith
  qed
  then show ?case using IH d n by simp
qed

text \<open>
  A process of a legal nest outranks the idle process, with one exception: the last child
  of the last child of the last child of the last child gets priority value 4095, the value of
  the idle process itself, so it cannot preempt an idling processor.
\<close>

theorem outranks_idle_iff:
  assumes "legal_path p"
  shows "pri_gt (path_priority p) IDLE_PRI \<longleftrightarrow> p \<noteq> [7, 7, 7, 7]"
proof -
  have idle: "pval IDLE_PRI = 4095"
    by (simp add: pval_def IDLE_PRI_def PRI_LOW_def PRI_VAL_MASK_def)
  have pad: "padded p = replicate 4 7 \<longleftrightarrow> p = [7, 7, 7, 7]"
  proof
    assume h: "padded p = replicate 4 7"
    have "length p = 4"
    proof (rule ccontr)
      assume "length p \<noteq> 4"
      then have "length p < 4" using assms by (simp add: legal_path_def PRI_LEVELS_def)
      then have "(0::nat) \<in> set (padded p)" by (simp add: padded_def PRI_LEVELS_def)
      then show False by (simp add: h)
    qed
    with h show "p = [7, 7, 7, 7]" by (simp add: padded_def PRI_LEVELS_def numeral_eq_Suc)
  qed (simp add: padded_def PRI_LEVELS_def numeral_eq_Suc)
  have "path_value 0 p < 4096"
    using path_value_less [of 0 "padded p"] legal_padded [OF assms] by simp
  moreover have "path_value 0 p + 1 = 4096 \<longleftrightarrow> p = [7, 7, 7, 7]"
    using path_value_max [of "padded p" 4 0] legal_padded [OF assms] pad by simp
  ultimately show ?thesis
    using idle assms by (auto simp: pri_iffs pval_path_priority)
qed

theorem outranks_idle_iff_witness:
  "legal_path [7, 7, 7, 7] \<and> \<not> pri_gt (path_priority [7, 7, 7, 7]) IDLE_PRI"
proof -
  have l: "legal_path [7, 7, 7, 7]" by (simp add: legal_path_def PRI_LEVELS_def PRI_PROCS_def)
  then show ?thesis using outranks_idle_iff [OF l] by simp
qed

end
