(* ===== verification/Ipq.thy ===== *)
theory Ipq
  imports Cxp_Prelude
begin

text \<open>
  The interprocessor queues of \<^verbatim>\<open>ipq.m\<close>: one ring of five slots per processor, through
  which another processor hands over processes it has made ready. The pointers
  \<^verbatim>\<open>nextAdd\<close> and \<^verbatim>\<open>nextRem\<close> are the indices of the slots they point to. This theory
  treats one operation at a time and shows that the ring is a bounded first-in first-out queue;
  the interleavings of the atomic accesses of two processors are in the theory
  \<open>Ipq_Concurrent\<close>.
\<close>

subsection \<open>The ring\<close>

definition QSIZE :: nat where "QSIZE = 5"

record ipqueue =
  nextAdd :: nat
  nextRem :: nat
  que :: "addr list"

definition ipq_init :: ipqueue where
  "ipq_init = \<lparr>nextAdd = 0, nextRem = 0, que = replicate QSIZE NULL\<rparr>"

definition ipq_next :: "nat \<Rightarrow> nat" where
  "ipq_next a = (if a \<noteq> QSIZE - 1 then a + 1 else 0)"

text \<open>
  \<^verbatim>\<open>ipq_add\<close> without interference: \<^term>\<open>None\<close> when the queue is full, where the loop
  keeps reading the two pointers until a removal moves \<^verbatim>\<open>nextRem\<close>. The compare-and-exchange
  succeeds, and the store follows it.
\<close>

definition ipq_put :: "addr \<Rightarrow> ipqueue \<Rightarrow> ipqueue option" where
  "ipq_put proc q =
     (let a = nextAdd q; r = nextRem q; a1 = ipq_next a
      in if r = a1 then None
         else Some (q\<lparr>nextAdd := a1, que := (que q)[a := proc]\<rparr>))"

definition ipq_get :: "ipqueue \<Rightarrow> addr \<times> ipqueue" where
  "ipq_get q =
     (let r = nextRem q; a = nextAdd q
      in if a \<noteq> r then
           let proc = que q ! r; q' = q\<lparr>que := (que q)[r := NULL]\<rparr>
           in if proc \<noteq> NULL then (proc, q'\<lparr>nextRem := ipq_next r\<rparr>) else (proc, q')
         else (NULL, q))"

subsection \<open>Sequences of operations\<close>

text \<open>
  A use of a queue is a list of operations; each gives an answer and leaves the next state. The
  reference is a list that holds at most so many entries: additions go to its end and are refused
  when it is full, removals take its head, and find \<^term>\<open>NULL\<close> when it is empty.
\<close>

datatype ring_op = Put addr | Get

datatype ring_answer = Accepted | Refused | Taken addr

fun queue_op :: "(addr \<Rightarrow> 'q \<Rightarrow> 'q option) \<Rightarrow> ('q \<Rightarrow> addr \<times> 'q) \<Rightarrow> ring_op \<Rightarrow> 'q \<Rightarrow> ring_answer \<times> 'q" where
  "queue_op put get (Put x) q = (case put x q of None \<Rightarrow> (Refused, q) | Some q' \<Rightarrow> (Accepted, q'))"
| "queue_op put get Get q = (case get q of (x, q') \<Rightarrow> (Taken x, q'))"

fun perform :: "(ring_op \<Rightarrow> 'q \<Rightarrow> ring_answer \<times> 'q) \<Rightarrow> ring_op list \<Rightarrow> 'q \<Rightarrow> ring_answer list \<times> 'q" where
  "perform f [] q = ([], q)"
| "perform f (x # xs) q =
     (case f x q of (y, q1) \<Rightarrow> (case perform f xs q1 of (ys, q2) \<Rightarrow> (y # ys, q2)))"

definition list_put :: "nat \<Rightarrow> addr \<Rightarrow> addr list \<Rightarrow> addr list option" where
  "list_put n x xs = (if length xs < n then Some (xs @ [x]) else None)"

fun list_get :: "addr list \<Rightarrow> addr \<times> addr list" where
  "list_get [] = (NULL, [])"
| "list_get (x # xs) = (x, xs)"

subsection \<open>What a queue between processors promises\<close>

text \<open>
  The scheduler relies on these laws only: what is put is appended, what is taken is the oldest
  entry, nothing is taken from an empty queue, and a queue below its capacity accepts an entry.
\<close>

locale bounded_fifo =
  fixes put :: "addr \<Rightarrow> 'q \<Rightarrow> 'q option"
    and get :: "'q \<Rightarrow> addr \<times> 'q"
    and contents :: "'q \<Rightarrow> addr list"
    and wf :: "'q \<Rightarrow> bool"
    and capacity :: nat
  assumes put_room: "wf q \<Longrightarrow> x \<noteq> NULL \<Longrightarrow> length (contents q) < capacity \<Longrightarrow>
      \<exists>q'. put x q = Some q' \<and> wf q' \<and> contents q' = contents q @ [x]"
    and put_full: "wf q \<Longrightarrow> length (contents q) = capacity \<Longrightarrow> put x q = None"
    and get_empty: "wf q \<Longrightarrow> contents q = [] \<Longrightarrow> get q = (NULL, q)"
    and get_first: "wf q \<Longrightarrow> contents q = x # xs \<Longrightarrow>
      \<exists>q'. get q = (x, q') \<and> wf q' \<and> contents q' = xs"
    and contents_nonnull: "wf q \<Longrightarrow> NULL \<notin> set (contents q)"
    and contents_bound: "wf q \<Longrightarrow> length (contents q) \<le> capacity"
begin

lemma get_NULL_iff: "wf q \<Longrightarrow> fst (get q) = NULL \<longleftrightarrow> contents q = []"
  using get_empty get_first contents_nonnull by (cases "contents q") force+

text \<open>One operation, and then any list of them, against the list of the contents.\<close>

lemma queue_op_refines:
  assumes "wf q" and "x \<noteq> Put NULL"
  obtains y q' where "queue_op put get x q = (y, q')" and "wf q'"
    and "queue_op (list_put capacity) list_get x (contents q) = (y, contents q')"
proof (cases x)
  case (Put v)
  with assms contents_bound [of q] put_room [of q v] put_full [of q v] that show ?thesis
    by (cases "length (contents q) < capacity") (auto simp: list_put_def)
next
  case Get
  with assms get_empty [of q] get_first [of q] that show ?thesis
    by (cases "contents q") (fastforce)+
qed

lemma perform_refines:
  assumes "wf q" and "Put NULL \<notin> set xs"
  shows "\<exists>ys q'. perform (queue_op put get) xs q = (ys, q') \<and> wf q' \<and>
    perform (queue_op (list_put capacity) list_get) xs (contents q) = (ys, contents q')"
  using assms
proof (induction xs arbitrary: q)
  case Nil
  then show ?case by simp
next
  case (Cons x xs)
  from Cons.prems have "x \<noteq> Put NULL" by auto
  with Cons.prems(1) obtain y q1 where q1: "queue_op put get x q = (y, q1)" "wf q1"
    "queue_op (list_put capacity) list_get x (contents q) = (y, contents q1)"
    by (rule queue_op_refines)
  with Cons.IH [of q1] Cons.prems(2) show ?case by auto
qed

end

subsection \<open>The ring keeps the promise\<close>

text \<open>The slots in use, from the next removal to the next addition.\<close>

definition ipq_count :: "ipqueue \<Rightarrow> nat" where
  "ipq_count q = (nextAdd q + QSIZE - nextRem q) mod QSIZE"

definition ipq_contents :: "ipqueue \<Rightarrow> addr list" where
  "ipq_contents q = map (\<lambda>i. que q ! ((nextRem q + i) mod QSIZE)) [0..<ipq_count q]"

definition ipq_wf :: "ipqueue \<Rightarrow> bool" where
  "ipq_wf q \<longleftrightarrow> length (que q) = QSIZE \<and> nextAdd q < QSIZE \<and> nextRem q < QSIZE \<and>
     NULL \<notin> set (ipq_contents q)"

text \<open>The index arithmetic of the ring.\<close>

lemma ipq_next_mod: "a < QSIZE \<Longrightarrow> ipq_next a = Suc a mod QSIZE"
  by (auto simp: ipq_next_def QSIZE_def)

lemma ipq_next_less [simp]: "a < QSIZE \<Longrightarrow> ipq_next a < QSIZE"
  by (auto simp: ipq_next_def QSIZE_def)

lemma ipq_count_less [simp]: "ipq_count q < QSIZE"
  by (simp add: ipq_count_def QSIZE_def)

lemma ring_index:
  fixes a r :: nat
  assumes "a < 5" and "r < 5"
  shows "(r + (a + 5 - r) mod 5) mod 5 = a"
    and "i < (a + 5 - r) mod 5 \<Longrightarrow> (r + i) mod 5 \<noteq> a"
    and "r = Suc a mod 5 \<longleftrightarrow> (a + 5 - r) mod 5 = 4"
    and "(a + 5 - r) mod 5 < 4 \<Longrightarrow> (Suc a mod 5 + 5 - r) mod 5 = Suc ((a + 5 - r) mod 5)"
    and "a = r \<longleftrightarrow> (a + 5 - r) mod 5 = 0"
    and "a \<noteq> r \<Longrightarrow> (a + 5 - Suc r mod 5) mod 5 = (a + 5 - r) mod 5 - 1"
proof -
  have dist: "(b + 5 - s) mod 5 = (if s \<le> b then b - s else b + 5 - s)"
    if "b < 5" "s < 5" for b s :: nat
  proof (cases "s \<le> b")
    case True
    then have "b + 5 - s = b - s + 5" by simp
    then have "(b + 5 - s) mod 5 = (b - s) mod 5" by (simp only: mod_add_self2)
    with True that show ?thesis by simp
  qed (use that in simp)
  have suc: "Suc b mod 5 = (if b = 4 then 0 else Suc b)" if "b < 5" for b :: nat
    using that by auto
  note d = dist [OF assms]
  have sa: "Suc a mod 5 < 5" and sr: "Suc r mod 5 < 5" by simp_all
  show "(r + (a + 5 - r) mod 5) mod 5 = a"
    using assms unfolding d by simp
  show "r = Suc a mod 5 \<longleftrightarrow> (a + 5 - r) mod 5 = 4"
    using assms unfolding d suc [OF assms(1)] by auto
  show "(Suc a mod 5 + 5 - r) mod 5 = Suc ((a + 5 - r) mod 5)" if "(a + 5 - r) mod 5 < 4"
    using assms that unfolding d dist [OF sa assms(2)] unfolding suc [OF assms(1)]
    by (auto split: if_splits)
  show "a = r \<longleftrightarrow> (a + 5 - r) mod 5 = 0"
    using assms unfolding d by auto
  show "(a + 5 - Suc r mod 5) mod 5 = (a + 5 - r) mod 5 - 1" if "a \<noteq> r"
    using assms that unfolding d dist [OF assms(1) sr] unfolding suc [OF assms(2)]
    by (auto split: if_splits)
  assume i: "i < (a + 5 - r) mod 5"
  show "(r + i) mod 5 \<noteq> a"
  proof (cases "r + i < 5")
    case True
    with i assms show ?thesis by (auto simp: d split: if_splits)
  next
    case False
    have "i < 5" using i by (rule less_trans) simp
    then have "r + i - 5 < 5" using assms by linarith
    then have "(r + i) mod 5 = r + i - 5"
      using le_mod_geq [of 5 "r + i"] False by (simp only: mod_less not_less)
    with False i assms show ?thesis by (auto simp: d split: if_splits)
  qed
qed

lemma ipq_add_slot:
  assumes "nextAdd q < QSIZE" and "nextRem q < QSIZE"
  shows "(nextRem q + ipq_count q) mod QSIZE = nextAdd q"
    and "i < ipq_count q \<Longrightarrow> (nextRem q + i) mod QSIZE \<noteq> nextAdd q"
  using assms ring_index(1,2) [of "nextAdd q" "nextRem q"] by (simp_all add: ipq_count_def QSIZE_def)

lemma ipq_full_iff:
  assumes "nextAdd q < QSIZE" and "nextRem q < QSIZE"
  shows "nextRem q = ipq_next (nextAdd q) \<longleftrightarrow> ipq_count q = QSIZE - 1"
  using assms ring_index(3) [of "nextAdd q" "nextRem q"] ipq_next_mod [OF assms(1)]
  by (simp add: ipq_count_def QSIZE_def)

lemma ipq_empty_iff:
  assumes "nextAdd q < QSIZE" and "nextRem q < QSIZE"
  shows "nextAdd q = nextRem q \<longleftrightarrow> ipq_contents q = []"
  using assms ring_index(5) [of "nextAdd q" "nextRem q"]
  by (simp add: ipq_contents_def ipq_count_def QSIZE_def)

lemma length_ipq_contents: "length (ipq_contents q) = ipq_count q"
  by (simp add: ipq_contents_def)

lemma ipq_put_room:
  assumes wf: "ipq_wf q" and x: "x \<noteq> NULL" and room: "length (ipq_contents q) < QSIZE - 1"
  shows "\<exists>q'. ipq_put x q = Some q' \<and> ipq_wf q' \<and> ipq_contents q' = ipq_contents q @ [x]"
proof -
  have l: "length (que q) = QSIZE" and a: "nextAdd q < QSIZE" and r: "nextRem q < QSIZE"
    using wf by (auto simp: ipq_wf_def)
  let ?q = "q\<lparr>nextAdd := ipq_next (nextAdd q), que := (que q)[nextAdd q := x]\<rparr>"
  have "nextRem q \<noteq> ipq_next (nextAdd q)"
    using ipq_full_iff [OF a r] room by (simp add: length_ipq_contents)
  then have put: "ipq_put x q = Some ?q" by (simp add: ipq_put_def Let_def)
  have "ipq_count ?q = Suc (ipq_count q)"
    using a r room ring_index(4) [of "nextAdd q" "nextRem q"] ipq_next_mod [OF a]
    by (simp add: length_ipq_contents ipq_count_def QSIZE_def)
  moreover have "que ?q ! ((nextRem q + i) mod QSIZE) = que q ! ((nextRem q + i) mod QSIZE)"
    if "i < ipq_count q" for i
    using ipq_add_slot(2) [OF a r that] by (simp add: nth_list_update)
  ultimately have "ipq_contents ?q = ipq_contents q @ [x]"
    using ipq_add_slot(1) [OF a r] a l by (simp add: ipq_contents_def)
  moreover from this have "ipq_wf ?q" using wf x a by (simp add: ipq_wf_def)
  ultimately show ?thesis using put by blast
qed

lemma ipq_put_full:
  assumes "ipq_wf q" and "length (ipq_contents q) = QSIZE - 1"
  shows "ipq_put x q = None"
  using assms ipq_full_iff [of q] by (simp add: ipq_wf_def length_ipq_contents ipq_put_def Let_def)

lemma ipq_get_empty:
  assumes "ipq_wf q" and "ipq_contents q = []"
  shows "ipq_get q = (NULL, q)"
  using assms ipq_empty_iff [of q] by (simp add: ipq_wf_def ipq_get_def Let_def)

lemma ipq_get_first:
  assumes wf: "ipq_wf q" and xs: "ipq_contents q = x # xs"
  shows "\<exists>q'. ipq_get q = (x, q') \<and> ipq_wf q' \<and> ipq_contents q' = xs"
proof -
  have l: "length (que q) = QSIZE" and a: "nextAdd q < QSIZE" and r: "nextRem q < QSIZE"
    using wf by (auto simp: ipq_wf_def)
  let ?q = "q\<lparr>que := (que q)[nextRem q := NULL], nextRem := ipq_next (nextRem q)\<rparr>"
  have ne: "nextAdd q \<noteq> nextRem q" using ipq_empty_iff [OF a r] xs by simp
  obtain n where n: "ipq_count q = Suc n"
    using xs length_ipq_contents [of q] by (cases "ipq_count q") auto
  have c: "ipq_contents q = que q ! nextRem q # map (\<lambda>i. que q ! ((nextRem q + Suc i) mod QSIZE)) [0..<n]"
  proof -
    have "[0..<Suc n] = 0 # map Suc [0..<n]" by (simp add: map_Suc_upt upt_conv_Cons del: upt_Suc)
    then show ?thesis using r by (simp add: ipq_contents_def n comp_def del: upt_Suc)
  qed
  then have x: "x = que q ! nextRem q" and "x \<noteq> NULL" using xs wf by (auto simp: ipq_wf_def)
  then have get: "ipq_get q = (x, ?q)" using ne by (simp add: ipq_get_def Let_def)
  have cnt: "ipq_count ?q = n"
    using a r ne n ring_index(6) [of "nextAdd q" "nextRem q"] ipq_next_mod [OF r]
    by (simp add: ipq_count_def QSIZE_def)
  have "ipq_contents ?q = map (\<lambda>i. que q ! ((nextRem q + Suc i) mod QSIZE)) [0..<n]"
  proof -
    have slot: "(ipq_next (nextRem q) + i) mod QSIZE = (nextRem q + Suc i) mod QSIZE" for i
      using r by (simp add: ipq_next_mod mod_add_left_eq)
    have ne: "(nextRem q + Suc i) mod QSIZE \<noteq> nextRem q" if "i < n" for i
    proof
      assume "(nextRem q + Suc i) mod QSIZE = nextRem q"
      then have "(nextRem q + Suc i) mod 5 = nextRem q mod 5" using r by (simp add: QSIZE_def)
      then have "Suc i mod 5 = 0" by (simp add: mod_eq_nat1E) presburger
      moreover have "Suc i < 5" using ipq_count_less [of q] n that by (simp add: QSIZE_def)
      ultimately show False by simp
    qed
    have "que ?q ! ((nextRem ?q + i) mod QSIZE) = que q ! ((nextRem q + Suc i) mod QSIZE)"
      if "i < n" for i
      using nth_list_update_neq [OF ne [OF that, symmetric]] slot [of i] by simp
    then show ?thesis unfolding ipq_contents_def cnt by simp
  qed
  with c xs have "ipq_contents ?q = xs" by simp
  moreover from this have "ipq_wf ?q" using wf xs r by (simp add: ipq_wf_def)
  ultimately show ?thesis using get by blast
qed

lemma ipq_contents_bound:
  assumes "ipq_wf q"
  shows "length (ipq_contents q) \<le> QSIZE - 1"
proof -
  have "ipq_count q < QSIZE" by simp
  then show ?thesis unfolding length_ipq_contents QSIZE_def by linarith
qed

lemma ipq_wf_nonnull: "ipq_wf q \<Longrightarrow> NULL \<notin> set (ipq_contents q)"
  by (simp add: ipq_wf_def)

interpretation ring: bounded_fifo ipq_put ipq_get ipq_contents ipq_wf "QSIZE - 1"
  by unfold_locales
    (auto intro!: ipq_put_room ipq_put_full ipq_get_empty ipq_get_first
      dest: ipq_contents_bound simp: ipq_wf_nonnull)

lemma ipq_init_wf [simp]: "ipq_wf ipq_init" and ipq_init_contents [simp]: "ipq_contents ipq_init = []"
  by (simp_all add: ipq_init_def ipq_wf_def ipq_contents_def ipq_count_def QSIZE_def)

text \<open>
  C17. The interprocessor ring refines a first-in first-out list of at most four entries, for
  every sequence of additions and removals, however long, so that the two indices go round the
  five slots any number of times: from a freshly initialised ring each operation answers what
  the same operation on the list answers (an addition is refused exactly when four entries are
  in the list, a removal takes the oldest entry, or \<^term>\<open>NULL\<close> from an empty list), and at the
  end the entries of the ring, from the next removal to the next addition, are those of the list.
  The entries added are not \<^term>\<open>NULL\<close>.
\<close>

theorem ipq_fifo:
  assumes "Put NULL \<notin> set xs"
  shows "\<exists>ys q. perform (queue_op ipq_put ipq_get) xs ipq_init = (ys, q) \<and>
    perform (queue_op (list_put (QSIZE - 1)) list_get) xs [] = (ys, ipq_contents q)"
  using ring.perform_refines [OF ipq_init_wf assms] by auto

text \<open>Eight entries go through the ring, so both indices come round; the fifth addition is
  refused, and the first removal finds nothing.\<close>

theorem ipq_fifo_witness:
  "\<exists>q. perform (queue_op ipq_put ipq_get)
      [Get, Put 16, Put 32, Put 48, Put 64, Put 80, Get, Get, Put 80, Put 96, Get, Get, Get,
       Put 112, Put 128, Get, Get, Get] ipq_init =
     ([Taken NULL, Accepted, Accepted, Accepted, Accepted, Refused, Taken 16, Taken 32, Accepted,
       Accepted, Taken 48, Taken 64, Taken 80, Accepted, Accepted, Taken 96, Taken 112, Taken 128], q) \<and>
     ipq_contents q = []"
  using ipq_fifo [of "[Get, Put 16, Put 32, Put 48, Put 64, Put 80, Get, Get, Put 80, Put 96, Get,
    Get, Get, Put 112, Put 128, Get, Get, Get]"] by (auto simp: list_put_def QSIZE_def)

end
