(* ===== verification/Hardware.thy ===== *)
theory Hardware
  imports Cxp_Prelude "HOL-Library.Signed_Division"
begin

text \<open>
  The emulated hardware of \<^verbatim>\<open>hardware.c\<close>: processors are threads, interrupts are real-time
  signals, and the interrupt mask of a processor is its thread's signal mask. The operating system
  appears as the fields whose name starts with \<^verbatim>\<open>os_\<close>: the range of real-time signal
  numbers, the identifiers that successive \<^verbatim>\<open>timer_create\<close> calls return (\<^term>\<open>None\<close> for a
  failure), the readings that successive \<^verbatim>\<open>timer_gettime\<close> calls return, the table of its
  timers and the signals it has been asked to deliver. The thread a call runs on is the argument
  \<open>cpu\<close>, the value \<^verbatim>\<open>getcpu()\<close> returns there.
\<close>

type_synonym pun = "16 word"

definition NPUN :: uint16 where "NPUN = 2"
definition NINTR :: nat where "NINTR = 5"

definition INTR_ELAPSED :: nat where "INTR_ELAPSED = 0"
definition INTR_TIMEOUT :: nat where "INTR_TIMEOUT = 1"
definition INTR_INTERPROC :: nat where "INTR_INTERPROC = 2"
definition INTR_USER0 :: nat where "INTR_USER0 = 3"
definition INTR_USER1 :: nat where "INTR_USER1 = 4"

definition TIMER_ELAPSED :: nat where "TIMER_ELAPSED = 0"
definition TIMER_TIMEOUT :: nat where "TIMER_TIMEOUT = 1"

definition NS_PER_SEC :: int where "NS_PER_SEC = 1000000000"

lemmas intr_numbers = NINTR_def INTR_ELAPSED_def INTR_TIMEOUT_def INTR_INTERPROC_def
  INTR_USER0_def INTR_USER1_def TIMER_ELAPSED_def TIMER_TIMEOUT_def

subsection \<open>State\<close>

record IntrDesc =
  d_pun :: pun
  d_intr :: nat

record timespec =
  tv_sec :: int
  tv_nsec :: int

record ostimer =
  tm_signo :: int
  it_value :: timespec
  it_interval :: timespec

record hw_state =
  os_SIGRTMIN :: int
  os_SIGRTMAX :: int
  os_new_timer :: "nat \<Rightarrow> int option"
  os_readings :: "nat \<Rightarrow> timespec"
  os_timers :: "int \<rightharpoonup> ostimer"
  os_sent :: "(pun \<times> int) list"
  SIGBASE :: int
  next_signo :: int
  thread_id :: "pun \<Rightarrow> pun option"
  interrupt :: "IntrDesc list"
  signal_no :: "pun \<Rightarrow> nat \<Rightarrow> int"
  sigmask :: "pun \<Rightarrow> int set"
  thr_mask :: "pun \<Rightarrow> int set"
  handled :: "int set"
  timer :: "pun \<Rightarrow> nat \<Rightarrow> int"
  n_created :: nat
  n_readings :: nat
  barrier :: int

text \<open>A timer whose value is zero is disarmed: it never expires.\<close>

definition zero_ts :: timespec where "zero_ts = \<lparr>tv_sec = 0, tv_nsec = 0\<rparr>"

definition armed :: "ostimer \<Rightarrow> bool" where
  "armed t \<longleftrightarrow> it_value t \<noteq> zero_ts"

definition nanos :: "timespec \<Rightarrow> int" where
  "nanos ts = tv_sec ts * NS_PER_SEC + tv_nsec ts"

subsection \<open>Masking\<close>

definition disable :: "pun \<Rightarrow> hw_state \<Rightarrow> hw_state" where
  "disable cpu h = h\<lparr>thr_mask := (thr_mask h)(cpu := UNIV)\<rparr>"

definition enable :: "pun \<Rightarrow> hw_state \<Rightarrow> hw_state" where
  "enable cpu h = h\<lparr>thr_mask := (thr_mask h)(cpu := sigmask h cpu)\<rparr>"

definition phantom_enable :: "pun \<Rightarrow> hw_state \<Rightarrow> hw_state" where
  "phantom_enable cpu h = enable cpu h"

text \<open>
  A thread finds out its processor from its thread-specific value, which
  \<^verbatim>\<open>init_processor\<close> sets to the number plus one; zero is the value of a thread that has
  not been set up. Everywhere else the processor is an argument of the operation.
\<close>

definition getcpu :: "nat \<Rightarrow> int res" where
  "getcpu key_value =
     (if key_value = 0 then Inl (Plotz ''getcpu getspecifiic'') else Inr (int key_value - 1))"

definition deliverable :: "hw_state \<Rightarrow> pun \<Rightarrow> int \<Rightarrow> bool" where
  "deliverable h p signo \<longleftrightarrow> signo \<notin> thr_mask h p"

subsection \<open>Interrupt set-up\<close>

definition define_handler :: "pun \<Rightarrow> nat \<Rightarrow> hw_state \<Rightarrow> hw_state res" where
  "define_handler cpu intr h =
     (let signo = next_signo h;
          h1 = h\<lparr>next_signo := next_signo h + 1\<rparr>;
          index = signo - SIGBASE h
      in if \<not> (0 \<le> index \<and> nat index < length (interrupt h)) then Inl (OutOfBounds ''interrupt'')
         else if \<not> (cpu < NPUN \<and> intr < NINTR) then Inl (OutOfBounds ''signal_no'')
         else Inr (h1\<lparr>interrupt := (interrupt h1)[nat index := \<lparr>d_pun = cpu, d_intr = intr\<rparr>],
                      signal_no := (signal_no h1)(cpu := (signal_no h1 cpu)(intr := signo)),
                      sigmask := (sigmask h1)(cpu := sigmask h1 cpu - {signo}),
                      handled := insert signo (handled h1)\<rparr>))"

definition init_timer :: "pun \<Rightarrow> nat \<Rightarrow> hw_state \<Rightarrow> hw_state res" where
  "init_timer cpu timerType h =
     (if timerType \<noteq> TIMER_ELAPSED \<and> timerType \<noteq> TIMER_TIMEOUT
      then Inl (Plotz ''init_timer no such timer'')
      else
        let intr = (if timerType = TIMER_ELAPSED then INTR_ELAPSED else INTR_TIMEOUT);
            signo = signal_no h cpu intr
        in case os_new_timer h (n_created h) of
             None \<Rightarrow> Inl (Plotz ''init_timer timer_create'')
           | Some tid \<Rightarrow> Inr (h\<lparr>
               os_timers := (os_timers h)(tid \<mapsto> \<lparr>tm_signo = signo, it_value = zero_ts, it_interval = zero_ts\<rparr>),
               timer := (timer h)(cpu := (timer h cpu)(timerType := tid)),
               n_created := n_created h + 1\<rparr>))"

text \<open>
  With \<^verbatim>\<open>-m32\<close> both fields of a \<^verbatim>\<open>struct timespec\<close> are 32 bits wide; the quotient is
  the truncating one of C.
\<close>

definition to_timespec :: "Time \<Rightarrow> timespec" where
  "to_timespec t =
     \<lparr>tv_sec = signed_take_bit 31 (sint t sdiv NS_PER_SEC),
      tv_nsec = signed_take_bit 31 (sint t smod NS_PER_SEC)\<rparr>"

text \<open>\<^verbatim>\<open>timer_settime\<close> fails on an unknown timer and on a value that is no time.\<close>

definition timer_settime :: "int \<Rightarrow> timespec \<Rightarrow> timespec \<Rightarrow> hw_state \<Rightarrow> hw_state option" where
  "timer_settime tid val ivl h =
     (case os_timers h tid of
        None \<Rightarrow> None
      | Some t \<Rightarrow>
          if 0 \<le> tv_sec val \<and> 0 \<le> tv_nsec val \<and> tv_nsec val < NS_PER_SEC
          then Some (h\<lparr>os_timers := (os_timers h)(tid \<mapsto> t\<lparr>it_value := val, it_interval := ivl\<rparr>)\<rparr>)
          else None)"

definition set_timer_single :: "pun \<Rightarrow> nat \<Rightarrow> Time \<Rightarrow> hw_state \<Rightarrow> hw_state res" where
  "set_timer_single cpu timerType time h =
     (let timerId = timer h cpu timerType;
          time = (if 0 < sint time then time else 0);
          ts = to_timespec time
      in case timer_settime timerId ts zero_ts h of
           None \<Rightarrow> Inl (Plotz ''set_timer_single timer_settime'')
         | Some h' \<Rightarrow> Inr h')"

definition set_timer_repeating :: "pun \<Rightarrow> nat \<Rightarrow> Time \<Rightarrow> hw_state \<Rightarrow> hw_state res" where
  "set_timer_repeating cpu timerType time h =
     (let timerId = timer h cpu timerType;
          ts = to_timespec time
      in case timer_settime timerId ts ts h of
           None \<Rightarrow> Inl (Plotz ''set_timer_repeating timer_settime'')
         | Some h' \<Rightarrow> Inr h')"

definition read_timer :: "pun \<Rightarrow> nat \<Rightarrow> hw_state \<Rightarrow> (Time \<times> hw_state) res" where
  "read_timer cpu timerType h =
     (let timerId = timer h cpu timerType
      in case os_timers h timerId of
           None \<Rightarrow> Inl (Plotz ''read_timer timer_gettime'')
         | Some _ \<Rightarrow>
             let ts = os_readings h (n_readings h);
                 t = word_of_int (tv_sec ts) * word_of_int NS_PER_SEC + word_of_int (tv_nsec ts)
             in Inr (t, h\<lparr>n_readings := n_readings h + 1\<rparr>))"

subsection \<open>Sending interrupts\<close>

definition send_interprocessor_interrupt :: "pun \<Rightarrow> hw_state \<Rightarrow> hw_state res" where
  "send_interprocessor_interrupt p h =
     (case thread_id h p of
        None \<Rightarrow> Inl (Plotz ''send_interprocessor_interrupt pthread_kill'')
      | Some target \<Rightarrow>
          Inr (h\<lparr>os_sent := os_sent h @ [(target, signal_no h p INTR_INTERPROC)]\<rparr>))"

definition send_interrupt :: "pun \<Rightarrow> nat \<Rightarrow> hw_state \<Rightarrow> hw_state res" where
  "send_interrupt cpu intr h =
     (if intr < INTR_USER0 then Inl (Plotz ''send_interrupt not user interrupt'')
      else if \<not> intr < NINTR then Inl (OutOfBounds ''signal_no'')
      else Inr (h\<lparr>os_sent := os_sent h @ [(cpu, signal_no h cpu intr)]\<rparr>))"

text \<open>The interrupt number \<^verbatim>\<open>handle_signal\<close> looks up for an arriving signal.\<close>

definition signal_intr :: "int \<Rightarrow> hw_state \<Rightarrow> nat res" where
  "signal_intr signo h =
     (let index = signo - SIGBASE h
      in if 0 \<le> index \<and> nat index < length (interrupt h)
         then Inr (d_intr (interrupt h ! nat index))
         else Inl (OutOfBounds ''interrupt''))"

subsection \<open>Start of a processor\<close>

text \<open>The tick of \<^verbatim>\<open>timer.c\<close>, one second in nanoseconds.\<close>

definition Tick :: Time where "Tick = 1000000000"

definition getTick :: Time where "getTick = Tick"

definition define_interrupt_handlers :: "pun \<Rightarrow> hw_state \<Rightarrow> hw_state res" where
  "define_interrupt_handlers cpu h =
     res_bind
       (if cpu = 0 then
          res_bind (define_handler cpu INTR_ELAPSED h) (\<lambda>h.
          res_bind (init_timer cpu TIMER_ELAPSED h) (\<lambda>h.
          set_timer_repeating cpu TIMER_ELAPSED getTick h))
        else Inr h) (\<lambda>h.
     res_bind (define_handler cpu INTR_TIMEOUT h) (\<lambda>h.
     res_bind (init_timer cpu TIMER_TIMEOUT h) (\<lambda>h.
     res_bind (define_handler cpu INTR_INTERPROC h) (\<lambda>h.
     res_bind (define_handler cpu INTR_USER0 h) (\<lambda>h.
     define_handler cpu INTR_USER1 h)))))"

definition init_processor :: "pun \<Rightarrow> hw_state \<Rightarrow> hw_state res" where
  "init_processor cpu h =
     (let h1 = h\<lparr>thread_id := (thread_id h)(cpu \<mapsto> cpu),
                sigmask := (sigmask h)(cpu := {os_SIGRTMIN h .. os_SIGRTMAX h})\<rparr>
      in res_bind (define_interrupt_handlers cpu h1) (\<lambda>h.
         Inr (h\<lparr>thr_mask := (thr_mask h)(cpu := thr_mask h cpu \<union> sigmask h cpu)\<rparr>)))"

text \<open>
  \<^verbatim>\<open>pthread_key_create\<close> is taken to succeed, here, and so are, in the other operations, the
  calls that set signal masks, fill signal sets and build or enter contexts; for each of them the source
  ends the program with \<^verbatim>\<open>plotz\<close> if they fail. The key is in the model the map from threads to
  processors.
\<close>

definition hardware_init :: "hw_state \<Rightarrow> hw_state" where
  "hardware_init h = h\<lparr>SIGBASE := os_SIGRTMIN h, next_signo := os_SIGRTMIN h\<rparr>"

text \<open>
  One visit of \<^verbatim>\<open>synchronize_processors\<close>: the counter goes down; the caller then spins until
  it has reached zero.
\<close>

definition barrier_arrive :: "hw_state \<Rightarrow> hw_state" where
  "barrier_arrive h = h\<lparr>barrier := barrier h - 1\<rparr>"

definition barrier_open :: "hw_state \<Rightarrow> bool" where
  "barrier_open h \<longleftrightarrow> \<not> (0 < barrier h)"

lemmas hw_defs = disable_def enable_def define_handler_def init_timer_def set_timer_single_def
  set_timer_repeating_def read_timer_def send_interprocessor_interrupt_def send_interrupt_def

subsection \<open>Routing of signals\<close>

text \<open>
  \<open>routing n h P A\<close>: \<open>n\<close> signal numbers are in use, the processors \<open>P\<close> have started, and \<open>A\<close> is
  the set of pairs (processor, interrupt number) with a handler. The two tables are inverse to
  each other on \<open>A\<close>, and of the real-time signals a started processor unmasks exactly its own.
\<close>

definition routing :: "nat \<Rightarrow> hw_state \<Rightarrow> pun set \<Rightarrow> (pun \<times> nat) set \<Rightarrow> bool" where
  "routing n h P A \<longleftrightarrow>
     SIGBASE h = os_SIGRTMIN h \<and> next_signo h = SIGBASE h + int n \<and>
     length (interrupt h) = unat NPUN * NINTR \<and>
     (\<forall>(p, i) \<in> A. p \<in> P \<and> SIGBASE h \<le> signal_no h p i \<and> signal_no h p i < next_signo h \<and>
        interrupt h ! nat (signal_no h p i - SIGBASE h) = \<lparr>d_pun = p, d_intr = i\<rparr>) \<and>
     (\<forall>p \<in> P. sigmask h p = {os_SIGRTMIN h .. os_SIGRTMAX h} - signal_no h p ` {i. (p, i) \<in> A})"

text \<open>The part of the state that the routing of signals depends on.\<close>

definition same_signals :: "hw_state \<Rightarrow> hw_state \<Rightarrow> bool" where
  "same_signals h h' \<longleftrightarrow> SIGBASE h' = SIGBASE h \<and> os_SIGRTMIN h' = os_SIGRTMIN h \<and>
     os_SIGRTMAX h' = os_SIGRTMAX h \<and> next_signo h' = next_signo h \<and> interrupt h' = interrupt h \<and>
     signal_no h' = signal_no h \<and> sigmask h' = sigmask h"

lemma same_signals_refl [simp]: "same_signals h h"
  by (simp add: same_signals_def)

lemma same_signals_trans: "same_signals h h' \<Longrightarrow> same_signals h' h'' \<Longrightarrow> same_signals h h''"
  by (simp add: same_signals_def)

text \<open>The part of the state that setting up a handler does not touch.\<close>

definition same_os :: "hw_state \<Rightarrow> hw_state \<Rightarrow> bool" where
  "same_os h h' \<longleftrightarrow> os_SIGRTMIN h' = os_SIGRTMIN h \<and> os_SIGRTMAX h' = os_SIGRTMAX h \<and>
     os_new_timer h' = os_new_timer h \<and> os_timers h' = os_timers h \<and> os_sent h' = os_sent h \<and>
     thread_id h' = thread_id h \<and> thr_mask h' = thr_mask h \<and> timer h' = timer h \<and>
     n_created h' = n_created h"

lemma same_os_refl [simp]: "same_os h h"
  by (simp add: same_os_def)

lemma same_os_trans: "same_os h h' \<Longrightarrow> same_os h' h'' \<Longrightarrow> same_os h h''"
  by (simp add: same_os_def)

lemma NPUN_NINTR: "unat NPUN * NINTR = 10"
  by (simp add: NPUN_def NINTR_def)

lemma define_handler_routing:
  assumes r: "routing n h P A" and new: "(cpu, intr) \<notin> A" and p: "cpu \<in> P" "cpu < NPUN"
    and i: "intr < NINTR" and n: "n < 10"
  shows "\<exists>h'. define_handler cpu intr h = Inr h' \<and> routing (Suc n) h' P (insert (cpu, intr) A) \<and>
    (\<forall>q j. (q, j) \<noteq> (cpu, intr) \<longrightarrow> signal_no h' q j = signal_no h q j) \<and>
    same_os h h'"
proof -
  let ?s = "next_signo h"
  have len: "length (interrupt h) = 10" and s: "?s = SIGBASE h + int n"
    using r NPUN_NINTR by (auto simp: routing_def)
  let ?h = "h\<lparr>next_signo := ?s + 1, interrupt := (interrupt h)[n := \<lparr>d_pun = cpu, d_intr = intr\<rparr>],
    signal_no := (signal_no h)(cpu := (signal_no h cpu)(intr := ?s)),
    sigmask := (sigmask h)(cpu := sigmask h cpu - {?s}), handled := insert ?s (handled h)\<rparr>"
  have "define_handler cpu intr h = Inr ?h"
    using n len s p i by (simp add: define_handler_def Let_def)
  moreover have "routing (Suc n) ?h P (insert (cpu, intr) A)"
  proof -
    have old: "p \<in> P \<and> SIGBASE h \<le> signal_no h p i \<and> signal_no h p i < ?s \<and>
        interrupt h ! nat (signal_no h p i - SIGBASE h) = \<lparr>d_pun = p, d_intr = i\<rparr>"
      if "(p, i) \<in> A" for p i
      using r that by (auto simp: routing_def)
    have slot: "nat (signal_no h p i - SIGBASE h) \<noteq> n" if "(p, i) \<in> A" for p i
      using old [OF that] s by auto
    have tables: "\<forall>(p, i) \<in> insert (cpu, intr) A. p \<in> P \<and> SIGBASE ?h \<le> signal_no ?h p i \<and>
        signal_no ?h p i < next_signo ?h \<and>
        interrupt ?h ! nat (signal_no ?h p i - SIGBASE ?h) = \<lparr>d_pun = p, d_intr = i\<rparr>"
    proof clarify
      fix q j assume "(q, j) \<in> insert (cpu, intr) A"
      then show "q \<in> P \<and> SIGBASE ?h \<le> signal_no ?h q j \<and> signal_no ?h q j < next_signo ?h \<and>
        interrupt ?h ! nat (signal_no ?h q j - SIGBASE ?h) = \<lparr>d_pun = q, d_intr = j\<rparr>"
        using old [of q j] slot [of q j] p s len n new
        by (cases "(q, j) = (cpu, intr)") auto
    qed
    have masks: "\<forall>q \<in> P. sigmask ?h q = {os_SIGRTMIN ?h .. os_SIGRTMAX ?h} -
        signal_no ?h q ` {j. (q, j) \<in> insert (cpu, intr) A}"
    proof
      fix q assume that: "q \<in> P"
      have m: "sigmask h q = {os_SIGRTMIN h .. os_SIGRTMAX h} - signal_no h q ` {j. (q, j) \<in> A}"
        using r that by (simp add: routing_def)
      show "sigmask ?h q = {os_SIGRTMIN ?h .. os_SIGRTMAX ?h} -
        signal_no ?h q ` {j. (q, j) \<in> insert (cpu, intr) A}"
      proof (cases "q = cpu")
        case True
        have "signal_no ?h cpu ` {j. (cpu, j) \<in> insert (cpu, intr) A} =
            insert ?s (signal_no h cpu ` {j. (cpu, j) \<in> A})"
          using new by (auto simp: image_iff)
        with m True show ?thesis by (simp only:) auto
      next
        case False
        then have "{j. (q, j) \<in> insert (cpu, intr) A} = {j. (q, j) \<in> A}" by auto
        with m False show ?thesis by simp
      qed
    qed
    have "SIGBASE ?h = os_SIGRTMIN ?h" "next_signo ?h = SIGBASE ?h + int (Suc n)"
      "length (interrupt ?h) = unat NPUN * NINTR"
      using r s by (simp_all add: routing_def)
    with tables masks show ?thesis unfolding routing_def by (intro conjI)
  qed
  moreover have "\<forall>q j. (q, j) \<noteq> (cpu, intr) \<longrightarrow> signal_no ?h q j = signal_no h q j" by auto
  moreover have "same_os h ?h" by (simp add: same_os_def)
  ultimately show ?thesis by blast
qed

text \<open>What routing depends on.\<close>

lemma routing_cong:
  assumes "SIGBASE h' = SIGBASE h" "os_SIGRTMIN h' = os_SIGRTMIN h" "os_SIGRTMAX h' = os_SIGRTMAX h"
    "next_signo h' = next_signo h" "interrupt h' = interrupt h" "signal_no h' = signal_no h"
    "sigmask h' = sigmask h"
  shows "routing n h' P A = routing n h P A"
  using assms by (simp add: routing_def)

lemma routing_same_signals: "same_signals h h' \<Longrightarrow> routing n h' P A = routing n h P A"
  by (rule routing_cong) (simp_all add: same_signals_def)

definition tick_ts :: timespec where "tick_ts = \<lparr>tv_sec = 1, tv_nsec = 0\<rparr>"

lemma to_timespec_Tick: "to_timespec Tick = tick_ts"
  by (simp add: to_timespec_def Tick_def tick_ts_def NS_PER_SEC_def signed_divide_int_def
        signed_modulo_int_def signed_take_bit_int_eq_self)

text \<open>
  The interrupts of a processor: all five on processor 0, all but the elapsed-time interrupt on
  the others.
\<close>

definition intrs_of :: "pun \<Rightarrow> nat set" where
  "intrs_of p = (if p = 0 then {0, 1, 2, 3, 4} else {1, 2, 3, 4})"

text \<open>Defining the handlers of the remaining interrupts, as every processor does.\<close>

lemma define_common_handlers:
  assumes r: "routing n h P A" and A: "\<forall>i \<in> {1, 2, 3, 4}. (cpu, i) \<notin> A"
    and p: "cpu \<in> P" "cpu < NPUN" and n: "n + 4 \<le> 10"
    and tid: "os_new_timer h (n_created h) = Some tid"
  shows "\<exists>h'. res_bind (define_handler cpu INTR_TIMEOUT h) (\<lambda>h.
     res_bind (init_timer cpu TIMER_TIMEOUT h) (\<lambda>h.
     res_bind (define_handler cpu INTR_INTERPROC h) (\<lambda>h.
     res_bind (define_handler cpu INTR_USER0 h) (\<lambda>h.
     define_handler cpu INTR_USER1 h)))) = Inr h' \<and>
   routing (n + 4) h' P (A \<union> {cpu} \<times> {1, 2, 3, 4}) \<and>
   (\<forall>q i. (q \<noteq> cpu \<or> i = 0) \<longrightarrow> signal_no h' q i = signal_no h q i) \<and>
   same_os (h\<lparr>os_timers := (os_timers h)(tid \<mapsto>
         \<lparr>tm_signo = signal_no h' cpu INTR_TIMEOUT, it_value = zero_ts, it_interval = zero_ts\<rparr>),
       timer := (timer h)(cpu := (timer h cpu)(TIMER_TIMEOUT := tid)),
       n_created := n_created h + 1\<rparr>) h'"
proof -
  obtain h1 where h1: "define_handler cpu INTR_TIMEOUT h = Inr h1"
    "routing (Suc n) h1 P (insert (cpu, 1) A)" "same_os h h1"
    "\<forall>q j. (q, j) \<noteq> (cpu, 1) \<longrightarrow> signal_no h1 q j = signal_no h q j"
    using define_handler_routing [OF r, of cpu INTR_TIMEOUT] A p n
    by (auto simp: intr_numbers)
  let ?t = "\<lparr>tm_signo = signal_no h1 cpu INTR_TIMEOUT, it_value = zero_ts, it_interval = zero_ts\<rparr>"
  let ?h2 = "h1\<lparr>os_timers := (os_timers h1)(tid \<mapsto> ?t),
       timer := (timer h1)(cpu := (timer h1 cpu)(TIMER_TIMEOUT := tid)),
       n_created := n_created h1 + 1\<rparr>"
  have h2: "init_timer cpu TIMER_TIMEOUT h1 = Inr ?h2"
    using tid h1(3) by (simp add: init_timer_def Let_def same_os_def intr_numbers)
  have r2: "routing (Suc n) ?h2 P (insert (cpu, 1) A)"
    using h1(2) routing_cong [of ?h2 h1] by simp
  obtain h3 where h3: "define_handler cpu INTR_INTERPROC ?h2 = Inr h3"
    "routing (Suc (Suc n)) h3 P (insert (cpu, 2) (insert (cpu, 1) A))" "same_os ?h2 h3"
    "\<forall>q j. (q, j) \<noteq> (cpu, 2) \<longrightarrow> signal_no h3 q j = signal_no ?h2 q j"
    using define_handler_routing [OF r2, of cpu INTR_INTERPROC] A p n
    by (auto simp: intr_numbers)
  obtain h4 where h4: "define_handler cpu INTR_USER0 h3 = Inr h4"
    "routing (Suc (Suc (Suc n))) h4 P (insert (cpu, 3) (insert (cpu, 2) (insert (cpu, 1) A)))"
    "same_os h3 h4" "\<forall>q j. (q, j) \<noteq> (cpu, 3) \<longrightarrow> signal_no h4 q j = signal_no h3 q j"
    using define_handler_routing [OF h3(2), of cpu INTR_USER0] A p n
    by (auto simp: intr_numbers)
  obtain h5 where h5: "define_handler cpu INTR_USER1 h4 = Inr h5"
    "routing (Suc (Suc (Suc (Suc n)))) h5 P
       (insert (cpu, 4) (insert (cpu, 3) (insert (cpu, 2) (insert (cpu, 1) A))))"
    "same_os h4 h5" "\<forall>q j. (q, j) \<noteq> (cpu, 4) \<longrightarrow> signal_no h5 q j = signal_no h4 q j"
    using define_handler_routing [OF h4(2), of cpu INTR_USER1] A p n
    by (auto simp: intr_numbers)
  have sig: "\<forall>q i. (q \<noteq> cpu \<or> i = 0) \<longrightarrow> signal_no h5 q i = signal_no h q i"
    using h1(4) h3(4) h4(4) h5(4) by auto
  have tmo: "signal_no h5 cpu INTR_TIMEOUT = signal_no h1 cpu INTR_TIMEOUT"
    using h3(4) h4(4) h5(4) by (simp add: intr_numbers)
  have "insert (cpu, 4) (insert (cpu, 3) (insert (cpu, 2) (insert (cpu, 1) A))) =
      A \<union> {cpu} \<times> {1, 2, 3, 4}" and "Suc (Suc (Suc (Suc n))) = n + 4" by auto
  with h5(2) have r5: "routing (n + 4) h5 P (A \<union> {cpu} \<times> {1, 2, 3, 4})" by (simp only:)
  have "same_os ?h2 h5" by (rule same_os_trans [OF h3(3) same_os_trans [OF h4(3) h5(3)]])
  then have same: "same_os (h\<lparr>os_timers := (os_timers h)(tid \<mapsto>
         \<lparr>tm_signo = signal_no h5 cpu INTR_TIMEOUT, it_value = zero_ts, it_interval = zero_ts\<rparr>),
       timer := (timer h)(cpu := (timer h cpu)(TIMER_TIMEOUT := tid)),
       n_created := n_created h + 1\<rparr>) h5"
    using h1(3) unfolding tmo by (simp add: same_os_def)
  show ?thesis
    by (rule exI [of _ h5]) (intro conjI r5 sig same, simp only: h1(1) h2 h3(1) h4(1) h5(1) res_bind_simps)
qed

text \<open>The start of both processors, in the order in which \<^verbatim>\<open>initialize\<close> activates them.\<close>

definition booted :: "hw_state \<Rightarrow> hw_state res" where
  "booted h = res_bind (init_processor 0 (hardware_init h)) (init_processor 1)"

definition static_zero :: "hw_state \<Rightarrow> bool" where
  "static_zero h \<longleftrightarrow> interrupt h = replicate 10 \<lparr>d_pun = 0, d_intr = 0\<rparr> \<and>
     timer h = (\<lambda>_ _. 0) \<and> os_timers h = Map.empty \<and> n_created h = 0 \<and> n_readings h = 0 \<and> os_sent h = []"

lemma init_processor_0:
  assumes z: "static_zero h" and t0: "os_new_timer h 0 = Some t" and t1: "os_new_timer h 1 = Some u"
    and tu: "t \<noteq> u"
  shows "\<exists>h'. init_processor 0 (hardware_init h) = Inr h' \<and>
    routing 5 h' {0} ({0} \<times> intrs_of 0) \<and> n_created h' = 2 \<and> os_new_timer h' = os_new_timer h \<and>
    timer h' = (\<lambda>_ _. 0)(0 := (\<lambda>_. 0)(TIMER_ELAPSED := t, TIMER_TIMEOUT := u)) \<and>
    os_timers h' = [t \<mapsto> \<lparr>tm_signo = signal_no h' 0 INTR_ELAPSED, it_value = tick_ts, it_interval = tick_ts\<rparr>,
      u \<mapsto> \<lparr>tm_signo = signal_no h' 0 INTR_TIMEOUT, it_value = zero_ts, it_interval = zero_ts\<rparr>] \<and>
    thread_id h' = (thread_id h)(0 \<mapsto> 0) \<and>
    os_SIGRTMIN h' = os_SIGRTMIN h \<and> os_SIGRTMAX h' = os_SIGRTMAX h \<and>
    thr_mask h' = (thr_mask h)(0 := thr_mask h 0 \<union> sigmask h' 0)"
proof -
  let ?h0 = "(hardware_init h)\<lparr>thread_id := (thread_id h)(0 \<mapsto> 0),
    sigmask := (sigmask h)(0 := {os_SIGRTMIN h .. os_SIGRTMAX h})\<rparr>"
  have r0: "routing 0 ?h0 {0} {}"
    using z by (simp add: routing_def hardware_init_def static_zero_def NPUN_NINTR)
  obtain h1 where h1: "define_handler 0 INTR_ELAPSED ?h0 = Inr h1"
    "routing 1 h1 {0} {(0, 0)}" "same_os ?h0 h1"
    using define_handler_routing [OF r0, of 0 INTR_ELAPSED] by (auto simp: intr_numbers NPUN_def)
  let ?t = "\<lparr>tm_signo = signal_no h1 0 INTR_ELAPSED, it_value = zero_ts, it_interval = zero_ts\<rparr>"
  let ?h2 = "h1\<lparr>os_timers := [t \<mapsto> ?t],
       timer := (\<lambda>_ _. 0)(0 := (\<lambda>_. 0)(TIMER_ELAPSED := t)), n_created := 1\<rparr>"
  have h2: "init_timer 0 TIMER_ELAPSED h1 = Inr ?h2"
    using z t0 h1(3) by (simp add: init_timer_def Let_def same_os_def intr_numbers
        static_zero_def hardware_init_def)
  let ?h3 = "?h2\<lparr>os_timers := [t \<mapsto> ?t\<lparr>it_value := tick_ts, it_interval := tick_ts\<rparr>]\<rparr>"
  have h3: "set_timer_repeating 0 TIMER_ELAPSED getTick ?h2 = Inr ?h3"
    by (simp add: set_timer_repeating_def Let_def timer_settime_def getTick_def to_timespec_Tick
        tick_ts_def NS_PER_SEC_def)
  have r3: "routing 1 ?h3 {0} {(0, 0)}"
    using h1(2) routing_cong [of ?h3 h1] by simp
  have "os_new_timer ?h3 (n_created ?h3) = Some u"
    using t1 h1(3) by (simp add: same_os_def hardware_init_def)
  from define_common_handlers [OF r3 _ _ _ _ this, of 0]
  obtain h4 where h4: "res_bind (define_handler 0 INTR_TIMEOUT ?h3) (\<lambda>h.
     res_bind (init_timer 0 TIMER_TIMEOUT h) (\<lambda>h.
     res_bind (define_handler 0 INTR_INTERPROC h) (\<lambda>h.
     res_bind (define_handler 0 INTR_USER0 h) (\<lambda>h.
     define_handler 0 INTR_USER1 h)))) = Inr h4"
    and r4: "routing 5 h4 {0} ({(0, 0)} \<union> {0} \<times> {1, 2, 3, 4})"
    and s4: "signal_no h4 0 0 = signal_no h1 0 0"
    and same4: "same_os (?h3\<lparr>os_timers := (os_timers ?h3)(u \<mapsto>
         \<lparr>tm_signo = signal_no h4 0 INTR_TIMEOUT, it_value = zero_ts, it_interval = zero_ts\<rparr>),
       timer := (timer ?h3)(0 := (timer ?h3 0)(TIMER_TIMEOUT := u)),
       n_created := n_created ?h3 + 1\<rparr>) h4"
    by (auto simp: NPUN_def)
  let ?h5 = "h4\<lparr>thr_mask := (thr_mask h4)(0 := thr_mask h4 0 \<union> sigmask h4 0)\<rparr>"
  have run: "init_processor 0 (hardware_init h) = Inr ?h5"
    using h1(1) h2 h3 h4
    by (simp add: init_processor_def define_interrupt_handlers_def Let_def hardware_init_def)
  have "{(0, 0)} \<union> {0} \<times> {1, 2, 3, 4} = {0 :: pun} \<times> intrs_of 0"
    by (auto simp: intrs_of_def)
  with r4 have "routing 5 ?h5 {0} ({0} \<times> intrs_of 0)"
    using routing_cong [of ?h5 h4] by simp
  then show ?thesis
    using run same4 s4 h1(3) tu
    by (auto simp: same_os_def hardware_init_def intr_numbers fun_eq_iff)
qed

lemma init_processor_1:
  assumes rg: "routing 5 g {0} ({0} \<times> intrs_of 0)" and v: "os_new_timer g (n_created g) = Some v"
  shows "\<exists>h'. init_processor 1 g = Inr h' \<and> routing 9 h' {0, 1} ({0} \<times> intrs_of 0 \<union> {1} \<times> intrs_of 1) \<and>
    timer h' = (timer g)(1 := (timer g 1)(TIMER_TIMEOUT := v)) \<and>
    os_timers h' = (os_timers g)(v \<mapsto>
      \<lparr>tm_signo = signal_no h' 1 INTR_TIMEOUT, it_value = zero_ts, it_interval = zero_ts\<rparr>) \<and>
    signal_no h' 0 = signal_no g 0 \<and> thread_id h' = (thread_id g)(1 \<mapsto> 1) \<and>
    os_SIGRTMIN h' = os_SIGRTMIN g \<and> os_SIGRTMAX h' = os_SIGRTMAX g \<and>
    thr_mask h' = (thr_mask g)(1 := thr_mask g 1 \<union> sigmask h' 1)"
proof -
  let ?g1 = "g\<lparr>thread_id := (thread_id g)(1 \<mapsto> 1),
    sigmask := (sigmask g)(1 := {os_SIGRTMIN g .. os_SIGRTMAX g})\<rparr>"
  have "routing 5 ?g1 {0, 1} ({0} \<times> intrs_of 0)"
    using rg by (auto simp: routing_def)
  from define_common_handlers [OF this, of 1 v] v
  obtain h4 where h4: "res_bind (define_handler 1 INTR_TIMEOUT ?g1) (\<lambda>h.
     res_bind (init_timer 1 TIMER_TIMEOUT h) (\<lambda>h.
     res_bind (define_handler 1 INTR_INTERPROC h) (\<lambda>h.
     res_bind (define_handler 1 INTR_USER0 h) (\<lambda>h.
     define_handler 1 INTR_USER1 h)))) = Inr h4"
    and r4: "routing 9 h4 {0, 1} ({0} \<times> intrs_of 0 \<union> {1} \<times> {1, 2, 3, 4})"
    and s4: "\<And>i. signal_no h4 0 i = signal_no g 0 i"
    and same4: "same_os (?g1\<lparr>os_timers := (os_timers ?g1)(v \<mapsto>
         \<lparr>tm_signo = signal_no h4 1 INTR_TIMEOUT, it_value = zero_ts, it_interval = zero_ts\<rparr>),
       timer := (timer ?g1)(1 := (timer ?g1 1)(TIMER_TIMEOUT := v)),
       n_created := n_created ?g1 + 1\<rparr>) h4"
    by (auto simp: NPUN_def)
  let ?h5 = "h4\<lparr>thr_mask := (thr_mask h4)(1 := thr_mask h4 1 \<union> sigmask h4 1)\<rparr>"
  have run: "init_processor 1 g = Inr ?h5"
    using h4 by (simp add: init_processor_def define_interrupt_handlers_def Let_def)
  have "routing 9 ?h5 {0, 1} ({0} \<times> intrs_of 0 \<union> {1} \<times> intrs_of 1)"
    using r4 routing_cong [of ?h5 h4] by (simp add: intrs_of_def)
  then show ?thesis using run same4 s4
    by (intro exI [of _ ?h5]) (simp add: same_os_def fun_eq_iff)
qed

lemma booted_facts:
  assumes z: "static_zero h" and t0: "os_new_timer h 0 = Some t" and t1: "os_new_timer h 1 = Some u"
    and t2: "os_new_timer h 2 = Some v" and d: "distinct [t, u, v]"
  shows "\<exists>h'. booted h = Inr h' \<and> routing 9 h' {0, 1} ({0} \<times> intrs_of 0 \<union> {1} \<times> intrs_of 1) \<and>
    timer h' = (\<lambda>_ _. 0)(0 := (\<lambda>_. 0)(TIMER_ELAPSED := t, TIMER_TIMEOUT := u),
                           1 := (\<lambda>_. 0)(TIMER_TIMEOUT := v)) \<and>
    os_timers h' = [t \<mapsto> \<lparr>tm_signo = signal_no h' 0 INTR_ELAPSED, it_value = tick_ts, it_interval = tick_ts\<rparr>,
      u \<mapsto> \<lparr>tm_signo = signal_no h' 0 INTR_TIMEOUT, it_value = zero_ts, it_interval = zero_ts\<rparr>,
      v \<mapsto> \<lparr>tm_signo = signal_no h' 1 INTR_TIMEOUT, it_value = zero_ts, it_interval = zero_ts\<rparr>] \<and>
    thread_id h' = (thread_id h)(0 \<mapsto> 0, 1 \<mapsto> 1) \<and>
    os_SIGRTMIN h' = os_SIGRTMIN h \<and> os_SIGRTMAX h' = os_SIGRTMAX h"
proof -
  obtain g where g: "init_processor 0 (hardware_init h) = Inr g"
    and rg: "routing 5 g {0} ({0} \<times> intrs_of 0)" and ng: "n_created g = 2"
    and og: "os_new_timer g = os_new_timer h"
    and tg: "timer g = (\<lambda>_ _. 0)(0 := (\<lambda>_. 0)(TIMER_ELAPSED := t, TIMER_TIMEOUT := u))"
    and ot: "os_timers g = [t \<mapsto> \<lparr>tm_signo = signal_no g 0 INTR_ELAPSED, it_value = tick_ts, it_interval = tick_ts\<rparr>,
      u \<mapsto> \<lparr>tm_signo = signal_no g 0 INTR_TIMEOUT, it_value = zero_ts, it_interval = zero_ts\<rparr>]"
    and th: "thread_id g = (thread_id h)(0 \<mapsto> 0)"
    and rt: "os_SIGRTMIN g = os_SIGRTMIN h" "os_SIGRTMAX g = os_SIGRTMAX h"
    using init_processor_0 [OF z t0 t1] d by auto
  have v: "os_new_timer g (n_created g) = Some v" using t2 og ng by simp
  from init_processor_1 [OF rg v] g tg ot th rt show ?thesis
    by (auto simp: booted_def)
qed

text \<open>What routing means for an arriving signal.\<close>

lemma routing_signal_intr:
  assumes "routing n h P A" and "(p, i) \<in> A" and "n \<le> 10"
  shows "signal_intr (signal_no h p i) h = Inr i"
    and "d_pun (interrupt h ! nat (signal_no h p i - SIGBASE h)) = p"
  using assms NPUN_NINTR by (auto simp: routing_def signal_intr_def Let_def)

lemma routing_inj:
  assumes "routing n h P A" and "(p, i) \<in> A" and "(q, j) \<in> A" and "signal_no h p i = signal_no h q j"
  shows "p = q \<and> i = j"
proof -
  have "interrupt h ! nat (signal_no h p i - SIGBASE h) = \<lparr>d_pun = p, d_intr = i\<rparr>"
    and "interrupt h ! nat (signal_no h q j - SIGBASE h) = \<lparr>d_pun = q, d_intr = j\<rparr>"
    using assms(1,2,3) by (auto simp: routing_def)
  then have "\<lparr>d_pun = p, d_intr = i\<rparr> = \<lparr>d_pun = q, d_intr = j\<rparr>" unfolding assms(4) by metis
  then show ?thesis by simp
qed

text \<open>
  C31. Set-up routes every signal to the handler it belongs to. After the two processors have
  started, the number looked up for an arriving signal is the interrupt it was allocated for, no two
  (processor, interrupt) pairs share a signal, and once a processor enables interrupts the only
  real-time signals that can reach it are its own.
\<close>

theorem signals_routed:
  assumes "static_zero h" and "os_new_timer h 0 = Some t" and "os_new_timer h 1 = Some u"
    and "os_new_timer h 2 = Some v" and "distinct [t, u, v]"
    and i: "i \<in> intrs_of p" and p: "p < NPUN" and q: "q < NPUN"
    and rt: "os_SIGRTMIN h \<le> s" "s \<le> os_SIGRTMAX h"
  shows "\<exists>h'. booted h = Inr h' \<and> signal_intr (signal_no h' p i) h' = Inr i \<and>
    (\<forall>j \<in> intrs_of q. signal_no h' q j = signal_no h' p i \<longrightarrow> q = p \<and> j = i) \<and>
    (deliverable (enable q h') q s \<longleftrightarrow> (\<exists>j \<in> intrs_of q. s = signal_no h' q j))"
proof -
  obtain h' where b: "booted h = Inr h'"
    and r: "routing 9 h' {0, 1} ({0} \<times> intrs_of 0 \<union> {1} \<times> intrs_of 1)"
    and m: "os_SIGRTMIN h' = os_SIGRTMIN h" "os_SIGRTMAX h' = os_SIGRTMAX h"
    using booted_facts [OF assms(1-5)] by auto
  have two: "x = 0 \<or> x = 1" if "x < NPUN" for x :: pun
  proof -
    have "unat x < 2" using that by (simp add: NPUN_def word_less_nat_alt)
    then have "unat x = 0 \<or> unat x = 1" by linarith
    then show ?thesis by (simp only: word_unat_eq_iff) simp
  qed
  have A: "(x, j) \<in> {0} \<times> intrs_of 0 \<union> {1} \<times> intrs_of 1 \<longleftrightarrow> j \<in> intrs_of x" if "x < NPUN" for x j
    using two [OF that] by auto
  have "signal_intr (signal_no h' p i) h' = Inr i"
    using routing_signal_intr(1) [OF r] A [OF p] i by simp
  moreover have "q = p \<and> j = i" if "j \<in> intrs_of q" "signal_no h' q j = signal_no h' p i" for j
    using routing_inj [OF r, of q j p i] A p q i that by simp
  moreover have "deliverable (enable q h') q s \<longleftrightarrow> (\<exists>j \<in> intrs_of q. s = signal_no h' q j)"
  proof -
    have "sigmask h' q = {os_SIGRTMIN h' .. os_SIGRTMAX h'} - signal_no h' q ` intrs_of q"
      using r two [OF q] A [OF q] by (auto simp: routing_def)
    then show ?thesis using rt m by (auto simp: deliverable_def enable_def)
  qed
  ultimately show ?thesis using b by blast
qed

definition sample_hw :: hw_state where
  "sample_hw = \<lparr>os_SIGRTMIN = 41, os_SIGRTMAX = 72, os_new_timer = (\<lambda>n. Some (int n + 1)),
     os_readings = (\<lambda>_. \<lparr>tv_sec = 0, tv_nsec = 400000000\<rparr>), os_timers = Map.empty, os_sent = [],
     SIGBASE = 0, next_signo = 0, thread_id = Map.empty,
     interrupt = replicate 10 \<lparr>d_pun = 0, d_intr = 0\<rparr>, signal_no = (\<lambda>_ _. 0),
     sigmask = (\<lambda>_. {}), thr_mask = (\<lambda>_. {}), handled = {}, timer = (\<lambda>_ _. 0), n_created = 0,
     n_readings = 0, barrier = 2\<rparr>"

theorem signals_routed_witness:
  "\<exists>h'. booted sample_hw = Inr h' \<and> signal_intr (signal_no h' 1 INTR_INTERPROC) h' = Inr INTR_INTERPROC \<and>
    (deliverable (enable 0 h') 0 50 \<longleftrightarrow> (\<exists>j \<in> intrs_of 0. 50 = signal_no h' 0 j))"
  using signals_routed [of sample_hw 1 2 3 INTR_INTERPROC 1 0 50]
  by (auto simp: static_zero_def sample_hw_def NPUN_def intrs_of_def intr_numbers)

text \<open>
  Each processor's timeout timer raises that processor's timeout signal; the elapsed-time
  timer raises the elapsed-time signal of processor 0 and is armed with a period of one tick,
  while the timeout timers start disarmed.
\<close>

theorem timers_raise_own_signal:
  assumes "static_zero h" and "os_new_timer h 0 = Some t" and "os_new_timer h 1 = Some u"
    and "os_new_timer h 2 = Some v" and "distinct [t, u, v]"
  shows "\<exists>h' te t0 t1. booted h = Inr h' \<and>
    os_timers h' (timer h' 0 TIMER_ELAPSED) = Some te \<and> tm_signo te = signal_no h' 0 INTR_ELAPSED \<and>
    armed te \<and> nanos (it_interval te) = sint getTick \<and>
    os_timers h' (timer h' 0 TIMER_TIMEOUT) = Some t0 \<and> tm_signo t0 = signal_no h' 0 INTR_TIMEOUT \<and>
    os_timers h' (timer h' 1 TIMER_TIMEOUT) = Some t1 \<and> tm_signo t1 = signal_no h' 1 INTR_TIMEOUT \<and>
    \<not> armed t0 \<and> \<not> armed t1"
proof -
  obtain h' where "booted h = Inr h'"
    and "timer h' = (\<lambda>_ _. 0)(0 := (\<lambda>_. 0)(TIMER_ELAPSED := t, TIMER_TIMEOUT := u),
                           1 := (\<lambda>_. 0)(TIMER_TIMEOUT := v))"
    and "os_timers h' = [t \<mapsto> \<lparr>tm_signo = signal_no h' 0 INTR_ELAPSED, it_value = tick_ts, it_interval = tick_ts\<rparr>,
      u \<mapsto> \<lparr>tm_signo = signal_no h' 0 INTR_TIMEOUT, it_value = zero_ts, it_interval = zero_ts\<rparr>,
      v \<mapsto> \<lparr>tm_signo = signal_no h' 1 INTR_TIMEOUT, it_value = zero_ts, it_interval = zero_ts\<rparr>]"
    using booted_facts [OF assms] by auto
  then show ?thesis
    using assms(5)
    by (simp add: intr_numbers armed_def zero_ts_def tick_ts_def nanos_def NS_PER_SEC_def
        getTick_def Tick_def)
qed

theorem timers_raise_own_signal_witness:
  "\<exists>h' te. booted sample_hw = Inr h' \<and> os_timers h' (timer h' 0 TIMER_ELAPSED) = Some te \<and> armed te"
  using timers_raise_own_signal [of sample_hw 1 2 3] by (auto simp: static_zero_def sample_hw_def)

text \<open>
  Processor 1 never creates an elapsed-time timer, so its entry of the timer table is still
  the zero of static storage: a reading of the clock there ends the program unless zero happens to
  be the identifier of a timer, and in that case it reads whichever timer that is.
\<close>

theorem clock_of_processor_1:
  assumes "static_zero h" and "os_new_timer h 0 = Some t" and "os_new_timer h 1 = Some u"
    and "os_new_timer h 2 = Some v" and "distinct [t, u, v]"
  shows "\<exists>h'. booted h = Inr h' \<and> timer h' 1 TIMER_ELAPSED = 0 \<and>
    (0 \<notin> {t, u, v} \<longrightarrow> read_timer 1 TIMER_ELAPSED h' = Inl (Plotz ''read_timer timer_gettime''))"
proof -
  obtain h' where "booted h = Inr h'"
    and "timer h' = (\<lambda>_ _. 0)(0 := (\<lambda>_. 0)(TIMER_ELAPSED := t, TIMER_TIMEOUT := u),
                           1 := (\<lambda>_. 0)(TIMER_TIMEOUT := v))"
    and "os_timers h' = [t \<mapsto> \<lparr>tm_signo = signal_no h' 0 INTR_ELAPSED, it_value = tick_ts, it_interval = tick_ts\<rparr>,
      u \<mapsto> \<lparr>tm_signo = signal_no h' 0 INTR_TIMEOUT, it_value = zero_ts, it_interval = zero_ts\<rparr>,
      v \<mapsto> \<lparr>tm_signo = signal_no h' 1 INTR_TIMEOUT, it_value = zero_ts, it_interval = zero_ts\<rparr>]"
    using booted_facts [OF assms] by auto
  then show ?thesis by (auto simp: read_timer_def Let_def intr_numbers domIff)
qed

theorem clock_of_processor_1_witness:
  "\<exists>h'. booted sample_hw = Inr h' \<and>
    read_timer 1 TIMER_ELAPSED h' = Inl (Plotz ''read_timer timer_gettime'')"
  using clock_of_processor_1 [of sample_hw 1 2 3] by (auto simp: static_zero_def sample_hw_def)

subsection \<open>Setting the timeout timer\<close>

lemma to_timespec_nonneg:
  assumes "0 \<le> sint t" and "sint t < 2 ^ 31 * NS_PER_SEC"
  shows "to_timespec t = \<lparr>tv_sec = sint t div NS_PER_SEC, tv_nsec = sint t mod NS_PER_SEC\<rparr>"
proof -
  have q: "sint t sdiv NS_PER_SEC = sint t div NS_PER_SEC"
    and r: "sint t smod NS_PER_SEC = sint t mod NS_PER_SEC"
    using assms by (simp_all add: signed_divide_int_def signed_modulo_int_def NS_PER_SEC_def
        sgn_if minus_div_mult_eq_mod)
  have "sint t div NS_PER_SEC < 2 ^ 31" and "0 \<le> sint t div NS_PER_SEC"
    using assms by (simp_all add: NS_PER_SEC_def div_less_iff_less_mult pos_imp_zdiv_nonneg_iff)
  then have s: "signed_take_bit 31 (sint t div NS_PER_SEC) = sint t div NS_PER_SEC"
    by (intro signed_take_bit_int_eq_self) simp_all
  have "0 \<le> sint t mod NS_PER_SEC" and "sint t mod NS_PER_SEC < 2 ^ 31"
    by (simp_all add: NS_PER_SEC_def)
  then have "signed_take_bit 31 (sint t mod NS_PER_SEC) = sint t mod NS_PER_SEC"
    by (intro signed_take_bit_int_eq_self) simp_all
  with q r s show ?thesis by (simp add: to_timespec_def)
qed

lemma set_timer_single_ok:
  assumes "os_timers h (timer h cpu ty) = Some tm" and lim: "sint time < 2 ^ 31 * NS_PER_SEC"
  shows "\<exists>ts. set_timer_single cpu ty time h =
      Inr (h\<lparr>os_timers := (os_timers h)(timer h cpu ty \<mapsto> tm\<lparr>it_value := ts, it_interval := zero_ts\<rparr>)\<rparr>) \<and>
    nanos ts = max 0 (sint time) \<and> (ts \<noteq> zero_ts \<longleftrightarrow> 0 < sint time)"
proof -
  let ?t = "if 0 < sint time then time else 0"
  let ?ts = "\<lparr>tv_sec = sint ?t div NS_PER_SEC, tv_nsec = sint ?t mod NS_PER_SEC\<rparr>"
  have m: "sint ?t = max 0 (sint time)" by simp
  have ts: "to_timespec ?t = ?ts"
    using lim by (intro to_timespec_nonneg) (auto simp: NS_PER_SEC_def)
  have "0 \<le> sint ?t div NS_PER_SEC" "0 \<le> sint ?t mod NS_PER_SEC" "sint ?t mod NS_PER_SEC < NS_PER_SEC"
    by (simp_all add: NS_PER_SEC_def pos_imp_zdiv_nonneg_iff)
  then have set: "set_timer_single cpu ty time h =
      Inr (h\<lparr>os_timers := (os_timers h)(timer h cpu ty \<mapsto> tm\<lparr>it_value := ?ts, it_interval := zero_ts\<rparr>)\<rparr>)"
    using assms(1) ts by (simp add: set_timer_single_def Let_def timer_settime_def)
  have n: "nanos ?ts = max 0 (sint time)"
    unfolding m [symmetric] by (simp add: nanos_def del: sint_0)
  have "?ts \<noteq> zero_ts \<longleftrightarrow> 0 < sint time"
  proof
    assume "?ts \<noteq> zero_ts"
    then show "0 < sint time" by (auto simp: zero_ts_def split: if_splits)
  next
    assume pos: "0 < sint time"
    show "?ts \<noteq> zero_ts"
    proof
      assume "?ts = zero_ts"
      then have "nanos ?ts = nanos zero_ts" by simp
      then show False using n pos by (simp add: nanos_def zero_ts_def)
    qed
  qed
  with set n show ?thesis by blast
qed

text \<open>
  Setting a single interval: the timer is given exactly the requested number of nanoseconds,
  keeps its signal and does not repeat, but an interval of zero or less is set as zero, which
  disarms the timer, so the timeout it was set for raises no interrupt at all.
\<close>

theorem set_timer_single_arms:
  assumes "os_timers h (timer h cpu ty) = Some tm" and lim: "sint time < 2 ^ 31 * NS_PER_SEC"
  shows "\<exists>h' tm'. set_timer_single cpu ty time h = Inr h' \<and>
    os_timers h' (timer h' cpu ty) = Some tm' \<and> tm_signo tm' = tm_signo tm \<and>
    nanos (it_value tm') = max 0 (sint time) \<and> nanos (it_interval tm') = 0 \<and>
    (armed tm' \<longleftrightarrow> 0 < sint time)"
  using set_timer_single_ok [OF assms] by (auto simp: armed_def nanos_def zero_ts_def)

theorem set_timer_single_arms_witness:
  "\<exists>h' tm'. set_timer_single 0 0 2500000000
      (sample_hw\<lparr>os_timers := [0 \<mapsto> \<lparr>tm_signo = 42, it_value = zero_ts, it_interval = zero_ts\<rparr>]\<rparr>) = Inr h' \<and>
    os_timers h' (timer h' 0 0) = Some tm' \<and> nanos (it_value tm') = 2500000000 \<and> armed tm'"
  using set_timer_single_arms [of
      "sample_hw\<lparr>os_timers := [0 \<mapsto> \<lparr>tm_signo = 42, it_value = zero_ts, it_interval = zero_ts\<rparr>]\<rparr>"
      0 0 _ 2500000000]
  by (fastforce simp: sample_hw_def NS_PER_SEC_def)

end
