(* ===== verification/Sched.thy ===== *)
theory Sched
  imports Priority Ipq Hardware
begin

text \<open>
  The scheduler of \<^verbatim>\<open>sched.c\<close>: process records, the ready queue of each processor, the
  current process, and the operations that insert, take, preempt and give up the processor. The
  ready queues are linked through the field \<^verbatim>\<open>next\<close> of the process records, as in the
  code. A context switch changes which saved context a processor executes; what a process still has
  to do when it is switched in again is the \<open>resume_point\<close> saved with its context.
\<close>

subsection \<open>Process records and contexts\<close>

datatype sched_st = PROC_READY | PROC_PREPARING_TO_WAIT | PROC_WAITING

datatype alt_st = ALT_NONE | ALT_ENABLING | ALT_WAITING | ALT_READY

record process =
  p_stackptr :: addr
  p_next :: addr
  p_index :: uint16
  p_pri :: uint16
  p_pun :: pun
  p_alt_state :: alt_st
  p_sched_state :: sched_st

text \<open>Functions whose address the kernel stores in a context.\<close>

datatype code_p = No_code | Idle | Run_in_par | Finish_termination | User_code addr

text \<open>Where a saved context continues.\<close>

datatype resume_point =
    At_entry code_p addr addr addr
  | In_schedule
  | In_interproc
  | In_relinquish
  | In_relinquish_unconditional
  | In_yield
  | Interrupted

record ucontext =
  uc_point :: resume_point
  uc_sigmask :: "int set"
  uc_sp :: addr
  uc_size :: uint32

record sched =
  procs :: "addr \<Rightarrow> process"
  ctxs :: "addr \<Rightarrow> ucontext"
  executing :: "pun \<Rightarrow> addr"
  rdyQues :: "pun \<Rightarrow> addr"
  current :: "pun \<Rightarrow> addr"
  current_pri :: "pun \<Rightarrow> uint16"
  ipQues :: "pun \<Rightarrow> ipqueue"
  sizeof_ucontext :: uint32
  hw :: hw_state

definition on_hw :: "(hw_state \<Rightarrow> hw_state) \<Rightarrow> sched \<Rightarrow> sched" where
  "on_hw f s = s\<lparr>hw := f (hw s)\<rparr>"

definition set_next :: "addr \<Rightarrow> addr \<Rightarrow> sched \<Rightarrow> sched" where
  "set_next p q s = s\<lparr>procs := (procs s)(p := procs s p\<lparr>p_next := q\<rparr>)\<rparr>"

definition set_sched_state :: "addr \<Rightarrow> sched_st \<Rightarrow> sched \<Rightarrow> sched" where
  "set_sched_state p st s = s\<lparr>procs := (procs s)(p := procs s p\<lparr>p_sched_state := st\<rparr>)\<rparr>"

definition set_alt_state :: "addr \<Rightarrow> alt_st \<Rightarrow> sched \<Rightarrow> sched" where
  "set_alt_state p st s = s\<lparr>procs := (procs s)(p := procs s p\<lparr>p_alt_state := st\<rparr>)\<rparr>"

subsection \<open>The current process\<close>

text \<open>Every caller of \<^verbatim>\<open>get_current\<close> dereferences what it returns.\<close>

definition get_current :: "pun \<Rightarrow> sched \<Rightarrow> addr res" where
  "get_current cpu s = (if current s cpu = NULL then Inl NullDeref else Inr (current s cpu))"

definition set_current :: "pun \<Rightarrow> addr \<Rightarrow> sched \<Rightarrow> sched res" where
  "set_current cpu proc s =
     (if proc = NULL then Inl NullDeref
      else if p_pun (procs s proc) \<noteq> cpu then Inl (Plotz ''set_current non-matching cpu#'')
      else Inr (s\<lparr>current := (current s)(cpu := proc),
                  current_pri := (current_pri s)(cpu := p_pri (procs s proc))\<rparr>))"

definition prepare_to_wait :: "pun \<Rightarrow> sched \<Rightarrow> sched res" where
  "prepare_to_wait cpu s =
     res_bind (get_current cpu s) (\<lambda>cur. Inr (set_sched_state cur PROC_PREPARING_TO_WAIT s))"

subsection \<open>Context switches (hardware.c)\<close>

text \<open>
  \<^verbatim>\<open>swapcontext\<close> saves the signal mask with the context it leaves and installs the one
  saved with the context it enters.
\<close>

definition switch_context :: "pun \<Rightarrow> resume_point \<Rightarrow> addr \<Rightarrow> addr \<Rightarrow> sched \<Rightarrow> sched res" where
  "switch_context cpu site oldproc newproc s =
     (if oldproc = NULL \<or> newproc = NULL then Inl NullDeref
      else
        let o_sp = p_stackptr (procs s oldproc);
            n_sp = p_stackptr (procs s newproc);
            s1 = s\<lparr>ctxs := (ctxs s)(o_sp := (ctxs s o_sp)\<lparr>uc_point := site,
                                       uc_sigmask := thr_mask (hw s) cpu\<rparr>)\<rparr>
        in Inr (s1\<lparr>executing := (executing s1)(cpu := n_sp),
                   hw := (hw s1)\<lparr>thr_mask := (thr_mask (hw s1))(cpu := uc_sigmask (ctxs s1 n_sp))\<rparr>\<rparr>))"

text \<open>\<^verbatim>\<open>&proc->stack\<close>: the stack follows the sixteen bytes of fixed fields.\<close>

definition sizeof_Process :: uint32 where "sizeof_Process = 16"

definition proc_stack :: "addr \<Rightarrow> addr" where
  "proc_stack proc = proc + sizeof_Process"

definition restore_context :: "pun \<Rightarrow> addr \<Rightarrow> sched \<Rightarrow> sched res" where
  "restore_context cpu proc s =
     (if proc = NULL then Inl NullDeref
      else Inr (s\<lparr>executing := (executing s)(cpu := proc_stack proc),
                  hw := (hw s)\<lparr>thr_mask := (thr_mask (hw s))(cpu := uc_sigmask (ctxs s (proc_stack proc)))\<rparr>\<rparr>))"

definition enable_and_resume :: "pun \<Rightarrow> addr \<Rightarrow> sched \<Rightarrow> sched res" where
  "enable_and_resume cpu proc s = restore_context cpu proc (s\<lparr>hw := enable cpu (hw s)\<rparr>)"

text \<open>
  The interrupted context has already been saved by \<^verbatim>\<open>handle_signal\<close>, so the switch from
  an interrupt handler only restores.
\<close>

definition switch_interrupt_context :: "pun \<Rightarrow> addr \<Rightarrow> addr \<Rightarrow> sched \<Rightarrow> sched res" where
  "switch_interrupt_context cpu interrupted preempting s = restore_context cpu preempting s"

text \<open>
  The signal handler copies the interrupted context to where the stack pointer of the current
  process points; nothing keeps that pointer from being null.
\<close>

definition save_interrupted :: "pun \<Rightarrow> sched \<Rightarrow> sched res" where
  "save_interrupted cpu s =
     res_bind (get_current cpu s) (\<lambda>cur.
       let sp = p_stackptr (procs s cur)
       in if sp = NULL then Inl NullDeref
          else Inr (s\<lparr>ctxs := (ctxs s)(sp := (ctxs s sp)\<lparr>uc_point := Interrupted,
                                     uc_sigmask := thr_mask (hw s) cpu\<rparr>)\<rparr>))"

definition build_context ::
  "pun \<Rightarrow> addr \<Rightarrow> uint32 \<Rightarrow> code_p \<Rightarrow> addr \<Rightarrow> addr \<Rightarrow> addr \<Rightarrow> sched \<Rightarrow> sched" where
  "build_context cpu proc stacksize code arg1 arg2 userArgs s =
     (let sp = proc_stack proc
      in s\<lparr>procs := (procs s)(proc := procs s proc\<lparr>p_stackptr := sp\<rparr>),
           ctxs := (ctxs s)(sp := \<lparr>uc_point = At_entry code arg1 arg2 userArgs,
                              uc_sigmask = thr_mask (hw s) cpu,
                              uc_sp = sp + sizeof_ucontext s,
                              uc_size = stacksize - sizeof_ucontext s\<rparr>)\<rparr>)"

text \<open>
  What a process does when it is switched in, before it is back in its own code: every
  \<^verbatim>\<open>switch_context\<close> in the kernel is followed by \<^verbatim>\<open>enable()\<close>, and so begins the idle
  process; an interrupted process and a new child of \<^verbatim>\<open>par\<close> go on with the mask that was
  restored, and a process preempted inside the interprocessor interrupt is back in that handler,
  whose rest is \<open>resume_interproc\<close> below. This holds for every way in which a process is switched
  in: from another process, from an interrupt handler and by a process that ends.
\<close>

definition resume_process :: "pun \<Rightarrow> sched \<Rightarrow> sched" where
  "resume_process cpu s =
     (case uc_point (ctxs s (executing s cpu)) of
        In_schedule \<Rightarrow> on_hw (enable cpu) s
      | In_interproc \<Rightarrow> s
      | In_relinquish \<Rightarrow> on_hw (enable cpu) s
      | In_relinquish_unconditional \<Rightarrow> on_hw (enable cpu) s
      | In_yield \<Rightarrow> on_hw (enable cpu) s
      | Interrupted \<Rightarrow> s
      | At_entry code _ _ _ \<Rightarrow> (if code = Idle then on_hw (enable cpu) s else s))"

subsection \<open>The ready queue\<close>

definition enqueue0 :: "addr \<Rightarrow> sched \<Rightarrow> sched res" where
  "enqueue0 proc s =
     (if proc = NULL then Inl NullDeref
      else
        let pr = procs s proc; pun = p_pun pr
        in if \<not> pun < NPUN then Inl (OutOfBounds ''rdyQues'')
           else
             res_bind (of_loop ''enqueue0''
               (walk (\<lambda>c. pri_le (p_pri pr) (p_pri (procs s c))) (\<lambda>c. p_next (procs s c))
                  NULL (rdyQues s pun)))
             (\<lambda>(prev, cur). Inr (
                if prev = NULL \<and> cur = NULL then
                  set_next proc NULL (s\<lparr>rdyQues := (rdyQues s)(pun := proc)\<rparr>)
                else if prev = NULL \<and> cur \<noteq> NULL then
                  set_next proc cur (s\<lparr>rdyQues := (rdyQues s)(pun := proc)\<rparr>)
                else if prev \<noteq> NULL \<and> cur \<noteq> NULL then
                  set_next proc cur (set_next prev proc s)
                else
                  set_next proc NULL (set_next prev proc s))))"

definition enqueue :: "pun \<Rightarrow> addr \<Rightarrow> sched \<Rightarrow> sched res" where
  "enqueue cpu proc s =
     res_bind (enqueue0 proc (on_hw (disable cpu) s)) (\<lambda>s. Inr (on_hw (enable cpu) s))"

text \<open>\<^verbatim>\<open>ipq_add\<close> without interference; on a full queue it spins.\<close>

definition ipq_add :: "pun \<Rightarrow> addr \<Rightarrow> sched \<Rightarrow> sched res" where
  "ipq_add pun proc s =
     (if \<not> pun < NPUN then Inl (OutOfBounds ''ipQues'')
      else case ipq_put proc (ipQues s pun) of
        None \<Rightarrow> Inl (SpinsForever ''ipq_add'')
      | Some q \<Rightarrow>
          res_bind (send_interprocessor_interrupt pun (hw s)) (\<lambda>h.
            Inr (s\<lparr>ipQues := (ipQues s)(pun := q), hw := h\<rparr>)))"

definition ipq_remove :: "pun \<Rightarrow> sched \<Rightarrow> addr \<times> sched" where
  "ipq_remove cpu s =
     (let (proc, q) = ipq_get (ipQues s cpu) in (proc, s\<lparr>ipQues := (ipQues s)(cpu := q)\<rparr>))"

subsection \<open>Taking a process\<close>

text \<open>
  The loop that empties the processor's own interprocessor queue into its ready queue; the value
  is \<^term>\<open>None\<close> if it does not end.
\<close>

partial_function (option) drain_ipq :: "pun \<Rightarrow> sched \<Rightarrow> sched res option" where
  "drain_ipq cpu s =
     (let (proc, s1) = ipq_remove cpu s
      in if proc = NULL then Some (Inr s1)
         else case enqueue0 proc s1 of
             Inl e \<Rightarrow> Some (Inl e)
           | Inr s2 \<Rightarrow> drain_ipq cpu s2)"

definition drained :: "pun \<Rightarrow> sched \<Rightarrow> sched res" where
  "drained cpu s = res_bind (of_loop ''take'' (drain_ipq cpu s)) (\<lambda>r. r)"

definition take_proc :: "pun \<Rightarrow> pun \<Rightarrow> sched \<Rightarrow> (addr \<times> sched) res" where
  "take_proc cpu pun s =
     res_bind (drained cpu s) (\<lambda>s.
       let proc = rdyQues s pun
       in if proc \<noteq> NULL then Inr (proc, s\<lparr>rdyQues := (rdyQues s)(pun := p_next (procs s proc))\<rparr>)
          else Inr (proc, s))"

definition take1 :: "pun \<Rightarrow> pun \<Rightarrow> sched \<Rightarrow> (addr \<times> sched) res" where
  "take1 cpu pun s =
     res_bind (drained cpu s) (\<lambda>s.
       let head = rdyQues s pun
       in if head \<noteq> NULL \<and> p_next (procs s head) \<noteq> NULL
          then Inr (head, s\<lparr>rdyQues := (rdyQues s)(pun := p_next (procs s head))\<rparr>)
          else Inr (NULL, s))"

subsection \<open>Scheduling\<close>

text \<open>
  The flag of the result says that the calling process has lost the processor: what follows the
  call in the source is then executed when that process is switched in again. The argument
  \<open>site\<close> of \<^verbatim>\<open>schedule0\<close> is the caller it returns to.
\<close>

definition schedule0 :: "resume_point \<Rightarrow> pun \<Rightarrow> addr \<Rightarrow> sched \<Rightarrow> (bool \<times> sched) res" where
  "schedule0 site cpu proc s =
     (if proc = NULL then Inl NullDeref
      else if p_pun (procs s proc) = cpu then
        res_bind (get_current cpu s) (\<lambda>cur.
        if pri_le (p_pri (procs s proc)) (p_pri (procs s cur)) then
          res_bind (enqueue0 proc s) (\<lambda>s. Inr (False, s))
        else
          res_bind (set_current cpu proc s) (\<lambda>s.
          res_bind (enqueue0 cur s) (\<lambda>s.
          res_bind (switch_context cpu site cur proc s) (\<lambda>s. Inr (True, s)))))
      else
        res_bind (ipq_add (p_pun (procs s proc)) proc s) (\<lambda>s. Inr (False, s)))"

definition schedule :: "pun \<Rightarrow> addr \<Rightarrow> sched \<Rightarrow> sched res" where
  "schedule cpu proc s =
     res_bind (schedule0 In_schedule cpu proc (on_hw (disable cpu) s)) (\<lambda>(switched, s).
       Inr (if switched then resume_process cpu s else on_hw (enable cpu) s))"

definition schedule_from_interrupt :: "pun \<Rightarrow> sched \<Rightarrow> (bool \<times> sched) res" where
  "schedule_from_interrupt cpu s =
     res_bind (get_current cpu s) (\<lambda>cur.
       let pun = p_pun (procs s cur); head = rdyQues s pun
       in if head \<noteq> NULL \<and> pri_gt (p_pri (procs s head)) (p_pri (procs s cur)) then
            res_bind (take_proc cpu pun s) (\<lambda>(proc, s).
            res_bind (enqueue0 cur s) (\<lambda>s.
            res_bind (set_current cpu proc s) (\<lambda>s.
            res_bind (switch_interrupt_context cpu cur proc s) (\<lambda>s. Inr (True, resume_process cpu s)))))
          else Inr (False, s))"

definition schedule_from_interrupt_single :: "pun \<Rightarrow> addr \<Rightarrow> sched \<Rightarrow> (bool \<times> sched) res" where
  "schedule_from_interrupt_single cpu proc s =
     res_bind (get_current cpu s) (\<lambda>cur.
       if proc = NULL then Inl NullDeref
       else if pri_le (p_pri (procs s proc)) (p_pri (procs s cur)) then
         res_bind (enqueue0 proc s) (\<lambda>s. Inr (False, s))
       else
         res_bind (set_current cpu proc s) (\<lambda>s.
         res_bind (enqueue0 cur s) (\<lambda>s.
         res_bind (switch_interrupt_context cpu cur proc s) (\<lambda>s. Inr (True, resume_process cpu s)))))"

definition relinquish_unconditional :: "pun \<Rightarrow> sched \<Rightarrow> sched res" where
  "relinquish_unconditional cpu s =
     res_bind (get_current cpu s) (\<lambda>oldproc.
       let pun = p_pun (procs s oldproc) in
       res_bind (take_proc cpu pun (on_hw (disable cpu) s)) (\<lambda>(newproc, s).
       res_bind (set_current cpu newproc s) (\<lambda>s.
       res_bind (switch_context cpu In_relinquish_unconditional oldproc newproc s) (\<lambda>s.
       Inr (resume_process cpu s)))))"

text \<open>
  The compare-and-exchange from preparing-to-wait to waiting decides whether the processor is given
  up: if the state is ready already, the process goes on.
\<close>

definition relinquish :: "pun \<Rightarrow> sched \<Rightarrow> sched res" where
  "relinquish cpu s =
     res_bind (get_current cpu s) (\<lambda>oldproc.
       let pun = p_pun (procs s oldproc);
           successful = (p_sched_state (procs s oldproc) = PROC_PREPARING_TO_WAIT)
       in if successful then
            let s = set_sched_state oldproc PROC_WAITING s in
            res_bind (take_proc cpu pun (on_hw (disable cpu) s)) (\<lambda>(newproc, s).
            res_bind (set_current cpu newproc s) (\<lambda>s.
            res_bind (switch_context cpu In_relinquish oldproc newproc s) (\<lambda>s.
            Inr (resume_process cpu s))))
          else Inr s)"

definition yield :: "pun \<Rightarrow> sched \<Rightarrow> sched res" where
  "yield cpu s =
     res_bind (get_current cpu s) (\<lambda>oldproc.
       let pun = p_pun (procs s oldproc) in
       res_bind (take1 cpu pun (on_hw (disable cpu) s)) (\<lambda>(newproc, s).
         if newproc \<noteq> NULL then
           res_bind (set_current cpu newproc s) (\<lambda>s.
           res_bind (enqueue0 oldproc s) (\<lambda>s.
           res_bind (switch_context cpu In_yield oldproc newproc s) (\<lambda>s.
           Inr (resume_process cpu s))))
         else Inr (on_hw (enable cpu) s)))"

text \<open>
  The loop of \<^verbatim>\<open>handle_interprocessor_interrupt\<close>; a preemption inside it leaves the rest of the
  queue to whoever runs next.
\<close>

partial_function (option) interproc_loop :: "pun \<Rightarrow> sched \<Rightarrow> (bool \<times> sched) res option" where
  "interproc_loop cpu s =
     (let (proc, s1) = ipq_remove cpu s
      in if proc = NULL then Some (Inr (False, s1))
         else case schedule0 In_interproc cpu proc s1 of
             Inl e \<Rightarrow> Some (Inl e)
           | Inr (switched, s2) \<Rightarrow> if switched then Some (Inr (True, s2)) else interproc_loop cpu s2)"

definition handle_interprocessor_interrupt :: "pun \<Rightarrow> sched \<Rightarrow> (bool \<times> sched) res" where
  "handle_interprocessor_interrupt cpu s =
     res_bind (res_bind (of_loop ''interproc'' (interproc_loop cpu s)) (\<lambda>r. r)) (\<lambda>(switched, s).
       if switched then Inr (True, resume_process cpu s) else schedule_from_interrupt cpu s)"

definition resume_interproc :: "pun \<Rightarrow> sched \<Rightarrow> (bool \<times> sched) res" where
  "resume_interproc cpu s =
     res_bind (handle_interprocessor_interrupt cpu s) (\<lambda>(switched, s).
       Inr (switched, if switched then s else on_hw (enable cpu) s))"

end
