(* ===== verification/Sched_Correct.thy ===== *)
theory Sched_Correct
  imports Sched
begin

text \<open>
  Correctness of the scheduler. The pointer structure of the ready queues refines one list per
  processor, sorted by priority with first-in first-out among equals; each operation is shown to
  act on those lists as its comment in the source says, and to keep every process in at most one
  place.
\<close>

subsection \<open>Elementary facts\<close>

lemma less_NPUN: "p < NPUN \<longleftrightarrow> p = 0 \<or> p = 1"
proof
  assume "p < NPUN"
  then have "unat p < 2" by (simp add: NPUN_def word_less_nat_alt)
  then have "unat p = 0 \<or> unat p = 1" by linarith
  then show "p = 0 \<or> p = 1" by (metis unat_0 unat_1 word_unat_eq_iff)
qed (auto simp: NPUN_def)

definition next_of :: "sched \<Rightarrow> addr \<Rightarrow> addr" where
  "next_of s c = p_next (procs s c)"

definition key_of :: "sched \<Rightarrow> addr \<Rightarrow> nat" where
  "key_of s c = pval (p_pri (procs s c))"

lemma next_of_set_next [simp]: "next_of (set_next p q s) = (next_of s)(p := q)"
  by (auto simp: next_of_def set_next_def fun_eq_iff)

lemma next_of_rdyQues [simp]: "next_of (s\<lparr>rdyQues := r\<rparr>) = next_of s"
  by (auto simp: next_of_def fun_eq_iff)

lemma set_next_simps [simp]:
  "rdyQues (set_next p q s) = rdyQues s" "current (set_next p q s) = current s"
  "current_pri (set_next p q s) = current_pri s" "ipQues (set_next p q s) = ipQues s"
  "hw (set_next p q s) = hw s" "ctxs (set_next p q s) = ctxs s"
  "executing (set_next p q s) = executing s"
  "sizeof_ucontext (set_next p q s) = sizeof_ucontext s"
  "p_pri (procs (set_next p q s) x) = p_pri (procs s x)"
  "p_pun (procs (set_next p q s) x) = p_pun (procs s x)"
  "p_index (procs (set_next p q s) x) = p_index (procs s x)"
  "p_stackptr (procs (set_next p q s) x) = p_stackptr (procs s x)"
  "p_alt_state (procs (set_next p q s) x) = p_alt_state (procs s x)"
  "p_sched_state (procs (set_next p q s) x) = p_sched_state (procs s x)"
  by (simp_all add: set_next_def)

text \<open>
  \<open>links_only s s'\<close>: at most the links of the ready queues differ.
\<close>

definition links_only :: "sched \<Rightarrow> sched \<Rightarrow> bool" where
  "links_only s s' \<longleftrightarrow> current s' = current s \<and> current_pri s' = current_pri s \<and>
     ipQues s' = ipQues s \<and> hw s' = hw s \<and> ctxs s' = ctxs s \<and> executing s' = executing s \<and>
     sizeof_ucontext s' = sizeof_ucontext s \<and>
     (\<forall>x. p_pri (procs s' x) = p_pri (procs s x) \<and> p_pun (procs s' x) = p_pun (procs s x) \<and>
        p_index (procs s' x) = p_index (procs s x) \<and> p_stackptr (procs s' x) = p_stackptr (procs s x) \<and>
        p_alt_state (procs s' x) = p_alt_state (procs s x) \<and>
        p_sched_state (procs s' x) = p_sched_state (procs s x))"

lemma links_only_refl [simp]: "links_only s s"
  by (simp add: links_only_def)

lemma links_only_trans: "links_only s t \<Longrightarrow> links_only t u \<Longrightarrow> links_only s u"
  by (simp add: links_only_def)

lemma links_only_key: "links_only s s' \<Longrightarrow> key_of s' = key_of s"
  by (simp add: links_only_def key_of_def fun_eq_iff)

subsection \<open>The ready queues as lists\<close>

definition ready_chain :: "sched \<Rightarrow> pun \<Rightarrow> addr list \<Rightarrow> bool" where
  "ready_chain s p xs \<longleftrightarrow> chain (next_of s) (rdyQues s p) xs"

definition ready_ok :: "sched \<Rightarrow> (pun \<Rightarrow> addr list) \<Rightarrow> bool" where
  "ready_ok s Q \<longleftrightarrow> (\<forall>p. p < NPUN \<longrightarrow> ready_chain s p (Q p) \<and>
     (\<forall>x \<in> set (Q p). p_pun (procs s x) = p) \<and> sorted (map (key_of s) (Q p)))"

text \<open>
  The refinement of \<^verbatim>\<open>enqueue0\<close>: the loop ends, the pointer surgery of its four branches
  inserts the process behind all processes of higher or equal priority, no other queue and no other
  part of the state changes.
\<close>

lemma enqueue0_chain:
  assumes proc: "proc \<noteq> NULL" and p: "p_pun (procs s proc) < NPUN"
    and c: "ready_chain s (p_pun (procs s proc)) xs" and new: "proc \<notin> set xs"
  shows "\<exists>s'. enqueue0 proc s = Inr s' \<and> links_only s s' \<and>
    ready_chain s' (p_pun (procs s proc)) (insert_at (\<lambda>c. key_of s c \<le> key_of s proc) proc xs) \<and>
    (\<forall>q ys. q \<noteq> p_pun (procs s proc) \<and> ready_chain s q ys \<and> proc \<notin> set ys \<and> set xs \<inter> set ys = {}
       \<longrightarrow> ready_chain s' q ys)"
proof -
  let ?pun = "p_pun (procs s proc)"
  let ?go = "\<lambda>c. key_of s c \<le> key_of s proc"
  let ?us = "takeWhile ?go xs" and ?vs = "dropWhile ?go xs"
  let ?prev = "last (NULL # ?us)" and ?cur = "case ?vs of [] \<Rightarrow> NULL | y # ys \<Rightarrow> y"
  have xs: "xs = ?us @ ?vs" by simp
  have null: "NULL \<notin> set xs" using c chain_nonnull_set by (auto simp: ready_chain_def)
  have w: "walk (\<lambda>c. pri_le (p_pri (procs s proc)) (p_pri (procs s c))) (\<lambda>c. p_next (procs s c))
      NULL (rdyQues s ?pun) = Some (?prev, ?cur)"
    using walk_chain [OF c [unfolded ready_chain_def], of ?go NULL]
    by (simp add: pri_iffs key_of_def next_of_def [abs_def])
  show ?thesis
  proof (cases "?us = []")
    case True
    let ?s = "set_next proc ?cur (s\<lparr>rdyQues := (rdyQues s)(?pun := proc)\<rparr>)"
    have "enqueue0 proc s = Inr ?s"
      using proc p w True by (simp add: enqueue0_def Let_def)
    moreover have "ready_chain ?s ?pun (insert_at ?go proc xs)"
    proof -
      have "?vs = xs" using True by (metis append_Nil takeWhile_dropWhile_id)
      moreover from this have "rdyQues s ?pun = ?cur"
        using c chain_head [of "next_of s" _ xs] by (auto simp: ready_chain_def split: list.splits)
      ultimately show ?thesis
        using c proc new True chain_link_front [of "next_of s" "rdyQues s ?pun" xs proc]
        by (simp add: ready_chain_def insert_at_def)
    qed
    moreover have "links_only s ?s" by (simp add: links_only_def)
    ultimately show ?thesis by (auto simp: ready_chain_def)
  next
    case False
    define ws where "ws = butlast ?us"
    define v where "v = last ?us"
    have us: "?us = ws @ [v]" using False by (simp add: ws_def v_def)
    have v: "v \<in> set xs" using us set_takeWhileD [of v ?go xs] by simp
    then have vn: "v \<noteq> NULL" "v \<noteq> proc" using null new by auto
    let ?s = "set_next proc ?cur (set_next v proc s)"
    have "enqueue0 proc s = Inr ?s"
      using proc p w False vn by (simp add: enqueue0_def Let_def v_def)
    moreover have "ready_chain ?s ?pun (insert_at ?go proc xs)"
    proof -
      have x: "xs = ws @ v # ?vs" using xs us by simp
      have "chain (next_of s) (rdyQues s ?pun) (ws @ v # ?vs)"
        using c x by (simp add: ready_chain_def)
      moreover have "proc \<notin> set (ws @ v # ?vs)" using new x by simp
      ultimately have "chain ((next_of s)(v := proc, proc := ?cur)) (rdyQues s ?pun) (ws @ v # proc # ?vs)"
        using proc by (intro chain_link_middle) auto
      then show ?thesis by (simp add: ready_chain_def insert_at_def us)
    qed
    moreover have "links_only s ?s" by (simp add: links_only_def)
    moreover have "ready_chain ?s q ys"
      if "ready_chain s q ys" "proc \<notin> set ys" "set xs \<inter> set ys = {}" for q ys
    proof -
      have "v \<notin> set ys" using v that(3) by auto
      with that show ?thesis by (simp add: ready_chain_def)
    qed
    ultimately show ?thesis by blast
  qed
qed

lemma ready_disjoint:
  assumes "ready_ok s Q" and "p < NPUN" and "q < NPUN" and "p \<noteq> q"
  shows "set (Q p) \<inter> set (Q q) = {}"
  using assms unfolding ready_ok_def by (metis disjoint_iff)

text \<open>The list on which the insertion acts.\<close>

definition enq_list :: "sched \<Rightarrow> addr \<Rightarrow> addr list \<Rightarrow> addr list" where
  "enq_list s proc xs = sort_key (key_of s) (xs @ [proc])"

lemma set_enq_list [simp]: "set (enq_list s proc xs) = insert proc (set xs)"
  by (auto simp: enq_list_def)

lemma enqueue0_ready_ok:
  assumes ok: "ready_ok s Q" and proc: "proc \<noteq> NULL" and p: "p_pun (procs s proc) < NPUN"
    and new: "proc \<notin> set (Q (p_pun (procs s proc)))"
  shows "\<exists>s'. enqueue0 proc s = Inr s' \<and> links_only s s' \<and>
    ready_ok s' (Q(p_pun (procs s proc) := enq_list s proc (Q (p_pun (procs s proc)))))"
proof -
  let ?pun = "p_pun (procs s proc)"
  have c: "ready_chain s ?pun (Q ?pun)" and srt: "sorted (map (key_of s) (Q ?pun))"
    using ok p by (auto simp: ready_ok_def)
  obtain s' where s': "enqueue0 proc s = Inr s'" "links_only s s'"
    and here: "ready_chain s' ?pun (insert_at (\<lambda>c. key_of s c \<le> key_of s proc) proc (Q ?pun))"
    and there: "\<And>q ys. q \<noteq> ?pun \<Longrightarrow> ready_chain s q ys \<Longrightarrow> proc \<notin> set ys \<Longrightarrow>
        set (Q ?pun) \<inter> set ys = {} \<Longrightarrow> ready_chain s' q ys"
    using enqueue0_chain [OF proc p c new] by blast
  have l: "insert_at (\<lambda>c. key_of s c \<le> key_of s proc) proc (Q ?pun) = enq_list s proc (Q ?pun)"
    by (simp add: insert_at_sorted [OF srt] enq_list_def)
  have pun: "p_pun (procs s' x) = p_pun (procs s x)" for x
    using s'(2) by (simp add: links_only_def)
  have "ready_ok s' (Q(?pun := enq_list s proc (Q ?pun)))"
    unfolding ready_ok_def
  proof (intro allI impI)
    fix q assume q: "q < NPUN"
    show "ready_chain s' q ((Q(?pun := enq_list s proc (Q ?pun))) q) \<and>
      (\<forall>x \<in> set ((Q(?pun := enq_list s proc (Q ?pun))) q). p_pun (procs s' x) = q) \<and>
      sorted (map (key_of s') ((Q(?pun := enq_list s proc (Q ?pun))) q))"
    proof (cases "q = ?pun")
      case True
      then show ?thesis
        using here l ok q pun s'(2) by (auto simp: ready_ok_def links_only_key enq_list_def)
    next
      case False
      have "proc \<notin> set (Q q)" using ok q False by (auto simp: ready_ok_def)
      moreover have "set (Q ?pun) \<inter> set (Q q) = {}"
        using ready_disjoint [OF ok p q] False by auto
      moreover have "ready_chain s q (Q q)" using ok q by (simp add: ready_ok_def)
      ultimately have "ready_chain s' q (Q q)" using there False by auto
      with ok q False pun s'(2) show ?thesis by (auto simp: ready_ok_def links_only_key)
    qed
  qed
  with s' show ?thesis by blast
qed

subsection \<open>Emptying the interprocessor queue\<close>

definition in_ipq :: "sched \<Rightarrow> pun \<Rightarrow> addr list" where
  "in_ipq s p = ipq_contents (ipQues s p)"

text \<open>
  Every process is in at most one place: in one ready queue, or on the way to its processor in
  one interprocessor queue.
\<close>

definition queues_ok :: "sched \<Rightarrow> (pun \<Rightarrow> addr list) \<Rightarrow> bool" where
  "queues_ok s Q \<longleftrightarrow> ready_ok s Q \<and> (\<forall>p. p < NPUN \<longrightarrow> ipq_wf (ipQues s p) \<and>
     (\<forall>x \<in> set (in_ipq s p). p_pun (procs s x) = p) \<and> distinct (in_ipq s p) \<and>
     set (in_ipq s p) \<inter> set (Q p) = {})"

lemma ready_ok_cong:
  assumes "rdyQues s' = rdyQues s" and "procs s' = procs s"
  shows "ready_ok s' Q = ready_ok s Q"
proof -
  have "next_of s' = next_of s" "key_of s' = key_of s"
    using assms by (auto simp: next_of_def key_of_def fun_eq_iff)
  with assms show ?thesis by (simp add: ready_ok_def ready_chain_def)
qed

definition merged :: "sched \<Rightarrow> pun \<Rightarrow> addr list \<Rightarrow> addr list" where
  "merged s p xs = sort_key (key_of s) (xs @ in_ipq s p)"

lemma set_merged [simp]: "set (merged s p xs) = set xs \<union> set (in_ipq s p)"
  by (simp add: merged_def)

lemma drain_ipq_stop: "ipq_remove cpu s = (NULL, s1) \<Longrightarrow> drain_ipq cpu s = Some (Inr s1)"
  by (subst drain_ipq.simps) simp

lemma drain_ipq_go:
  "ipq_remove cpu s = (x, s1) \<Longrightarrow> x \<noteq> NULL \<Longrightarrow> enqueue0 x s1 = Inr s2 \<Longrightarrow>
    drain_ipq cpu s = drain_ipq cpu s2"
  by (subst drain_ipq.simps) simp

text \<open>
  The loop ends and leaves the stable sort by priority of the ready queue followed by the processes
  that came from other processors.
\<close>

lemma drain_ipq_merges:
  assumes "queues_ok s Q" and "cpu < NPUN"
  shows "\<exists>s'. drain_ipq cpu s = Some (Inr s') \<and> links_only (s\<lparr>ipQues := ipQues s'\<rparr>) s' \<and>
    queues_ok s' (Q(cpu := merged s cpu (Q cpu))) \<and> in_ipq s' cpu = [] \<and>
    (\<forall>p. p \<noteq> cpu \<longrightarrow> ipQues s' p = ipQues s p)"
  using assms
proof (induction "in_ipq s cpu" arbitrary: s Q)
  case Nil
  have wf: "ipq_wf (ipQues s cpu)" using Nil.prems by (simp add: queues_ok_def)
  have "ipq_remove cpu s = (NULL, s)"
    using ring.get_empty [OF wf] Nil.hyps by (simp add: ipq_remove_def in_ipq_def)
  moreover have "sorted (map (key_of s) (Q cpu))"
    using Nil.prems by (simp add: queues_ok_def ready_ok_def)
  then have "merged s cpu (Q cpu) = Q cpu"
    using Nil.hyps [symmetric] by (simp add: merged_def sort_key_id_if_sorted)
  ultimately show ?case using Nil by (auto simp: drain_ipq_stop)
next
  case (Cons x xs)
  have wf: "ipq_wf (ipQues s cpu)" using Cons.prems by (simp add: queues_ok_def)
  obtain q where q: "ipq_get (ipQues s cpu) = (x, q)" "ipq_wf q" "ipq_contents q = xs"
    using ring.get_first [OF wf] Cons.hyps(2) by (metis in_ipq_def)
  let ?s1 = "s\<lparr>ipQues := (ipQues s)(cpu := q)\<rparr>"
  have rem: "ipq_remove cpu s = (x, ?s1)" using q by (simp add: ipq_remove_def)
  have x: "x \<in> set (in_ipq s cpu)" using Cons.hyps(2) [symmetric] by simp
  then have xn: "x \<noteq> NULL" using ring.contents_nonnull [OF wf] by (auto simp: in_ipq_def)
  have xp: "p_pun (procs s x) = cpu" using x Cons.prems by (simp add: queues_ok_def)
  have xq: "x \<notin> set (Q cpu)" using x Cons.prems by (auto simp: queues_ok_def)
  have "ready_ok ?s1 Q" using Cons.prems ready_ok_cong [of ?s1 s] by (simp add: queues_ok_def)
  from enqueue0_ready_ok [OF this xn] xp xq Cons.prems(2)
  obtain s2 where s2: "enqueue0 x ?s1 = Inr s2" "links_only ?s1 s2"
    and r2: "ready_ok s2 (Q(cpu := enq_list ?s1 x (Q cpu)))" by auto
  let ?Q2 = "Q(cpu := enq_list ?s1 x (Q cpu))"
  have i2: "ipQues s2 = (ipQues s)(cpu := q)" and k2: "key_of s2 = key_of s"
    and p2: "\<And>y. p_pun (procs s2 y) = p_pun (procs s y)"
    using s2(2) links_only_key [OF s2(2)] by (auto simp: links_only_def key_of_def fun_eq_iff)
  have c2: "in_ipq s2 cpu = xs" using i2 q by (simp add: in_ipq_def)
  have ok2: "queues_ok s2 ?Q2"
    unfolding queues_ok_def
  proof (intro conjI r2 allI impI)
    fix p assume p: "p < NPUN"
    from Cons.prems p have old: "ipq_wf (ipQues s p)" "\<forall>x \<in> set (in_ipq s p). p_pun (procs s x) = p"
      "distinct (in_ipq s p)" "set (in_ipq s p) \<inter> set (Q p) = {}"
      by (auto simp: queues_ok_def)
    show "ipq_wf (ipQues s2 p)" using old q i2 by simp
    show "\<forall>x \<in> set (in_ipq s2 p). p_pun (procs s2 x) = p"
      using old c2 Cons.hyps(2) [symmetric] p2 i2 by (cases "p = cpu") (auto simp: in_ipq_def)
    show "distinct (in_ipq s2 p)"
      using old c2 Cons.hyps(2) [symmetric] i2 by (cases "p = cpu") (auto simp: in_ipq_def)
    show "set (in_ipq s2 p) \<inter> set (?Q2 p) = {}"
      using old c2 Cons.hyps(2) [symmetric] i2 by (cases "p = cpu") (auto simp: in_ipq_def)
  qed
  obtain s' where s': "drain_ipq cpu s2 = Some (Inr s')" "links_only (s2\<lparr>ipQues := ipQues s'\<rparr>) s'"
    "queues_ok s' (?Q2(cpu := merged s2 cpu (?Q2 cpu)))" "in_ipq s' cpu = []"
    "\<forall>p. p \<noteq> cpu \<longrightarrow> ipQues s' p = ipQues s2 p"
    using Cons.hyps(1) [OF c2 [symmetric] ok2 Cons.prems(2)] by blast
  have "merged s2 cpu (?Q2 cpu) = merged s cpu (Q cpu)"
  proof -
    have "key_of ?s1 = key_of s" by (simp add: key_of_def fun_eq_iff)
    then have "merged s2 cpu (?Q2 cpu) = sort_key (key_of s) (sort_key (key_of s) (Q cpu @ [x]) @ xs)"
      by (simp add: merged_def enq_list_def k2 c2)
    also have "\<dots> = sort_key (key_of s) (Q cpu @ x # xs)"
      by (simp add: sort_key_append_sort)
    finally show ?thesis using Cons.hyps(2) by (simp add: merged_def)
  qed
  then have "queues_ok s' (Q(cpu := merged s cpu (Q cpu)))" using s'(3) by simp
  moreover have "drain_ipq cpu s = Some (Inr s')"
    using drain_ipq_go [OF rem xn s2(1)] s'(1) by simp
  moreover have "links_only (s\<lparr>ipQues := ipQues s'\<rparr>) s'"
    using s2(2) s'(2) by (simp add: links_only_def)
  ultimately show ?case using s' i2 by auto
qed

subsection \<open>Taking the first process\<close>

text \<open>At most the queues of processor \<open>cpu\<close> differ.\<close>

definition queues_only :: "pun \<Rightarrow> sched \<Rightarrow> sched \<Rightarrow> bool" where
  "queues_only cpu s s' \<longleftrightarrow> links_only (s\<lparr>ipQues := ipQues s'\<rparr>) s' \<and>
     (\<forall>p. p \<noteq> cpu \<longrightarrow> ipQues s' p = ipQues s p)"

lemma queues_onlyD:
  assumes "queues_only cpu s s'"
  shows "current s' = current s" "current_pri s' = current_pri s" "hw s' = hw s" "ctxs s' = ctxs s"
    "executing s' = executing s" "sizeof_ucontext s' = sizeof_ucontext s"
    "p_pri (procs s' x) = p_pri (procs s x)" "p_pun (procs s' x) = p_pun (procs s x)"
    "p_index (procs s' x) = p_index (procs s x)" "p_stackptr (procs s' x) = p_stackptr (procs s x)"
    "p_alt_state (procs s' x) = p_alt_state (procs s x)"
    "p_sched_state (procs s' x) = p_sched_state (procs s x)"
    "key_of s' = key_of s" "p \<noteq> cpu \<Longrightarrow> in_ipq s' p = in_ipq s p"
  using assms by (auto simp: queues_only_def links_only_def key_of_def fun_eq_iff in_ipq_def)

lemma links_only_queues_only: "links_only s s' \<Longrightarrow> queues_only cpu s s'"
  by (simp add: queues_only_def links_only_def)

lemma queues_only_trans: "queues_only cpu s t \<Longrightarrow> queues_only cpu t u \<Longrightarrow> queues_only cpu s u"
  by (simp add: queues_only_def links_only_def)

lemma drained_ok:
  assumes "queues_ok s Q" and "cpu < NPUN"
  shows "\<exists>s'. drained cpu s = Inr s' \<and> queues_only cpu s s' \<and>
    queues_ok s' (Q(cpu := merged s cpu (Q cpu))) \<and> in_ipq s' cpu = []"
  using drain_ipq_merges [OF assms] by (auto simp: drained_def queues_only_def)

lemma queues_ok_take:
  assumes ok: "queues_ok s Q" and p: "p < NPUN" and q: "Q p = x # xs"
  shows "rdyQues s p = x" "x \<noteq> NULL" "next_of s x = (case xs of [] \<Rightarrow> NULL | y # ys \<Rightarrow> y)"
    "queues_ok (s\<lparr>rdyQues := (rdyQues s)(p := p_next (procs s x))\<rparr>) (Q(p := xs))"
proof -
  have c: "chain (next_of s) (rdyQues s p) (x # xs)"
    using assms by (auto simp: queues_ok_def ready_ok_def ready_chain_def)
  then show x: "rdyQues s p = x" "x \<noteq> NULL" by simp_all
  show "next_of s x = (case xs of [] \<Rightarrow> NULL | y # ys \<Rightarrow> y)"
    using c by (cases xs) auto
  let ?s = "s\<lparr>rdyQues := (rdyQues s)(p := p_next (procs s x))\<rparr>"
  have k: "key_of ?s = key_of s" by (simp add: key_of_def fun_eq_iff)
  have "ready_ok ?s (Q(p := xs))"
    unfolding ready_ok_def
  proof (intro allI impI)
    fix r assume r: "r < NPUN"
    show "ready_chain ?s r ((Q(p := xs)) r) \<and> (\<forall>x \<in> set ((Q(p := xs)) r). p_pun (procs ?s x) = r) \<and>
      sorted (map (key_of ?s) ((Q(p := xs)) r))"
      using ok p q c r k by (cases "r = p") (auto simp: queues_ok_def ready_ok_def ready_chain_def next_of_def)
  qed
  moreover have "set (in_ipq ?s r) \<inter> set ((Q(p := xs)) r) = {}" if "r < NPUN" for r
  proof -
    have "set (in_ipq s r) \<inter> set (Q r) = {}" using ok that by (simp add: queues_ok_def)
    then show ?thesis using q by (cases "r = p") (auto simp: in_ipq_def)
  qed
  ultimately show "queues_ok ?s (Q(p := xs))"
    using ok by (simp add: queues_ok_def in_ipq_def)
qed

lemma take_proc_ok:
  assumes ok: "queues_ok s Q" and p: "cpu < NPUN" and m: "merged s cpu (Q cpu) = x # xs"
  shows "\<exists>s'. take_proc cpu cpu s = Inr (x, s') \<and> queues_only cpu s s' \<and>
    queues_ok s' (Q(cpu := xs)) \<and> in_ipq s' cpu = []"
proof -
  obtain t where t: "drained cpu s = Inr t" "queues_only cpu s t"
    "queues_ok t (Q(cpu := x # xs))" "in_ipq t cpu = []"
    using drained_ok [OF ok p] m by auto
  let ?s = "t\<lparr>rdyQues := (rdyQues t)(cpu := p_next (procs t x))\<rparr>"
  note q = queues_ok_take [OF t(3) p, of x xs]
  have "take_proc cpu cpu s = Inr (x, ?s)"
    using t(1) q by (simp add: take_proc_def Let_def)
  moreover have "queues_ok ?s (Q(cpu := xs))" using q(4) by simp
  moreover have "queues_only cpu s ?s" using t(2) by (simp add: queues_only_def links_only_def)
  moreover have "in_ipq ?s cpu = []" using t(4) by (simp add: in_ipq_def)
  ultimately show ?thesis by blast
qed

lemma take1_ok:
  assumes ok: "queues_ok s Q" and p: "cpu < NPUN" and m: "merged s cpu (Q cpu) = x # y # xs"
  shows "\<exists>s'. take1 cpu cpu s = Inr (x, s') \<and> queues_only cpu s s' \<and>
    queues_ok s' (Q(cpu := y # xs)) \<and> in_ipq s' cpu = []"
proof -
  obtain t where t: "drained cpu s = Inr t" "queues_only cpu s t"
    "queues_ok t (Q(cpu := x # y # xs))" "in_ipq t cpu = []"
    using drained_ok [OF ok p] m by auto
  let ?s = "t\<lparr>rdyQues := (rdyQues t)(cpu := p_next (procs t x))\<rparr>"
  note q = queues_ok_take [OF t(3) p, of x "y # xs"]
  have "y \<noteq> NULL"
    using t(3) p chain_nonnull_set [of "next_of t" "rdyQues t cpu" "x # y # xs"]
    by (auto simp: queues_ok_def ready_ok_def ready_chain_def)
  then have "take1 cpu cpu s = Inr (x, ?s)"
    using t(1) q by (simp add: take1_def Let_def next_of_def)
  moreover have "queues_ok ?s (Q(cpu := y # xs))" using q(4) by simp
  moreover have "queues_only cpu s ?s" using t(2) by (simp add: queues_only_def links_only_def)
  moreover have "in_ipq ?s cpu = []" using t(4) by (simp add: in_ipq_def)
  ultimately show ?thesis by blast
qed

lemma take1_refuses:
  assumes ok: "queues_ok s Q" and p: "cpu < NPUN" and m: "length (merged s cpu (Q cpu)) \<le> 1"
  shows "\<exists>s'. take1 cpu cpu s = Inr (NULL, s') \<and> queues_only cpu s s' \<and>
    queues_ok s' (Q(cpu := merged s cpu (Q cpu))) \<and> in_ipq s' cpu = []"
proof -
  obtain t where t: "drained cpu s = Inr t" "queues_only cpu s t"
    "queues_ok t (Q(cpu := merged s cpu (Q cpu)))" "in_ipq t cpu = []"
    using drained_ok [OF ok p] by auto
  have "\<not> (rdyQues t cpu \<noteq> NULL \<and> p_next (procs t (rdyQues t cpu)) \<noteq> NULL)"
  proof (cases "merged s cpu (Q cpu)")
    case Nil
    then show ?thesis using t(3) p by (auto simp: queues_ok_def ready_ok_def ready_chain_def)
  next
    case (Cons x xs)
    then show ?thesis using m queues_ok_take [OF t(3) p, of x xs] by (simp add: next_of_def)
  qed
  then show ?thesis using t by (auto simp: take1_def Let_def)
qed

subsection \<open>The invariant of the scheduler\<close>

text \<open>
  The current process of each processor belongs to it and is in no queue, its priority is the
  recorded one, the processor executes its context, and the context of every process involved is
  at the start of its stack.
\<close>

definition members :: "sched \<Rightarrow> (pun \<Rightarrow> addr list) \<Rightarrow> pun \<Rightarrow> addr set" where
  "members s Q p = insert (current s p) (set (Q p) \<union> set (in_ipq s p))"

definition running_ok :: "sched \<Rightarrow> pun \<Rightarrow> bool" where
  "running_ok s p \<longleftrightarrow> current s p \<noteq> NULL \<and> p_pun (procs s (current s p)) = p \<and>
     current_pri s p = p_pri (procs s (current s p)) \<and>
     executing s p = p_stackptr (procs s (current s p))"

definition sched_inv :: "sched \<Rightarrow> (pun \<Rightarrow> addr list) \<Rightarrow> bool" where
  "sched_inv s Q \<longleftrightarrow> queues_ok s Q \<and> (\<forall>p. p < NPUN \<longrightarrow> running_ok s p \<and>
     current s p \<notin> set (Q p) \<union> set (in_ipq s p) \<and>
     (\<forall>x \<in> members s Q p. p_stackptr (procs s x) = proc_stack x))"

text \<open>No ready process of the processor outranks the running one.\<close>

definition top_running :: "sched \<Rightarrow> (pun \<Rightarrow> addr list) \<Rightarrow> pun \<Rightarrow> bool" where
  "top_running s Q p \<longleftrightarrow> (\<forall>x \<in> set (Q p). key_of s (current s p) \<le> key_of s x)"

lemma on_hw_simps [simp]:
  "procs (on_hw f s) = procs s" "ctxs (on_hw f s) = ctxs s" "executing (on_hw f s) = executing s"
  "rdyQues (on_hw f s) = rdyQues s" "current (on_hw f s) = current s"
  "current_pri (on_hw f s) = current_pri s" "ipQues (on_hw f s) = ipQues s"
  "sizeof_ucontext (on_hw f s) = sizeof_ucontext s" "hw (on_hw f s) = f (hw s)"
  by (simp_all add: on_hw_def)

text \<open>
  What the invariant speaks about, so that a step that writes only masks, contexts or the state
  of a process keeps it.
\<close>

definition same_places :: "sched \<Rightarrow> sched \<Rightarrow> bool" where
  "same_places s s' \<longleftrightarrow> rdyQues s' = rdyQues s \<and> ipQues s' = ipQues s \<and>
     (\<forall>x. p_next (procs s' x) = p_next (procs s x) \<and> p_pri (procs s' x) = p_pri (procs s x) \<and>
        p_pun (procs s' x) = p_pun (procs s x) \<and> p_stackptr (procs s' x) = p_stackptr (procs s x))"

lemma same_places_facts:
  assumes "same_places s s'"
  shows "next_of s' = next_of s" "key_of s' = key_of s" "in_ipq s' = in_ipq s"
  using assms by (auto simp: same_places_def next_of_def key_of_def in_ipq_def fun_eq_iff)

lemma queues_ok_same_places: "same_places s s' \<Longrightarrow> queues_ok s' Q = queues_ok s Q"
  using same_places_facts [of s s']
  by (simp add: queues_ok_def ready_ok_def ready_chain_def same_places_def)

lemma merged_same_places: "same_places s s' \<Longrightarrow> merged s' p xs = merged s p xs"
  using same_places_facts [of s s'] by (simp add: merged_def)

lemma same_places_simps [simp]:
  "same_places s (on_hw f s)" "same_places s (set_sched_state p st s)" "same_places s (set_alt_state p a s)"
  "same_places s (s\<lparr>current := c\<rparr>)" "same_places s (s\<lparr>ctxs := x\<rparr>)" "same_places s (s\<lparr>executing := e\<rparr>)"
  by (simp_all add: same_places_def set_sched_state_def set_alt_state_def)

lemma sched_inv_same_places:
  assumes "same_places s s'" and "current s' = current s" and "current_pri s' = current_pri s"
    and "executing s' = executing s"
  shows "sched_inv s' Q = sched_inv s Q"
  using assms same_places_facts [OF assms(1)] queues_ok_same_places [OF assms(1)]
  by (simp add: sched_inv_def running_ok_def members_def same_places_def)

lemma sched_invD:
  assumes "sched_inv s Q" and "p < NPUN"
  shows "queues_ok s Q" "current s p \<noteq> NULL" "p_pun (procs s (current s p)) = p"
    "current s p \<notin> set (Q p)" "current s p \<notin> set (in_ipq s p)"
    "x \<in> members s Q p \<Longrightarrow> p_stackptr (procs s x) = proc_stack x"
    "x \<in> set (Q p) \<union> set (in_ipq s p) \<Longrightarrow> p_pun (procs s x) = p \<and> x \<noteq> NULL"
    "sorted (map (key_of s) (Q p))" "ready_ok s Q"
  using assms chain_nonnull_set [of "next_of s" "rdyQues s p" "Q p"]
    ring.contents_nonnull [of "ipQues s p"]
  by (auto simp: sched_inv_def running_ok_def queues_ok_def ready_ok_def ready_chain_def in_ipq_def)

text \<open>
  The general shape of a change of the current process of \<open>cpu\<close>: from the old state, only the
  queues of \<open>cpu\<close>, its current process, masks, contexts and process states have changed.
\<close>

definition switched_to :: "pun \<Rightarrow> addr \<Rightarrow> sched \<Rightarrow> sched \<Rightarrow> bool" where
  "switched_to cpu x s s' \<longleftrightarrow>
     current s' = (current s)(cpu := x) \<and>
     current_pri s' = (current_pri s)(cpu := p_pri (procs s x)) \<and>
     executing s' = (executing s)(cpu := p_stackptr (procs s x)) \<and>
     (\<forall>p. p \<noteq> cpu \<longrightarrow> in_ipq s' p = in_ipq s p) \<and>
     (\<forall>y. p_pri (procs s' y) = p_pri (procs s y) \<and> p_pun (procs s' y) = p_pun (procs s y) \<and>
        p_stackptr (procs s' y) = p_stackptr (procs s y) \<and>
        p_sched_state (procs s' y) = p_sched_state (procs s y) \<and>
        p_alt_state (procs s' y) = p_alt_state (procs s y))"

lemma sched_inv_switched:
  assumes inv: "sched_inv s Q" and cpu: "cpu < NPUN" and sw: "switched_to cpu x s s'"
    and ok: "queues_ok s' (Q(cpu := ys))" and x: "x \<in> members s Q cpu" "x \<notin> set ys"
    and ys: "set ys \<subseteq> members s Q cpu" and e: "in_ipq s' cpu = []"
  shows "sched_inv s' (Q(cpu := ys))"
proof -
  have "running_ok s' p \<and> current s' p \<notin> set ((Q(cpu := ys)) p) \<union> set (in_ipq s' p) \<and>
      (\<forall>z \<in> members s' (Q(cpu := ys)) p. p_stackptr (procs s' z) = proc_stack z)"
    if p: "p < NPUN" for p
  proof (cases "p = cpu")
    case True
    have "x \<noteq> NULL \<and> p_pun (procs s x) = cpu"
      using x(1) sched_invD [OF inv cpu] by (auto simp: members_def)
    moreover have "z \<in> members s Q cpu" if "z \<in> members s' (Q(cpu := ys)) cpu" for z
      using that sw x(1) ys e by (auto simp: members_def switched_to_def)
    ultimately show ?thesis
      using True sw x(2) e sched_invD(6) [OF inv cpu] by (auto simp: running_ok_def switched_to_def)
  next
    case False
    then have "members s' (Q(cpu := ys)) p = members s Q p"
      using sw by (simp add: members_def switched_to_def)
    with False p inv sw show ?thesis by (auto simp: sched_inv_def running_ok_def switched_to_def)
  qed
  with ok show ?thesis by (simp add: sched_inv_def)
qed

subsection \<open>Giving up the processor\<close>

lemma set_current_eq:
  "x \<noteq> NULL \<Longrightarrow> p_pun (procs s x) = cpu \<Longrightarrow> set_current cpu x s =
    Inr (s\<lparr>current := (current s)(cpu := x), current_pri := (current_pri s)(cpu := p_pri (procs s x))\<rparr>)"
  by (simp add: set_current_def)

lemma get_current_eq: "current s cpu \<noteq> NULL \<Longrightarrow> get_current cpu s = Inr (current s cpu)"
  by (simp add: get_current_def)

text \<open>The kernel state a context switch leaves unchanged.\<close>

lemma switch_context_ok:
  assumes "old \<noteq> NULL" and "new \<noteq> NULL"
  shows "\<exists>c h. switch_context cpu site old new s =
    Inr (s\<lparr>ctxs := c, executing := (executing s)(cpu := p_stackptr (procs s new)), hw := h\<rparr>) \<and>
    (\<forall>a. a \<noteq> p_stackptr (procs s old) \<longrightarrow> c a = ctxs s a) \<and> uc_point (c (p_stackptr (procs s old))) = site"
proof -
  let ?o = "p_stackptr (procs s old)" and ?n = "p_stackptr (procs s new)"
  let ?c = "(ctxs s)(?o := (ctxs s ?o)\<lparr>uc_point := site, uc_sigmask := thr_mask (hw s) cpu\<rparr>)"
  let ?h = "(hw s)\<lparr>thr_mask := (thr_mask (hw s))(cpu := uc_sigmask (?c ?n))\<rparr>"
  have "switch_context cpu site old new s =
    Inr (s\<lparr>ctxs := ?c, executing := (executing s)(cpu := ?n), hw := ?h\<rparr>)"
    using assms by (simp add: switch_context_def Let_def)
  then show ?thesis by (intro exI [of _ ?c] exI [of _ ?h]) simp
qed

lemma restore_context_ok:
  assumes "new \<noteq> NULL"
  shows "\<exists>m. restore_context cpu new s =
    Inr (s\<lparr>executing := (executing s)(cpu := proc_stack new), hw := (hw s)\<lparr>thr_mask := m\<rparr>\<rparr>)"
  using assms by (auto simp: restore_context_def)

lemma hw_id: "s = s\<lparr>hw := hw s\<rparr>"
  by simp

lemma resume_process_ok: "\<exists>h. resume_process cpu s = s\<lparr>hw := h\<rparr>"
proof -
  have "resume_process cpu s = s\<lparr>hw := enable cpu (hw s)\<rparr> \<or> resume_process cpu s = s\<lparr>hw := hw s\<rparr>"
    by (simp add: resume_process_def on_hw_def split: resume_point.splits)
  then show ?thesis by blast
qed

lemma queues_ok_hw [simp]: "queues_ok (s\<lparr>hw := h\<rparr>) Q = queues_ok s Q"
  by (rule queues_ok_same_places) (simp add: same_places_def)

lemma queues_ok_fields [simp]:
  "queues_ok (s\<lparr>current := c\<rparr>) Q = queues_ok s Q"
  "queues_ok (s\<lparr>current_pri := cp\<rparr>) Q = queues_ok s Q"
  "queues_ok (s\<lparr>ctxs := x\<rparr>) Q = queues_ok s Q"
  "queues_ok (s\<lparr>executing := e\<rparr>) Q = queues_ok s Q"
  by (auto intro!: queues_ok_same_places simp: same_places_def)

lemma in_ipq_fields [simp]:
  "in_ipq (s\<lparr>hw := h\<rparr>) = in_ipq s" "in_ipq (s\<lparr>current := c\<rparr>) = in_ipq s"
  "in_ipq (s\<lparr>current_pri := cp\<rparr>) = in_ipq s" "in_ipq (s\<lparr>ctxs := x\<rparr>) = in_ipq s"
  "in_ipq (s\<lparr>executing := e\<rparr>) = in_ipq s"
  by (simp_all add: in_ipq_def fun_eq_iff)

text \<open>The process has been left at \<open>site\<close>; no other context and no size class differs.\<close>

definition left_at :: "resume_point \<Rightarrow> addr \<Rightarrow> sched \<Rightarrow> sched \<Rightarrow> bool" where
  "left_at site p s s' \<longleftrightarrow> uc_point (ctxs s' (proc_stack p)) = site \<and>
     (\<forall>a. a \<noteq> proc_stack p \<longrightarrow> ctxs s' a = ctxs s a) \<and> (\<forall>y. p_index (procs s' y) = p_index (procs s y))"

text \<open>Take the first process, make it current, switch to it.\<close>

definition hand_over :: "resume_point \<Rightarrow> pun \<Rightarrow> sched \<Rightarrow> sched res" where
  "hand_over site cpu s =
     res_bind (take_proc cpu cpu s) (\<lambda>(newproc, t).
     res_bind (set_current cpu newproc t) (\<lambda>t.
     res_bind (switch_context cpu site (current s cpu) newproc t) (\<lambda>t.
     Inr (resume_process cpu t))))"

lemma give_up:
  assumes inv: "sched_inv s Q" and cpu: "cpu < NPUN" and m: "merged s cpu (Q cpu) = x # xs"
  shows "\<exists>s'. hand_over site cpu s = Inr s' \<and>
    switched_to cpu x s s' \<and> sched_inv s' (Q(cpu := xs)) \<and> top_running s' (Q(cpu := xs)) cpu \<and>
    in_ipq s' cpu = [] \<and> left_at site (current s cpu) s s'"
proof -
  note D = sched_invD [OF inv cpu]
  obtain t where t: "take_proc cpu cpu s = Inr (x, t)" "queues_only cpu s t"
    "queues_ok t (Q(cpu := xs))" "in_ipq t cpu = []"
    using take_proc_ok [OF D(1) cpu m] by blast
  have "x \<in> set (merged s cpu (Q cpu))" using m by simp
  then have x: "x \<in> set (Q cpu) \<union> set (in_ipq s cpu)" by simp
  then have xn: "x \<noteq> NULL" and xp: "p_pun (procs s x) = cpu" using D(7) [of x] by auto
  note tf = queues_onlyD [OF t(2)]
  let ?t1 = "t\<lparr>current := (current t)(cpu := x), current_pri := (current_pri t)(cpu := p_pri (procs t x))\<rparr>"
  have t1: "set_current cpu x t = Inr ?t1" using xn xp tf(8) by (intro set_current_eq) auto
  obtain c h where t2: "switch_context cpu site (current s cpu) x ?t1 =
      Inr (?t1\<lparr>ctxs := c, executing := (executing t)(cpu := p_stackptr (procs t x)), hw := h\<rparr>)"
      "\<forall>a. a \<noteq> p_stackptr (procs t (current s cpu)) \<longrightarrow> c a = ctxs t a"
      "uc_point (c (p_stackptr (procs t (current s cpu)))) = site"
    using switch_context_ok [OF D(2) xn, of cpu site ?t1] by auto
  let ?t2 = "?t1\<lparr>ctxs := c, executing := (executing t)(cpu := p_stackptr (procs t x)), hw := h\<rparr>"
  obtain h' where t3: "resume_process cpu ?t2 = ?t2\<lparr>hw := h'\<rparr>"
    using resume_process_ok by blast
  let ?s' = "?t2\<lparr>hw := h'\<rparr>"
  have sw: "switched_to cpu x s ?s'"
    using tf by (simp add: switched_to_def)
  have ok: "queues_ok ?s' (Q(cpu := xs))" using t(3) by simp
  have srt: "sorted (map (key_of s) (x # xs))" unfolding m [symmetric] by (simp add: merged_def)
  have set_m: "set (x # xs) = set (Q cpu) \<union> set (in_ipq s cpu)" unfolding m [symmetric] by simp
  have "distinct (merged s cpu (Q cpu))"
  proof -
    have "distinct (Q cpu)"
      using D(9) cpu chain_distinct by (auto simp: ready_ok_def ready_chain_def)
    then show ?thesis using D(1) cpu by (auto simp: merged_def queues_ok_def)
  qed
  then have "x \<notin> set xs" using m by simp
  then have "sched_inv ?s' (Q(cpu := xs))"
    using x set_m t(4) by (intro sched_inv_switched [OF inv cpu sw ok]) (auto simp: members_def)
  moreover have "top_running ?s' (Q(cpu := xs)) cpu"
    using srt tf by (auto simp: top_running_def key_of_def)
  moreover have "in_ipq ?s' cpu = []" using t(4) by simp
  moreover have "left_at site (current s cpu) s ?s'"
    using t2(2,3) tf D(6) [of "current s cpu"] by (simp add: left_at_def members_def)
  ultimately show ?thesis using t(1) t1 t2(1) t3 sw by (auto simp: hand_over_def)
qed

lemma switched_to_hw:
  "switched_to cpu y (on_hw f s) s' = switched_to cpu y s s'"
  by (simp add: switched_to_def in_ipq_def)

lemma relinquish_ok:
  assumes inv: "sched_inv s Q" and cpu: "cpu < NPUN" and m: "merged s cpu (Q cpu) = x # xs"
    and st: "p_sched_state (procs s (current s cpu)) = PROC_PREPARING_TO_WAIT"
  shows "\<exists>s'. relinquish cpu s = Inr s' \<and>
    switched_to cpu x (set_sched_state (current s cpu) PROC_WAITING s) s' \<and>
    sched_inv s' (Q(cpu := xs)) \<and> top_running s' (Q(cpu := xs)) cpu \<and> in_ipq s' cpu = [] \<and>
    current s cpu \<notin> members s' (Q(cpu := xs)) cpu \<and> current s cpu \<noteq> x \<and>
    left_at In_relinquish (current s cpu) s s'"
proof -
  note D = sched_invD [OF inv cpu]
  let ?s0 = "on_hw (disable cpu) (set_sched_state (current s cpu) PROC_WAITING s)"
  have sp: "same_places s ?s0" by (auto simp: same_places_def set_sched_state_def)
  have c0: "current ?s0 = current s" "current_pri ?s0 = current_pri s" "executing ?s0 = executing s"
    by (simp_all add: set_sched_state_def)
  have inv0: "sched_inv ?s0 Q" using sched_inv_same_places [OF sp c0] inv by simp
  have m1: "merged ?s0 cpu (Q cpu) = x # xs" using merged_same_places [OF sp] m by simp
  obtain s' where s': "hand_over In_relinquish cpu ?s0 = Inr s'"
    "switched_to cpu x ?s0 s'" "sched_inv s' (Q(cpu := xs))" "top_running s' (Q(cpu := xs)) cpu"
    "in_ipq s' cpu = []" "left_at In_relinquish (current s cpu) s s'"
    using give_up [where site = In_relinquish, OF inv0 cpu m1]
    by (auto simp: left_at_def set_sched_state_def)
  have run: "relinquish cpu s = Inr s'"
    using s'(1) st D(2,3) c0 by (simp add: relinquish_def get_current_eq Let_def hand_over_def)
  have "set (x # xs) = set (Q cpu) \<union> set (in_ipq s cpu)" unfolding m [symmetric] by simp
  then have out: "current s cpu \<notin> set (x # xs)" using D(4,5) by auto
  have "members s' (Q(cpu := xs)) cpu = set (x # xs)"
    using s'(2,5) by (simp add: members_def switched_to_def)
  with out have "current s cpu \<notin> members s' (Q(cpu := xs)) cpu" "current s cpu \<noteq> x" by auto
  with run s'(2-6) show ?thesis unfolding switched_to_hw by blast
qed

text \<open>
  A process that is preparing to wait and relinquishes the processor becomes waiting and leaves
  every queue; the processor goes to the first process in the stable priority order of its ready
  queue and of the processes sent to it by the other processor; nothing ready outranks it; and the
  scheduler's invariant is kept.
\<close>

theorem relinquish_waits:
  assumes inv: "sched_inv s Q" and cpu: "cpu < NPUN" and m: "merged s cpu (Q cpu) \<noteq> []"
    and st: "p_sched_state (procs s (current s cpu)) = PROC_PREPARING_TO_WAIT"
  shows "\<exists>s'. relinquish cpu s = Inr s' \<and> current s' cpu = hd (merged s cpu (Q cpu)) \<and>
    p_sched_state (procs s' (current s cpu)) = PROC_WAITING \<and>
    current s cpu \<notin> members s' (Q(cpu := tl (merged s cpu (Q cpu)))) cpu \<and>
    sched_inv s' (Q(cpu := tl (merged s cpu (Q cpu)))) \<and>
    top_running s' (Q(cpu := tl (merged s cpu (Q cpu)))) cpu"
proof -
  obtain x xs where m0: "merged s cpu (Q cpu) = x # xs" using m by (cases "merged s cpu (Q cpu)") auto
  obtain s' where s': "relinquish cpu s = Inr s'"
    "switched_to cpu x (set_sched_state (current s cpu) PROC_WAITING s) s'"
    "sched_inv s' (Q(cpu := xs))" "top_running s' (Q(cpu := xs)) cpu"
    "current s cpu \<notin> members s' (Q(cpu := xs)) cpu"
    using relinquish_ok [OF inv cpu m0 st] by blast
  have "current s' cpu = x" "p_sched_state (procs s' (current s cpu)) = PROC_WAITING"
    using s'(2) by (simp_all add: switched_to_def set_sched_state_def)
  with s' m0 show ?thesis by simp
qed

subsection \<open>A sample state\<close>

text \<open>
  Two processors, each with its idle process; on processor 0 the process at 0x300 runs and is about
  to wait, the one at 0x400 is ready and the one at 0x500 has just been made ready by processor 1.
\<close>

definition sample_process :: "addr \<Rightarrow> process" where
  "sample_process a = \<lparr>p_stackptr = a + 16, p_next = (if a = 0x400 then 0x100 else NULL), p_index = 3,
     p_pri = (if a = 0x100 \<or> a = 0x200 then IDLE_PRI else if a = 0x500 then 0x2400 else 0x2200),
     p_pun = (if a = 0x200 then 1 else 0), p_alt_state = ALT_NONE,
     p_sched_state = (if a = 0x300 then PROC_PREPARING_TO_WAIT else PROC_READY)\<rparr>"

definition sample_sched :: sched where
  "sample_sched = \<lparr>procs = sample_process,
     ctxs = (\<lambda>_. \<lparr>uc_point = Interrupted, uc_sigmask = {}, uc_sp = 0, uc_size = 0\<rparr>),
     executing = (\<lambda>p. if p = 0 then 0x310 else 0x210),
     rdyQues = (\<lambda>p. if p = 0 then 0x400 else NULL),
     current = (\<lambda>p. if p = 0 then 0x300 else 0x200),
     current_pri = (\<lambda>p. if p = 0 then 0x2200 else IDLE_PRI),
     ipQues = (\<lambda>p. if p = 0 then \<lparr>nextAdd = 1, nextRem = 0, que = [0x500, NULL, NULL, NULL, NULL]\<rparr> else ipq_init),
     sizeof_ucontext = 348, hw = sample_hw\<rparr>"

definition sample_queues :: "pun \<Rightarrow> addr list" where
  "sample_queues p = (if p = 0 then [0x400, 0x100] else [])"

lemma sample_in_ipq: "in_ipq sample_sched p = (if p = 0 then [0x500] else [])"
  by (simp add: in_ipq_def sample_sched_def ipq_contents_def ipq_count_def ipq_init_def QSIZE_def)

lemma sample_key:
  "key_of sample_sched a = (if a = 0x100 \<or> a = 0x200 then 4095 else if a = 0x500 then 1024 else 512)"
  by (simp add: key_of_def sample_sched_def sample_process_def IDLE_PRI_def PRI_LOW_def pval_mod)

lemma sample_merged: "merged sample_sched 0 (sample_queues 0) = [0x400, 0x500, 0x100]"
  by (simp add: merged_def sample_in_ipq sample_queues_def sample_key)

lemma sample_queues_ok: "queues_ok sample_sched sample_queues"
proof -
  have "ready_ok sample_sched sample_queues"
    by (auto simp: ready_ok_def ready_chain_def sample_queues_def sample_key)
      (simp_all add: sample_sched_def sample_process_def next_of_def)
  moreover have "ipq_wf (ipQues sample_sched p)" for p
    using ipq_init_wf
    by (simp add: sample_sched_def ipq_wf_def ipq_contents_def ipq_count_def QSIZE_def)
  ultimately show ?thesis
    by (auto simp: queues_ok_def sample_in_ipq sample_queues_def)
      (simp add: sample_sched_def sample_process_def)
qed

lemma sample_sched_inv: "sched_inv sample_sched sample_queues"
proof -
  have "running_ok sample_sched p" if "p < NPUN" for p
    using that
    by (auto simp: less_NPUN running_ok_def sample_sched_def sample_process_def)
  with sample_queues_ok show ?thesis
    by (auto simp: sched_inv_def sample_in_ipq sample_queues_def members_def)
      (auto simp: sample_sched_def sample_process_def proc_stack_def sizeof_Process_def split: if_splits)
qed

theorem relinquish_waits_witness:
  "\<exists>s'. relinquish 0 sample_sched = Inr s' \<and> current s' 0 = 0x400 \<and>
    p_sched_state (procs s' 0x300) = PROC_WAITING"
proof -
  have "current sample_sched 0 = 0x300" "p_sched_state (procs sample_sched 0x300) = PROC_PREPARING_TO_WAIT"
    by (simp_all add: sample_sched_def sample_process_def)
  then show ?thesis
    using relinquish_waits [OF sample_sched_inv, of 0] by (auto simp: sample_merged NPUN_def)
qed

text \<open>The same state with a current process that comes before all others.\<close>

definition urgent_sched :: sched where
  "urgent_sched = sample_sched\<lparr>procs := (procs sample_sched)(0x300 := (sample_process 0x300)\<lparr>p_pri := 0x2100\<rparr>),
    current_pri := (current_pri sample_sched)(0 := 0x2100)\<rparr>"

lemma urgent_sched_simps:
  "procs urgent_sched a = (if a = 0x300 then (sample_process 0x300)\<lparr>p_pri := 0x2100\<rparr> else procs sample_sched a)"
  "current urgent_sched = current sample_sched" "rdyQues urgent_sched = rdyQues sample_sched"
  "in_ipq urgent_sched = in_ipq sample_sched" "ipQues urgent_sched = ipQues sample_sched"
  "executing urgent_sched = executing sample_sched"
  by (simp_all add: urgent_sched_def in_ipq_def fun_eq_iff)

lemma urgent_key: "a \<noteq> 0x300 \<Longrightarrow> key_of urgent_sched a = key_of sample_sched a"
  by (simp add: key_of_def urgent_sched_simps)

lemma urgent_sched_inv: "sched_inv urgent_sched sample_queues"
proof -
  have "queues_ok urgent_sched sample_queues"
    using sample_queues_ok
    by (auto simp: queues_ok_def ready_ok_def ready_chain_def urgent_sched_simps urgent_key sample_in_ipq sample_queues_def next_of_def)
  moreover have "running_ok urgent_sched p" if "p < NPUN" for p
    using that
    by (auto simp: less_NPUN running_ok_def urgent_sched_def sample_sched_def sample_process_def)
  ultimately show ?thesis
    by (auto simp: sched_inv_def urgent_sched_simps sample_in_ipq sample_queues_def members_def)
      (auto simp: sample_sched_def sample_process_def proc_stack_def sizeof_Process_def split: if_splits)
qed

lemma urgent_merged: "merged urgent_sched 0 (sample_queues 0) = [0x400, 0x500, 0x100]"
proof -
  have "merged urgent_sched 0 (sample_queues 0) = merged sample_sched 0 (sample_queues 0)"
    by (simp add: merged_def urgent_sched_simps sample_in_ipq sample_queues_def urgent_key)
  then show ?thesis using sample_merged by simp
qed

end
