(* ===== verification/Ordered_Queue.thy ===== *)
theory Ordered_Queue
  imports Cxp_Prelude
begin

text \<open>
  What the ready queues and the timer queues have in common: the four-branch insertion of a node
  between \<^verbatim>\<open>prev\<close> and \<^verbatim>\<open>curr\<close>, and the promise of a queue ordered by a key with
  first-in first-out among equal keys, as a locale with the facts its clients use.
\<close>

subsection \<open>The four branches\<close>

definition splice_next :: "(addr \<Rightarrow> addr) \<Rightarrow> addr \<Rightarrow> addr \<Rightarrow> addr \<Rightarrow> addr \<Rightarrow> addr" where
  "splice_next nx x prev cur = (if prev = NULL then nx(x := cur) else nx(prev := x, x := cur))"

definition splice_head :: "addr \<Rightarrow> addr \<Rightarrow> addr \<Rightarrow> addr" where
  "splice_head head x prev = (if prev = NULL then x else head)"

lemma splice_chain:
  assumes c: "chain nx p xs" and x: "x \<noteq> NULL" "x \<notin> set xs"
    and prev: "prev = last (NULL # takeWhile go xs)"
    and cur: "cur = (case dropWhile go xs of [] \<Rightarrow> NULL | y # ys \<Rightarrow> y)"
  shows "chain (splice_next nx x prev cur) (splice_head p x prev) (insert_at go x xs)"
    and "chain nx q ys \<Longrightarrow> x \<notin> set ys \<Longrightarrow> set xs \<inter> set ys = {} \<Longrightarrow> chain (splice_next nx x prev cur) q ys"
    and "prev = NULL \<longleftrightarrow> takeWhile go xs = []"
proof -
  let ?us = "takeWhile go xs" and ?vs = "dropWhile go xs"
  have null: "NULL \<notin> set xs" using c by (rule chain_nonnull_set)
  have last: "prev \<in> set xs" if "?us \<noteq> []"
    using that prev last_in_set [OF that] set_takeWhileD [of "last ?us" go xs] by simp
  show pn: "prev = NULL \<longleftrightarrow> ?us = []" using prev last null by (cases "?us = []") auto
  have split: "xs = ?us @ ?vs" by simp
  show "chain (splice_next nx x prev cur) (splice_head p x prev) (insert_at go x xs)"
  proof (cases "?us = []")
    case True
    then have vs: "?vs = xs" by (metis append_Nil takeWhile_dropWhile_id)
    then have "p = cur" using cur chain_head [OF c] by (auto split: list.splits)
    with True pn vs c x show ?thesis by (simp add: splice_next_def splice_head_def insert_at_def)
  next
    case False
    obtain ws where us: "?us = ws @ [prev]"
      using prev False by (metis append_butlast_last_id last.simps)
    have eq: "xs = ws @ prev # ?vs" using us split by (metis append.assoc append_Cons append_Nil)
    have "chain nx p (ws @ prev # ?vs)" using c eq by metis
    moreover have "x \<notin> set (ws @ prev # ?vs)" using x eq by metis
    ultimately have "chain (nx(prev := x, x := cur)) p (ws @ prev # x # ?vs)"
      using x cur by (intro chain_link_middle) auto
    with False pn us show ?thesis by (simp add: splice_next_def splice_head_def insert_at_def)
  qed
  show "chain (splice_next nx x prev cur) q ys"
    if "chain nx q ys" "x \<notin> set ys" "set xs \<inter> set ys = {}"
  proof -
    have "prev \<noteq> NULL \<Longrightarrow> prev \<notin> set ys" using pn last that(3) by auto
    with that show ?thesis by (simp add: splice_next_def)
  qed
qed

subsection \<open>The promise\<close>

text \<open>
  \<open>contents s xs\<close>: in the state \<open>s\<close> the queue holds \<open>xs\<close>; \<open>ok s x\<close>: \<open>x\<close> may be inserted.
\<close>

locale ordered_queue =
  fixes insert_q :: "'a \<Rightarrow> 's \<Rightarrow> 's res"
    and contents :: "'s \<Rightarrow> 'a list \<Rightarrow> bool"
    and key :: "'s \<Rightarrow> 'a \<Rightarrow> 'k::linorder"
    and ok :: "'s \<Rightarrow> 'a \<Rightarrow> bool"
  assumes insert_law: "contents s xs \<Longrightarrow> ok s x \<Longrightarrow> x \<notin> set xs \<Longrightarrow>
      \<exists>s'. insert_q x s = Inr s' \<and> contents s' (sort_key (key s) (xs @ [x])) \<and>
        key s' = key s \<and> ok s' = ok s"
    and contents_sorted: "contents s xs \<Longrightarrow> sorted (map (key s) xs)"
begin

definition insert_all :: "'a list \<Rightarrow> 's \<Rightarrow> 's res" where
  "insert_all ys s = foldl (\<lambda>r y. res_bind r (insert_q y)) (Inr s) ys"

text \<open>Inserting one after the other sorts, and keeps the order of equals.\<close>

lemma insert_all_sorts:
  assumes "contents s xs" and "distinct (xs @ ys)" and "\<forall>y \<in> set ys. ok s y"
  shows "\<exists>s'. insert_all ys s = Inr s' \<and> contents s' (sort_key (key s) (xs @ ys)) \<and>
    key s' = key s \<and> ok s' = ok s"
  using assms
proof (induction ys rule: rev_induct)
  case Nil
  then show ?case
    using contents_sorted [of s xs] by (simp add: insert_all_def sort_key_id_if_sorted)
next
  case (snoc y ys)
  then obtain s1 where s1: "insert_all ys s = Inr s1" "contents s1 (sort_key (key s) (xs @ ys))"
    "key s1 = key s" "ok s1 = ok s" by auto
  have "y \<notin> set (sort_key (key s) (xs @ ys))" using snoc.prems(2) by auto
  then obtain s2 where "insert_q y s1 = Inr s2" "contents s2 (sort_key (key s) (sort_key (key s) (xs @ ys) @ [y]))"
    "key s2 = key s" "ok s2 = ok s"
    using insert_law [OF s1(2), of y] s1(3,4) snoc.prems(3) by auto
  with s1(1) show ?case
    by (simp add: insert_all_def sort_key_append_sort)
qed

lemma equals_in_order:
  assumes "contents s xs" and "distinct (xs @ ys)" and "\<forall>y \<in> set ys. ok s y"
    and "insert_all ys s = Inr s'" and "contents s' zs"
    and unique: "\<And>t us vs. contents t us \<Longrightarrow> contents t vs \<Longrightarrow> us = vs"
  shows "filter (\<lambda>z. key s z = k) zs = filter (\<lambda>z. key s z = k) (xs @ ys)"
proof -
  have "zs = sort_key (key s) (xs @ ys)"
    using insert_all_sorts [OF assms(1-3)] assms(4,5) unique by auto
  then show ?thesis by (simp only: sort_key_stable)
qed

end

end
