(* ===== verification/Sched_Steps.thy ===== *)
theory Sched_Steps
  imports Sched_Correct Ordered_Queue
begin

text \<open>
  The operations of the scheduler that make processes ready, preempt and yield, on the lists that
  \<open>Sched_Correct\<close> associates with the queues. Every operation is shown to return, to keep the
  scheduler's invariant, and to leave running the process its comment promises.
\<close>

subsection \<open>Enqueueing\<close>

lemma key_of_fields [simp]:
  "key_of (s\<lparr>current := c\<rparr>) = key_of s" "key_of (s\<lparr>current_pri := cp\<rparr>) = key_of s"
  "key_of (s\<lparr>ctxs := x\<rparr>) = key_of s" "key_of (s\<lparr>executing := e\<rparr>) = key_of s"
  "key_of (s\<lparr>rdyQues := r\<rparr>) = key_of s" "key_of (s\<lparr>ipQues := i\<rparr>) = key_of s"
  by (simp_all add: key_of_def [abs_def])

lemma enqueue0_queues_ok:
  assumes ok: "queues_ok s Q" and x: "x \<noteq> NULL" and p: "p_pun (procs s x) = cpu" "cpu < NPUN"
    and new: "x \<notin> set (Q cpu)" "x \<notin> set (in_ipq s cpu)"
  shows "\<exists>s'. enqueue0 x s = Inr s' \<and> links_only s s' \<and> queues_ok s' (Q(cpu := enq_list s x (Q cpu)))"
proof -
  have "ready_ok s Q" using ok by (simp add: queues_ok_def)
  from enqueue0_ready_ok [OF this x] p new(1)
  obtain s' where s': "enqueue0 x s = Inr s'" "links_only s s'"
    and r: "ready_ok s' (Q(cpu := enq_list s x (Q cpu)))" by auto
  have i: "ipQues s' = ipQues s" "in_ipq s' = in_ipq s" "\<And>y. p_pun (procs s' y) = p_pun (procs s y)"
    using s'(2) by (auto simp: links_only_def in_ipq_def fun_eq_iff)
  have "set (in_ipq s q) \<inter> set ((Q(cpu := enq_list s x (Q cpu))) q) = {}" if "q < NPUN" for q
    using ok new that by (auto simp: queues_ok_def)
  then have "queues_ok s' (Q(cpu := enq_list s x (Q cpu)))"
    using ok r i by (simp add: queues_ok_def)
  with s' show ?thesis by blast
qed

lemma links_onlyD:
  assumes "links_only s s'"
  shows "current s' = current s" "current_pri s' = current_pri s" "hw s' = hw s" "ctxs s' = ctxs s"
    "executing s' = executing s" "ipQues s' = ipQues s" "in_ipq s' = in_ipq s" "key_of s' = key_of s"
    "p_pri (procs s' x) = p_pri (procs s x)" "p_pun (procs s' x) = p_pun (procs s x)"
    "p_stackptr (procs s' x) = p_stackptr (procs s x)" "p_index (procs s' x) = p_index (procs s x)"
    "p_alt_state (procs s' x) = p_alt_state (procs s x)"
    "p_sched_state (procs s' x) = p_sched_state (procs s x)"
  using assms by (auto simp: links_only_def in_ipq_def key_of_def fun_eq_iff)

text \<open>The ready queue of a processor keeps the promise of an ordered queue.\<close>

definition ready_holds :: "pun \<Rightarrow> sched \<Rightarrow> addr list \<Rightarrow> bool" where
  "ready_holds cpu s xs \<longleftrightarrow> cpu < NPUN \<and> (\<exists>Q. queues_ok s Q \<and> Q cpu = xs)"

definition may_enqueue :: "pun \<Rightarrow> sched \<Rightarrow> addr \<Rightarrow> bool" where
  "may_enqueue cpu s x \<longleftrightarrow> x \<noteq> NULL \<and> p_pun (procs s x) = cpu \<and> x \<notin> set (in_ipq s cpu)"

lemma enqueue0_law:
  assumes "ready_holds cpu s xs" and "may_enqueue cpu s x" and "x \<notin> set xs"
  shows "\<exists>s'. enqueue0 x s = Inr s' \<and> ready_holds cpu s' (sort_key (key_of s) (xs @ [x])) \<and>
    key_of s' = key_of s \<and> may_enqueue cpu s' = may_enqueue cpu s"
proof -
  obtain Q where Q: "queues_ok s Q" "Q cpu = xs" "cpu < NPUN" using assms(1) by (auto simp: ready_holds_def)
  obtain s' where s': "enqueue0 x s = Inr s'" "links_only s s'" "queues_ok s' (Q(cpu := enq_list s x (Q cpu)))"
    using enqueue0_queues_ok [OF Q(1), of x cpu] assms(2,3) Q by (auto simp: may_enqueue_def)
  have "ready_holds cpu s' (sort_key (key_of s) (xs @ [x]))"
    using s'(3) Q unfolding ready_holds_def by (intro conjI exI [of _ "Q(cpu := enq_list s x (Q cpu))"])
      (simp_all add: enq_list_def)
  moreover have "key_of s' = key_of s" "may_enqueue cpu s' = may_enqueue cpu s"
    using links_onlyD [OF s'(2)] by (simp_all add: may_enqueue_def fun_eq_iff)
  ultimately show ?thesis using s'(1) by blast
qed

interpretation ready: ordered_queue enqueue0 "ready_holds cpu" key_of "may_enqueue cpu" for cpu
proof unfold_locales
  show "sorted (map (key_of s) xs)" if "ready_holds cpu s xs" for s xs
    using that by (auto simp: ready_holds_def queues_ok_def ready_ok_def)
qed (rule enqueue0_law)

text \<open>A process that is in no queue of its processor and is not running there.\<close>

definition idle_on :: "sched \<Rightarrow> (pun \<Rightarrow> addr list) \<Rightarrow> pun \<Rightarrow> addr \<Rightarrow> bool" where
  "idle_on s Q cpu x \<longleftrightarrow> x \<noteq> NULL \<and> p_pun (procs s x) = cpu \<and> x \<notin> members s Q cpu \<and>
     p_stackptr (procs s x) = proc_stack x"

text \<open>
  The invariant after a change of the current process of \<open>cpu\<close> to \<open>x\<close>, or after an enqueue without
  such a change: the processes now at \<open>cpu\<close> were there before, or are \<open>x\<close>.
\<close>

lemma sched_inv_change:
  assumes inv: "sched_inv s Q" and cpu: "cpu < NPUN" and sw: "switched_to cpu y s s'"
    and ok: "queues_ok s' (Q(cpu := ys))"
    and sub: "insert y (set ys \<union> set (in_ipq s' cpu)) \<subseteq> insert x (members s Q cpu)"
    and x: "x \<noteq> NULL" "p_pun (procs s x) = cpu" "p_stackptr (procs s x) = proc_stack x"
    and y: "y \<notin> set ys" "y \<notin> set (in_ipq s' cpu)"
  shows "sched_inv s' (Q(cpu := ys))"
proof -
  have good: "z \<noteq> NULL \<and> p_pun (procs s z) = cpu \<and> p_stackptr (procs s z) = proc_stack z"
    if "z \<in> insert x (members s Q cpu)" for z
    using that x sched_invD [OF inv cpu] by (auto simp: members_def)
  have "running_ok s' p \<and> current s' p \<notin> set ((Q(cpu := ys)) p) \<union> set (in_ipq s' p) \<and>
      (\<forall>z \<in> members s' (Q(cpu := ys)) p. p_stackptr (procs s' z) = proc_stack z)"
    if p: "p < NPUN" for p
  proof (cases "p = cpu")
    case True
    have m: "members s' (Q(cpu := ys)) cpu = insert y (set ys \<union> set (in_ipq s' cpu))"
      using sw by (simp add: members_def switched_to_def)
    have "\<forall>z \<in> members s' (Q(cpu := ys)) cpu. p_stackptr (procs s' z) = proc_stack z"
      using m sub good sw by (auto simp: switched_to_def)
    moreover have "y \<noteq> NULL \<and> p_pun (procs s y) = cpu" using good [of y] sub by auto
    ultimately show ?thesis using True sw y by (simp add: running_ok_def switched_to_def)
  next
    case False
    then have "members s' (Q(cpu := ys)) p = members s Q p"
      using sw by (simp add: members_def switched_to_def)
    with False p inv sw show ?thesis by (auto simp: sched_inv_def running_ok_def switched_to_def)
  qed
  with ok show ?thesis by (simp add: sched_inv_def)
qed

lemma switched_to_links_only:
  assumes "links_only s s'" and inv: "sched_inv s Q" and "cpu < NPUN"
  shows "switched_to cpu (current s cpu) s s'"
  using links_onlyD [OF assms(1)] inv assms(3)
  by (auto simp: switched_to_def sched_inv_def running_ok_def fun_eq_iff)

lemma enq_list_top:
  assumes "\<forall>z \<in> set ys. k \<le> key_of s z" and "k \<le> key_of s x"
  shows "\<forall>z \<in> set (enq_list s x ys). k \<le> key_of s z"
  using assms by auto

subsection \<open>Preemption by a process of the same processor\<close>

lemma enqueue_behind:
  assumes inv: "sched_inv s Q" and cpu: "cpu < NPUN" and x: "idle_on s Q cpu x"
  shows "\<exists>s'. enqueue0 x s = Inr s' \<and> links_only s s' \<and> sched_inv s' (Q(cpu := enq_list s x (Q cpu)))"
proof -
  have nx: "x \<noteq> NULL" "p_pun (procs s x) = cpu" "x \<notin> set (Q cpu)" "x \<notin> set (in_ipq s cpu)"
    "x \<noteq> current s cpu" "p_stackptr (procs s x) = proc_stack x"
    using x by (auto simp: idle_on_def members_def)
  have q: "queues_ok s Q" using inv by (simp add: sched_inv_def)
  obtain s' where s': "enqueue0 x s = Inr s'" "links_only s s'"
    "queues_ok s' (Q(cpu := enq_list s x (Q cpu)))"
    using enqueue0_queues_ok [OF q nx(1,2) cpu nx(3,4)] by blast
  have "sched_inv s' (Q(cpu := enq_list s x (Q cpu)))"
    using nx sched_invD(4,5) [OF inv cpu] links_onlyD(7) [OF s'(2)]
    by (intro sched_inv_change [OF inv cpu switched_to_links_only [OF s'(2) inv cpu] s'(3), where x = x])
      (auto simp: members_def)
  with s' show ?thesis by blast
qed

text \<open>Make \<open>x\<close> current, put the former current process back and switch.\<close>

definition preempt_by :: "resume_point \<Rightarrow> pun \<Rightarrow> addr \<Rightarrow> sched \<Rightarrow> sched res" where
  "preempt_by site cpu x s =
     res_bind (set_current cpu x s) (\<lambda>t.
     res_bind (enqueue0 (current s cpu) t) (\<lambda>t.
     switch_context cpu site (current s cpu) x t))"

lemma preempt_by_ok:
  assumes inv: "sched_inv s Q" and cpu: "cpu < NPUN"
    and x: "x \<noteq> NULL" "p_pun (procs s x) = cpu" "p_stackptr (procs s x) = proc_stack x"
      "x \<notin> members s Q cpu"
  shows "\<exists>s'. preempt_by site cpu x s = Inr s' \<and> switched_to cpu x s s' \<and>
    in_ipq s' = in_ipq s \<and> sched_inv s' (Q(cpu := enq_list s (current s cpu) (Q cpu)))"
proof -
  let ?c = "current s cpu"
  let ?ys = "enq_list s ?c (Q cpu)"
  note D = sched_invD [OF inv cpu]
  let ?t = "s\<lparr>current := (current s)(cpu := x), current_pri := (current_pri s)(cpu := p_pri (procs s x))\<rparr>"
  have t: "set_current cpu x s = Inr ?t" using x by (intro set_current_eq) auto
  have qt: "queues_ok ?t Q" using D(1) by simp
  have e: "enq_list ?t ?c (Q cpu) = ?ys" by (simp add: enq_list_def key_of_def [abs_def])
  obtain u where u: "enqueue0 ?c ?t = Inr u" "links_only ?t u" "queues_ok u (Q(cpu := ?ys))"
    using enqueue0_queues_ok [OF qt, of ?c cpu] D(2,3,4,5) cpu e by auto
  note lu = links_onlyD [OF u(2)]
  obtain c h where sc: "switch_context cpu site ?c x u =
      Inr (u\<lparr>ctxs := c, executing := (executing u)(cpu := p_stackptr (procs u x)), hw := h\<rparr>)"
    using switch_context_ok [OF D(2) x(1), of cpu site u] by auto
  let ?s' = "u\<lparr>ctxs := c, executing := (executing u)(cpu := p_stackptr (procs u x)), hw := h\<rparr>"
  have sw: "switched_to cpu x s ?s'" using lu by (simp add: switched_to_def)
  have i: "in_ipq ?s' = in_ipq s" using lu by simp
  have "sched_inv ?s' (Q(cpu := ?ys))"
    using x i u(3) by (intro sched_inv_change [OF inv cpu sw, where x = x]) (auto simp: members_def)
  with sw i t u sc show ?thesis by (auto simp: preempt_by_def)
qed

lemma top_running_change:
  assumes "switched_to cpu x s s'" and "\<forall>z \<in> set ys. key_of s x \<le> key_of s z"
  shows "top_running s' (Q(cpu := ys)) cpu"
  using assms by (simp add: top_running_def switched_to_def key_of_def)

lemma schedule0_local:
  assumes inv: "sched_inv s Q" and cpu: "cpu < NPUN" and x: "idle_on s Q cpu x"
  shows "\<exists>b s'. schedule0 site cpu x s = Inr (b, s') \<and> (b \<longleftrightarrow> key_of s x < key_of s (current s cpu)) \<and>
    switched_to cpu (if b then x else current s cpu) s s' \<and> in_ipq s' = in_ipq s \<and>
    (\<not> b \<longrightarrow> links_only s s') \<and>
    sched_inv s' (Q(cpu := enq_list s (if b then current s cpu else x) (Q cpu)))"
proof -
  note D = sched_invD [OF inv cpu]
  have nx: "x \<noteq> NULL" "p_pun (procs s x) = cpu" "p_stackptr (procs s x) = proc_stack x"
    "x \<notin> members s Q cpu" using x by (auto simp: idle_on_def)
  show ?thesis
  proof (cases "key_of s x < key_of s (current s cpu)")
    case True
    obtain s' where s': "preempt_by site cpu x s = Inr s'" "switched_to cpu x s s'"
      "in_ipq s' = in_ipq s" "sched_inv s' (Q(cpu := enq_list s (current s cpu) (Q cpu)))"
      using preempt_by_ok [where site = site, OF inv cpu nx] by (elim exE conjE) (rule that)
    have "schedule0 site cpu x s = Inr (True, s')"
      using True nx D(2) s'(1)
      by (auto simp: schedule0_def preempt_by_def get_current_eq pri_iffs key_of_def res_bind_Inr_iff)
    with s' True show ?thesis by auto
  next
    case False
    obtain s' where s': "enqueue0 x s = Inr s'" "links_only s s'"
      "sched_inv s' (Q(cpu := enq_list s x (Q cpu)))"
      using enqueue_behind [OF inv cpu x] by blast
    have "schedule0 site cpu x s = Inr (False, s')"
      using False nx D(2) s'(1) by (simp add: schedule0_def get_current_eq pri_iffs key_of_def)
    moreover have "switched_to cpu (current s cpu) s s'"
      by (rule switched_to_links_only [OF s'(2) inv cpu])
    ultimately show ?thesis using s' False links_onlyD(7) [OF s'(2)] by auto
  qed
qed

text \<open>Masks take no part in the invariant.\<close>

lemma hw_irrelevant [simp]:
  "sched_inv (s\<lparr>hw := h\<rparr>) Q = sched_inv s Q" "top_running (s\<lparr>hw := h\<rparr>) Q cpu = top_running s Q cpu"
  "members (s\<lparr>hw := h\<rparr>) Q cpu = members s Q cpu" "idle_on (s\<lparr>hw := h\<rparr>) Q cpu x = idle_on s Q cpu x"
  "key_of (s\<lparr>hw := h\<rparr>) = key_of s" "enq_list (s\<lparr>hw := h\<rparr>) x ys = enq_list s x ys"
  "merged (s\<lparr>hw := h\<rparr>) p ys = merged s p ys" "switched_to cpu y (s\<lparr>hw := h\<rparr>) s' = switched_to cpu y s s'"
  "switched_to cpu y s (s'\<lparr>hw := h\<rparr>) = switched_to cpu y s s'"
proof -
  show k: "key_of (s\<lparr>hw := h\<rparr>) = key_of s" by (simp add: key_of_def fun_eq_iff)
  show "sched_inv (s\<lparr>hw := h\<rparr>) Q = sched_inv s Q"
    by (rule sched_inv_same_places) (simp_all add: same_places_def)
  show "switched_to cpu y (s\<lparr>hw := h\<rparr>) s' = switched_to cpu y s s'"
    "switched_to cpu y s (s'\<lparr>hw := h\<rparr>) = switched_to cpu y s s'"
    by (simp_all add: switched_to_def)
qed (simp_all add: top_running_def members_def idle_on_def enq_list_def merged_def key_of_def [abs_def])

lemma on_hw_eq: "on_hw f s = s\<lparr>hw := f (hw s)\<rparr>"
  by (simp add: on_hw_def)

lemma resume_process_cases: obtains h where "resume_process cpu s = s\<lparr>hw := h\<rparr>"
  using resume_process_ok by blast

lemma resume_process_mask:
  obtains k where "resume_process cpu s = s\<lparr>hw := (hw s)\<lparr>thr_mask := k\<rparr>\<rparr>"
proof -
  have "resume_process cpu s = s\<lparr>hw := (hw s)\<lparr>thr_mask := (thr_mask (hw s))(cpu := sigmask (hw s) cpu)\<rparr>\<rparr> \<or>
      resume_process cpu s = s\<lparr>hw := (hw s)\<lparr>thr_mask := thr_mask (hw s)\<rparr>\<rparr>"
    by (simp add: resume_process_def on_hw_def enable_def split: resume_point.splits)
  then show thesis using that by blast
qed

lemma schedule_ok:
  assumes inv: "sched_inv s Q" and cpu: "cpu < NPUN" and x: "idle_on s Q cpu x"
  shows "\<exists>b s'. schedule cpu x s = Inr s' \<and> (b \<longleftrightarrow> key_of s x < key_of s (current s cpu)) \<and>
    switched_to cpu (if b then x else current s cpu) s s' \<and> in_ipq s' = in_ipq s \<and>
    sched_inv s' (Q(cpu := enq_list s (if b then current s cpu else x) (Q cpu)))"
proof -
  let ?s = "on_hw (disable cpu) s"
  obtain b s' where s': "schedule0 In_schedule cpu x ?s = Inr (b, s')"
    "b \<longleftrightarrow> key_of s x < key_of s (current s cpu)"
    "switched_to cpu (if b then x else current s cpu) s s'" "in_ipq s' = in_ipq s"
    "sched_inv s' (Q(cpu := enq_list s (if b then current s cpu else x) (Q cpu)))"
    using schedule0_local [where site = In_schedule, of ?s Q cpu x] inv cpu x by (auto simp: on_hw_eq cong: if_cong)
  obtain h where "resume_process cpu s' = s'\<lparr>hw := h\<rparr>" by (rule resume_process_cases)
  then have "\<exists>h. schedule cpu x s = Inr (s'\<lparr>hw := h\<rparr>)"
    using s'(1) by (cases b) (auto simp: schedule_def on_hw_eq)
  then obtain h where "schedule cpu x s = Inr (s'\<lparr>hw := h\<rparr>)" ..
  with s' show ?thesis by (intro exI [of _ b] exI [of _ "s'\<lparr>hw := h\<rparr>"]) simp
qed

text \<open>
  C8. Making a process of the own processor ready: it runs at once if it outranks the
  running process, which then waits in the ready queue at its place, and otherwise it is enqueued
  behind all processes of its priority; in both cases no ready process outranks the running one
  afterwards, and every process is in one place.
\<close>

theorem schedule_runs_best:
  assumes inv: "sched_inv s Q" and cpu: "cpu < NPUN" and x: "idle_on s Q cpu x"
    and top: "top_running s Q cpu"
  defines "wins \<equiv> pri_gt (p_pri (procs s x)) (p_pri (procs s (current s cpu)))"
  defines "Q' \<equiv> Q(cpu := enq_list s (if wins then current s cpu else x) (Q cpu))"
  shows "\<exists>s'. schedule cpu x s = Inr s' \<and> current s' cpu = (if wins then x else current s cpu) \<and>
    sched_inv s' Q' \<and> top_running s' Q' cpu \<and> members s' Q' cpu = insert x (members s Q cpu)"
proof -
  obtain b s' where s': "schedule cpu x s = Inr s'" "b \<longleftrightarrow> key_of s x < key_of s (current s cpu)"
    "switched_to cpu (if b then x else current s cpu) s s'" "in_ipq s' = in_ipq s"
    "sched_inv s' (Q(cpu := enq_list s (if b then current s cpu else x) (Q cpu)))"
    using schedule_ok [OF inv cpu x] by blast
  have b: "b = wins" using s'(2) by (simp add: wins_def pri_iffs key_of_def)
  have cur: "current s' cpu = (if wins then x else current s cpu)"
    using s'(3) b by (simp add: switched_to_def)
  have "top_running s' Q' cpu"
    using top s'(2) unfolding Q'_def b
    by (intro top_running_change [OF s'(3) [unfolded b]]) (auto simp: top_running_def)
  moreover have "members s' Q' cpu = insert x (members s Q cpu)"
    using cur s'(4) by (auto simp: members_def Q'_def)
  ultimately show ?thesis using s'(1) cur s'(5) b by (auto simp: Q'_def)
qed

lemma sample_members: "members sample_sched sample_queues p =
    (if p = 0 then {0x300, 0x400, 0x100, 0x500} else {0x200})"
  by (simp add: members_def sample_in_ipq sample_queues_def) (auto simp: sample_sched_def)

lemma sample_top: "top_running sample_sched sample_queues 0"
  by (simp add: top_running_def sample_queues_def sample_key)
    (simp add: sample_sched_def)

lemma sample_idle_on: "idle_on sample_sched sample_queues 0 0x600"
  by (simp add: idle_on_def sample_members)
    (simp add: sample_sched_def sample_process_def proc_stack_def sizeof_Process_def)

theorem schedule_runs_best_witness:
  "\<exists>s'. schedule 0 0x600 sample_sched = Inr s' \<and> current s' 0 = 0x300"
  using schedule_runs_best [OF sample_sched_inv _ sample_idle_on sample_top]
  by (auto simp: NPUN_def sample_sched_def sample_process_def pri_gt_def)

subsection \<open>A process of another processor\<close>

text \<open>Handing a process over to its processor.\<close>

lemma schedule_remote:
  assumes inv: "sched_inv s Q" and cpu: "other < NPUN" "other \<noteq> cpu"
    and x: "idle_on s Q other x" and t: "thread_id (hw s) other = Some target"
    and room: "length (in_ipq s other) < QSIZE - 1"
  shows "\<exists>q h. schedule cpu x s = Inr (s\<lparr>ipQues := (ipQues s)(other := q), hw := h\<rparr>) \<and>
    in_ipq (s\<lparr>ipQues := (ipQues s)(other := q)\<rparr>) = (in_ipq s)(other := in_ipq s other @ [x]) \<and>
    sched_inv (s\<lparr>ipQues := (ipQues s)(other := q)\<rparr>) Q \<and>
    h = enable cpu ((disable cpu (hw s))\<lparr>os_sent := os_sent (hw s) @
      [(target, signal_no (hw s) other INTR_INTERPROC)]\<rparr>)"
proof -
  note D = sched_invD [OF inv cpu(1)]
  have nx: "x \<noteq> NULL" "p_pun (procs s x) = other" "p_stackptr (procs s x) = proc_stack x"
    "x \<notin> members s Q other" using x by (auto simp: idle_on_def)
  have wf: "ipq_wf (ipQues s other)" using D(1) cpu(1) by (simp add: queues_ok_def)
  obtain q where q: "ipq_put x (ipQues s other) = Some q" "ipq_wf q"
    "ipq_contents q = in_ipq s other @ [x]"
    using ring.put_room [OF wf nx(1)] room by (auto simp: in_ipq_def)
  let ?h = "enable cpu ((disable cpu (hw s))\<lparr>os_sent := os_sent (hw s) @
    [(target, signal_no (hw s) other INTR_INTERPROC)]\<rparr>)"
  let ?s1 = "s\<lparr>ipQues := (ipQues s)(other := q)\<rparr>"
  have run: "schedule cpu x s = Inr (?s1\<lparr>hw := ?h\<rparr>)"
    using nx q t cpu
    by (simp add: schedule_def schedule0_def ipq_add_def on_hw_eq send_interprocessor_interrupt_def
        disable_def)
  have i: "in_ipq ?s1 = (in_ipq s)(other := in_ipq s other @ [x])"
    using q(3) by (auto simp: in_ipq_def fun_eq_iff)
  have "ready_ok ?s1 Q" using ready_ok_cong [of ?s1 s Q] D(9) by simp
  moreover have "ipq_wf (ipQues ?s1 p) \<and> (\<forall>x \<in> set (in_ipq ?s1 p). p_pun (procs s x) = p) \<and>
      distinct (in_ipq ?s1 p) \<and> set (in_ipq ?s1 p) \<inter> set (Q p) = {}" if "p < NPUN" for p
    using D(1) q(2) i nx that by (auto simp: queues_ok_def members_def)
  ultimately have "queues_ok ?s1 Q" by (simp add: queues_ok_def)
  then have "sched_inv ?s1 Q"
    using inv nx i by (auto simp: sched_inv_def running_ok_def members_def)
  with run i show ?thesis by - (rule exI [of _ q], rule exI [of _ ?h], simp)
qed

text \<open>
  C15. Making a process of another processor ready: it is appended to that processor's queue and
  that processor, and no other, is sent an interrupt; the caller goes on running with interrupts
  enabled. If the queue is full the caller spins in \<^verbatim>\<open>ipq_add\<close>, with its own interrupts
  disabled.
\<close>

theorem schedule_other_processor:
  assumes inv: "sched_inv s Q" and cpu: "cpu < NPUN" "other < NPUN" "other \<noteq> cpu"
    and x: "idle_on s Q other x" and t: "thread_id (hw s) other = Some target"
  shows "if length (in_ipq s other) < QSIZE - 1
    then \<exists>s'. schedule cpu x s = Inr s' \<and> in_ipq s' other = in_ipq s other @ [x] \<and>
      sched_inv s' Q \<and> current s' = current s \<and> thr_mask (hw s') cpu = sigmask (hw s) cpu \<and>
      os_sent (hw s') = os_sent (hw s) @ [(target, signal_no (hw s) other INTR_INTERPROC)]
    else schedule cpu x s = Inl (SpinsForever ''ipq_add'')"
proof -
  note D = sched_invD [OF inv cpu(2)]
  show ?thesis
  proof (cases "length (in_ipq s other) < QSIZE - 1")
    case True
    then obtain q h where q: "schedule cpu x s = Inr (s\<lparr>ipQues := (ipQues s)(other := q), hw := h\<rparr>)"
      "in_ipq (s\<lparr>ipQues := (ipQues s)(other := q)\<rparr>) = (in_ipq s)(other := in_ipq s other @ [x])"
      "sched_inv (s\<lparr>ipQues := (ipQues s)(other := q)\<rparr>) Q"
      "h = enable cpu ((disable cpu (hw s))\<lparr>os_sent := os_sent (hw s) @
        [(target, signal_no (hw s) other INTR_INTERPROC)]\<rparr>)"
      using schedule_remote [OF inv cpu(2,3) x t] by blast
    then show ?thesis using True by (simp add: enable_def disable_def)
  next
    case False
    have nx: "x \<noteq> NULL" "p_pun (procs s x) = other" using x by (auto simp: idle_on_def)
    have wf: "ipq_wf (ipQues s other)" using D(1) cpu(2) by (simp add: queues_ok_def)
    have "length (in_ipq s other) = QSIZE - 1"
      using ring.contents_bound [OF wf] False by (simp add: in_ipq_def)
    then have "ipq_put x (ipQues s other) = None"
      using ring.put_full [OF wf] by (simp add: in_ipq_def)
    then show ?thesis
      using False nx cpu by (simp add: schedule_def schedule0_def ipq_add_def on_hw_eq)
  qed
qed

theorem schedule_other_processor_witness:
  "\<exists>s'. schedule 1 0x600 (sample_sched\<lparr>hw := sample_hw\<lparr>thread_id := Map.empty(0 \<mapsto> 7)\<rparr>\<rparr>) = Inr s' \<and>
    in_ipq s' 0 = [0x500, 0x600] \<and> os_sent (hw s') = [(7, 0)]"
proof -
  let ?s = "sample_sched\<lparr>hw := sample_hw\<lparr>thread_id := Map.empty(0 \<mapsto> 7)\<rparr>\<rparr>"
  have "sched_inv ?s sample_queues" "idle_on ?s sample_queues 0 0x600" "in_ipq ?s 0 = [0x500]"
    using sample_sched_inv sample_idle_on by (simp_all add: sample_in_ipq)
  then show ?thesis
    using schedule_other_processor [where s = ?s and Q = sample_queues and cpu = 1 and other = 0 and x = "0x600" and target = 7]
    by (auto simp: NPUN_def QSIZE_def sample_hw_def)
qed

subsection \<open>Yielding\<close>

lemma merged_props:
  assumes "sched_inv s Q" and "cpu < NPUN"
  shows "distinct (merged s cpu (Q cpu))" "sorted (map (key_of s) (merged s cpu (Q cpu)))"
    "current s cpu \<notin> set (merged s cpu (Q cpu))"
    "members s Q cpu = insert (current s cpu) (set (merged s cpu (Q cpu)))"
proof -
  note D = sched_invD [OF assms]
  have "distinct (Q cpu)" using D(9) assms(2) chain_distinct by (auto simp: ready_ok_def ready_chain_def)
  then show "distinct (merged s cpu (Q cpu))"
    using D(1) assms(2) by (auto simp: merged_def queues_ok_def)
  show "sorted (map (key_of s) (merged s cpu (Q cpu)))" by (simp add: merged_def)
  show "current s cpu \<notin> set (merged s cpu (Q cpu))" using D(4,5) by simp
  show "members s Q cpu = insert (current s cpu) (set (merged s cpu (Q cpu)))"
    by (simp add: members_def)
qed

text \<open>After \<open>x\<close> has been taken: the rest of a switch that keeps the old process ready.\<close>

lemma rotate_ok:
  assumes inv: "sched_inv s Q" and cpu: "cpu < NPUN" and m: "merged s cpu (Q cpu) = x # xs"
    and t: "queues_only cpu s t" "queues_ok t (Q(cpu := xs))" "in_ipq t cpu = []"
    and s': "links_only t' s'" "queues_ok s' (Q(cpu := enq_list s (current s cpu) xs))"
    and t': "t' = t\<lparr>current := (current t)(cpu := x), current_pri := (current_pri t)(cpu := p_pri (procs t x))\<rparr>"
    and e: "e = (executing s)(cpu := p_stackptr (procs s x))"
  shows "let s'' = s'\<lparr>ctxs := c, executing := e, hw := h\<rparr>; Q'' = Q(cpu := enq_list s (current s cpu) xs)
    in switched_to cpu x s s'' \<and> sched_inv s'' Q'' \<and> in_ipq s'' cpu = [] \<and>
       members s'' Q'' cpu = members s Q cpu"
proof -
  note D = sched_invD [OF inv cpu] and M = merged_props [OF inv cpu]
  note q = queues_onlyD [OF t(1)] and l = links_onlyD [OF s'(1)]
  let ?s = "s'\<lparr>ctxs := c, executing := e, hw := h\<rparr>" and ?ys = "enq_list s (current s cpu) xs"
  have sw: "switched_to cpu x s ?s" using q l t' e by (simp add: switched_to_def)
  have i: "in_ipq ?s cpu = []" using l t' t(3) by simp
  have x: "x \<noteq> current s cpu" "x \<notin> set xs" "x \<in> members s Q cpu" using M m by auto
  have "sched_inv ?s (Q(cpu := ?ys))"
    using i M m x s'(2)
    by (intro sched_inv_switched [OF inv cpu sw]) auto
  moreover have "members ?s (Q(cpu := ?ys)) cpu = members s Q cpu"
    using sw i M(4) m by (auto simp: members_def switched_to_def)
  ultimately show ?thesis using sw i by (simp add: Let_def)
qed

lemma yield_cases:
  assumes inv: "sched_inv s Q" and cpu: "cpu < NPUN"
  defines "m \<equiv> merged s cpu (Q cpu)"
  defines "Q' \<equiv> Q(cpu := if length m \<le> 1 then m else enq_list s (current s cpu) (tl m))"
  shows "\<exists>s'. yield cpu s = Inr s' \<and> current s' cpu = (if length m \<le> 1 then current s cpu else hd m) \<and>
    sched_inv s' Q' \<and> members s' Q' cpu = members s Q cpu \<and>
    (2 \<le> length m \<longrightarrow>
      (top_running s' Q' cpu \<longleftrightarrow> \<not> pri_gt (p_pri (procs s (current s cpu))) (p_pri (procs s (hd m)))))"
proof -
  note M = merged_props [OF inv cpu]
  let ?s0 = "s\<lparr>hw := disable cpu (hw s)\<rparr>"
  have inv0: "sched_inv ?s0 Q" using inv by simp
  note D = sched_invD [OF inv0 cpu]
  consider "length m \<le> 1" | x y xs where "m = x # y # xs"
    by (cases m; cases "tl m") auto
  then show ?thesis
  proof cases
    case 1
    obtain t where t: "take1 cpu cpu ?s0 = Inr (NULL, t)" "queues_only cpu ?s0 t"
      "queues_ok t (Q(cpu := m))" "in_ipq t cpu = []"
      using take1_refuses [OF D(1) cpu] 1 by (auto simp: m_def)
    note q = queues_onlyD [OF t(2)]
    let ?s' = "t\<lparr>hw := enable cpu (hw t)\<rparr>"
    have run: "yield cpu s = Inr ?s'" using t(1) D(2,3) by (simp add: yield_def get_current_eq on_hw_eq)
    have c: "current ?s' cpu = current s cpu" using q by simp
    have sw: "switched_to cpu (current s cpu) s ?s'"
      using q inv cpu by (auto simp: switched_to_def sched_inv_def running_ok_def fun_eq_iff)
    have i': "in_ipq ?s' cpu = []" and ok': "queues_ok ?s' (Q(cpu := m))" using t(3,4) by simp_all
    have "sched_inv ?s' (Q(cpu := m))"
      using M i' by (intro sched_inv_switched [OF inv cpu sw ok']) (auto simp: m_def)
    moreover have "members ?s' (Q(cpu := m)) cpu = members s Q cpu"
      using c i' M(4) by (simp add: members_def m_def)
    ultimately show ?thesis using run c 1 by (auto simp: Q'_def)
  next
    case (2 x y xs)
    have m0: "merged ?s0 cpu (Q cpu) = x # y # xs" using 2 by (simp add: m_def)
    obtain t where t: "take1 cpu cpu ?s0 = Inr (x, t)" "queues_only cpu ?s0 t"
      "queues_ok t (Q(cpu := y # xs))" "in_ipq t cpu = []"
      using take1_ok [OF D(1) cpu m0] by blast
    note q = queues_onlyD [OF t(2)]
    have "x \<in> set m" using 2 by simp
    then have x: "x \<in> members s Q cpu" "x \<noteq> current s cpu"
      using M(3,4) [folded m_def] by auto
    have xn: "x \<noteq> NULL" "p_pun (procs s x) = cpu"
      using x sched_invD(7) [OF inv cpu, of x] by (auto simp: members_def)
    let ?t = "t\<lparr>current := (current t)(cpu := x), current_pri := (current_pri t)(cpu := p_pri (procs t x))\<rparr>"
    let ?c = "current s cpu"
    have t1: "set_current cpu x t = Inr ?t" using xn q by (intro set_current_eq) auto
    have e: "enq_list ?t ?c (y # xs) = enq_list s ?c (y # xs)"
      using q(13) by (simp add: enq_list_def)
    have "?c \<notin> set (y # xs)" using M(3) [folded m_def] 2 by simp
    with t(3,4) obtain u where u: "enqueue0 ?c ?t = Inr u" "links_only ?t u"
      "queues_ok u (Q(cpu := enq_list s ?c (y # xs)))"
      using enqueue0_queues_ok [of ?t "Q(cpu := y # xs)" ?c cpu] D(2,3) cpu q e by auto
    obtain c h where sc: "switch_context cpu In_yield ?c x u =
        Inr (u\<lparr>ctxs := c, executing := (executing u)(cpu := p_stackptr (procs u x)), hw := h\<rparr>)"
      using switch_context_ok [of ?c x cpu In_yield u] D(2) xn by auto
    let ?u' = "u\<lparr>ctxs := c, executing := (executing u)(cpu := p_stackptr (procs u x)), hw := h\<rparr>"
    obtain h' where rs: "resume_process cpu ?u' = ?u'\<lparr>hw := h'\<rparr>" by (rule resume_process_cases)
    have ex: "(executing u)(cpu := p_stackptr (procs u x)) = (executing s)(cpu := p_stackptr (procs s x))"
      using q links_onlyD [OF u(2)] by simp
    let ?s' = "?u'\<lparr>hw := h'\<rparr>"
    have run: "yield cpu s = Inr ?s'"
      using t(1) t1 u(1) sc rs D(2,3) xn by (simp add: yield_def get_current_eq on_hw_eq)
    have r: "switched_to cpu x s ?s'" "sched_inv ?s' (Q(cpu := enq_list s ?c (y # xs)))"
      "members ?s' (Q(cpu := enq_list s ?c (y # xs))) cpu = members s Q cpu"
      using rotate_ok [OF inv0 cpu m0 t(2,3,4) u(2) _ refl, where c = c and h = h'] u(3) ex
      by (simp_all add: Let_def)
    have "top_running ?s' (Q(cpu := enq_list s ?c (y # xs))) cpu \<longleftrightarrow> key_of s x \<le> key_of s ?c"
      using M(2) 2 r(1) by (auto simp: top_running_def m_def switched_to_def key_of_def)
    then show ?thesis using run r 2 by (auto simp: Q'_def switched_to_def pri_iffs key_of_def)
  qed
qed

lemma yield_ok:
  assumes "sched_inv s Q" and "cpu < NPUN"
  shows "\<exists>s' ys. yield cpu s = Inr s' \<and> sched_inv s' (Q(cpu := ys)) \<and>
    members s' (Q(cpu := ys)) cpu = members s Q cpu"
  using yield_cases [OF assms] by blast

text \<open>
  A process that yields goes behind the ready processes of its priority and the first
  process of the ready queue, in which the processes sent by the other processor have been
  merged, runs, unless that queue holds only the idle process, which is never yielded to. As
  the first process runs even if the yielding one outranks it, yielding keeps the best process
  running exactly if the yielding process does not outrank the head.
\<close>

theorem yield_rotates:
  assumes inv: "sched_inv s Q" and cpu: "cpu < NPUN"
  defines "m \<equiv> merged s cpu (Q cpu)"
  defines "Q' \<equiv> Q(cpu := if length m \<le> 1 then m else enq_list s (current s cpu) (tl m))"
  shows "\<exists>s'. yield cpu s = Inr s' \<and> current s' cpu = (if length m \<le> 1 then current s cpu else hd m) \<and>
    sched_inv s' Q' \<and> members s' Q' cpu = members s Q cpu \<and>
    (2 \<le> length m \<longrightarrow>
      (top_running s' Q' cpu \<longleftrightarrow> \<not> pri_gt (p_pri (procs s (current s cpu))) (p_pri (procs s (hd m)))))"
  unfolding m_def Q'_def by (rule yield_cases [OF inv cpu])

theorem yield_rotates_witness:
  "\<exists>s'. yield 0 sample_sched = Inr s' \<and> current s' 0 = 0x400"
  using yield_rotates [OF sample_sched_inv, of 0] by (auto simp: NPUN_def sample_merged)

subsection \<open>Preemption from an interrupt handler\<close>

text \<open>
  Taking the first process and putting the running one back, as
  \<^verbatim>\<open>schedule_from_interrupt\<close> does when the head of the ready queue outranks it.
\<close>

lemma interrupt_switch:
  assumes inv: "sched_inv s Q" and cpu: "cpu < NPUN" and m: "merged s cpu (Q cpu) = x # xs"
  shows "\<exists>s'. res_bind (take_proc cpu cpu s) (\<lambda>(proc, t).
            res_bind (enqueue0 (current s cpu) t) (\<lambda>t.
            res_bind (set_current cpu proc t) (\<lambda>t.
            res_bind (switch_interrupt_context cpu (current s cpu) proc t) (\<lambda>t. Inr (True, resume_process cpu t)))))
      = Inr (True, s') \<and>
    switched_to cpu x s s' \<and> sched_inv s' (Q(cpu := enq_list s (current s cpu) xs)) \<and>
    in_ipq s' cpu = [] \<and> members s' (Q(cpu := enq_list s (current s cpu) xs)) cpu = members s Q cpu \<and>
    hw s' = (hw s)\<lparr>thr_mask := thr_mask (hw s')\<rparr>"
proof -
  note M = merged_props [OF inv cpu] and D = sched_invD [OF inv cpu]
  let ?c = "current s cpu"
  obtain t where t: "take_proc cpu cpu s = Inr (x, t)" "queues_only cpu s t"
    "queues_ok t (Q(cpu := xs))" "in_ipq t cpu = []"
    using take_proc_ok [OF D(1) cpu m] by blast
  note q = queues_onlyD [OF t(2)]
  have mem: "set (merged s cpu (Q cpu)) = set (x # xs)" by (simp only: m)
  then have c: "?c \<notin> set xs" and x: "x \<in> members s Q cpu" "x \<noteq> ?c"
    using M(3,4) by auto
  have xn: "x \<noteq> NULL" "p_pun (procs s x) = cpu" "p_stackptr (procs s x) = proc_stack x"
    using x D(6,7) [of x] by (auto simp: members_def)
  obtain u where u: "enqueue0 ?c t = Inr u" "links_only t u"
    "queues_ok u (Q(cpu := enq_list s ?c xs))"
    using enqueue0_queues_ok [OF t(3), of ?c cpu] D(2,3) c cpu q t(4) by (auto simp: enq_list_def)
  let ?u = "u\<lparr>current := (current u)(cpu := x), current_pri := (current_pri u)(cpu := p_pri (procs u x))\<rparr>"
  note l = links_onlyD [OF u(2)]
  have su: "set_current cpu x u = Inr ?u" using xn q l by (intro set_current_eq) auto
  obtain k where r: "switch_interrupt_context cpu ?c x ?u =
      Inr (?u\<lparr>executing := (executing ?u)(cpu := proc_stack x), hw := (hw ?u)\<lparr>thr_mask := k\<rparr>\<rparr>)"
    using restore_context_ok [OF xn(1), of cpu ?u] by (auto simp: switch_interrupt_context_def)
  let ?r = "?u\<lparr>executing := (executing ?u)(cpu := proc_stack x), hw := (hw ?u)\<lparr>thr_mask := k\<rparr>\<rparr>"
  obtain k' where rs: "resume_process cpu ?r = ?r\<lparr>hw := (hw ?r)\<lparr>thr_mask := k'\<rparr>\<rparr>" by (rule resume_process_mask)
  let ?s' = "?r\<lparr>hw := (hw ?r)\<lparr>thr_mask := k'\<rparr>\<rparr>"
  have h: "hw ?s' = (hw s)\<lparr>thr_mask := thr_mask (hw ?s')\<rparr>" using q l by simp
  have sw: "switched_to cpu x s ?s'" using q l xn(3) by (simp add: switched_to_def)
  have i: "in_ipq ?s' cpu = []" using l t(4) by simp
  have ok: "queues_ok ?s' (Q(cpu := enq_list s ?c xs))" using u(3) by simp
  have mm: "members ?s' (Q(cpu := enq_list s ?c xs)) cpu = members s Q cpu"
    using i mem M(4) by (auto simp: members_def)
  have "x \<notin> set xs" using M(1) m by simp
  then have "sched_inv ?s' (Q(cpu := enq_list s ?c xs))"
    using i x mm sw
    by (intro sched_inv_switched [OF inv cpu sw ok x(1)]) (auto simp: members_def switched_to_def)
  then show ?thesis using t(1) u(1) su r rs sw i mm h by (intro exI [of _ ?s']) simp
qed

lemma schedule_from_interrupt_ok:
  assumes inv: "sched_inv s Q" and cpu: "cpu < NPUN"
  shows "\<exists>b s' ys. schedule_from_interrupt cpu s = Inr (b, s') \<and> sched_inv s' (Q(cpu := ys)) \<and>
    top_running s' (Q(cpu := ys)) cpu \<and> members s' (Q(cpu := ys)) cpu = members s Q cpu \<and>
    key_of s (current s' cpu) \<le> key_of s (current s cpu) \<and>
    (b \<longrightarrow> key_of s (current s' cpu) < key_of s (current s cpu) \<and> in_ipq s' cpu = []) \<and>
    (\<not> b \<longrightarrow> s' = s \<and> ys = Q cpu) \<and> hw s' = (hw s)\<lparr>thr_mask := thr_mask (hw s')\<rparr> \<and>
    switched_to cpu (current s' cpu) s s' \<and>
    (\<forall>y. p_sched_state (procs s' y) = p_sched_state (procs s y) \<and> p_alt_state (procs s' y) = p_alt_state (procs s y))"
proof -
  note D = sched_invD [OF inv cpu] and M = merged_props [OF inv cpu]
  let ?c = "current s cpu" and ?m = "merged s cpu (Q cpu)"
  have ch: "chain (next_of s) (rdyQues s cpu) (Q cpu)"
    using D(9) cpu by (simp add: ready_ok_def ready_chain_def)
  show ?thesis
  proof (cases "\<exists>y ys. Q cpu = y # ys \<and> key_of s y < key_of s ?c")
    case True
    then obtain y ys where y: "Q cpu = y # ys" "key_of s y < key_of s ?c" by blast
    have ym: "y \<in> set ?m" using y by simp
    then obtain x xs where m: "?m = x # xs" by (cases ?m) auto
    have xy: "key_of s x \<le> key_of s y" using M(2) ym m by auto
    obtain s' where s': "res_bind (take_proc cpu cpu s) (\<lambda>(proc, t).
            res_bind (enqueue0 ?c t) (\<lambda>t. res_bind (set_current cpu proc t) (\<lambda>t.
            res_bind (switch_interrupt_context cpu ?c proc t) (\<lambda>t. Inr (True, resume_process cpu t))))) = Inr (True, s')"
      "switched_to cpu x s s'" "sched_inv s' (Q(cpu := enq_list s ?c xs))" "in_ipq s' cpu = []"
      "members s' (Q(cpu := enq_list s ?c xs)) cpu = members s Q cpu"
      "hw s' = (hw s)\<lparr>thr_mask := thr_mask (hw s')\<rparr>"
      using interrupt_switch [OF inv cpu m] by (elim exE conjE) (rule that)
    have "rdyQues s cpu = y" "y \<noteq> NULL" using ch y by simp_all
    then have run: "schedule_from_interrupt cpu s = Inr (True, s')"
      using s'(1) y(2) D(2,3)
      by (simp add: schedule_from_interrupt_def get_current_eq Let_def pri_iffs key_of_def)
    have "top_running s' (Q(cpu := enq_list s ?c xs)) cpu"
      using M(2) m xy y(2) by (intro top_running_change [OF s'(2)]) auto
    moreover have "current s' cpu = x" using s'(2) by (simp add: switched_to_def)
    moreover have "\<forall>z. p_sched_state (procs s' z) = p_sched_state (procs s z) \<and>
        p_alt_state (procs s' z) = p_alt_state (procs s z)"
      using s'(2) by (simp add: switched_to_def)
    moreover have "switched_to cpu (current s' cpu) s s'" using s'(2) calculation(2) by simp
    ultimately show ?thesis using run s' xy y(2)
      by (intro exI [of _ True] exI [of _ s'] exI [of _ "enq_list s ?c xs"]) auto
  next
    case False
    have "\<not> (rdyQues s cpu \<noteq> NULL \<and> key_of s (rdyQues s cpu) < key_of s ?c)"
      using False ch by (cases "Q cpu") auto
    then have run: "schedule_from_interrupt cpu s = Inr (False, s)"
      using D(2,3) by (auto simp: schedule_from_interrupt_def get_current_eq Let_def pri_iffs key_of_def)
    have "top_running s Q cpu"
      using False D(8) by (cases "Q cpu") (auto simp: top_running_def)
    moreover have "switched_to cpu (current s cpu) s s"
      by (rule switched_to_links_only [OF links_only_refl inv cpu])
    ultimately show ?thesis using run inv
      by (intro exI [of _ False] exI [of _ s] exI [of _ "Q cpu"]) simp
  qed
qed

text \<open>
  C12. A handler that has made processes ready ends with \<^verbatim>\<open>schedule_from_interrupt\<close>:
  whatever the handler enqueued, afterwards no ready process outranks the running one, and the
  processor changes hands only to a process that outranks the interrupted one.
\<close>

theorem schedule_from_interrupt_best:
  assumes "sched_inv s Q" and "cpu < NPUN"
  shows "\<exists>b s' ys. schedule_from_interrupt cpu s = Inr (b, s') \<and> sched_inv s' (Q(cpu := ys)) \<and>
    top_running s' (Q(cpu := ys)) cpu \<and> members s' (Q(cpu := ys)) cpu = members s Q cpu \<and>
    (if b then pri_gt (p_pri (procs s (current s' cpu))) (p_pri (procs s (current s cpu))) else s' = s)"
proof -
  obtain b s' ys where "schedule_from_interrupt cpu s = Inr (b, s')" "sched_inv s' (Q(cpu := ys))"
    "top_running s' (Q(cpu := ys)) cpu" "members s' (Q(cpu := ys)) cpu = members s Q cpu"
    "b \<longrightarrow> key_of s (current s' cpu) < key_of s (current s cpu)" "\<not> b \<longrightarrow> s' = s"
    using schedule_from_interrupt_ok [OF assms] by blast
  then show ?thesis
    by (intro exI [of _ b] exI [of _ s'] exI [of _ ys]) (simp add: pri_iffs key_of_def)
qed

theorem schedule_from_interrupt_best_witness:
  "\<exists>b s' ys. schedule_from_interrupt 0 sample_sched = Inr (b, s') \<and> top_running s' (sample_queues(0 := ys)) 0"
  using schedule_from_interrupt_best [OF sample_sched_inv, of 0] by (auto simp: NPUN_def)

subsection \<open>The interprocessor interrupt\<close>

lemma ipq_remove_empty:
  assumes "sched_inv s Q" and "cpu < NPUN" and "in_ipq s cpu = []"
  shows "ipq_remove cpu s = (NULL, s)"
proof -
  have "ipq_wf (ipQues s cpu)" using assms by (simp add: sched_inv_def queues_ok_def)
  from ring.get_empty [OF this] assms(3) show ?thesis by (simp add: ipq_remove_def in_ipq_def)
qed

lemma ipq_remove_first:
  assumes inv: "sched_inv s Q" and cpu: "cpu < NPUN" and xs: "in_ipq s cpu = x # xs"
  shows "\<exists>s'. ipq_remove cpu s = (x, s') \<and> sched_inv s' Q \<and> idle_on s' Q cpu x \<and>
    in_ipq s' cpu = xs \<and> current s' = current s \<and> key_of s' = key_of s \<and>
    members s Q cpu = insert x (members s' Q cpu) \<and> top_running s' Q cpu = top_running s Q cpu"
proof -
  note D = sched_invD [OF inv cpu]
  have wf: "ipq_wf (ipQues s cpu)" using D(1) cpu by (simp add: queues_ok_def)
  obtain q where q: "ipq_get (ipQues s cpu) = (x, q)" "ipq_wf q" "ipq_contents q = xs"
    using ring.get_first [OF wf] xs by (metis in_ipq_def)
  let ?s = "s\<lparr>ipQues := (ipQues s)(cpu := q)\<rparr>"
  have rem: "ipq_remove cpu s = (x, ?s)" using q by (simp add: ipq_remove_def)
  have i: "in_ipq ?s = (in_ipq s)(cpu := xs)" using q(3) by (auto simp: in_ipq_def fun_eq_iff)
  have x: "x \<noteq> NULL" "p_pun (procs s x) = cpu" "p_stackptr (procs s x) = proc_stack x"
    using D(6,7) [of x] xs by (auto simp: members_def)
  have dist: "distinct (x # xs)" "x \<notin> set (Q cpu)" "x \<noteq> current s cpu"
    using D(1,5) cpu xs by (auto simp: queues_ok_def)
  have "ready_ok ?s Q" using ready_ok_cong [of ?s s Q] D(9) by simp
  moreover have "ipq_wf (ipQues ?s p) \<and> (\<forall>x \<in> set (in_ipq ?s p). p_pun (procs s x) = p) \<and>
      distinct (in_ipq ?s p) \<and> set (in_ipq ?s p) \<inter> set (Q p) = {}" if "p < NPUN" for p
  proof -
    have old: "ipq_wf (ipQues s p)" "\<forall>x \<in> set (in_ipq s p). p_pun (procs s x) = p"
      "distinct (in_ipq s p)" "set (in_ipq s p) \<inter> set (Q p) = {}"
      using D(1) that by (simp_all add: queues_ok_def)
    show ?thesis
    proof (cases "p = cpu")
      case True
      with old xs have "set xs \<inter> set (Q cpu) = {}" by auto
      with True old q(2) i xs show ?thesis by simp
    qed (use old i in simp)
  qed
  ultimately have "queues_ok ?s Q" by (simp add: queues_ok_def)
  then have "sched_inv ?s Q"
    using inv i xs by (auto simp: sched_inv_def running_ok_def members_def)
  moreover have "idle_on ?s Q cpu x" using x dist i by (simp add: idle_on_def members_def)
  moreover have "members s Q cpu = insert x (members ?s Q cpu)"
    using xs i by (auto simp: members_def)
  moreover have "top_running ?s Q cpu = top_running s Q cpu" by (simp add: top_running_def)
  ultimately show ?thesis using rem i by (intro exI [of _ ?s]) simp
qed

lemma switched_to_key: "switched_to cpu y s s' \<Longrightarrow> key_of s' = key_of s"
  by (simp add: switched_to_def key_of_def fun_eq_iff)

lemma interproc_loop_stop:
  "ipq_remove cpu s = (NULL, s1) \<Longrightarrow> interproc_loop cpu s = Some (Inr (False, s1))"
  by (subst interproc_loop.simps) simp

lemma interproc_loop_go:
  "ipq_remove cpu s = (x, s1) \<Longrightarrow> x \<noteq> NULL \<Longrightarrow> schedule0 In_interproc cpu x s1 = Inr (b, s2) \<Longrightarrow>
    interproc_loop cpu s = (if b then Some (Inr (True, s2)) else interproc_loop cpu s2)"
  by (subst interproc_loop.simps) simp

lemma interproc_loop_ok:
  assumes "sched_inv s Q" and "cpu < NPUN" and "top_running s Q cpu"
  shows "\<exists>b s' ys. interproc_loop cpu s = Some (Inr (b, s')) \<and> sched_inv s' (Q(cpu := ys)) \<and>
    top_running s' (Q(cpu := ys)) cpu \<and> members s' (Q(cpu := ys)) cpu = members s Q cpu \<and>
    key_of s' = key_of s \<and>
    (if b then key_of s (current s' cpu) < key_of s (current s cpu)
     else current s' cpu = current s cpu \<and> in_ipq s' cpu = [])"
  using assms
proof (induction "in_ipq s cpu" arbitrary: s Q)
  case Nil
  then show ?case
    using interproc_loop_stop [OF ipq_remove_empty [OF Nil.prems(1,2)]] Nil
    by (intro exI [of _ False] exI [of _ s] exI [of _ "Q cpu"]) simp
next
  case (Cons x xs)
  obtain s1 where s1: "ipq_remove cpu s = (x, s1)" "sched_inv s1 Q" "idle_on s1 Q cpu x"
    "in_ipq s1 cpu = xs" "current s1 = current s" "key_of s1 = key_of s"
    "members s Q cpu = insert x (members s1 Q cpu)" "top_running s1 Q cpu = top_running s Q cpu"
    using ipq_remove_first [OF Cons.prems(1,2) Cons.hyps(2) [symmetric]] by blast
  have xn: "x \<noteq> NULL" using s1(3) by (simp add: idle_on_def)
  obtain b s2 where s2: "schedule0 In_interproc cpu x s1 = Inr (b, s2)"
    "b \<longleftrightarrow> key_of s1 x < key_of s1 (current s1 cpu)"
    "switched_to cpu (if b then x else current s1 cpu) s1 s2" "in_ipq s2 = in_ipq s1"
    "sched_inv s2 (Q(cpu := enq_list s1 (if b then current s1 cpu else x) (Q cpu)))"
    using schedule0_local [OF s1(2) Cons.prems(2) s1(3), where site = In_interproc]
    by (elim exE conjE) (rule that)
  let ?y = "if b then current s1 cpu else x"
  let ?Q = "Q(cpu := enq_list s1 ?y (Q cpu))"
  have c2: "current s2 cpu = (if b then x else current s1 cpu)"
    using s2(3) by (simp add: switched_to_def)
  have k2: "key_of s2 = key_of s" using switched_to_key [OF s2(3)] s1(6) by simp
  have m2: "members s2 ?Q cpu = members s Q cpu"
    using c2 s1(7) s2(4) by (auto simp: members_def)
  have t2: "top_running s2 ?Q cpu"
    using s1(8) Cons.prems(3) s2(2) by (intro top_running_change [OF s2(3)]) (auto simp: top_running_def)
  show ?case
  proof (cases b)
    case True
    with s2 m2 t2 c2 k2 s1(5,6) interproc_loop_go [OF s1(1) xn s2(1)] show ?thesis
      by (intro exI [of _ True] exI [of _ s2] exI [of _ "enq_list s1 ?y (Q cpu)"]) simp
  next
    case False
    have "xs = in_ipq s2 cpu" using s2(4) s1(4) by simp
    from Cons.hyps(1) [OF this s2(5) Cons.prems(2) t2]
    obtain b' s' ys where "interproc_loop cpu s2 = Some (Inr (b', s'))" "sched_inv s' (?Q(cpu := ys))"
      "top_running s' (?Q(cpu := ys)) cpu" "members s' (?Q(cpu := ys)) cpu = members s2 ?Q cpu"
      "key_of s' = key_of s2" "if b' then key_of s2 (current s' cpu) < key_of s2 (current s2 cpu)
       else current s' cpu = current s2 cpu \<and> in_ipq s' cpu = []"
      by (elim exE conjE) (rule that)
    with False m2 c2 k2 s1(5) interproc_loop_go [OF s1(1) xn s2(1)] show ?thesis
      by (intro exI [of _ b'] exI [of _ s'] exI [of _ ys]) (simp cong: if_cong)
  qed
qed

lemma interproc_ok:
  assumes inv: "sched_inv s Q" and cpu: "cpu < NPUN" and top: "top_running s Q cpu"
  shows "\<exists>b s' ys. handle_interprocessor_interrupt cpu s = Inr (b, s') \<and> sched_inv s' (Q(cpu := ys)) \<and>
    top_running s' (Q(cpu := ys)) cpu \<and> members s' (Q(cpu := ys)) cpu = members s Q cpu \<and>
    (if b then pri_gt (p_pri (procs s (current s' cpu))) (p_pri (procs s (current s cpu)))
     else current s' cpu = current s cpu \<and> in_ipq s' cpu = [])"
proof -
  obtain b s1 ys where l: "interproc_loop cpu s = Some (Inr (b, s1))" "sched_inv s1 (Q(cpu := ys))"
    "top_running s1 (Q(cpu := ys)) cpu" "members s1 (Q(cpu := ys)) cpu = members s Q cpu"
    "key_of s1 = key_of s" "if b then key_of s (current s1 cpu) < key_of s (current s cpu)
     else current s1 cpu = current s cpu \<and> in_ipq s1 cpu = []"
    using interproc_loop_ok [OF assms] by (elim exE conjE) (rule that)
  have key: "key_of s x < key_of s y \<longleftrightarrow> pri_gt (p_pri (procs s x)) (p_pri (procs s y))" for x y
    by (simp add: pri_iffs key_of_def)
  show ?thesis
  proof (cases b)
    case True
    obtain h where "resume_process cpu s1 = s1\<lparr>hw := h\<rparr>" by (rule resume_process_cases)
    with True l key show ?thesis
      by (intro exI [of _ True] exI [of _ "s1\<lparr>hw := h\<rparr>"] exI [of _ ys]) (simp add: handle_interprocessor_interrupt_def)
  next
    case False
    obtain b' s' zs where f: "schedule_from_interrupt cpu s1 = Inr (b', s')"
      "sched_inv s' ((Q(cpu := ys))(cpu := zs))" "top_running s' ((Q(cpu := ys))(cpu := zs)) cpu"
      "members s' ((Q(cpu := ys))(cpu := zs)) cpu = members s1 (Q(cpu := ys)) cpu"
      "b' \<longrightarrow> key_of s1 (current s' cpu) < key_of s1 (current s1 cpu)" "\<not> b' \<longrightarrow> s' = s1"
      using schedule_from_interrupt_ok [OF l(2) cpu] by blast
    with False l key show ?thesis
      by (intro exI [of _ b'] exI [of _ s'] exI [of _ zs]) (simp add: handle_interprocessor_interrupt_def)
  qed
qed

text \<open>
  C13. The interprocessor interrupt ends, loses and duplicates no process, and leaves the best
  process running: if it returns to the interrupted process then the queue from the other
  processor is empty and nothing ready outranks it, and otherwise a process that outranks the
  interrupted one has taken the processor.
\<close>

theorem interprocessor_interrupt:
  assumes inv: "sched_inv s Q" and cpu: "cpu < NPUN" and top: "top_running s Q cpu"
  shows "\<exists>b s' ys. handle_interprocessor_interrupt cpu s = Inr (b, s') \<and> sched_inv s' (Q(cpu := ys)) \<and>
    top_running s' (Q(cpu := ys)) cpu \<and> members s' (Q(cpu := ys)) cpu = members s Q cpu \<and>
    (if b then pri_gt (p_pri (procs s (current s' cpu))) (p_pri (procs s (current s cpu)))
     else current s' cpu = current s cpu \<and> in_ipq s' cpu = [])"
  by (rule interproc_ok [OF assms])

theorem interprocessor_interrupt_witness:
  "\<exists>b s' ys. handle_interprocessor_interrupt 0 sample_sched = Inr (b, s') \<and>
    members s' (sample_queues(0 := ys)) 0 = {0x300, 0x400, 0x100, 0x500}"
  using interprocessor_interrupt [OF sample_sched_inv _ sample_top]
  by (auto simp: NPUN_def sample_members)

subsection \<open>Several processes made ready\<close>

text \<open>
  Processes enqueued one after the other stand in the ready queue in the order of their
  priorities, and processes of one priority in the order in which they came.
\<close>

theorem ready_queue_order:
  assumes "queues_ok s Q" and "cpu < NPUN" and "distinct (Q cpu @ ys)"
    and "\<forall>y \<in> set ys. y \<noteq> NULL \<and> p_pun (procs s y) = cpu \<and> y \<notin> set (in_ipq s cpu)"
  shows "\<exists>s' zs. foldl (\<lambda>r y. res_bind r (enqueue0 y)) (Inr s) ys = Inr s' \<and> ready_chain s' cpu zs \<and>
    set zs = set (Q cpu @ ys) \<and> sorted (map (key_of s) zs) \<and>
    filter (\<lambda>z. key_of s z = k) zs = filter (\<lambda>z. key_of s z = k) (Q cpu @ ys)"
proof -
  have "ready_holds cpu s (Q cpu)" using assms(1,2) by (auto simp: ready_holds_def)
  moreover have "\<forall>y \<in> set ys. may_enqueue cpu s y" using assms(4) by (simp add: may_enqueue_def)
  ultimately obtain s' where s': "ready.insert_all ys s = Inr s'"
    "ready_holds cpu s' (sort_key (key_of s) (Q cpu @ ys))"
    using ready.insert_all_sorts [of cpu s "Q cpu" ys] assms(3) by blast
  let ?zs = "sort_key (key_of s) (Q cpu @ ys)"
  have "foldl (\<lambda>r y. res_bind r (enqueue0 y)) (Inr s) ys = Inr s'"
    using s'(1) by (simp add: ready.insert_all_def)
  moreover have "ready_chain s' cpu ?zs"
    using s'(2) by (auto simp: ready_holds_def queues_ok_def ready_ok_def)
  ultimately show ?thesis
    by (intro exI [of _ s'] exI [of _ ?zs]) (simp add: sort_key_stable del: filter_append)
qed

theorem ready_queue_order_witness:
  "\<exists>s' zs. foldl (\<lambda>r y. res_bind r (enqueue0 y)) (Inr sample_sched) [0x700, 0x600] = Inr s' \<and>
    ready_chain s' 0 zs \<and> set zs = {0x400, 0x100, 0x700, 0x600}"
proof -
  have "\<forall>y \<in> set [0x700, 0x600]. y \<noteq> NULL \<and> p_pun (procs sample_sched y) = 0 \<and> y \<notin> set (in_ipq sample_sched 0)"
    by (simp add: sample_in_ipq) (simp add: sample_sched_def sample_process_def)
  from ready_queue_order [OF sample_queues_ok _ _ this, of 512] show ?thesis
    by (auto simp: NPUN_def sample_queues_def)
qed

end
