(* ===== verification/Quiet.thy ===== *)
theory Quiet
  imports Sched_Steps
begin

text \<open>
  What no operation of the scheduler touches, whether the invariant holds or not: of the process
  records all but the links, and of the hardware all but the signal masks and the record of the
  signals sent. This \<open>core\<close> of the state is shown to be kept by each operation from its definition
  alone; \<^verbatim>\<open>relinquish\<close> makes the caller waiting first.
\<close>

definition core :: "sched \<Rightarrow> (addr \<Rightarrow> process) \<times> hw_state" where
  "core s = (\<lambda>y. (procs s y)\<lparr>p_next := NULL\<rparr>, (hw s)\<lparr>thr_mask := \<lambda>_. {}, os_sent := []\<rparr>)"

lemma core_fields [simp]:
  "core (s\<lparr>current := a\<rparr>) = core s" "core (s\<lparr>current_pri := b\<rparr>) = core s" "core (s\<lparr>rdyQues := r\<rparr>) = core s"
  "core (s\<lparr>ipQues := i\<rparr>) = core s" "core (s\<lparr>ctxs := x\<rparr>) = core s" "core (s\<lparr>executing := e\<rparr>) = core s"
  "core (set_next p q s) = core s" "core (on_hw (disable cpu) s) = core s" "core (on_hw (enable cpu) s) = core s"
  "core (s\<lparr>hw := (hw s)\<lparr>thr_mask := m\<rparr>\<rparr>) = core s" "core (s\<lparr>hw := (hw s)\<lparr>os_sent := ms\<rparr>\<rparr>) = core s"
  by (simp_all add: core_def set_next_def disable_def enable_def fun_eq_iff)

lemma core_eqD:
  assumes "core s' = core s"
  shows "p_pun (procs s' y) = p_pun (procs s y)" "p_stackptr (procs s' y) = p_stackptr (procs s y)"
    "p_pri (procs s' y) = p_pri (procs s y)" "p_sched_state (procs s' y) = p_sched_state (procs s y)"
    "p_alt_state (procs s' y) = p_alt_state (procs s y)" "key_of s' = key_of s"
    "(hw s')\<lparr>thr_mask := \<lambda>_. {}, os_sent := []\<rparr> = (hw s)\<lparr>thr_mask := \<lambda>_. {}, os_sent := []\<rparr>"
proof -
  have e: "(procs s' y)\<lparr>p_next := NULL\<rparr> = (procs s y)\<lparr>p_next := NULL\<rparr>" for y
    using assms by (simp add: core_def fun_eq_iff)
  have "p_pun (procs s' y) = p_pun (procs s y) \<and> p_stackptr (procs s' y) = p_stackptr (procs s y) \<and>
    p_pri (procs s' y) = p_pri (procs s y) \<and> p_sched_state (procs s' y) = p_sched_state (procs s y) \<and>
    p_alt_state (procs s' y) = p_alt_state (procs s y)" for y
    using e [of y] by (cases "procs s y"; cases "procs s' y") simp
  then show "p_pun (procs s' y) = p_pun (procs s y)" "p_stackptr (procs s' y) = p_stackptr (procs s y)"
    "p_pri (procs s' y) = p_pri (procs s y)" "p_sched_state (procs s' y) = p_sched_state (procs s y)"
    "p_alt_state (procs s' y) = p_alt_state (procs s y)" "key_of s' = key_of s"
    by (simp_all add: key_of_def fun_eq_iff)
  show "(hw s')\<lparr>thr_mask := \<lambda>_. {}, os_sent := []\<rparr> = (hw s)\<lparr>thr_mask := \<lambda>_. {}, os_sent := []\<rparr>"
    using assms by (simp add: core_def)
qed

lemma core_eq_hwD:
  assumes "core s' = core s"
  shows "os_readings (hw s') = os_readings (hw s)" "n_readings (hw s') = n_readings (hw s)"
    "os_timers (hw s') = os_timers (hw s)" "timer (hw s') = timer (hw s)" "SIGBASE (hw s') = SIGBASE (hw s)"
    "os_SIGRTMIN (hw s') = os_SIGRTMIN (hw s)" "os_SIGRTMAX (hw s') = os_SIGRTMAX (hw s)"
    "next_signo (hw s') = next_signo (hw s)" "interrupt (hw s') = interrupt (hw s)"
    "signal_no (hw s') = signal_no (hw s)" "sigmask (hw s') = sigmask (hw s)"
  using core_eqD(7) [OF assms] by (cases "hw s"; cases "hw s'"; simp)+

subsection \<open>Enqueueing and taking\<close>

lemma enqueue0_core: "enqueue0 x s = Inr s' \<Longrightarrow> core s' = core s"
  by (auto simp: enqueue0_def Let_def split: if_splits prod.splits)

lemma ipq_remove_core: "ipq_remove cpu s = (x, s') \<Longrightarrow> core s' = core s"
  by (auto simp: ipq_remove_def split: prod.splits)

lemma drain_ipq_core:
  assumes "drain_ipq cpu s = Some r"
  shows "\<forall>s'. r = Inr s' \<longrightarrow> core s' = core s"
proof (rule drain_ipq.raw_induct [OF _ assms])
  fix f cpu s r
  assume ih: "\<And>cpu s r. f cpu s = Some r \<Longrightarrow> \<forall>s'. r = Inr s' \<longrightarrow> core s' = core s"
    and body: "(let (x, s1) = ipq_remove cpu s in if x = NULL then Some (Inr s1)
      else case enqueue0 x s1 of Inl e \<Rightarrow> Some (Inl e) | Inr s2 \<Rightarrow> f cpu s2) = Some r"
  obtain x s1 where s1: "ipq_remove cpu s = (x, s1)" by force
  with body ih ipq_remove_core [OF s1] show "\<forall>s'. r = Inr s' \<longrightarrow> core s' = core s"
    by (auto split: if_splits sum.splits dest!: enqueue0_core)
qed

lemma drained_core: "drained cpu s = Inr s' \<Longrightarrow> core s' = core s"
  by (auto simp: drained_def of_loop_def split: option.splits dest: drain_ipq_core)

lemma take_proc_core: "take_proc cpu pun s = Inr (x, s') \<Longrightarrow> core s' = core s"
  by (auto simp: take_proc_def Let_def dest!: drained_core split: if_splits)

lemma take1_core: "take1 cpu pun s = Inr (x, s') \<Longrightarrow> core s' = core s"
  by (auto simp: take1_def Let_def dest!: drained_core split: if_splits)

subsection \<open>Switching\<close>

lemma set_current_core: "set_current cpu x s = Inr s' \<Longrightarrow> core s' = core s"
  by (auto simp: set_current_def split: if_splits)

lemma core_mask: "hw s' = (hw s)\<lparr>thr_mask := m\<rparr> \<Longrightarrow> procs s' = procs s \<Longrightarrow> core s' = core s"
  by (simp add: core_def)

lemma switch_context_core: "switch_context cpu site a b s = Inr s' \<Longrightarrow> core s' = core s"
  by (auto simp: switch_context_def Let_def core_def split: if_splits)

lemma restore_context_core: "restore_context cpu p s = Inr s' \<Longrightarrow> core s' = core s"
  by (auto simp: restore_context_def core_def split: if_splits)

lemma resume_process_core [simp]: "core (resume_process cpu s) = core s"
  by (simp add: resume_process_def split: resume_point.splits)

lemma ipq_add_core: "ipq_add p x s = Inr s' \<Longrightarrow> core s' = core s"
  by (auto simp: ipq_add_def send_interprocessor_interrupt_def send_interrupt_def Let_def core_def
      split: if_splits option.splits)

lemmas core_ops = enqueue0_core take_proc_core take1_core set_current_core switch_context_core
  restore_context_core ipq_add_core

subsection \<open>The operations\<close>

lemma schedule0_core: "schedule0 site cpu x s = Inr (b, s') \<Longrightarrow> core s' = core s"
  by (auto simp: schedule0_def split: if_splits dest!: core_ops)

lemma schedule_core: "schedule cpu x s = Inr s' \<Longrightarrow> core s' = core s"
  by (auto simp: schedule_def split: if_splits dest!: schedule0_core)

lemma schedule_from_interrupt_core: "schedule_from_interrupt cpu s = Inr (b, s') \<Longrightarrow> core s' = core s"
  by (auto simp: schedule_from_interrupt_def switch_interrupt_context_def Let_def split: if_splits dest!: core_ops)

lemma yield_core: "yield cpu s = Inr s' \<Longrightarrow> core s' = core s"
  by (auto simp: yield_def Let_def split: if_splits dest!: core_ops)

lemma relinquish_core:
  assumes "relinquish cpu s = Inr s'" and "p_sched_state (procs s (current s cpu)) = PROC_PREPARING_TO_WAIT"
  shows "core s' = core (set_sched_state (current s cpu) PROC_WAITING s)"
  using assms by (auto simp: relinquish_def get_current_def Let_def split: if_splits dest!: core_ops)

lemma interproc_loop_core:
  assumes "interproc_loop cpu s = Some r"
  shows "\<forall>b s'. r = Inr (b, s') \<longrightarrow> core s' = core s"
proof (rule interproc_loop.raw_induct [OF _ assms])
  fix f cpu s r
  assume ih: "\<And>cpu s r. f cpu s = Some r \<Longrightarrow> \<forall>b s'. r = Inr (b, s') \<longrightarrow> core s' = core s"
    and body: "(let (x, s1) = ipq_remove cpu s in if x = NULL then Some (Inr (False, s1))
      else case schedule0 In_interproc cpu x s1 of Inl e \<Rightarrow> Some (Inl e)
        | Inr (switched, s2) \<Rightarrow> if switched then Some (Inr (True, s2)) else f cpu s2) = Some r"
  obtain x s1 where s1: "ipq_remove cpu s = (x, s1)" by force
  with body ih ipq_remove_core [OF s1] show "\<forall>b s'. r = Inr (b, s') \<longrightarrow> core s' = core s"
    by (fastforce split: if_splits sum.splits dest!: schedule0_core)
qed

lemma interproc_core: "handle_interprocessor_interrupt cpu s = Inr (b, s') \<Longrightarrow> core s' = core s"
  by (auto simp: handle_interprocessor_interrupt_def of_loop_def split: if_splits option.splits
      dest!: interproc_loop_core schedule_from_interrupt_core)

end
