(* ===== verification/Kernel.thy ===== *)
theory Kernel
  imports Quiet
begin

text \<open>
  The state of the whole kernel and the shape of its operations. An operation runs on behalf of a
  process of a fixed processor. It is done, it fails, or it pauses: the process has lost the
  processor (or spins for a mutex), the others go on from the state of the pause, and the operation
  continues with the function stored in the pause, applied to the state in which its process is
  switched in again. A process may wait for a mutex any number of times, so the type is coinductive.
  The locks of \<^verbatim>\<open>mutex.c\<close> are modelled here, because every later component uses them.
\<close>

subsection \<open>State\<close>

text \<open>The locks: one of the memory module, one of each channel, one of each termination stack.\<close>

datatype mutex_id = Mutex_mem | Mutex_chan addr | Mutex_term pun

record timeoutdesc =
  t_time :: Time
  t_proc :: addr
  t_next :: addr
  t_type :: uint16

record channel =
  waiting :: addr
  io_ptr :: addr  \<comment> \<open>the union of \<^verbatim>\<open>src\<close> and \<^verbatim>\<open>dest\<close>\<close>

record parbarrier =
  children :: int
  parent :: addr

record cxp =
  sch :: sched
  claimed :: "mutex_id \<Rightarrow> bool"
  procmemlist :: "nat \<Rightarrow> addr"
  blk_next :: "addr \<Rightarrow> addr"
  taillen :: uint32
  tail :: addr
  interrupts :: "pun \<Rightarrow> nat \<Rightarrow> addr"
  currentTime :: Time
  timeQue :: "pun \<Rightarrow> addr"
  tmos :: "addr \<Rightarrow> timeoutdesc"
  chans :: "addr \<Rightarrow> channel"
  barriers :: "addr \<Rightarrow> parbarrier"
  heap :: "addr \<Rightarrow> uint8"

definition proc_of :: "cxp \<Rightarrow> addr \<Rightarrow> process" where
  "proc_of c p = procs (sch c) p"

subsection \<open>Operations\<close>

codatatype 'a run =
    Done 'a cxp
  | Fail err
  | Paused cxp "cxp \<Rightarrow> 'a run"

primcorec run_bind :: "'a run \<Rightarrow> ('a \<Rightarrow> cxp \<Rightarrow> 'b run) \<Rightarrow> 'b run" where
  "run_bind r f = (case r of
     Done a c \<Rightarrow> f a c
   | Fail e \<Rightarrow> Fail e
   | Paused c k \<Rightarrow> Paused c (\<lambda>c'. run_bind (k c') f))"

lemma run_bind_simps [simp]:
  "run_bind (Done a c) f = f a c"
  "run_bind (Fail e) f = Fail e"
  "run_bind (Paused c k) f = Paused c (\<lambda>c'. run_bind (k c') f)"
  by (simp_all add: run_bind.code [of "Done a c"] run_bind.code [of "Fail e"] run_bind.code [of "Paused c k"])

lemma run_bind_Done [simp]: "run_bind r Done = r"
proof (coinduction arbitrary: r rule: run.coinduct_strong)
  case Eq_run
  then show ?case by (cases r) (auto simp: rel_fun_def)
qed

text \<open>
  \<open>results P r\<close>: whenever and in whatever state the operation is continued after its pauses, a
  value that it returns satisfies \<open>P\<close>.
\<close>

coinductive results :: "('a \<Rightarrow> bool) \<Rightarrow> 'a run \<Rightarrow> bool" for P where
  results_Done: "P a \<Longrightarrow> results P (Done a c)"
| results_Fail: "results P (Fail e)"
| results_Paused: "(\<And>c'. results P (k c')) \<Longrightarrow> results P (Paused c k)"

inductive_simps results_simps [simp]:
  "results P (Done a c)" "results P (Fail e)" "results P (Paused c k)"

lemma results_mono: "results P r \<Longrightarrow> (\<And>a. P a \<Longrightarrow> Q a) \<Longrightarrow> results Q r"
proof (coinduction arbitrary: r)
  case results
  then show ?case by (cases r) auto
qed

lemma results_any: "results (\<lambda>_. True) r"
proof (coinduction arbitrary: r)
  case results
  then show ?case by (cases r) auto
qed

lemma results_bind:
  assumes "results P r" and "\<And>a c. P a \<Longrightarrow> results Q (f a c)"
  shows "results Q (run_bind r f)"
  using assms(1)
proof (coinduction arbitrary: r)
  case results
  then show ?case
  proof (cases r)
    case (Done a c)
    then have "results Q (f a c)" using results assms(2) by simp
    then show ?thesis unfolding Done run_bind_simps
      by (cases "f a c") auto
  next
    case (Paused c k)
    then show ?thesis using results by auto
  qed auto
qed

lemma run_bind_cong_results:
  assumes "results P r" and "\<And>a c. P a \<Longrightarrow> f a c = g a c"
  shows "run_bind r f = run_bind r g"
  using assms(1)
proof (coinduction arbitrary: r rule: run.coinduct_strong)
  case Eq_run
  then show ?case using assms(2) by (cases r) (auto simp: rel_fun_def)
qed

text \<open>A step of the scheduler in which the calling process keeps the processor.\<close>

definition on_sched :: "(sched \<Rightarrow> sched res) \<Rightarrow> cxp \<Rightarrow> unit run" where
  "on_sched f c = (case f (sch c) of Inl e \<Rightarrow> Fail e | Inr s \<Rightarrow> Done () (c\<lparr>sch := s\<rparr>))"

text \<open>
  A step in which it may lose the processor: then the operation goes on when the process is
  switched in again.
\<close>

definition switching :: "pun \<Rightarrow> (sched \<Rightarrow> sched res) \<Rightarrow> cxp \<Rightarrow> unit run" where
  "switching cpu f c = (case f (sch c) of
     Inl e \<Rightarrow> Fail e
   | Inr s \<Rightarrow> if current s cpu = current (sch c) cpu then Done () (c\<lparr>sch := s\<rparr>)
              else Paused (c\<lparr>sch := s\<rparr>) (Done ()))"

definition the_current :: "pun \<Rightarrow> cxp \<Rightarrow> addr run" where
  "the_current cpu c = (case get_current cpu (sch c) of Inl e \<Rightarrow> Fail e | Inr p \<Rightarrow> Done p c)"

definition put_sched :: "(sched \<Rightarrow> sched) \<Rightarrow> cxp \<Rightarrow> cxp" where
  "put_sched f c = c\<lparr>sch := f (sch c)\<rparr>"

lemma on_sched_simps [simp]:
  "f (sch c) = Inr s \<Longrightarrow> on_sched f c = Done () (c\<lparr>sch := s\<rparr>)"
  "f (sch c) = Inl e \<Longrightarrow> on_sched f c = Fail e"
  by (simp_all add: on_sched_def)

lemma switching_simps:
  "f (sch c) = Inr s \<Longrightarrow> current s cpu = current (sch c) cpu \<Longrightarrow> switching cpu f c = Done () (c\<lparr>sch := s\<rparr>)"
  "f (sch c) = Inr s \<Longrightarrow> current s cpu \<noteq> current (sch c) cpu \<Longrightarrow>
     switching cpu f c = Paused (c\<lparr>sch := s\<rparr>) (Done ())"
  "f (sch c) = Inl e \<Longrightarrow> switching cpu f c = Fail e"
  by (simp_all add: switching_def)

lemma the_current_eq [simp]: "current (sch c) cpu \<noteq> NULL \<Longrightarrow> the_current cpu c = Done (current (sch c) cpu) c"
  by (simp add: the_current_def get_current_eq)

subsection \<open>Mutexes (mutex.c)\<close>

definition TRIALS_BEFORE_YIELD :: nat where "TRIALS_BEFORE_YIELD = 5"

definition init_mutex :: "mutex_id \<Rightarrow> cxp \<Rightarrow> cxp" where
  "init_mutex m c = c\<lparr>claimed := (claimed c)(m := False)\<rparr>"

definition release_mutex :: "mutex_id \<Rightarrow> cxp \<Rightarrow> cxp" where
  "release_mutex m c = c\<lparr>claimed := (claimed c)(m := False)\<rparr>"

text \<open>
  The inner loop: up to five atomic exchanges; the value is the last old value, with the number of
  exchanges made.
\<close>

function try_claim :: "mutex_id \<Rightarrow> nat \<Rightarrow> cxp \<Rightarrow> (bool \<times> nat) \<times> cxp" where
  "try_claim m i c =
     (let oldvalue = claimed c m;
          c = c\<lparr>claimed := (claimed c)(m := True)\<rparr>;
          i = i + 1
      in if oldvalue \<and> i < TRIALS_BEFORE_YIELD then try_claim m i c else ((oldvalue, i), c))"
  by pat_completeness auto
termination
  by (relation "measure (\<lambda>(m, i, c). TRIALS_BEFORE_YIELD - i)") auto

declare try_claim.simps [simp del]

text \<open>
  After five failures the process yields and starts over; whether or not another process of this
  processor takes over, other processors act in between, so this is a pause.
\<close>

primcorec claim_mutex :: "pun \<Rightarrow> mutex_id \<Rightarrow> cxp \<Rightarrow> unit run" where
  "claim_mutex cpu m c =
     (let ((oldvalue, i), c1) = try_claim m 0 c
      in if \<not> oldvalue then Done () c1
         else case yield cpu (sch c1) of
             Inl e \<Rightarrow> Fail e
           | Inr s \<Rightarrow> Paused (c1\<lparr>sch := s\<rparr>) (\<lambda>c'. claim_mutex cpu m c'))"

lemma try_claim_free: "\<not> claimed c m \<Longrightarrow>
    try_claim m i c = ((False, i + 1), c\<lparr>claimed := (claimed c)(m := True)\<rparr>)"
  by (subst try_claim.simps) simp

lemma claimed_id: "claimed c m \<Longrightarrow> c\<lparr>claimed := (claimed c)(m := True)\<rparr> = c"
  by (simp add: fun_upd_idem)

lemma try_claim_taken:
  assumes "claimed c m" and "i < TRIALS_BEFORE_YIELD"
  shows "try_claim m i c = ((True, TRIALS_BEFORE_YIELD), c)"
  using assms
proof (induction "TRIALS_BEFORE_YIELD - i" arbitrary: i)
  case 0
  then show ?case by simp
next
  case (Suc n)
  show ?case
  proof (cases "Suc i < TRIALS_BEFORE_YIELD")
    case True
    then have "try_claim m (Suc i) c = ((True, TRIALS_BEFORE_YIELD), c)"
      using Suc by (intro Suc.hyps(1)) auto
    then show ?thesis using Suc.prems True claimed_id [of c m] by (subst try_claim.simps) simp
  next
    case False
    then have "Suc i = TRIALS_BEFORE_YIELD" using Suc.prems by simp
    then show ?thesis using Suc.prems claimed_id [of c m] by (subst try_claim.simps) simp
  qed
qed

lemma claim_mutex_free [simp]:
  "\<not> claimed c m \<Longrightarrow> claim_mutex cpu m c = Done () (c\<lparr>claimed := (claimed c)(m := True)\<rparr>)"
  by (subst claim_mutex.code) (simp add: try_claim_free)

lemma claim_mutex_taken:
  "claimed c m \<Longrightarrow> claim_mutex cpu m c =
    (case yield cpu (sch c) of Inl e \<Rightarrow> Fail e | Inr s \<Rightarrow> Paused (c\<lparr>sch := s\<rparr>) (claim_mutex cpu m))"
  by (subst claim_mutex.code) (simp add: try_claim_taken TRIALS_BEFORE_YIELD_def)

subsection \<open>A sample state\<close>

definition sample_cxp :: cxp where
  "sample_cxp = \<lparr>sch = sample_sched, claimed = (\<lambda>_. False), procmemlist = (\<lambda>_. NULL),
     blk_next = (\<lambda>_. NULL), taillen = 4096, tail = 0x10000, interrupts = (\<lambda>_ _. NULL),
     currentTime = 0, timeQue = (\<lambda>_. NULL),
     tmos = (\<lambda>_. \<lparr>t_time = 0, t_proc = NULL, t_next = NULL, t_type = 0\<rparr>),
     chans = (\<lambda>_. \<lparr>waiting = NULL, io_ptr = NULL\<rparr>),
     barriers = (\<lambda>_. \<lparr>children = 0, parent = NULL\<rparr>), heap = (\<lambda>_. 0)\<rparr>"

end
