(* ===== verification/Memory.thy ===== *)
theory Memory
  imports Kernel
begin

text \<open>
  The storage allocator of \<^verbatim>\<open>memory.c\<close>: one free list per size class, linked through the
  first word of the free blocks, and the rest of the memory as one tail from which new blocks are
  cut. The source of the memory itself, \<^verbatim>\<open>malloc\<close>, is an argument of
  \<open>memory_init\<close>.
\<close>

subsection \<open>The allocator\<close>

definition NALLOC :: nat where "NALLOC = 24"

definition TMO_INDEX :: nat where "TMO_INDEX = 0"

definition procmemlen :: "uint16 list" where
  "procmemlen = [18, 32, 48, 96, 128, 192, 256, 384, 512, 768, 1024, 1536,
     2048, 3072, 4096, 6144, 8192, 10240, 12288, 16384, 24576, 0]"

text \<open>The loop of \<^verbatim>\<open>find_mem_index\<close>, from index \<open>i\<close> on.\<close>

fun find_loop :: "uint32 \<Rightarrow> uint16 list \<Rightarrow> nat \<Rightarrow> nat res" where
  "find_loop sz [] i = Inl (OutOfBounds ''procmemlen'')"
| "find_loop sz (l # ls) i =
     (if l = 0 then Inr i
      else if sz \<le> ucast l then Inr i
      else find_loop sz ls (i + 1))"

definition find_mem_index :: "uint32 \<Rightarrow> nat res" where
  "find_mem_index sz =
     res_bind (find_loop sz procmemlen 0) (\<lambda>i.
       if procmemlen ! i \<noteq> 0 then Inr i else Inl (Plotz ''No memory block large enough''))"

definition allocate_mem :: "pun \<Rightarrow> nat \<Rightarrow> cxp \<Rightarrow> addr run" where
  "allocate_mem cpu index c =
     run_bind (claim_mutex cpu Mutex_mem c) (\<lambda>_ c.
       if \<not> index < NALLOC then Fail (OutOfBounds ''procmemlist'')
       else
         let block = procmemlist c index in
         if block \<noteq> NULL then
           let c = c\<lparr>procmemlist := (procmemlist c)(index := blk_next c block)\<rparr>
           in Done block (release_mutex Mutex_mem c)
         else if \<not> index < length procmemlen then Fail (OutOfBounds ''procmemlen'')
         else
           let len = procmemlen ! index in
           if ucast len \<le> taillen c then
             let block = tail c; c = c\<lparr>tail := tail c + ucast len\<rparr>
             in Done block (release_mutex Mutex_mem c)
           else Fail (Plotz ''Out of memory''))"

definition release_mem :: "pun \<Rightarrow> nat \<Rightarrow> addr \<Rightarrow> cxp \<Rightarrow> unit run" where
  "release_mem cpu index block c =
     run_bind (claim_mutex cpu Mutex_mem c) (\<lambda>_ c.
       if \<not> index < NALLOC then Fail (OutOfBounds ''procmemlist'')
       else if block = NULL then Fail NullDeref
       else
         let c = c\<lparr>blk_next := (blk_next c)(block := procmemlist c index),
                    procmemlist := (procmemlist c)(index := block)\<rparr>
         in Done () (release_mutex Mutex_mem c))"

definition acquire_memory :: "(uint32 \<Rightarrow> addr) \<Rightarrow> uint32 \<Rightarrow> addr res" where
  "acquire_memory malloc bytes =
     (if malloc bytes = NULL then Inl (Plotz ''acquire_memory malloc'') else Inr (malloc bytes))"

definition memory_init :: "(uint32 \<Rightarrow> addr) \<Rightarrow> uint32 \<Rightarrow> cxp \<Rightarrow> cxp res" where
  "memory_init malloc tsize c =
     res_bind (acquire_memory malloc tsize) (\<lambda>p.
       Inr (c\<lparr>procmemlist := (\<lambda>i. if i < NALLOC then NULL else procmemlist c i),
              tail := p, taillen := tsize\<rparr>))"

subsection \<open>Size classes\<close>

definition class_size :: "nat \<Rightarrow> nat" where
  "class_size i = unat (procmemlen ! i)"

definition NCLASS :: nat where "NCLASS = 21"

lemma procmemlen_length [simp]: "length procmemlen = 22"
  by (simp add: procmemlen_def)

lemma unat_ucast_16_32: "unat (ucast (l :: uint16) :: uint32) = unat l"
proof -
  have "unat l < 2 ^ 16" using unsigned_less [of l] by simp
  then have "unat l < 2 ^ 32" by (rule less_trans) simp
  then show ?thesis by (simp add: unsigned_ucast_eq take_bit_nat_eq_self)
qed

lemma find_loop_spec:
  assumes "sorted (map unat (butlast ls))" and "0 \<notin> set (butlast ls)" and "ls \<noteq> []" and "last ls = 0"
  shows "\<exists>j < length ls. find_loop sz ls i = Inr (i + j) \<and>
    (\<forall>k < j. unat (ls ! k) < unat sz) \<and> (ls ! j \<noteq> 0 \<longrightarrow> unat sz \<le> unat (ls ! j))"
  using assms
proof (induction ls arbitrary: i)
  case Nil
  then show ?case by simp
next
  case (Cons l ls)
  consider "l = 0" | "l \<noteq> 0" "sz \<le> ucast l" | "l \<noteq> 0" "\<not> sz \<le> ucast l" by blast
  then show ?case
  proof cases
    case 1
    then show ?thesis by (intro exI [of _ 0]) simp
  next
    case 2
    then show ?thesis
      by (intro exI [of _ 0]) (simp add: word_le_nat_alt unat_ucast_16_32)
  next
    case 3
    then have ne: "ls \<noteq> []" using Cons.prems by auto
    then obtain j where j: "j < length ls" "find_loop sz ls (i + 1) = Inr (i + 1 + j)"
      "\<forall>k < j. unat (ls ! k) < unat sz" "ls ! j \<noteq> 0 \<longrightarrow> unat sz \<le> unat (ls ! j)"
      using Cons.IH [of "i + 1"] Cons.prems by auto
    have "unat l < unat sz"
      using 3 by (simp add: word_le_nat_alt unat_ucast_16_32)
    with 3 j show ?thesis
      by (intro exI [of _ "Suc j"]) (auto simp: less_Suc_eq_0_disj)
  qed
qed

lemma class_sizes_sorted: "sorted (map unat (butlast procmemlen))"
  by (simp add: procmemlen_def)

lemma class_sizes:
  "k < NCLASS \<Longrightarrow> procmemlen ! k \<noteq> 0" "k < NCLASS \<Longrightarrow> class_size k \<le> 24576"
  "k < NCLASS \<Longrightarrow> 18 \<le> class_size k"
proof -
  assume k: "k < NCLASS"
  then have "procmemlen ! k \<in> set (butlast procmemlen)"
    using nth_mem [of k "butlast procmemlen"] by (simp add: NCLASS_def nth_butlast)
  moreover have "\<forall>x \<in> set (butlast procmemlen). x \<noteq> 0 \<and> 18 \<le> unat x \<and> unat x \<le> 24576"
    by (simp add: procmemlen_def)
  ultimately show "procmemlen ! k \<noteq> 0" "class_size k \<le> 24576" "18 \<le> class_size k"
    by (auto simp: class_size_def)
qed

lemma find_mem_index_cases:
  "if sz \<le> 24576
   then \<exists>i < NCLASS. find_mem_index sz = Inr i \<and> unat sz \<le> class_size i \<and>
          (\<forall>k < i. class_size k < unat sz)
   else find_mem_index sz = Inl (Plotz ''No memory block large enough'')"
proof -
  obtain j where j: "j < length procmemlen" "find_loop sz procmemlen 0 = Inr j"
    "\<forall>k < j. unat (procmemlen ! k) < unat sz" "procmemlen ! j \<noteq> 0 \<longrightarrow> unat sz \<le> unat (procmemlen ! j)"
    using find_loop_spec [of procmemlen sz 0] class_sizes_sorted by (auto simp: procmemlen_def)
  have last: "procmemlen ! j \<noteq> 0 \<longleftrightarrow> j < NCLASS"
  proof -
    have "\<forall>k < 21. procmemlen ! k \<noteq> 0" using class_sizes(1) by (simp add: NCLASS_def)
    moreover have "procmemlen ! 21 = 0" by (simp add: procmemlen_def)
    moreover have "j < 21 \<or> j = 21" using j(1) by auto
    ultimately show ?thesis by (auto simp: NCLASS_def)
  qed
  have top: "unat (procmemlen ! 20) = 24576" by (simp add: procmemlen_def)
  note max = class_sizes(2)
  have s: "sz \<le> 24576 \<longleftrightarrow> unat sz \<le> 24576" by (simp add: word_le_nat_alt)
  show ?thesis
  proof (cases "j < NCLASS")
    case True
    with j last have "find_mem_index sz = Inr j" "unat sz \<le> class_size j"
      by (simp_all add: find_mem_index_def class_size_def)
    moreover have "sz \<le> 24576" using max [OF True] calculation(2) s by linarith
    ultimately show ?thesis using j(3) True by (auto simp: class_size_def)
  next
    case False
    have "20 < j" using False by (simp add: NCLASS_def)
    then have "unat (procmemlen ! 20) < unat sz" using j(3) by blast
    then have "\<not> sz \<le> 24576" using s top by simp
    with False j last show ?thesis by (simp add: find_mem_index_def)
  qed
qed

text \<open>
  \<^verbatim>\<open>find_mem_index\<close> returns the smallest size class that holds the requested number of
  bytes, and ends the program exactly when the request exceeds the largest class.
\<close>

theorem find_mem_index_smallest:
  "if sz \<le> 24576
   then \<exists>i < NCLASS. find_mem_index sz = Inr i \<and> unat sz \<le> class_size i \<and>
          (\<forall>k < i. class_size k < unat sz)
   else find_mem_index sz = Inl (Plotz ''No memory block large enough'')"
  by (rule find_mem_index_cases)

theorem find_mem_index_smallest_witness:
  "\<exists>i < NCLASS. find_mem_index 100 = Inr i \<and> 100 \<le> class_size i \<and> (\<forall>k < i. class_size k < 100)"
  using find_mem_index_smallest [of 100] by (auto simp: word_le_nat_alt)

subsection \<open>Blocks never overlap\<close>

text \<open>
  \<open>F i\<close> lists the free blocks of class \<open>i\<close>, \<open>L\<close> is the set of live blocks with their classes, and
  \<open>lo\<close> the start of the memory. All blocks lie between \<open>lo\<close> and the tail and are disjoint.
\<close>

definition span :: "addr \<times> nat \<Rightarrow> nat set" where
  "span x = {unat (fst x) ..< unat (fst x) + class_size (snd x)}"

definition blocks :: "(nat \<Rightarrow> addr list) \<Rightarrow> (addr \<times> nat) set \<Rightarrow> (addr \<times> nat) set" where
  "blocks F L = L \<union> {x. snd x < NCLASS \<and> fst x \<in> set (F (snd x))}"

definition mem_ok :: "nat \<Rightarrow> cxp \<Rightarrow> (nat \<Rightarrow> addr list) \<Rightarrow> (addr \<times> nat) set \<Rightarrow> bool" where
  "mem_ok lo c F L \<longleftrightarrow>
     (\<forall>i < NCLASS. chain (blk_next c) (procmemlist c i) (F i)) \<and> 0 < lo \<and> lo \<le> unat (tail c) \<and>
     (\<forall>x \<in> blocks F L. snd x < NCLASS \<and> span x \<subseteq> {lo ..< unat (tail c)}) \<and>
     (\<forall>x \<in> blocks F L. \<forall>y \<in> blocks F L. x \<noteq> y \<longrightarrow> span x \<inter> span y = {}) \<and>
     (\<forall>x \<in> L. fst x \<notin> set (F (snd x)))"

lemma span_nonempty: "i < NCLASS \<Longrightarrow> unat b \<in> span (b, i)"
  using class_sizes(3) [of i] by (simp add: span_def)

lemma mem_ok_next:
  assumes "mem_ok lo c F L" and "i < NCLASS" and "j < NCLASS" and "(b, i) \<in> blocks F L"
    and "b \<in> set (F j)"
  shows "i = j"
proof (rule ccontr)
  assume "i \<noteq> j"
  moreover have "(b, j) \<in> blocks F L" using assms by (simp add: blocks_def)
  ultimately have "span (b, i) \<inter> span (b, j) = {}" using assms by (auto simp: mem_ok_def)
  with span_nonempty assms(2,3) show False by blast
qed

lemma NCLASS_NALLOC: "i < NCLASS \<Longrightarrow> i < NALLOC \<and> i < length procmemlen"
  by (simp add: NCLASS_def NALLOC_def)

text \<open>A block of class \<open>i\<close> fits behind the tail without wrapping around the address space.\<close>

definition tail_room :: "nat \<Rightarrow> cxp \<Rightarrow> bool" where
  "tail_room i c \<longleftrightarrow> class_size i \<le> unat (taillen c) \<and> unat (tail c) + class_size i < 2 ^ 32"

lemma tail_advance:
  assumes "tail_room i c"
  shows "unat (tail c + ucast (procmemlen ! i)) = unat (tail c) + class_size i"
    and "ucast (procmemlen ! i) \<le> taillen c"
  using assms by (simp_all add: tail_room_def class_size_def unat_word_ariths unat_ucast_16_32 word_le_nat_alt)

lemma allocate_from_list:
  assumes ok: "mem_ok lo c F L" and i: "i < NCLASS" and free: "\<not> claimed c Mutex_mem"
    and F: "F i = b # bs"
  shows "\<exists>c'. allocate_mem cpu i c = Done b c' \<and> sch c' = sch c \<and> \<not> claimed c' Mutex_mem \<and>
    (b, i) \<notin> L \<and> mem_ok lo c' (F(i := bs)) (insert (b, i) L)"
proof -
  have ch: "chain (blk_next c) (procmemlist c i) (b # bs)" using ok i F by (auto simp: mem_ok_def)
  then have hd: "procmemlist c i = b" "b \<noteq> NULL" "b \<notin> set bs"
    using chain_distinct [OF ch] by simp_all
  let ?c = "c\<lparr>claimed := (claimed c)(Mutex_mem := False),
              procmemlist := (procmemlist c)(i := blk_next c b)\<rparr>"
  have run: "allocate_mem cpu i c = Done b ?c"
    using free hd NCLASS_NALLOC [OF i]
    by (simp add: allocate_mem_def release_mutex_def Let_def)
  have bl: "blocks (F(i := bs)) (insert (b, i) L) = blocks F L"
    using F i by (auto simp: blocks_def)
  have "(b, i) \<notin> L" using ok F by (auto simp: mem_ok_def)
  moreover have "\<forall>j < NCLASS. chain (blk_next ?c) (procmemlist ?c j) ((F(i := bs)) j)"
    using ok ch by (auto simp: mem_ok_def)
  moreover have "\<forall>x \<in> insert (b, i) L. fst x \<notin> set ((F(i := bs)) (snd x))"
    using ok hd F by (auto simp: mem_ok_def)
  ultimately show ?thesis
    using run ok bl by (intro exI [of _ ?c]) (simp add: mem_ok_def)
qed

lemma allocate_from_tail:
  assumes ok: "mem_ok lo c F L" and i: "i < NCLASS" and free: "\<not> claimed c Mutex_mem"
    and F: "F i = []" and room: "tail_room i c"
  shows "\<exists>c'. allocate_mem cpu i c = Done (tail c) c' \<and> sch c' = sch c \<and> \<not> claimed c' Mutex_mem \<and>
    (tail c, i) \<notin> L \<and> mem_ok lo c' F (insert (tail c, i) L)"
proof -
  note T = tail_advance [OF room]
  have hd: "procmemlist c i = NULL" using ok i F by (auto simp: mem_ok_def)
  let ?c = "c\<lparr>claimed := (claimed c)(Mutex_mem := False), tail := tail c + ucast (procmemlen ! i)\<rparr>"
  have run: "allocate_mem cpu i c = Done (tail c) ?c"
    using free hd T NCLASS_NALLOC [OF i]
    by (simp add: allocate_mem_def release_mutex_def Let_def)
  have bl: "blocks F (insert (tail c, i) L) = insert (tail c, i) (blocks F L)"
    by (simp add: blocks_def)
  have old: "snd x < NCLASS \<and> span x \<subseteq> {lo ..< unat (tail c)}" if "x \<in> blocks F L" for x
    using ok that by (simp add: mem_ok_def)
  have new: "span (tail c, i) = {unat (tail c) ..< unat (tail ?c)}" using T by (simp add: span_def)
  have lo: "lo \<le> unat (tail c)" "unat (tail c) \<le> unat (tail ?c)" using ok T by (simp_all add: mem_ok_def)
  have "span x \<inter> span (tail c, i) = {}" if "x \<in> blocks F L" for x
    using old [OF that] new by (auto simp: subset_iff)
  moreover have "\<forall>x \<in> blocks F L. \<forall>y \<in> blocks F L. x \<noteq> y \<longrightarrow> span x \<inter> span y = {}"
    using ok by (simp add: mem_ok_def)
  ultimately have disj: "\<forall>x \<in> blocks F (insert (tail c, i) L). \<forall>y \<in> blocks F (insert (tail c, i) L).
      x \<noteq> y \<longrightarrow> span x \<inter> span y = {}"
    unfolding bl by (simp add: Int_commute)
  have sub: "span x \<subseteq> {lo ..< unat (tail ?c)}" if "x \<in> blocks F L" for x
    using old [OF that] lo by (auto simp: subset_iff)
  have inside: "\<forall>x \<in> blocks F (insert (tail c, i) L). snd x < NCLASS \<and> span x \<subseteq> {lo ..< unat (tail ?c)}"
    unfolding bl using old sub new lo i by auto
  have notin: "(tail c, i) \<notin> L"
  proof
    assume "(tail c, i) \<in> L"
    then have "span (tail c, i) \<subseteq> {lo ..< unat (tail c)}" using old [of "(tail c, i)"] by (simp add: blocks_def)
    with span_nonempty [OF i, of "tail c"] show False by auto
  qed
  have "mem_ok lo ?c F (insert (tail c, i) L)"
    using ok disj inside lo F unfolding mem_ok_def by simp
  with run notin show ?thesis by (intro exI [of _ ?c]) simp
qed

text \<open>Allocation touches nothing but the allocator's own fields.\<close>

lemma allocate_shape:
  assumes "allocate_mem cpu i c = Done b c'" and "\<not> claimed c Mutex_mem"
  shows "\<exists>pl tl. c' = c\<lparr>claimed := (claimed c)(Mutex_mem := False), procmemlist := pl, tail := tl\<rparr> \<and>
    (tl = tail c \<or> tl = tail c + ucast (procmemlen ! i))"
proof -
  let ?cl = "(claimed c)(Mutex_mem := False)"
  have i: "i < NALLOC" using assms by (auto simp: allocate_mem_def split: if_splits)
  show ?thesis
  proof (cases "procmemlist c i = NULL")
    case False
    have "c\<lparr>claimed := ?cl, procmemlist := pl\<rparr> = c\<lparr>claimed := ?cl, procmemlist := pl, tail := tail c\<rparr>" for pl
      by simp
    with False i assms show ?thesis
      by (intro exI [of _ "(procmemlist c)(i := blk_next c (procmemlist c i))"] exI [of _ "tail c"])
        (auto simp: allocate_mem_def release_mutex_def Let_def)
  next
    case True
    have "c\<lparr>claimed := ?cl, tail := tl\<rparr> = c\<lparr>claimed := ?cl, procmemlist := procmemlist c, tail := tl\<rparr>" for tl
      by simp
    with True i assms show ?thesis
      by (intro exI [of _ "procmemlist c"] exI [of _ "tail c + ucast (procmemlen ! i)"])
        (auto simp: allocate_mem_def release_mutex_def Let_def split: if_splits)
  qed
qed

text \<open>Room for blocks of the classes \<open>is\<close>, whatever the free lists hold.\<close>

definition room_for :: "nat list \<Rightarrow> cxp \<Rightarrow> bool" where
  "room_for is c \<longleftrightarrow> unat (tail c) + sum_list (map class_size is) < 2 ^ 32 \<and>
     (\<forall>i \<in> set is. i < NCLASS \<and> class_size i \<le> unat (taillen c))"

lemma room_for_Cons: "room_for (i # is) c \<Longrightarrow> tail_room i c \<and> i < NCLASS"
  by (simp add: room_for_def tail_room_def)

lemma allocate_ok:
  assumes ok: "mem_ok lo c F L" and room: "room_for (i # is) c" and free: "\<not> claimed c Mutex_mem"
  shows "\<exists>b c' F' pl tl. allocate_mem cpu i c = Done b c' \<and>
    c' = c\<lparr>claimed := (claimed c)(Mutex_mem := False), procmemlist := pl, tail := tl\<rparr> \<and>
    b \<noteq> NULL \<and> (b, i) \<notin> L \<and> mem_ok lo c' F' (insert (b, i) L) \<and> room_for is c' \<and>
    (\<forall>x \<in> L. fst x \<noteq> b \<and> span x \<inter> span (b, i) = {})"
proof -
  have i: "i < NCLASS" "tail_room i c" using room_for_Cons [OF room] by auto
  have "\<exists>b c' F'. allocate_mem cpu i c = Done b c' \<and> (b, i) \<notin> L \<and> mem_ok lo c' F' (insert (b, i) L)"
    using allocate_from_list [OF ok i(1) free] allocate_from_tail [OF ok i(1) free _ i(2)]
    by (cases "F i") blast+
  then obtain b c' F' where r: "allocate_mem cpu i c = Done b c'" "(b, i) \<notin> L" "mem_ok lo c' F' (insert (b, i) L)"
    by blast
  obtain pl tl where c': "c' = c\<lparr>claimed := (claimed c)(Mutex_mem := False), procmemlist := pl, tail := tl\<rparr>"
    "tl = tail c \<or> tl = tail c + ucast (procmemlen ! i)"
    using allocate_shape [OF r(1) free] by blast
  have disj: "fst x \<noteq> b \<and> span x \<inter> span (b, i) = {}" if "x \<in> L" for x
  proof -
    have x: "x \<in> blocks F' (insert (b, i) L)" "(b, i) \<in> blocks F' (insert (b, i) L)"
      using that by (auto simp: blocks_def)
    have "x \<noteq> (b, i)" using r(2) that by auto
    with x r(3) have "span x \<inter> span (b, i) = {}" "snd x < NCLASS" by (auto simp: mem_ok_def)
    with span_nonempty [of "snd x" "fst x"] span_nonempty [OF i(1), of b] show ?thesis by auto
  qed
  have "b \<noteq> NULL"
  proof -
    have "(b, i) \<in> blocks F' (insert (b, i) L)" by (simp add: blocks_def)
    then have "span (b, i) \<subseteq> {lo ..< unat (tail c')}" "0 < lo" using r(3) by (auto simp: mem_ok_def)
    with span_nonempty [OF i(1), of b] show ?thesis by fastforce
  qed
  moreover have "room_for is c'"
    using room c' tail_advance(1) [OF i(2)] by (auto simp: room_for_def)
  ultimately show ?thesis using r c' disj by blast
qed

text \<open>
  C30. Allocation of a block of class \<open>i\<close>: with the lock free, and a free block or room in the tail,
  a block is returned that overlaps no live block and no free one, the memory stays well formed,
  and the lock is free again.
\<close>

theorem allocate_mem_fresh:
  assumes "mem_ok lo c F L" and "i < NCLASS" and "\<not> claimed c Mutex_mem"
    and "F i \<noteq> [] \<or> tail_room i c"
  shows "\<exists>b c' F'. allocate_mem cpu i c = Done b c' \<and> mem_ok lo c' F' (insert (b, i) L) \<and>
    (\<forall>x \<in> L. span x \<inter> span (b, i) = {}) \<and> \<not> claimed c' Mutex_mem \<and> sch c' = sch c"
proof -
  have "\<exists>b c' F'. allocate_mem cpu i c = Done b c' \<and> sch c' = sch c \<and> \<not> claimed c' Mutex_mem \<and>
      (b, i) \<notin> L \<and> mem_ok lo c' F' (insert (b, i) L)"
    using assms allocate_from_list [OF assms(1,2,3)] allocate_from_tail [OF assms(1,2,3)]
    by (cases "F i") blast+
  then obtain b c' F' where r: "allocate_mem cpu i c = Done b c'" "sch c' = sch c"
    "\<not> claimed c' Mutex_mem" "(b, i) \<notin> L" "mem_ok lo c' F' (insert (b, i) L)" by blast
  have "span x \<inter> span (b, i) = {}" if "x \<in> L" for x
  proof -
    have "x \<noteq> (b, i)" using r(4) that by auto
    moreover have "x \<in> blocks F' (insert (b, i) L)" "(b, i) \<in> blocks F' (insert (b, i) L)"
      using that by (auto simp: blocks_def)
    ultimately show ?thesis using r(5) by (simp add: mem_ok_def)
  qed
  with r show ?thesis by blast
qed

lemma sample_mem_ok: "mem_ok 65536 sample_cxp (\<lambda>_. []) {}"
  by (simp add: mem_ok_def blocks_def sample_cxp_def)

lemma sample_tail_room: "i \<le> 12 \<Longrightarrow> tail_room i sample_cxp"
proof -
  assume "i \<le> 12"
  then have "i \<in> set [0..<13]" by simp
  moreover have "\<forall>i \<in> set [0..<13]. class_size i \<le> 4096"
    by (simp add: class_size_def procmemlen_def upt_rec)
  ultimately have "class_size i \<le> 4096" by blast
  then show ?thesis by (simp add: tail_room_def sample_cxp_def)
qed

theorem allocate_mem_fresh_witness:
  "\<exists>b c' F'. allocate_mem 0 3 sample_cxp = Done b c' \<and> mem_ok 65536 c' F' {(b, 3)}"
  using allocate_mem_fresh [OF sample_mem_ok, of 3 0] sample_tail_room [of 3]
  by (auto simp: NCLASS_def sample_cxp_def)

lemma release_mem_ok:
  assumes ok: "mem_ok lo c F L" and L: "(b, i) \<in> L" and free: "\<not> claimed c Mutex_mem"
  shows "\<exists>c'. release_mem cpu i b c = Done () c' \<and> mem_ok lo c' (F(i := b # F i)) (L - {(b, i)}) \<and>
    \<not> claimed c' Mutex_mem \<and> sch c' = sch c \<and> procmemlist c' i = b \<and> tail c' = tail c"
proof -
  have B: "(b, i) \<in> blocks F L" using L by (simp add: blocks_def)
  then have i: "i < NCLASS" and sp: "span (b, i) \<subseteq> {lo ..< unat (tail c)}"
    using ok by (auto simp: mem_ok_def)
  have "unat b \<in> {lo ..< unat (tail c)}" using span_nonempty [OF i] sp by blast
  moreover have "0 < lo" using ok by (simp add: mem_ok_def)
  ultimately have bn: "b \<noteq> NULL" by auto
  have bF: "b \<notin> set (F i)" using ok L by (auto simp: mem_ok_def)
  let ?c = "c\<lparr>claimed := (claimed c)(Mutex_mem := False),
              blk_next := (blk_next c)(b := procmemlist c i),
              procmemlist := (procmemlist c)(i := b)\<rparr>"
  have run: "release_mem cpu i b c = Done () ?c"
    using free bn NCLASS_NALLOC [OF i] by (simp add: release_mem_def release_mutex_def Let_def)
  have bl: "blocks (F(i := b # F i)) (L - {(b, i)}) = blocks F L"
    using L i by (auto simp: blocks_def)
  have lists: "chain (blk_next ?c) (procmemlist ?c j) ((F(i := b # F i)) j)" if j: "j < NCLASS" for j
  proof -
    have ch: "chain (blk_next c) (procmemlist c j) (F j)" using ok j by (simp add: mem_ok_def)
    have "b \<notin> set (F j)" using mem_ok_next [OF ok i j B] bF by blast
    with ch bn show ?thesis by (cases "j = i") simp_all
  qed
  have "\<forall>x \<in> L - {(b, i)}. fst x \<notin> set ((F(i := b # F i)) (snd x))"
    using ok by (auto simp: mem_ok_def)
  then have "mem_ok lo ?c (F(i := b # F i)) (L - {(b, i)})"
    using ok bl lists by (simp add: mem_ok_def)
  with run show ?thesis by (intro exI [of _ ?c]) simp
qed

text \<open>
  Releasing a live block puts it on the free list of its class, keeps the memory well formed
  without that block among the live ones, and the next request of the class returns just that
  block, leaving the tail as it was.
\<close>

theorem release_then_allocate:
  assumes "mem_ok lo c F L" and "(b, i) \<in> L" and "\<not> claimed c Mutex_mem"
  shows "\<exists>c1 c2. release_mem cpu i b c = Done () c1 \<and> mem_ok lo c1 (F(i := b # F i)) (L - {(b, i)}) \<and>
    allocate_mem cpu' i c1 = Done b c2 \<and> mem_ok lo c2 F L \<and> tail c2 = tail c \<and> sch c2 = sch c"
proof -
  have "(b, i) \<in> blocks F L" using assms(2) by (simp add: blocks_def)
  then have i: "i < NCLASS" using assms(1) by (auto simp: mem_ok_def)
  obtain c1 where c1: "release_mem cpu i b c = Done () c1" "mem_ok lo c1 (F(i := b # F i)) (L - {(b, i)})"
    "\<not> claimed c1 Mutex_mem" "sch c1 = sch c" "procmemlist c1 i = b" "tail c1 = tail c"
    using release_mem_ok [OF assms] by blast
  obtain c2 where c2: "allocate_mem cpu' i c1 = Done b c2" "sch c2 = sch c1"
    "mem_ok lo c2 ((F(i := b # F i))(i := F i)) (insert (b, i) (L - {(b, i)}))"
    using allocate_from_list [OF c1(2) i c1(3), of b "F i"] by auto
  have "mem_ok lo c2 F L" using c2(3) assms(2) by (simp add: insert_absorb)
  moreover have "b \<noteq> NULL"
    using c1(2,5) i by (auto simp: mem_ok_def)
  then have "tail c2 = tail c1"
    using c2(1) c1(3,5) NCLASS_NALLOC [OF i]
    by (auto simp: allocate_mem_def release_mutex_def Let_def)
  ultimately show ?thesis using c1 c2 by metis
qed

theorem release_then_allocate_witness:
  "\<exists>c1 c2. release_mem 0 3 65536 (sample_cxp\<lparr>tail := 65632\<rparr>) = Done () c1 \<and>
    allocate_mem 1 3 c1 = Done 65536 c2 \<and> tail c2 = 65632"
proof -
  have "class_size 3 = 96" by (simp add: class_size_def procmemlen_def)
  then have "mem_ok 65536 (sample_cxp\<lparr>tail := 65632\<rparr>) (\<lambda>_. []) {(65536, 3)}"
    by (simp add: mem_ok_def blocks_def sample_cxp_def NCLASS_def span_def)
  from release_then_allocate [OF this, of 65536 3 0 1] show ?thesis
    by (auto simp: sample_cxp_def)
qed

text \<open>Successive requests of one class.\<close>

primrec allocs :: "pun \<Rightarrow> nat \<Rightarrow> nat \<Rightarrow> cxp \<Rightarrow> addr list run" where
  "allocs cpu i 0 c = Done [] c"
| "allocs cpu i (Suc n) c =
     run_bind (allocs cpu i n c) (\<lambda>bs c. run_bind (allocate_mem cpu i c) (\<lambda>b c. Done (bs @ [b]) c))"

lemma allocs_from_tail:
  assumes "\<not> claimed c Mutex_mem" and "procmemlist c i = NULL" and i: "i < NCLASS"
    and len: "class_size i \<le> unat (taillen c)"
  shows "\<exists>c'. allocs cpu i n c = Done (map (\<lambda>k. tail c + of_nat (k * class_size i)) [0..<n]) c' \<and>
    \<not> claimed c' Mutex_mem \<and> procmemlist c' i = NULL \<and> taillen c' = taillen c \<and>
    tail c' = tail c + of_nat (n * class_size i)"
proof (induction n)
  case 0
  then show ?case using assms by simp
next
  case (Suc n)
  then obtain c' where c': "allocs cpu i n c = Done (map (\<lambda>k. tail c + of_nat (k * class_size i)) [0..<n]) c'"
    "\<not> claimed c' Mutex_mem" "procmemlist c' i = NULL" "taillen c' = taillen c"
    "tail c' = tail c + of_nat (n * class_size i)" by blast
  have u: "ucast (procmemlen ! i) = (of_nat (class_size i) :: uint32)"
  proof -
    have "(of_nat (unat (ucast (procmemlen ! i) :: uint32)) :: uint32) = ucast (procmemlen ! i)" by simp
    then show ?thesis unfolding class_size_def unat_ucast_16_32 by simp
  qed
  have "ucast (procmemlen ! i) \<le> taillen c'"
    using len c'(4) by (simp add: word_le_nat_alt unat_ucast_16_32 class_size_def)
  then have "allocate_mem cpu i c' = Done (tail c') (c'\<lparr>claimed := (claimed c')(Mutex_mem := False),
      tail := tail c' + of_nat (class_size i)\<rparr>)"
    using c' u NCLASS_NALLOC [OF i] by (simp add: allocate_mem_def release_mutex_def Let_def)
  with c' show ?case by (simp add: algebra_simps)
qed

text \<open>
  C34. A fresh memory of \<open>tsize\<close> bytes serves any number of requests: the number of bytes left in the tail is never reduced, so after \<open>n\<close> requests of a class that
  fits, of any number \<open>n\<close>, the allocator still grants the next one, and it has handed out blocks
  that reach beyond the end of the memory as soon as their total size exceeds it.
\<close>

theorem memory_never_exhausted:
  assumes "malloc tsize \<noteq> NULL" and i: "i < NCLASS" and len: "class_size i \<le> unat tsize"
    and free: "\<not> claimed c Mutex_mem"
  shows "\<exists>c0 bs c'. memory_init malloc tsize c = Inr c0 \<and> allocs cpu i n c0 = Done bs c' \<and>
    length bs = n \<and> (0 < n \<longrightarrow> last bs = malloc tsize + of_nat ((n - 1) * class_size i)) \<and>
    taillen c' = tsize"
proof -
  obtain c0 where c0: "memory_init malloc tsize c = Inr c0" "tail c0 = malloc tsize"
    "taillen c0 = tsize" "procmemlist c0 i = NULL" "\<not> claimed c0 Mutex_mem"
    using assms(1) free NCLASS_NALLOC [OF i] by (auto simp: memory_init_def acquire_memory_def)
  obtain c' where c': "allocs cpu i n c0 = Done (map (\<lambda>k. tail c0 + of_nat (k * class_size i)) [0..<n]) c'"
    "taillen c' = taillen c0"
    using allocs_from_tail [OF c0(5,4) i, of cpu n] len c0(3) by auto
  have "last (map (\<lambda>k. tail c0 + of_nat (k * class_size i)) [0..<n]) =
      malloc tsize + of_nat ((n - 1) * class_size i)" if "0 < n"
    using that c0(2) by (simp add: last_map last_upt)
  with c0 c' show ?thesis by auto
qed

theorem memory_never_exhausted_witness:
  "\<exists>c0 bs c'. memory_init (\<lambda>_. 65536) 4096 sample_cxp = Inr c0 \<and> allocs 0 12 3 c0 = Done bs c' \<and>
    last bs = 65536 + 4096"
proof -
  have k: "class_size 12 = 2048" by (simp add: class_size_def procmemlen_def)
  show ?thesis
    using memory_never_exhausted [of "\<lambda>_. 65536" 4096 12 sample_cxp 0 3]
    by (auto simp: k NCLASS_def sample_cxp_def)
qed

end
