(* ===== verification/Wakeup.thy ===== *)
theory Wakeup
  imports Kernel
begin

text \<open>
  How a waiting process is made ready. Two atomic fields of the process record decide it: the
  scheduling state for a process that waits for one event, and the alternation state for a process
  that waits for the first of several. The operations on them are followed by the two protocols as
  step relations over the atomic accesses, with any interleaving of the waiting process and of the
  processes and interrupt handlers that wake it.
\<close>

subsection \<open>The operations\<close>

text \<open>\<^verbatim>\<open>atomic_exchange_explicit(&p->sched_state, PROC_READY)\<close>.\<close>

definition xchg_ready :: "addr \<Rightarrow> sched \<Rightarrow> sched_st \<times> sched" where
  "xchg_ready p s = (p_sched_state (procs s p), set_sched_state p PROC_READY s)"

text \<open>
  Compare-and-exchange of the alternation state: success, the value left in
  \<^verbatim>\<open>expected\<close>, and the new state.
\<close>

definition cas_alt :: "addr \<Rightarrow> alt_st \<Rightarrow> alt_st \<Rightarrow> sched \<Rightarrow> (bool \<times> alt_st) \<times> sched" where
  "cas_alt p expected desired s =
     (let actual = p_alt_state (procs s p)
      in if actual = expected then ((True, expected), set_alt_state p desired s)
         else ((False, actual), s))"

text \<open>Called from interrupt handlers, with interrupts disabled (timer.c).\<close>

definition freeProcess :: "addr \<Rightarrow> sched \<Rightarrow> sched res" where
  "freeProcess p s =
     (let (old_state, s) = xchg_ready p s
      in if old_state = PROC_WAITING then enqueue0 p s else Inr s)"

definition maybeFreeAltingProcess :: "addr \<Rightarrow> sched \<Rightarrow> sched res" where
  "maybeFreeAltingProcess p s =
     (let ((successful, expected), s) = cas_alt p ALT_ENABLING ALT_READY s
      in if expected = ALT_WAITING then
           let ((successful, expected), s) = cas_alt p expected ALT_READY s
           in if successful then enqueue0 p s else Inr s
         else Inr s)"

text \<open>Called by processes: the caller may lose the processor to the process it wakes.\<close>

definition wake :: "pun \<Rightarrow> addr \<Rightarrow> cxp \<Rightarrow> unit run" where
  "wake cpu wasWaiting c =
     (let (old_state, s) = xchg_ready wasWaiting (sch c); c = c\<lparr>sch := s\<rparr>
      in if old_state = PROC_WAITING then switching cpu (schedule cpu wasWaiting) c else Done () c)"

definition freeProcessMaybe :: "pun \<Rightarrow> addr \<Rightarrow> cxp \<Rightarrow> unit run" where
  "freeProcessMaybe cpu p c =
     (let ((successful, expected), s) = cas_alt p ALT_ENABLING ALT_READY (sch c);
          c = c\<lparr>sch := s\<rparr>
      in if expected = ALT_WAITING then
           let ((successful, expected), s) = cas_alt p expected ALT_READY (sch c); c = c\<lparr>sch := s\<rparr>
           in if successful then switching cpu (schedule cpu p) c else Done () c
         else Done () c)"

definition altEnabling :: "addr \<Rightarrow> sched \<Rightarrow> sched" where
  "altEnabling p s = set_alt_state p ALT_ENABLING s"

definition altShouldWait :: "addr \<Rightarrow> sched \<Rightarrow> bool \<times> sched" where
  "altShouldWait p s =
     (let ((successful, expected), s) = cas_alt p ALT_ENABLING ALT_WAITING s in (successful, s))"

definition altFinish :: "addr \<Rightarrow> sched \<Rightarrow> sched" where
  "altFinish p s = set_alt_state p ALT_NONE s"

lemma set_state_simps [simp]:
  "p_sched_state (procs (set_sched_state p st s) q) = (if q = p then st else p_sched_state (procs s q))"
  "p_alt_state (procs (set_sched_state p st s) q) = p_alt_state (procs s q)"
  "p_alt_state (procs (set_alt_state p a s) q) = (if q = p then a else p_alt_state (procs s q))"
  "p_sched_state (procs (set_alt_state p a s) q) = p_sched_state (procs s q)"
  "p_pun (procs (set_sched_state p st s) q) = p_pun (procs s q)"
  "p_pun (procs (set_alt_state p a s) q) = p_pun (procs s q)"
  "p_pri (procs (set_sched_state p st s) q) = p_pri (procs s q)"
  "p_pri (procs (set_alt_state p a s) q) = p_pri (procs s q)"
  "current (set_sched_state p st s) = current s" "current (set_alt_state p a s) = current s"
  "hw (set_sched_state p st s) = hw s" "hw (set_alt_state p a s) = hw s"
  by (simp_all add: set_sched_state_def set_alt_state_def)

lemma same_places_inv [simp]:
  "sched_inv (set_sched_state p st s) Q = sched_inv s Q" "sched_inv (set_alt_state p a s) Q = sched_inv s Q"
  by (rule sched_inv_same_places; simp add: set_sched_state_def set_alt_state_def same_places_def)+

lemma same_places_members [simp]:
  "members (set_sched_state p st s) Q cpu = members s Q cpu" "members (set_alt_state p a s) Q cpu = members s Q cpu"
  by (simp_all add: members_def in_ipq_def set_sched_state_def set_alt_state_def)

lemma state_irrelevant [simp]:
  "key_of (set_sched_state p st s) = key_of s" "key_of (set_alt_state p a s) = key_of s"
  "top_running (set_sched_state p st s) Q cpu = top_running s Q cpu"
  "top_running (set_alt_state p a s) Q cpu = top_running s Q cpu"
  "idle_on (set_sched_state p st s) Q cpu x = idle_on s Q cpu x"
  "idle_on (set_alt_state p a s) Q cpu x = idle_on s Q cpu x"
  "enq_list (set_sched_state p st s) x ys = enq_list s x ys"
  "enq_list (set_alt_state p a s) x ys = enq_list s x ys"
  "merged (set_sched_state p st s) q ys = merged s q ys"
  "merged (set_alt_state p a s) q ys = merged s q ys"
proof -
  show k: "key_of (set_sched_state p st s) = key_of s" "key_of (set_alt_state p a s) = key_of s"
    by (simp_all add: key_of_def fun_eq_iff)
  show "top_running (set_sched_state p st s) Q cpu = top_running s Q cpu"
    "top_running (set_alt_state p a s) Q cpu = top_running s Q cpu"
    by (simp_all add: top_running_def k)
  show "idle_on (set_sched_state p st s) Q cpu x = idle_on s Q cpu x"
    "idle_on (set_alt_state p a s) Q cpu x = idle_on s Q cpu x"
    by (simp_all add: idle_on_def) (simp_all add: set_sched_state_def set_alt_state_def)
  show "enq_list (set_sched_state p st s) x ys = enq_list s x ys"
    "enq_list (set_alt_state p a s) x ys = enq_list s x ys"
    by (simp_all add: enq_list_def k)
  show "merged (set_sched_state p st s) q ys = merged s q ys"
    "merged (set_alt_state p a s) q ys = merged s q ys"
    by (simp_all add: merged_def in_ipq_def k) (simp_all add: set_sched_state_def set_alt_state_def)
qed

subsection \<open>Waiting for one event\<close>

text \<open>The compare-and-exchange with which \<^verbatim>\<open>relinquish\<close> begins.\<close>

definition cas_waiting :: "addr \<Rightarrow> sched \<Rightarrow> bool \<times> sched" where
  "cas_waiting p s =
     (if p_sched_state (procs s p) = PROC_PREPARING_TO_WAIT then (True, set_sched_state p PROC_WAITING s)
      else (False, s))"

lemma relinquish_cas:
  "relinquish cpu s = res_bind (get_current cpu s) (\<lambda>oldproc.
     let pun = p_pun (procs s oldproc); (successful, s) = cas_waiting oldproc s
     in if successful then
          res_bind (take_proc cpu pun (on_hw (disable cpu) s)) (\<lambda>(newproc, s).
          res_bind (set_current cpu newproc s) (\<lambda>s.
          res_bind (switch_context cpu In_relinquish oldproc newproc s) (\<lambda>s.
          Inr (resume_process cpu s))))
        else Inr s)"
  unfolding relinquish_def by (rule arg_cong [of _ _ "res_bind (get_current cpu s)"])
    (simp add: cas_waiting_def Let_def fun_eq_iff)

text \<open>
  The waiting process \<open>p\<close> sets its state to preparing-to-wait, makes itself known (in a channel, a
  timer queue or an interrupt's slot), and then performs this compare-and-exchange; if it succeeds,
  the process leaves the processor in a later step. Whoever finds it known takes it out of there,
  exchanges its state for ready and, if the old state was waiting, enqueues it in a later step. The
  record is the process records, the place each party has reached, and how often the process has
  been put into its ready queue.
\<close>

datatype waiter_at = W_running | W_prepared | W_known | W_leaving | W_off | W_goes_on

datatype waker_at = K_before | K_enqueues | K_done

record handshake =
  h_sched :: sched
  w_at :: waiter_at
  k_at :: waker_at
  w_queued :: nat

definition w_state :: "addr \<Rightarrow> handshake \<Rightarrow> sched_st" where
  "w_state p h = p_sched_state (procs (h_sched h) p)"

inductive hs_step :: "addr \<Rightarrow> handshake \<Rightarrow> handshake \<Rightarrow> bool" for p where
  prepare: "w_at h = W_running \<Longrightarrow>
    hs_step p h (h\<lparr>w_at := W_prepared, h_sched := set_sched_state p PROC_PREPARING_TO_WAIT (h_sched h)\<rparr>)"
| known: "w_at h = W_prepared \<Longrightarrow> hs_step p h (h\<lparr>w_at := W_known\<rparr>)"
| cas: "w_at h = W_known \<Longrightarrow> cas_waiting p (h_sched h) = (successful, s) \<Longrightarrow>
    hs_step p h (h\<lparr>w_at := (if successful then W_leaving else W_goes_on), h_sched := s\<rparr>)"
| leaves: "w_at h = W_leaving \<Longrightarrow> hs_step p h (h\<lparr>w_at := W_off\<rparr>)"
| exchange: "k_at h = K_before \<Longrightarrow> w_at h \<notin> {W_running, W_prepared} \<Longrightarrow>
    xchg_ready p (h_sched h) = (old_state, s) \<Longrightarrow>
    hs_step p h (h\<lparr>k_at := (if old_state = PROC_WAITING then K_enqueues else K_done), h_sched := s\<rparr>)"
| enqueues: "k_at h = K_enqueues \<Longrightarrow> hs_step p h (h\<lparr>k_at := K_done, w_queued := w_queued h + 1\<rparr>)"

definition hs_start :: "sched \<Rightarrow> handshake" where
  "hs_start s = \<lparr>h_sched = s, w_at = W_running, k_at = K_before, w_queued = 0\<rparr>"

definition hs_inv :: "addr \<Rightarrow> handshake \<Rightarrow> bool" where
  "hs_inv p h \<longleftrightarrow>
     (w_at h = W_prepared \<longrightarrow> w_state p h = PROC_PREPARING_TO_WAIT) \<and>
     (w_at h \<in> {W_running, W_prepared} \<longrightarrow> k_at h = K_before) \<and>
     (w_at h = W_known \<longrightarrow> w_state p h = (if k_at h = K_before then PROC_PREPARING_TO_WAIT else PROC_READY)) \<and>
     (w_at h \<in> {W_leaving, W_off} \<longrightarrow> w_state p h = (if k_at h = K_before then PROC_WAITING else PROC_READY)) \<and>
     (w_at h = W_goes_on \<longrightarrow> k_at h = K_done \<and> w_state p h = PROC_READY) \<and>
     (k_at h = K_enqueues \<longrightarrow> w_at h \<in> {W_leaving, W_off}) \<and>
     w_queued h = (if k_at h = K_done \<and> w_at h \<in> {W_leaving, W_off} then 1 else 0)"

lemma hs_inv_start: "hs_inv p (hs_start s)"
  by (simp add: hs_inv_def hs_start_def)

lemma hs_inv_step:
  assumes "hs_step p h h'" and "hs_inv p h"
  shows "hs_inv p h'"
  using assms
proof cases
  case prepare
  then show ?thesis using assms(2) by (simp add: hs_inv_def w_state_def)
next
  case known
  then show ?thesis using assms(2) by (simp add: hs_inv_def w_state_def)
next
  case (cas successful s)
  then show ?thesis using assms(2) by (cases "k_at h") (auto simp: hs_inv_def w_state_def cas_waiting_def)
next
  case leaves
  then show ?thesis using assms(2) by (simp add: hs_inv_def w_state_def)
next
  case (exchange old s)
  then show ?thesis using assms(2) by (cases "w_at h") (auto simp: hs_inv_def w_state_def xchg_ready_def)
next
  case enqueues
  then show ?thesis using assms(2) by (auto simp: hs_inv_def w_state_def)
qed

lemma hs_inv_reachable: "(hs_step p)\<^sup>*\<^sup>* (hs_start s) h \<Longrightarrow> hs_inv p h"
  by (induction rule: rtranclp_induct) (auto intro: hs_inv_start hs_inv_step)

inductive_cases hs_stepE: "hs_step p h h'"

text \<open>
  C10. No wake-up is lost and none is doubled, in any interleaving: when neither party can go on, the
  process is ready, and it has been enqueued once if it left the processor and not at all if
  it noticed in time that it need not.
\<close>

theorem no_lost_wakeup:
  assumes "(hs_step p)\<^sup>*\<^sup>* (hs_start s) h" and "\<nexists>h'. hs_step p h h'"
  shows "w_state p h = PROC_READY \<and> k_at h = K_done \<and>
    (w_at h = W_off \<and> w_queued h = 1 \<or> w_at h = W_goes_on \<and> w_queued h = 0)"
proof -
  have inv: "hs_inv p h" by (rule hs_inv_reachable [OF assms(1)])
  have stuck: "\<not> hs_step p h h'" for h' using assms(2) by blast
  have "w_at h \<noteq> W_running" using stuck hs_step.prepare by blast
  moreover have "w_at h \<noteq> W_prepared" using stuck hs_step.known by blast
  moreover have "w_at h \<noteq> W_known" using stuck hs_step.cas by (metis prod.collapse)
  moreover have "w_at h \<noteq> W_leaving" using stuck hs_step.leaves by blast
  ultimately have w: "w_at h \<in> {W_off, W_goes_on}" by (cases "w_at h") auto
  have "k_at h \<noteq> K_enqueues" using stuck hs_step.enqueues by blast
  moreover have "k_at h \<noteq> K_before"
    using stuck hs_step.exchange [of h p "fst (xchg_ready p (h_sched h))" "snd (xchg_ready p (h_sched h))"] w
    by auto
  ultimately have "k_at h = K_done" by (cases "k_at h") auto
  with inv w show ?thesis by (auto simp: hs_inv_def)
qed

text \<open>The run in which the waker comes between the exchange and the departure.\<close>

lemma hs_race:
  "(hs_step p)\<^sup>*\<^sup>* (hs_start s) \<lparr>h_sched = set_sched_state p PROC_READY (set_sched_state p PROC_WAITING
     (set_sched_state p PROC_PREPARING_TO_WAIT s)), w_at = W_leaving, k_at = K_done, w_queued = 1\<rparr>"
proof -
  let ?h = "\<lambda>s w k n. \<lparr>h_sched = s, w_at = w, k_at = k, w_queued = n\<rparr>"
  let ?s1 = "set_sched_state p PROC_PREPARING_TO_WAIT s"
  let ?s2 = "set_sched_state p PROC_WAITING ?s1" and ?s3 = "set_sched_state p PROC_READY
    (set_sched_state p PROC_WAITING (set_sched_state p PROC_PREPARING_TO_WAIT s))"
  have "hs_step p (hs_start s) (?h ?s1 W_prepared K_before 0)"
    using hs_step.prepare [of "hs_start s" p] by (simp add: hs_start_def)
  moreover have "hs_step p (?h ?s1 W_prepared K_before 0) (?h ?s1 W_known K_before 0)"
    using hs_step.known [of "?h ?s1 W_prepared K_before 0" p] by simp
  moreover have "hs_step p (?h ?s1 W_known K_before 0) (?h ?s2 W_leaving K_before 0)"
    using hs_step.cas [of "?h ?s1 W_known K_before 0" p True ?s2] by (simp add: cas_waiting_def)
  moreover have "hs_step p (?h ?s2 W_leaving K_before 0) (?h ?s3 W_leaving K_enqueues 0)"
    using hs_step.exchange [of "?h ?s2 W_leaving K_before 0" p PROC_WAITING ?s3] by (simp add: xchg_ready_def)
  moreover have "hs_step p (?h ?s3 W_leaving K_enqueues 0) (?h ?s3 W_leaving K_done 1)"
    using hs_step.enqueues [of "?h ?s3 W_leaving K_enqueues 0" p] by simp
  ultimately show ?thesis by (meson rtranclp.rtrancl_into_rtrancl rtranclp.rtrancl_refl)
qed

theorem no_lost_wakeup_witness:
  "\<exists>h. (hs_step 0x300)\<^sup>*\<^sup>* (hs_start sample_sched) h \<and> w_at h = W_off \<and> w_state 0x300 h = PROC_READY"
proof -
  define s where "s = set_sched_state 0x300 PROC_READY (set_sched_state 0x300 PROC_WAITING
    (set_sched_state 0x300 PROC_PREPARING_TO_WAIT sample_sched))"
  let ?g = "\<lparr>h_sched = s, w_at = W_leaving, k_at = K_done, w_queued = 1\<rparr>"
  let ?h = "\<lparr>h_sched = s, w_at = W_off, k_at = K_done, w_queued = 1\<rparr>"
  have "hs_step 0x300 ?g ?h" using hs_step.leaves [of ?g] by simp
  then have r: "(hs_step 0x300)\<^sup>*\<^sup>* (hs_start sample_sched) ?h"
    using hs_race [of "0x300" sample_sched] unfolding s_def by (rule rtranclp.rtrancl_into_rtrancl [rotated])
  moreover have "\<nexists>h'. hs_step 0x300 ?h h'" by (auto elim: hs_stepE)
  ultimately show ?thesis using no_lost_wakeup [of "0x300" sample_sched ?h] by (intro exI [of _ ?h]) simp
qed

text \<open>
  The compare-and-exchange of \<^verbatim>\<open>relinquish\<close> comes before interrupts are disabled, so a
  state is reachable in which the process has been put into its ready queue although it has not
  left the processor: by an interrupt at that point, or by the other processor.
\<close>

theorem enqueued_while_running:
  "\<exists>h. (hs_step p)\<^sup>*\<^sup>* (hs_start s) h \<and> w_at h = W_leaving \<and> w_queued h = 1"
  using hs_race [of p s] by fastforce

subsection \<open>Waiting for the first of several events\<close>

text \<open>
  An alternation: the process \<open>p\<close> has marked itself enabling; \<^verbatim>\<open>altShouldWait\<close> decides whether it
  waits. Any number of wakers, numbered, run \<^verbatim>\<open>freeProcessMaybe\<close> or
  \<^verbatim>\<open>maybeFreeAltingProcess\<close>: a first compare-and-exchange, a second one if the first found the
  process waiting, and the scheduling of the process if the second one succeeds. Having waited, the
  process goes on only after it has been scheduled.
\<close>

datatype alter_at = A_enabling | A_waits | A_goes_on | A_finished

datatype alt_waker_at = B_start | B_saw_waiting | B_schedules | B_done

record alting =
  a_sched :: sched
  a_at :: alter_at
  b_at :: "nat \<Rightarrow> alt_waker_at"
  a_queued :: nat

inductive alt_step :: "addr \<Rightarrow> alting \<Rightarrow> alting \<Rightarrow> bool" for p where
  should_wait: "a_at a = A_enabling \<Longrightarrow> altShouldWait p (a_sched a) = (successful, s) \<Longrightarrow>
    alt_step p a (a\<lparr>a_at := (if successful then A_waits else A_goes_on), a_sched := s\<rparr>)"
| first_cas: "b_at a i = B_start \<Longrightarrow>
    cas_alt p ALT_ENABLING ALT_READY (a_sched a) = ((successful, expected), s) \<Longrightarrow>
    alt_step p a (a\<lparr>b_at := (b_at a)(i := (if expected = ALT_WAITING then B_saw_waiting else B_done)),
      a_sched := s\<rparr>)"
| second_cas: "b_at a i = B_saw_waiting \<Longrightarrow>
    cas_alt p ALT_WAITING ALT_READY (a_sched a) = ((successful, expected), s) \<Longrightarrow>
    alt_step p a (a\<lparr>b_at := (b_at a)(i := (if successful then B_schedules else B_done)), a_sched := s\<rparr>)"
| schedules: "b_at a i = B_schedules \<Longrightarrow>
    alt_step p a (a\<lparr>b_at := (b_at a)(i := B_done), a_queued := a_queued a + 1\<rparr>)"
| finishes: "a_at a = A_goes_on \<or> a_at a = A_waits \<and> 0 < a_queued a \<Longrightarrow>
    alt_step p a (a\<lparr>a_at := A_finished, a_sched := altFinish p (a_sched a)\<rparr>)"

definition alt_start :: "addr \<Rightarrow> sched \<Rightarrow> alting" where
  "alt_start p s = \<lparr>a_sched = altEnabling p s, a_at = A_enabling, b_at = (\<lambda>_. B_start), a_queued = 0\<rparr>"

definition a_state :: "addr \<Rightarrow> alting \<Rightarrow> alt_st" where
  "a_state p a = p_alt_state (procs (a_sched a) p)"

text \<open>Where each party can be, by the place of the alting process and its state.\<close>

definition at_place :: "alting \<Rightarrow> alt_waker_at \<Rightarrow> nat set" where
  "at_place a x = {i. b_at a i = x}"

definition alt_inv :: "addr \<Rightarrow> alting \<Rightarrow> bool" where
  "alt_inv p a \<longleftrightarrow> (case a_at a of
     A_enabling \<Rightarrow> (a_state p a = ALT_ENABLING \<and> at_place a B_done = {} \<or> a_state p a = ALT_READY) \<and>
        at_place a B_saw_waiting = {} \<and> at_place a B_schedules = {} \<and> a_queued a = 0
   | A_goes_on \<Rightarrow> a_state p a = ALT_READY \<and>
        at_place a B_saw_waiting = {} \<and> at_place a B_schedules = {} \<and> a_queued a = 0
   | A_waits \<Rightarrow> a_state p a = ALT_WAITING \<and> at_place a B_schedules = {} \<and> at_place a B_done = {} \<and> a_queued a = 0 \<or>
        a_state p a = ALT_READY \<and> (\<exists>i. at_place a B_schedules = {i}) \<and> a_queued a = 0 \<or>
        a_state p a = ALT_READY \<and> at_place a B_schedules = {} \<and> a_queued a = 1
   | A_finished \<Rightarrow> a_state p a = ALT_NONE \<and> at_place a B_schedules = {} \<and> a_queued a \<le> 1)"

text \<open>A waker moves from the place \<open>x\<close> to the place \<open>y\<close>.\<close>

lemma at_place_move:
  assumes "b_at a i = x" and "b_at a' = (b_at a)(i := y)"
  shows "at_place a' z =
    (if z = y then insert i (at_place a z) else if z = x then at_place a z - {i} else at_place a z)"
  using assms by (auto simp: at_place_def)

lemma at_place_same: "b_at a' = b_at a \<Longrightarrow> at_place a' z = at_place a z"
  by (simp add: at_place_def)

lemma alt_inv_start: "alt_inv p (alt_start p s)"
  by (simp add: alt_inv_def alt_start_def a_state_def altEnabling_def at_place_def)

lemma alt_inv_should_wait:
  assumes "alt_inv p a" and "a_at a = A_enabling" and "altShouldWait p (a_sched a) = (successful, s)"
  shows "alt_inv p (a\<lparr>a_at := (if successful then A_waits else A_goes_on), a_sched := s\<rparr>)"
proof -
  let ?a = "a\<lparr>a_at := (if successful then A_waits else A_goes_on), a_sched := s\<rparr>"
  have "at_place ?a = at_place a" by (simp add: fun_eq_iff at_place_def)
  then show ?thesis
    using assms by (auto simp: alt_inv_def a_state_def altShouldWait_def cas_alt_def Let_def split: if_splits)
qed

lemma alt_inv_first_cas:
  assumes "alt_inv p a" and i: "b_at a i = B_start"
    and "cas_alt p ALT_ENABLING ALT_READY (a_sched a) = ((successful, expected), s)"
  shows "alt_inv p (a\<lparr>b_at := (b_at a)(i := (if expected = ALT_WAITING then B_saw_waiting else B_done)),
      a_sched := s\<rparr>)"
proof -
  let ?y = "if expected = ALT_WAITING then B_saw_waiting else B_done"
  define a' where "a' = a\<lparr>b_at := (b_at a)(i := ?y), a_sched := s\<rparr>"
  have pl: "at_place a' z = (if z = ?y then insert i (at_place a z) else at_place a z)" if "z \<noteq> B_start" for z
    using at_place_move [OF i, of a' ?y z] that by (simp add: a'_def)
  have eq: "a_at a' = a_at a" "a_queued a' = a_queued a" by (simp_all add: a'_def)
  have "a_state p a' = (if a_state p a = ALT_ENABLING then ALT_READY else a_state p a)"
    "expected = a_state p a"
    using assms(3) by (auto simp: a'_def a_state_def cas_alt_def Let_def split: if_splits)
  then have "alt_inv p a'"
    using assms(1) eq by (cases "a_at a") (auto simp: alt_inv_def pl split: if_splits)
  then show ?thesis by (simp add: a'_def)
qed

lemma alt_inv_second_cas:
  assumes "alt_inv p a" and i: "b_at a i = B_saw_waiting"
    and "cas_alt p ALT_WAITING ALT_READY (a_sched a) = ((successful, expected), s)"
  shows "alt_inv p (a\<lparr>b_at := (b_at a)(i := (if successful then B_schedules else B_done)), a_sched := s\<rparr>)"
proof -
  let ?y = "if successful then B_schedules else B_done"
  define a' where "a' = a\<lparr>b_at := (b_at a)(i := ?y), a_sched := s\<rparr>"
  have pl: "at_place a' z = (if z = ?y then insert i (at_place a z) else at_place a z)"
    if "z \<noteq> B_saw_waiting" for z
    using at_place_move [OF i, of a' ?y z] that by (simp add: a'_def)
  have eq: "a_at a' = a_at a" "a_queued a' = a_queued a" by (simp_all add: a'_def)
  have "i \<in> at_place a B_saw_waiting" using i by (simp add: at_place_def)
  moreover have "a_state p a' = (if successful then ALT_READY else a_state p a)"
    "successful \<longleftrightarrow> a_state p a = ALT_WAITING"
    using assms(3) by (auto simp: a'_def a_state_def cas_alt_def Let_def split: if_splits)
  ultimately have "alt_inv p a'"
    using assms(1) eq by (cases "a_at a") (auto simp: alt_inv_def pl)
  then show ?thesis by (simp add: a'_def)
qed

lemma alt_inv_schedules:
  assumes "alt_inv p a" and i: "b_at a i = B_schedules"
  shows "alt_inv p (a\<lparr>b_at := (b_at a)(i := B_done), a_queued := a_queued a + 1\<rparr>)"
proof -
  define a' where "a' = a\<lparr>b_at := (b_at a)(i := B_done), a_queued := a_queued a + 1\<rparr>"
  have pl: "at_place a' z = (if z = B_done then insert i (at_place a z)
      else if z = B_schedules then at_place a z - {i} else at_place a z)" for z
    using at_place_move [OF i, of a' B_done z] by (simp add: a'_def)
  have eq: "a_at a' = a_at a" "a_queued a' = a_queued a + 1" "a_state p a' = a_state p a"
    by (simp_all add: a'_def a_state_def)
  have "i \<in> at_place a B_schedules" using i by (simp add: at_place_def)
  then have "alt_inv p a'"
    using assms(1) eq by (cases "a_at a") (auto simp: alt_inv_def pl)
  then show ?thesis by (simp add: a'_def)
qed

lemma alt_inv_finishes:
  assumes "alt_inv p a" and "a_at a = A_goes_on \<or> a_at a = A_waits \<and> 0 < a_queued a"
  shows "alt_inv p (a\<lparr>a_at := A_finished, a_sched := altFinish p (a_sched a)\<rparr>)"
proof -
  have "at_place a B_schedules = {} \<and> a_queued a \<le> 1"
    using assms by (auto simp: alt_inv_def)
  then show ?thesis by (simp add: alt_inv_def a_state_def altFinish_def at_place_def)
qed

lemma alt_inv_step: "alt_step p a a' \<Longrightarrow> alt_inv p a \<Longrightarrow> alt_inv p a'"
  by (erule alt_step.cases)
    (simp_all only: alt_inv_should_wait alt_inv_first_cas alt_inv_second_cas alt_inv_schedules alt_inv_finishes)

lemma alt_inv_reachable: "(alt_step p)\<^sup>*\<^sup>* (alt_start p s) a \<Longrightarrow> alt_inv p a"
  by (induction rule: rtranclp_induct) (auto intro: alt_inv_start alt_inv_step)

text \<open>
  C11. However many wakers find an alting process and however their compare-and-exchanges interleave
  with its own, the process is scheduled at most once; it is not scheduled at all if it does not
  wait; and if it waits, the first waker that is through with it, together with those still at it,
  has scheduled it or is about to.
\<close>

theorem alt_scheduled_once:
  assumes "(alt_step p)\<^sup>*\<^sup>* (alt_start p s) a"
  shows "a_queued a \<le> 1 \<and> (a_at a = A_goes_on \<longrightarrow> a_queued a = 0) \<and>
    (a_at a = A_waits \<and> b_at a i = B_done \<longrightarrow> a_queued a = 1 \<or> (\<exists>j. b_at a j = B_schedules))"
proof -
  have "b_at a i = B_done \<Longrightarrow> i \<in> at_place a B_done" "(\<exists>j. b_at a j = B_schedules) \<longleftrightarrow> at_place a B_schedules \<noteq> {}"
    by (auto simp: at_place_def)
  then show ?thesis
    using alt_inv_reachable [OF assms] by (cases "a_at a") (auto simp: alt_inv_def)
qed

theorem alt_scheduled_once_witness:
  "\<exists>a. (alt_step 0x300)\<^sup>*\<^sup>* (alt_start 0x300 sample_sched) a \<and> a_at a = A_waits \<and> a_queued a \<le> 1"
proof -
  let ?a = "(alt_start 0x300 sample_sched)\<lparr>a_at := A_waits,
    a_sched := set_alt_state 0x300 ALT_WAITING (altEnabling 0x300 sample_sched)\<rparr>"
  have "altShouldWait 0x300 (altEnabling 0x300 sample_sched) =
      (True, set_alt_state 0x300 ALT_WAITING (altEnabling 0x300 sample_sched))"
    by (simp add: altShouldWait_def cas_alt_def altEnabling_def)
  then have "alt_step 0x300 (alt_start 0x300 sample_sched) ?a"
    using alt_step.should_wait [of "alt_start 0x300 sample_sched" "0x300" True] by (simp add: alt_start_def)
  then have "(alt_step 0x300)\<^sup>*\<^sup>* (alt_start 0x300 sample_sched) ?a" by (rule r_into_rtranclp)
  from this alt_scheduled_once [OF this] show ?thesis by (intro exI [of _ ?a]) simp
qed

end
