(* ===== verification/Comm.thy ===== *)
theory Comm
  imports Wakeup
begin

text \<open>
  Channels (\<^verbatim>\<open>comm.c\<close>): unbuffered communication between two processes. The field
  \<^verbatim>\<open>waiting\<close> holds the process that came first; the union of \<^verbatim>\<open>src\<close> and
  \<^verbatim>\<open>dest\<close> is its buffer, or null if it is an alternation that has only announced itself. The
  functions \<^verbatim>\<open>in\<close> and \<^verbatim>\<open>out\<close> are named \<open>chan_in\<close> and \<open>chan_out\<close> here.
\<close>

subsection \<open>Operations\<close>

definition set_chan :: "addr \<Rightarrow> channel \<Rightarrow> cxp \<Rightarrow> cxp" where
  "set_chan ch v c = c\<lparr>chans := (chans c)(ch := v)\<rparr>"

definition copy_bytes :: "addr \<Rightarrow> addr \<Rightarrow> uint32 \<Rightarrow> (addr \<Rightarrow> uint8) \<Rightarrow> addr \<Rightarrow> uint8" where
  "copy_bytes dest src len h = (\<lambda>a. if a - dest < len then h (src + (a - dest)) else h a)"

definition memcpy :: "addr \<Rightarrow> addr \<Rightarrow> uint32 \<Rightarrow> cxp \<Rightarrow> unit run" where
  "memcpy dest src len c =
     (if len \<noteq> 0 \<and> (dest = NULL \<or> src = NULL) then Fail NullDeref
      else Done () (c\<lparr>heap := copy_bytes dest src len (heap c)\<rparr>))"

definition PREPARE_TO_WAIT :: "addr \<Rightarrow> cxp \<Rightarrow> cxp" where
  "PREPARE_TO_WAIT p c = put_sched (set_sched_state p PROC_PREPARING_TO_WAIT) c"

definition init_channel :: "addr \<Rightarrow> cxp \<Rightarrow> cxp" where
  "init_channel ch c =
     (let c = init_mutex (Mutex_chan ch) c;
          c = set_chan ch ((chans c ch)\<lparr>waiting := NULL\<rparr>) c
      in set_chan ch ((chans c ch)\<lparr>io_ptr := NULL\<rparr>) c)"

definition chan_in :: "pun \<Rightarrow> addr \<Rightarrow> addr \<Rightarrow> uint32 \<Rightarrow> cxp \<Rightarrow> unit run" where
  "chan_in cpu ch paramDest len c =
     run_bind (the_current cpu c) (\<lambda>curr c.
     run_bind (claim_mutex cpu (Mutex_chan ch) c) (\<lambda>_ c.
       if waiting (chans c ch) \<noteq> NULL then
         run_bind (memcpy paramDest (io_ptr (chans c ch)) len c) (\<lambda>_ c.
           let wasWaiting = waiting (chans c ch);
               c = set_chan ch \<lparr>waiting = NULL, io_ptr = NULL\<rparr> c;
               c = release_mutex (Mutex_chan ch) c
           in wake cpu wasWaiting c)
       else
         let c = set_chan ch \<lparr>waiting = curr, io_ptr = paramDest\<rparr> c;
             c = PREPARE_TO_WAIT curr c;
             c = release_mutex (Mutex_chan ch) c
         in switching cpu (relinquish cpu) c))"

definition try_in :: "pun \<Rightarrow> addr \<Rightarrow> addr \<Rightarrow> uint32 \<Rightarrow> cxp \<Rightarrow> bool run" where
  "try_in cpu ch paramDest len c =
     run_bind (claim_mutex cpu (Mutex_chan ch) c) (\<lambda>_ c.
       if waiting (chans c ch) \<noteq> NULL then
         run_bind (memcpy paramDest (io_ptr (chans c ch)) len c) (\<lambda>_ c.
           let c = set_chan ch \<lparr>waiting = NULL, io_ptr = NULL\<rparr> c
           in Done True (release_mutex (Mutex_chan ch) c))
       else Done False (release_mutex (Mutex_chan ch) c))"

definition chan_pending :: "pun \<Rightarrow> addr \<Rightarrow> cxp \<Rightarrow> bool run" where
  "chan_pending cpu ch c =
     run_bind (claim_mutex cpu (Mutex_chan ch) c) (\<lambda>_ c.
       let pending = (waiting (chans c ch) \<noteq> NULL \<and> io_ptr (chans c ch) \<noteq> NULL)
       in Done pending (release_mutex (Mutex_chan ch) c))"

definition chan_out :: "pun \<Rightarrow> addr \<Rightarrow> addr \<Rightarrow> uint32 \<Rightarrow> cxp \<Rightarrow> unit run" where
  "chan_out cpu ch paramSrc len c =
     run_bind (the_current cpu c) (\<lambda>curr c.
     run_bind (claim_mutex cpu (Mutex_chan ch) c) (\<lambda>_ c.
       if waiting (chans c ch) \<noteq> NULL then
         if io_ptr (chans c ch) \<noteq> NULL then
           run_bind (memcpy (io_ptr (chans c ch)) paramSrc len c) (\<lambda>_ c.
             let wasWaiting = waiting (chans c ch);
                 c = set_chan ch \<lparr>waiting = NULL, io_ptr = NULL\<rparr> c;
                 c = release_mutex (Mutex_chan ch) c
             in wake cpu wasWaiting c)
         else
           let wasWaiting = waiting (chans c ch);
               c = set_chan ch ((chans c ch)\<lparr>waiting := curr\<rparr>) c;
               c = PREPARE_TO_WAIT curr c;
               c = set_chan ch ((chans c ch)\<lparr>io_ptr := paramSrc\<rparr>) c;
               c = release_mutex (Mutex_chan ch) c
           in run_bind (freeProcessMaybe cpu wasWaiting c) (\<lambda>_ c. switching cpu (relinquish cpu) c)
       else
         let c = set_chan ch \<lparr>waiting = curr, io_ptr = paramSrc\<rparr> c;
             c = PREPARE_TO_WAIT curr c;
             c = release_mutex (Mutex_chan ch) c
         in switching cpu (relinquish cpu) c))"

definition enable_channel :: "pun \<Rightarrow> addr \<Rightarrow> addr \<Rightarrow> cxp \<Rightarrow> bool run" where
  "enable_channel cpu ch p c =
     run_bind (claim_mutex cpu (Mutex_chan ch) c) (\<lambda>_ c.
       if waiting (chans c ch) \<noteq> NULL then
         if waiting (chans c ch) = p then Done False (release_mutex (Mutex_chan ch) c)
         else Done True (release_mutex (Mutex_chan ch) c)
       else
         let c = set_chan ch \<lparr>waiting = p, io_ptr = NULL\<rparr> c
         in Done False (release_mutex (Mutex_chan ch) c))"

definition disable_channel :: "pun \<Rightarrow> addr \<Rightarrow> addr \<Rightarrow> cxp \<Rightarrow> bool run" where
  "disable_channel cpu ch p c =
     run_bind (claim_mutex cpu (Mutex_chan ch) c) (\<lambda>_ c.
       if waiting (chans c ch) \<noteq> NULL \<and> waiting (chans c ch) \<noteq> p then
         Done True (release_mutex (Mutex_chan ch) c)
       else
         let c = set_chan ch ((chans c ch)\<lparr>waiting := NULL\<rparr>) c
         in Done False (release_mutex (Mutex_chan ch) c))"

subsection \<open>The end of an operation's first part\<close>

text \<open>
  \<open>reaches r c\<close>: the operation gets to the state \<open>c\<close>, either because it is done there or because its
  process has lost the processor there.
\<close>

definition reaches :: "'a run \<Rightarrow> cxp \<Rightarrow> bool" where
  "reaches r c \<longleftrightarrow> (case r of Done a c' \<Rightarrow> c' = c | Fail e \<Rightarrow> False | Paused c' k \<Rightarrow> c' = c)"

lemma reaches_simps [simp]:
  "reaches (Done a c') c \<longleftrightarrow> c' = c" "reaches (Paused c' k) c \<longleftrightarrow> c' = c" "\<not> reaches (Fail e) c"
  by (simp_all add: reaches_def)

lemma kernel_simps [simp]:
  "sch (set_chan ch v c) = sch c" "heap (set_chan ch v c) = heap c"
  "claimed (set_chan ch v c) = claimed c" "chans (set_chan ch v c) = (chans c)(ch := v)"
  "sch (release_mutex m c) = sch c" "chans (release_mutex m c) = chans c" "heap (release_mutex m c) = heap c"
  "claimed (release_mutex m c) = (claimed c)(m := False)"
  "sch (PREPARE_TO_WAIT p c) = set_sched_state p PROC_PREPARING_TO_WAIT (sch c)"
  "chans (PREPARE_TO_WAIT p c) = chans c" "heap (PREPARE_TO_WAIT p c) = heap c"
  "claimed (PREPARE_TO_WAIT p c) = claimed c"
  by (simp_all add: set_chan_def release_mutex_def PREPARE_TO_WAIT_def put_sched_def)

text \<open>Giving up the processor in the middle of an operation.\<close>

lemma switching_relinquish:
  assumes inv: "sched_inv (sch c) Q" and cpu: "cpu < NPUN" and m: "merged (sch c) cpu (Q cpu) = x # xs"
    and st: "p_sched_state (proc_of c (current (sch c) cpu)) = PROC_PREPARING_TO_WAIT"
  shows "\<exists>s'. switching cpu (relinquish cpu) c = Paused (c\<lparr>sch := s'\<rparr>) (Done ()) \<and>
    switched_to cpu x (set_sched_state (current (sch c) cpu) PROC_WAITING (sch c)) s' \<and>
    sched_inv s' (Q(cpu := xs)) \<and> top_running s' (Q(cpu := xs)) cpu \<and>
    idle_on s' (Q(cpu := xs)) cpu (current (sch c) cpu) \<and> in_ipq s' cpu = [] \<and>
    left_at In_relinquish (current (sch c) cpu) (sch c) s'"
proof -
  note D = sched_invD [OF inv cpu]
  let ?p = "current (sch c) cpu"
  obtain s' where s': "relinquish cpu (sch c) = Inr s'"
    "switched_to cpu x (set_sched_state ?p PROC_WAITING (sch c)) s'"
    "sched_inv s' (Q(cpu := xs))" "top_running s' (Q(cpu := xs)) cpu"
    "?p \<notin> members s' (Q(cpu := xs)) cpu" "?p \<noteq> x" "in_ipq s' cpu = []" "left_at In_relinquish ?p (sch c) s'"
    using relinquish_ok [OF inv cpu m] st by (auto simp: proc_of_def)
  have "current s' cpu \<noteq> ?p" using s'(2,6) by (simp add: switched_to_def)
  then have "switching cpu (relinquish cpu) c = Paused (c\<lparr>sch := s'\<rparr>) (Done ())"
    using s'(1) by (simp add: switching_simps)
  moreover have "p_stackptr (procs (sch c) ?p) = proc_stack ?p"
    using D(6) by (simp add: members_def)
  then have "idle_on s' (Q(cpu := xs)) cpu ?p"
    using s'(2,5) D(2,3) by (simp add: idle_on_def switched_to_def) (simp add: set_sched_state_def)
  ultimately show ?thesis using s' by blast
qed

text \<open>Waking a process that waits on the same processor.\<close>

lemma wake_waiting:
  assumes inv: "sched_inv (sch c) Q" and cpu: "cpu < NPUN" and x: "idle_on (sch c) Q cpu x"
    and top: "top_running (sch c) Q cpu" and st: "p_sched_state (proc_of c x) = PROC_WAITING"
  shows "\<exists>s' ys. reaches (wake cpu x c) (c\<lparr>sch := s'\<rparr>) \<and> sched_inv s' (Q(cpu := ys)) \<and>
    top_running s' (Q(cpu := ys)) cpu \<and> members s' (Q(cpu := ys)) cpu = insert x (members (sch c) Q cpu) \<and>
    p_sched_state (procs s' x) = PROC_READY"
proof -
  let ?s = "set_sched_state x PROC_READY (sch c)"
  have inv': "sched_inv ?s Q" and x': "idle_on ?s Q cpu x" using inv x by simp_all
  obtain b s' where s': "schedule cpu x ?s = Inr s'" "b \<longleftrightarrow> key_of ?s x < key_of ?s (current ?s cpu)"
    "switched_to cpu (if b then x else current ?s cpu) ?s s'" "in_ipq s' = in_ipq ?s"
    "sched_inv s' (Q(cpu := enq_list ?s (if b then current ?s cpu else x) (Q cpu)))"
    using schedule_ok [OF inv' cpu x'] by blast
  let ?ys = "enq_list ?s (if b then current ?s cpu else x) (Q cpu)"
  have "reaches (wake cpu x c) (c\<lparr>sch := s'\<rparr>)"
    using s'(1) st by (simp add: wake_def xchg_ready_def switching_def proc_of_def Let_def)
  moreover have "top_running s' (Q(cpu := ?ys)) cpu"
    using top s'(2) by (intro top_running_change [OF s'(3)]) (auto simp: top_running_def)
  moreover have "members s' (Q(cpu := ?ys)) cpu = insert x (members (sch c) Q cpu)"
  proof -
    have "current s' cpu = (if b then x else current (sch c) cpu)"
      using s'(3) by (simp add: switched_to_def)
    moreover have "in_ipq ?s = in_ipq (sch c)" by (simp add: in_ipq_def set_sched_state_def fun_eq_iff)
    ultimately show ?thesis using s'(4) by (auto simp: members_def)
  qed
  moreover have "p_sched_state (procs s' x) = PROC_READY" using s'(3) by (simp add: switched_to_def)
  ultimately show ?thesis using s'(5) by blast
qed

subsection \<open>Rendezvous\<close>

text \<open>The end of an operation that finds no partner.\<close>

lemma announce_and_wait:
  assumes inv: "sched_inv (sch c) Q" and cpu: "cpu < NPUN" and m: "merged (sch c) cpu (Q cpu) = x # xs"
  defines "p \<equiv> current (sch c) cpu"
  shows "\<exists>c'. switching cpu (relinquish cpu)
      (release_mutex (Mutex_chan ch) (PREPARE_TO_WAIT p (set_chan ch v c))) = Paused c' (Done ()) \<and>
    chans c' = (chans c)(ch := v) \<and> heap c' = heap c \<and> claimed c' = (claimed c)(Mutex_chan ch := False) \<and>
    current (sch c') cpu = x \<and> sched_inv (sch c') (Q(cpu := xs)) \<and> top_running (sch c') (Q(cpu := xs)) cpu \<and>
    idle_on (sch c') (Q(cpu := xs)) cpu p \<and> p_sched_state (proc_of c' p) = PROC_WAITING \<and>
    members (sch c) Q cpu = insert p (members (sch c') (Q(cpu := xs)) cpu)"
proof -
  let ?c = "release_mutex (Mutex_chan ch) (PREPARE_TO_WAIT p (set_chan ch v c))"
  have c: "sch ?c = set_sched_state p PROC_PREPARING_TO_WAIT (sch c)" "current (sch ?c) cpu = p"
    by (simp_all add: p_def)
  obtain s' where s': "switching cpu (relinquish cpu) ?c = Paused (?c\<lparr>sch := s'\<rparr>) (Done ())"
    "switched_to cpu x (set_sched_state p PROC_WAITING (sch ?c)) s'"
    "sched_inv s' (Q(cpu := xs))" "top_running s' (Q(cpu := xs)) cpu"
    "idle_on s' (Q(cpu := xs)) cpu p" "in_ipq s' cpu = []"
    using switching_relinquish [of ?c Q cpu x xs] inv cpu m by (auto simp: p_def proc_of_def)
  have cur: "current s' cpu = x" and w: "p_sched_state (procs s' p) = PROC_WAITING"
    using s'(2) by (simp_all add: switched_to_def)
  have "members s' (Q(cpu := xs)) cpu \<subseteq> members (sch c) Q cpu \<and>
      members (sch c) Q cpu = insert p (members s' (Q(cpu := xs)) cpu)"
  proof -
    have set_m: "set (x # xs) = set (Q cpu) \<union> set (in_ipq (sch c) cpu)"
      unfolding m [symmetric] by simp
    with s'(6) show ?thesis using cur by (auto simp: members_def p_def)
  qed
  with s' cur w show ?thesis
    by (intro exI [of _ "?c\<lparr>sch := s'\<rparr>"]) (simp add: proc_of_def)
qed

lemma in_finds_none:
  assumes "sched_inv (sch c) Q" and "cpu < NPUN" and "\<not> claimed c (Mutex_chan ch)"
    and "waiting (chans c ch) = NULL"
  shows "chan_in cpu ch d len c = (let p = current (sch c) cpu in switching cpu (relinquish cpu)
      (release_mutex (Mutex_chan ch) (PREPARE_TO_WAIT p (set_chan ch \<lparr>waiting = p, io_ptr = d\<rparr>
        (c\<lparr>claimed := (claimed c)(Mutex_chan ch := True)\<rparr>)))))"
    "chan_out cpu ch d len c = chan_in cpu ch d len c"
  using assms sched_invD(2) [OF assms(1,2)] by (simp_all add: chan_in_def chan_out_def Let_def)

text \<open>A copy and the waking of a partner, the end of an operation that finds one.\<close>

lemma partner_found:
  assumes inv: "sched_inv (sch c) Q" and cpu: "cpu < NPUN" and x: "idle_on (sch c) Q cpu p"
    and top: "top_running (sch c) Q cpu" and st: "p_sched_state (proc_of c p) = PROC_WAITING"
    and ptr: "d \<noteq> NULL" "src \<noteq> NULL"
  shows "\<exists>c' ys. reaches (run_bind (memcpy d src len c) (\<lambda>_ c.
        wake cpu p (release_mutex (Mutex_chan ch) (set_chan ch \<lparr>waiting = NULL, io_ptr = NULL\<rparr> c)))) c' \<and>
    heap c' = copy_bytes d src len (heap c) \<and> waiting (chans c' ch) = NULL \<and>
    \<not> claimed c' (Mutex_chan ch) \<and> sched_inv (sch c') (Q(cpu := ys)) \<and>
    top_running (sch c') (Q(cpu := ys)) cpu \<and>
    members (sch c') (Q(cpu := ys)) cpu = insert p (members (sch c) Q cpu) \<and>
    p_sched_state (proc_of c' p) = PROC_READY"
proof -
  let ?c = "release_mutex (Mutex_chan ch) (set_chan ch \<lparr>waiting = NULL, io_ptr = NULL\<rparr>
    (c\<lparr>heap := copy_bytes d src len (heap c)\<rparr>))"
  obtain s' ys where s': "reaches (wake cpu p ?c) (?c\<lparr>sch := s'\<rparr>)" "sched_inv s' (Q(cpu := ys))"
    "top_running s' (Q(cpu := ys)) cpu" "members s' (Q(cpu := ys)) cpu = insert p (members (sch c) Q cpu)"
    "p_sched_state (procs s' p) = PROC_READY"
    using wake_waiting [of ?c Q cpu p] assms by (auto simp: proc_of_def)
  then show ?thesis
    using ptr by (intro exI [of _ "?c\<lparr>sch := s'\<rparr>"] exI [of _ ys]) (simp add: memcpy_def proc_of_def)
qed

text \<open>
  C9. Communication, receiver first. The receiver \<open>p\<close> finds the channel empty, leaves its buffer
  there and loses the processor until it is woken; when a process of the same processor then
  sends, the bytes are in the receiver's buffer, the channel is empty and unlocked, and the
  receiver is ready again. No process is lost and the best one runs.
\<close>

theorem rendezvous_receiver_first:
  assumes inv: "sched_inv (sch c) Q" and cpu: "cpu < NPUN" and m: "merged (sch c) cpu (Q cpu) = x # xs"
    and free: "\<not> claimed c (Mutex_chan ch)" and empty: "waiting (chans c ch) = NULL"
    and ptr: "dest \<noteq> NULL" "src \<noteq> NULL"
  defines "p \<equiv> current (sch c) cpu"
  shows "\<exists>c1 c2 ys. chan_in cpu ch dest len c = Paused c1 (Done ()) \<and> current (sch c1) cpu = x \<and>
    p_sched_state (proc_of c1 p) = PROC_WAITING \<and> reaches (chan_out cpu ch src len c1) c2 \<and>
    heap c2 = copy_bytes dest src len (heap c) \<and> waiting (chans c2 ch) = NULL \<and>
    \<not> claimed c2 (Mutex_chan ch) \<and> p_sched_state (proc_of c2 p) = PROC_READY \<and>
    sched_inv (sch c2) (Q(cpu := ys)) \<and> top_running (sch c2) (Q(cpu := ys)) cpu \<and>
    members (sch c2) (Q(cpu := ys)) cpu = members (sch c) Q cpu"
proof -
  let ?c0 = "c\<lparr>claimed := (claimed c)(Mutex_chan ch := True)\<rparr>"
  obtain c1 where c1: "chan_in cpu ch dest len c = Paused c1 (Done ())"
    "chans c1 = (chans c)(ch := \<lparr>waiting = p, io_ptr = dest\<rparr>)" "heap c1 = heap c"
    "\<not> claimed c1 (Mutex_chan ch)" "current (sch c1) cpu = x" "sched_inv (sch c1) (Q(cpu := xs))"
    "top_running (sch c1) (Q(cpu := xs)) cpu" "idle_on (sch c1) (Q(cpu := xs)) cpu p"
    "p_sched_state (proc_of c1 p) = PROC_WAITING"
    "members (sch c) Q cpu = insert p (members (sch c1) (Q(cpu := xs)) cpu)"
    using announce_and_wait [of ?c0 Q cpu x xs ch "\<lparr>waiting = p, io_ptr = dest\<rparr>"]
      in_finds_none(1) [OF inv cpu free empty] inv cpu m by (auto simp: p_def Let_def)
  let ?c1 = "c1\<lparr>claimed := (claimed c1)(Mutex_chan ch := True)\<rparr>"
  have pn: "p \<noteq> NULL" "x \<noteq> NULL"
    using c1(8) sched_invD(2) [OF c1(6) cpu] c1(5) by (auto simp: idle_on_def)
  obtain c2 ys where c2: "reaches (run_bind (memcpy dest src len ?c1) (\<lambda>_ c.
        wake cpu p (release_mutex (Mutex_chan ch) (set_chan ch \<lparr>waiting = NULL, io_ptr = NULL\<rparr> c)))) c2"
    "heap c2 = copy_bytes dest src len (heap c)" "waiting (chans c2 ch) = NULL"
    "\<not> claimed c2 (Mutex_chan ch)" "sched_inv (sch c2) (Q(cpu := ys))"
    "top_running (sch c2) (Q(cpu := ys)) cpu"
    "members (sch c2) (Q(cpu := ys)) cpu = insert p (members (sch c1) (Q(cpu := xs)) cpu)"
    "p_sched_state (proc_of c2 p) = PROC_READY"
    using partner_found [of ?c1 "Q(cpu := xs)" cpu p dest src len ch] c1 cpu ptr
    by (auto simp: proc_of_def)
  have "chan_out cpu ch src len c1 = run_bind (memcpy dest src len ?c1) (\<lambda>_ c.
        wake cpu p (release_mutex (Mutex_chan ch) (set_chan ch \<lparr>waiting = NULL, io_ptr = NULL\<rparr> c)))"
    using c1(2,4,5) pn ptr by (simp add: chan_out_def memcpy_def Let_def)
  with c1 c2 show ?thesis by metis
qed

text \<open>A state in which some process sleeps in the channel with the buffer \<open>b\<close>.\<close>

lemma first_comes:
  assumes inv: "sched_inv (sch c) Q" and cpu: "cpu < NPUN" and m: "merged (sch c) cpu (Q cpu) = x # xs"
    and free: "\<not> claimed c (Mutex_chan ch)" and empty: "waiting (chans c ch) = NULL"
  defines "p \<equiv> current (sch c) cpu"
  shows "\<exists>c1. chan_in cpu ch b len c = Paused c1 (Done ()) \<and> chan_out cpu ch b len c = Paused c1 (Done ()) \<and>
    chans c1 = (chans c)(ch := \<lparr>waiting = p, io_ptr = b\<rparr>) \<and> heap c1 = heap c \<and>
    \<not> claimed c1 (Mutex_chan ch) \<and> current (sch c1) cpu = x \<and> sched_inv (sch c1) (Q(cpu := xs)) \<and>
    top_running (sch c1) (Q(cpu := xs)) cpu \<and> idle_on (sch c1) (Q(cpu := xs)) cpu p \<and>
    p_sched_state (proc_of c1 p) = PROC_WAITING \<and>
    members (sch c) Q cpu = insert p (members (sch c1) (Q(cpu := xs)) cpu)"
proof -
  let ?c0 = "c\<lparr>claimed := (claimed c)(Mutex_chan ch := True)\<rparr>"
  note none = in_finds_none [OF inv cpu free empty]
  show ?thesis
    using announce_and_wait [of ?c0 Q cpu x xs ch "\<lparr>waiting = p, io_ptr = b\<rparr>"] inv cpu m none
    by (auto simp: p_def Let_def)
qed

text \<open>
  Communication, sender first: the sender waits with its buffer in the channel; the process
  that then receives from the channel has the sender's bytes in its own buffer, the channel is empty
  and unlocked, and the sender is ready again.
\<close>

theorem rendezvous_sender_first:
  assumes inv: "sched_inv (sch c) Q" and cpu: "cpu < NPUN" and m: "merged (sch c) cpu (Q cpu) = x # xs"
    and free: "\<not> claimed c (Mutex_chan ch)" and empty: "waiting (chans c ch) = NULL"
    and ptr: "dest \<noteq> NULL" "src \<noteq> NULL"
  defines "p \<equiv> current (sch c) cpu"
  shows "\<exists>c1 c2 ys. chan_out cpu ch src len c = Paused c1 (Done ()) \<and> current (sch c1) cpu = x \<and>
    p_sched_state (proc_of c1 p) = PROC_WAITING \<and> reaches (chan_in cpu ch dest len c1) c2 \<and>
    heap c2 = copy_bytes dest src len (heap c) \<and> waiting (chans c2 ch) = NULL \<and>
    \<not> claimed c2 (Mutex_chan ch) \<and> p_sched_state (proc_of c2 p) = PROC_READY \<and>
    sched_inv (sch c2) (Q(cpu := ys)) \<and> top_running (sch c2) (Q(cpu := ys)) cpu \<and>
    members (sch c2) (Q(cpu := ys)) cpu = members (sch c) Q cpu"
proof -
  obtain c1 where c1: "chan_out cpu ch src len c = Paused c1 (Done ())"
    "chans c1 = (chans c)(ch := \<lparr>waiting = p, io_ptr = src\<rparr>)" "heap c1 = heap c"
    "\<not> claimed c1 (Mutex_chan ch)" "current (sch c1) cpu = x" "sched_inv (sch c1) (Q(cpu := xs))"
    "top_running (sch c1) (Q(cpu := xs)) cpu" "idle_on (sch c1) (Q(cpu := xs)) cpu p"
    "p_sched_state (proc_of c1 p) = PROC_WAITING"
    "members (sch c) Q cpu = insert p (members (sch c1) (Q(cpu := xs)) cpu)"
    using first_comes [OF inv cpu m free empty, where b = src] unfolding p_def by blast
  let ?c1 = "c1\<lparr>claimed := (claimed c1)(Mutex_chan ch := True)\<rparr>"
  have pn: "p \<noteq> NULL" "x \<noteq> NULL"
    using c1(8) sched_invD(2) [OF c1(6) cpu] c1(5) by (auto simp: idle_on_def)
  obtain c2 ys where c2: "reaches (run_bind (memcpy dest src len ?c1) (\<lambda>_ c.
        wake cpu p (release_mutex (Mutex_chan ch) (set_chan ch \<lparr>waiting = NULL, io_ptr = NULL\<rparr> c)))) c2"
    "heap c2 = copy_bytes dest src len (heap c)" "waiting (chans c2 ch) = NULL"
    "\<not> claimed c2 (Mutex_chan ch)" "sched_inv (sch c2) (Q(cpu := ys))"
    "top_running (sch c2) (Q(cpu := ys)) cpu"
    "members (sch c2) (Q(cpu := ys)) cpu = insert p (members (sch c1) (Q(cpu := xs)) cpu)"
    "p_sched_state (proc_of c2 p) = PROC_READY"
    using partner_found [of ?c1 "Q(cpu := xs)" cpu p dest src len ch] c1 cpu ptr
    by (auto simp: proc_of_def)
  have "chan_in cpu ch dest len c1 = run_bind (memcpy dest src len ?c1) (\<lambda>_ c.
        wake cpu p (release_mutex (Mutex_chan ch) (set_chan ch \<lparr>waiting = NULL, io_ptr = NULL\<rparr> c)))"
    using c1(2,4,5) pn ptr by (simp add: chan_in_def memcpy_def Let_def)
  with c1 c2 show ?thesis by metis
qed

text \<open>
  C32. A sender that waits in a channel is not woken by \<^verbatim>\<open>try_in\<close>: the receiver gets the
  bytes and the answer true, the channel forgets the sender, and the sender, still waiting, is in no
  queue of its processor, so that nothing in the kernel refers to it any more.
\<close>

theorem try_in_strands_sender:
  assumes inv: "sched_inv (sch c) Q" and cpu: "cpu < NPUN" and m: "merged (sch c) cpu (Q cpu) = x # xs"
    and free: "\<not> claimed c (Mutex_chan ch)" and empty: "waiting (chans c ch) = NULL"
    and ptr: "dest \<noteq> NULL" "src \<noteq> NULL"
  defines "p \<equiv> current (sch c) cpu"
  shows "\<exists>c1 c2. chan_out cpu ch src len c = Paused c1 (Done ()) \<and>
    try_in cpu ch dest len c1 = Done True c2 \<and> heap c2 = copy_bytes dest src len (heap c) \<and>
    waiting (chans c2 ch) = NULL \<and> p_sched_state (proc_of c2 p) = PROC_WAITING \<and>
    sched_inv (sch c2) (Q(cpu := xs)) \<and> p \<notin> members (sch c2) (Q(cpu := xs)) cpu"
proof -
  obtain c1 where c1: "chan_out cpu ch src len c = Paused c1 (Done ())"
    "chans c1 = (chans c)(ch := \<lparr>waiting = p, io_ptr = src\<rparr>)" "heap c1 = heap c"
    "\<not> claimed c1 (Mutex_chan ch)" "sched_inv (sch c1) (Q(cpu := xs))"
    "idle_on (sch c1) (Q(cpu := xs)) cpu p" "p_sched_state (proc_of c1 p) = PROC_WAITING"
    using first_comes [OF inv cpu m free empty, where b = src] unfolding p_def by blast
  have "p \<noteq> NULL" "p \<notin> members (sch c1) (Q(cpu := xs)) cpu" using c1(6) by (simp_all add: idle_on_def)
  moreover define c2 where "c2 = release_mutex (Mutex_chan ch) (set_chan ch \<lparr>waiting = NULL, io_ptr = NULL\<rparr>
    (c1\<lparr>claimed := (claimed c1)(Mutex_chan ch := True), heap := copy_bytes dest src len (heap c1)\<rparr>))"
  ultimately have "try_in cpu ch dest len c1 = Done True c2"
    using c1(2,4) ptr by (simp add: try_in_def memcpy_def Let_def)
  moreover have "sch c2 = sch c1" "heap c2 = copy_bytes dest src len (heap c1)" "waiting (chans c2 ch) = NULL"
    by (simp_all add: c2_def)
  ultimately show ?thesis
    using c1 \<open>p \<notin> members (sch c1) (Q(cpu := xs)) cpu\<close>
    by (intro exI [of _ c1] exI [of _ c2]) (simp add: proc_of_def)
qed

text \<open>
  A channel that is locked makes its users wait: an operation on it yields the processor and, when
  its process is switched in again, starts over from the claim; it changes neither the channel
  nor the memory meanwhile.
\<close>

theorem locked_channel_waits:
  assumes inv: "sched_inv (sch c) Q" and cpu: "cpu < NPUN" and locked: "claimed c (Mutex_chan ch)"
  shows "\<exists>c1 ys. sched_inv (sch c1) (Q(cpu := ys)) \<and>
    members (sch c1) (Q(cpu := ys)) cpu = members (sch c) Q cpu \<and> chans c1 = chans c \<and> heap c1 = heap c \<and>
    (\<exists>k. chan_in cpu ch b len c = Paused c1 k \<and>
       (\<forall>c2. current (sch c2) cpu = current (sch c) cpu \<longrightarrow> k c2 = chan_in cpu ch b len c2))"
proof -
  note D = sched_invD [OF inv cpu]
  obtain s' ys where s': "yield cpu (sch c) = Inr s'" "sched_inv s' (Q(cpu := ys))"
    "members s' (Q(cpu := ys)) cpu = members (sch c) Q cpu"
    using yield_ok [OF inv cpu] by blast
  show ?thesis
    using s' D(2) locked
    by (intro exI [of _ "c\<lparr>sch := s'\<rparr>"] exI [of _ ys])
      (simp add: chan_in_def claim_mutex_taken)
qed

lemma sample_facts:
  "sched_inv (sch sample_cxp) sample_queues" "merged (sch sample_cxp) 0 (sample_queues 0) = [0x400, 0x500, 0x100]"
  "\<not> claimed sample_cxp m" "waiting (chans sample_cxp ch) = NULL" "current (sch sample_cxp) 0 = 0x300"
  "0 < NPUN"
  using sample_sched_inv sample_merged
  by (simp_all add: sample_cxp_def NPUN_def) (simp add: sample_sched_def)

theorem rendezvous_receiver_first_witness:
  "\<exists>c1 c2. chan_in 0 0x900 0x1000 8 sample_cxp = Paused c1 (Done ()) \<and>
    reaches (chan_out 0 0x900 0x2000 8 c1) c2 \<and> waiting (chans c2 0x900) = NULL"
  using rendezvous_receiver_first [OF sample_facts(1,6,2,3,4), of "0x1000" "0x2000" "0x900" 8] by auto

theorem rendezvous_sender_first_witness:
  "\<exists>c1 c2. chan_out 0 0x900 0x2000 8 sample_cxp = Paused c1 (Done ()) \<and>
    reaches (chan_in 0 0x900 0x1000 8 c1) c2 \<and> p_sched_state (proc_of c2 0x300) = PROC_READY"
  using rendezvous_sender_first [OF sample_facts(1,6,2,3,4), of "0x1000" "0x2000" "0x900" 8]
  by (auto simp: sample_facts)

theorem try_in_strands_sender_witness:
  "\<exists>c1 c2. chan_out 0 0x900 0x2000 8 sample_cxp = Paused c1 (Done ()) \<and>
    try_in 0 0x900 0x1000 8 c1 = Done True c2 \<and> p_sched_state (proc_of c2 0x300) = PROC_WAITING"
  using try_in_strands_sender [OF sample_facts(1,6,2,3,4), of "0x1000" "0x2000" "0x900" 8]
  by (auto simp: sample_facts)

theorem locked_channel_waits_witness:
  "\<exists>c1 k. chan_in 0 0x900 0x1000 8 (sample_cxp\<lparr>claimed := (\<lambda>_. True)\<rparr>) = Paused c1 k"
  using locked_channel_waits [of "sample_cxp\<lparr>claimed := (\<lambda>_. True)\<rparr>" sample_queues 0 "0x900" "0x1000" 8]
    sample_facts by auto

end
