(* ===== verification/Timer.thy ===== *)
theory Timer
  imports Memory Comm
begin

text \<open>
  The clock and the timeouts of \<^verbatim>\<open>timer.c\<close>. Each processor has a queue of timeout
  descriptors in the order of their expiration, linked through the field \<^verbatim>\<open>next\<close>. The
  descriptor of \<^verbatim>\<open>After\<close> lies on the caller's stack; its address is an argument of
  \<open>After\<close>.
\<close>

subsection \<open>The clock\<close>

text \<open>
  The loop of \<^verbatim>\<open>GetCurrentTime\<close>. The values that its successive loads of
  \<^verbatim>\<open>currentTime\<close> see are an argument, because the elapsed-time interrupt may change them; the
  loop ends when two loads in a row agree.
\<close>

partial_function (option) time_loop ::
  "(nat \<Rightarrow> Time) \<Rightarrow> pun \<Rightarrow> nat \<Rightarrow> Time \<Rightarrow> hw_state \<Rightarrow> (Time \<times> hw_state) res option" where
  "time_loop loads cpu n cc h =
     (case read_timer cpu TIMER_ELAPSED h of
        Inl e \<Rightarrow> Some (Inl e)
      | Inr (t, h) \<Rightarrow>
          let c = loads n in
          if c \<noteq> cc then time_loop loads cpu (n + 1) c h
          else Some (Inr ((Tick - t) + c, h)))"

definition GetCurrentTime :: "pun \<Rightarrow> cxp \<Rightarrow> (Time \<times> cxp) res" where
  "GetCurrentTime cpu c =
     res_bind (of_loop ''GetCurrentTime'' (time_loop (\<lambda>_. currentTime c) cpu 0 (currentTime c) (hw (sch c)))) (\<lambda>r.
     res_bind r (\<lambda>(t, h). Inr (t, put_sched (on_hw (\<lambda>_. h)) c)))"

definition Now :: "pun \<Rightarrow> cxp \<Rightarrow> (Time \<times> cxp) res" where
  "Now cpu c = GetCurrentTime cpu c"

definition handle_elapsed_time_interrupt :: "cxp \<Rightarrow> cxp" where
  "handle_elapsed_time_interrupt c = c\<lparr>currentTime := currentTime c + Tick\<rparr>"

subsection \<open>The timeout queue\<close>

definition TMO_AFTER :: uint16 where "TMO_AFTER = 0"
definition TMO_ALTING :: uint16 where "TMO_ALTING = 1"

definition set_tmo_next :: "addr \<Rightarrow> addr \<Rightarrow> cxp \<Rightarrow> cxp" where
  "set_tmo_next d q c = c\<lparr>tmos := (tmos c)(d := tmos c d\<lparr>t_next := q\<rparr>)\<rparr>"

definition set_timeout_timer :: "pun \<Rightarrow> Time \<Rightarrow> cxp \<Rightarrow> cxp res" where
  "set_timeout_timer cpu diff c =
     res_bind (set_timer_single cpu TIMER_TIMEOUT diff (hw (sch c))) (\<lambda>h.
       Inr (put_sched (on_hw (\<lambda>_. h)) c))"

definition insertInQueue :: "pun \<Rightarrow> pun \<Rightarrow> addr \<Rightarrow> cxp \<Rightarrow> cxp res" where
  "insertInQueue cpu tque desc c =
     (let c = put_sched (on_hw (disable cpu)) c in
     res_bind (of_loop ''insertInQueue''
       (walk (\<lambda>cur. time_le (t_time (tmos c cur)) (t_time (tmos c desc))) (\<lambda>cur. t_next (tmos c cur))
          NULL (timeQue c tque)))
     (\<lambda>(prev, cur).
     res_bind
       (if prev = NULL \<and> cur = NULL then
          let c = set_tmo_next desc NULL (c\<lparr>timeQue := (timeQue c)(tque := desc)\<rparr>) in
          res_bind (GetCurrentTime cpu c) (\<lambda>(now, c).
          let diff = t_time (tmos c desc) - now in set_timeout_timer cpu diff c)
        else if prev = NULL \<and> cur \<noteq> NULL then
          let c = set_tmo_next desc cur (c\<lparr>timeQue := (timeQue c)(tque := desc)\<rparr>) in
          res_bind (GetCurrentTime cpu c) (\<lambda>(now, c).
          let diff = t_time (tmos c desc) - now in set_timeout_timer cpu diff c)
        else if prev \<noteq> NULL \<and> cur \<noteq> NULL then
          Inr (set_tmo_next desc cur (set_tmo_next prev desc c))
        else
          Inr (set_tmo_next desc NULL (set_tmo_next prev desc c)))
     (\<lambda>c. Inr (put_sched (on_hw (enable cpu)) c))))"

definition removeFromQueue :: "pun \<Rightarrow> pun \<Rightarrow> Time \<Rightarrow> addr \<Rightarrow> cxp \<Rightarrow> (addr \<times> cxp) res" where
  "removeFromQueue cpu tque time p c =
     (let c = put_sched (on_hw (disable cpu)) c; nx = (\<lambda>cur. t_next (tmos c cur)) in
     res_bind (of_loop ''removeFromQueue''
       (walk (\<lambda>cur. time_lt (t_time (tmos c cur)) time) nx NULL (timeQue c tque))) (\<lambda>(prev, cur).
     res_bind (of_loop ''removeFromQueue''
       (walk (\<lambda>cur. t_time (tmos c cur) = time \<and> t_proc (tmos c cur) \<noteq> p) nx prev cur)) (\<lambda>(prev, cur).
       let c = (if cur \<noteq> NULL \<and> t_time (tmos c cur) = time \<and> t_proc (tmos c cur) = p then
                  let c = (if prev \<noteq> NULL then set_tmo_next prev (t_next (tmos c cur)) c else c)
                  in if cur = timeQue c tque then c\<lparr>timeQue := (timeQue c)(tque := t_next (tmos c cur))\<rparr> else c
                else c)
       in Inr (cur, put_sched (on_hw (enable cpu)) c))))"

definition removeHead :: "pun \<Rightarrow> cxp \<Rightarrow> (addr \<times> cxp) res" where
  "removeHead tque c =
     (let desc = timeQue c tque
      in if desc = NULL then Inl NullDeref
         else Inr (desc, c\<lparr>timeQue := (timeQue c)(tque := t_next (tmos c desc))\<rparr>))"

subsection \<open>Waiting for a time\<close>

definition of_res :: "(cxp \<Rightarrow> ('a \<times> cxp) res) \<Rightarrow> cxp \<Rightarrow> 'a run" where
  "of_res f c = (case f c of Inl e \<Rightarrow> Fail e | Inr (a, c) \<Rightarrow> Done a c)"

definition of_step :: "(cxp \<Rightarrow> cxp res) \<Rightarrow> cxp \<Rightarrow> unit run" where
  "of_step f c = (case f c of Inl e \<Rightarrow> Fail e | Inr c \<Rightarrow> Done () c)"

definition After :: "pun \<Rightarrow> addr \<Rightarrow> Time \<Rightarrow> cxp \<Rightarrow> unit run" where
  "After cpu desc when c =
     run_bind (of_res (GetCurrentTime cpu) c) (\<lambda>now c.
       if time_lt now when then
         run_bind (the_current cpu c) (\<lambda>p c.
           let c = c\<lparr>tmos := (tmos c)(desc :=
                 \<lparr>t_time = when, t_proc = p, t_next = NULL, t_type = TMO_AFTER\<rparr>)\<rparr>;
               c = PREPARE_TO_WAIT p c
           in run_bind (of_step (insertInQueue cpu cpu desc) c) (\<lambda>_ c. switching cpu (relinquish cpu) c))
       else Done () c)"

definition timeout_ready :: "pun \<Rightarrow> Time \<Rightarrow> cxp \<Rightarrow> bool run" where
  "timeout_ready cpu time c =
     run_bind (of_res (GetCurrentTime cpu) c) (\<lambda>now c. Done (time_le time now) c)"

definition enable_timeout :: "pun \<Rightarrow> Time \<Rightarrow> addr \<Rightarrow> cxp \<Rightarrow> bool run" where
  "enable_timeout cpu time p c =
     run_bind (of_res (GetCurrentTime cpu) c) (\<lambda>now c.
       let ready = time_le time now in
       run_bind
         (if \<not> ready then
            run_bind (allocate_mem cpu TMO_INDEX c) (\<lambda>desc c.
              let c = c\<lparr>tmos := (tmos c)(desc := (tmos c desc)
                    \<lparr>t_time := time, t_proc := p, t_type := TMO_ALTING\<rparr>)\<rparr>
              in of_step (insertInQueue cpu (p_pun (proc_of c p)) desc) c)
          else Done () c)
         (\<lambda>_ c. Done ready c))"

definition disable_timeout :: "pun \<Rightarrow> Time \<Rightarrow> addr \<Rightarrow> cxp \<Rightarrow> bool run" where
  "disable_timeout cpu time p c =
     run_bind (of_res (GetCurrentTime cpu) c) (\<lambda>now c.
       let ready = time_le time now in
       run_bind (of_res (removeFromQueue cpu (p_pun (proc_of c p)) time p) c) (\<lambda>desc c.
       run_bind (if desc \<noteq> NULL then release_mem cpu TMO_INDEX desc c else Done () c)
         (\<lambda>_ c. Done ready c)))"

subsection \<open>The timeout interrupt\<close>

definition free_timeout :: "addr \<Rightarrow> cxp \<Rightarrow> cxp res" where
  "free_timeout head c =
     (if t_type (tmos c head) = TMO_AFTER then
        res_bind (freeProcess (t_proc (tmos c head)) (sch c)) (\<lambda>s. Inr (c\<lparr>sch := s\<rparr>))
      else if t_type (tmos c head) = TMO_ALTING then
        res_bind (maybeFreeAltingProcess (t_proc (tmos c head)) (sch c)) (\<lambda>s. Inr (c\<lparr>sch := s\<rparr>))
      else Inl (Plotz ''handle_timeout_interrupt invalid type''))"

partial_function (option) due_loop :: "pun \<Rightarrow> Time \<Rightarrow> cxp \<Rightarrow> cxp res option" where
  "due_loop tque now c =
     (let head = timeQue c tque in
      if head \<noteq> NULL \<and> time_le (t_time (tmos c head)) now then
        case removeHead tque c of
          Inl e \<Rightarrow> Some (Inl e)
        | Inr (_, c) \<Rightarrow>
            (case free_timeout head c of
               Inl e \<Rightarrow> Some (Inl e)
             | Inr c \<Rightarrow> due_loop tque now c)
      else Some (Inr c))"

definition handle_timeout_interrupt :: "pun \<Rightarrow> cxp \<Rightarrow> (bool \<times> cxp) res" where
  "handle_timeout_interrupt cpu c =
     res_bind (get_current cpu (sch c)) (\<lambda>cur.
       let tque = p_pun (proc_of c cur) in
       res_bind (GetCurrentTime cpu c) (\<lambda>(now, c).
       res_bind (res_bind (of_loop ''handle_timeout_interrupt'' (due_loop tque now c)) (\<lambda>r. r)) (\<lambda>c.
       res_bind
         (if timeQue c tque \<noteq> NULL
          then set_timeout_timer cpu (t_time (tmos c (timeQue c tque)) - now) c
          else Inr c) (\<lambda>c.
       res_bind (schedule_from_interrupt cpu (sch c)) (\<lambda>(switched, s). Inr (switched, c\<lparr>sch := s\<rparr>))))))"

definition timer_init :: "cxp \<Rightarrow> cxp" where
  "timer_init c = c\<lparr>timeQue := (\<lambda>p. if p < NPUN then NULL else timeQue c p)\<rparr>"

end
