(* ===== verification/Timer_Correct.thy ===== *)
theory Timer_Correct
  imports Timer
begin

text \<open>
  Correctness of the clock and of the timeout queues: the pointer structure refines the list of
  the descriptors in the order of their expiration times, an insertion at the head sets the timer
  to the time that is left, and the timeout interrupt frees exactly the processes whose time has
  come.
\<close>

subsection \<open>Reading the clock\<close>

definition clock_ok :: "pun \<Rightarrow> cxp \<Rightarrow> bool" where
  "clock_ok cpu c \<longleftrightarrow> os_timers (hw (sch c)) (timer (hw (sch c)) cpu TIMER_ELAPSED) \<noteq> None"

definition ts_time :: "timespec \<Rightarrow> Time" where
  "ts_time ts = word_of_int (tv_sec ts) * word_of_int NS_PER_SEC + word_of_int (tv_nsec ts)"

definition now_of :: "cxp \<Rightarrow> Time" where
  "now_of c = (Tick - ts_time (os_readings (hw (sch c)) (n_readings (hw (sch c))))) + currentTime c"

definition read_once :: "cxp \<Rightarrow> cxp" where
  "read_once c = put_sched (on_hw (\<lambda>h. h\<lparr>n_readings := n_readings h + 1\<rparr>)) c"

lemma read_timer_eq:
  "os_timers h (timer h cpu ty) \<noteq> None \<Longrightarrow>
    read_timer cpu ty h = Inr (ts_time (os_readings h (n_readings h)), h\<lparr>n_readings := n_readings h + 1\<rparr>)"
  by (auto simp: read_timer_def ts_time_def Let_def)

lemma time_loop_agree:
  "os_timers h (timer h cpu TIMER_ELAPSED) \<noteq> None \<Longrightarrow> loads n = cc \<Longrightarrow>
    time_loop loads cpu n cc h = Some (Inr ((Tick - ts_time (os_readings h (n_readings h))) + cc,
      h\<lparr>n_readings := n_readings h + 1\<rparr>))"
  by (subst time_loop.simps) (simp add: read_timer_eq)

lemma time_loop_again:
  "os_timers h (timer h cpu TIMER_ELAPSED) \<noteq> None \<Longrightarrow> loads n \<noteq> cc \<Longrightarrow>
    time_loop loads cpu n cc h = time_loop loads cpu (n + 1) (loads n) (h\<lparr>n_readings := n_readings h + 1\<rparr>)"
  by (subst time_loop.simps) (simp add: read_timer_eq Let_def)

lemma GetCurrentTime_eq: "clock_ok cpu c \<Longrightarrow> GetCurrentTime cpu c = Inr (now_of c, read_once c)"
  by (simp add: GetCurrentTime_def clock_ok_def time_loop_agree now_of_def read_once_def on_hw_def put_sched_def)

lemma time_loop_until:
  assumes "os_timers h (timer h cpu TIMER_ELAPSED) \<noteq> None"
    and "\<forall>j < k. loads (n + j) \<noteq> (if j = 0 then cc else loads (n + j - 1))"
    and "loads (n + k) = (if k = 0 then cc else loads (n + k - 1))"
  shows "time_loop loads cpu n cc h =
    Some (Inr ((Tick - ts_time (os_readings h (n_readings h + k))) + loads (n + k),
      h\<lparr>n_readings := n_readings h + k + 1\<rparr>))"
  using assms
proof (induction k arbitrary: n cc h)
  case 0
  then show ?case by (simp add: time_loop_agree)
next
  case (Suc k)
  let ?h = "h\<lparr>n_readings := n_readings h + 1\<rparr>"
  have "loads n \<noteq> cc" using Suc.prems(2) [rule_format, of 0] by simp
  then have "time_loop loads cpu n cc h = time_loop loads cpu (n + 1) (loads n) ?h"
    using Suc.prems(1) by (rule time_loop_again [rotated])
  also have "\<dots> = Some (Inr ((Tick - ts_time (os_readings ?h (n_readings ?h + k))) + loads (n + 1 + k),
      ?h\<lparr>n_readings := n_readings ?h + k + 1\<rparr>))"
  proof (rule Suc.IH)
    show "\<forall>j < k. loads (n + 1 + j) \<noteq> (if j = 0 then loads n else loads (n + 1 + j - 1))"
      using Suc.prems(2) by (auto dest: spec [of _ "Suc _"])
  qed (use Suc.prems in auto)
  finally show ?case by simp
qed

text \<open>
  Reading the clock ends as soon as two successive loads of the tick count agree, whatever the
  elapsed-time interrupt does to it before, and the result combines that tick count with the
  remaining time of the tick read between those two loads.
\<close>

theorem clock_read_ends:
  assumes "os_timers h (timer h cpu TIMER_ELAPSED) \<noteq> None"
    and "loads k = (if k = 0 then cc else loads (k - 1))"
  shows "\<exists>k' \<le> k. time_loop loads cpu 0 cc h =
      Some (Inr ((Tick - ts_time (os_readings h (n_readings h + k'))) + loads k',
        h\<lparr>n_readings := n_readings h + k' + 1\<rparr>)) \<and>
    loads k' = (if k' = 0 then cc else loads (k' - 1))"
proof -
  define P where "P k \<longleftrightarrow> loads k = (if k = 0 then cc else loads (k - 1))" for k
  define m where "m = (LEAST k. P k)"
  have Pk: "P k" using assms(2) by (simp only: P_def)
  have Pm: "P m" unfolding m_def using Pk by (rule LeastI)
  have mk: "m \<le> k" unfolding m_def using Pk by (rule Least_le)
  have least: "\<not> P j" if "j < m" for j using that unfolding m_def by (rule not_less_Least)
  have "time_loop loads cpu 0 cc h =
      Some (Inr ((Tick - ts_time (os_readings h (n_readings h + m))) + loads (0 + m),
        h\<lparr>n_readings := n_readings h + m + 1\<rparr>))"
  proof (rule time_loop_until [OF assms(1)])
    show "\<forall>j < m. loads (0 + j) \<noteq> (if j = 0 then cc else loads (0 + j - 1))"
      unfolding add_0 using least unfolding P_def by blast
    show "loads (0 + m) = (if m = 0 then cc else loads (0 + m - 1))"
      unfolding add_0 using Pm unfolding P_def .
  qed
  then show ?thesis using Pm mk unfolding P_def add_0 by blast
qed

definition sample_clock_hw :: hw_state where
  "sample_clock_hw = sample_hw\<lparr>timer := (\<lambda>p ty. of_nat ty), os_timers :=
     (\<lambda>t. Some \<lparr>tm_signo = 42, it_value = tick_ts, it_interval = tick_ts\<rparr>)\<rparr>"

theorem clock_read_ends_witness:
  "\<exists>t h'. time_loop (\<lambda>n. if n = 0 then Tick else 2 * Tick) 0 0 0 sample_clock_hw = Some (Inr (t, h'))"
  using clock_read_ends [of sample_clock_hw 0 "\<lambda>n. if n = 0 then Tick else 2 * Tick" 2 0]
  by (auto simp: sample_clock_hw_def)

subsection \<open>The timeout queue as a list\<close>

definition tnext :: "cxp \<Rightarrow> addr \<Rightarrow> addr" where "tnext c d = t_next (tmos c d)"

definition tkey :: "cxp \<Rightarrow> addr \<Rightarrow> int" where "tkey c d = sint (t_time (tmos c d))"

definition tmo_ok :: "cxp \<Rightarrow> (pun \<Rightarrow> addr list) \<Rightarrow> bool" where
  "tmo_ok c T \<longleftrightarrow> (\<forall>q < NPUN. chain (tnext c) (timeQue c q) (T q) \<and> sorted (map (tkey c) (T q)) \<and>
     (\<forall>r < NPUN. q \<noteq> r \<longrightarrow> set (T q) \<inter> set (T r) = {}))"

text \<open>What an insertion writes to the links.\<close>

definition link_tmo :: "pun \<Rightarrow> addr \<Rightarrow> addr \<Rightarrow> addr \<Rightarrow> cxp \<Rightarrow> cxp" where
  "link_tmo q desc prev cur c =
     (if prev = NULL then set_tmo_next desc cur (c\<lparr>timeQue := (timeQue c)(q := desc)\<rparr>)
      else set_tmo_next desc cur (set_tmo_next prev desc c))"

lemma link_tmo_simps [simp]:
  "tnext (link_tmo q desc prev cur c) = splice_next (tnext c) desc prev cur"
  "timeQue (link_tmo q desc prev cur c) = (timeQue c)(q := splice_head (timeQue c q) desc prev)"
  "tkey (link_tmo q desc prev cur c) = tkey c" "sch (link_tmo q desc prev cur c) = sch c"
  "currentTime (link_tmo q desc prev cur c) = currentTime c"
  "t_time (tmos (link_tmo q desc prev cur c) d) = t_time (tmos c d)"
  "t_proc (tmos (link_tmo q desc prev cur c) d) = t_proc (tmos c d)"
  "t_type (tmos (link_tmo q desc prev cur c) d) = t_type (tmos c d)"
  by (auto simp: link_tmo_def set_tmo_next_def tnext_def tkey_def splice_next_def splice_head_def fun_eq_iff)

lemma put_sched_simps [simp]:
  "sch (put_sched f c) = f (sch c)" "tmos (put_sched f c) = tmos c" "timeQue (put_sched f c) = timeQue c"
  "tnext (put_sched f c) = tnext c" "tkey (put_sched f c) = tkey c" "currentTime (put_sched f c) = currentTime c"
  "claimed (put_sched f c) = claimed c"
  by (simp_all add: put_sched_def tnext_def tkey_def fun_eq_iff)

lemma tmo_ok_cong:
  assumes "tnext c' = tnext c" and "tkey c' = tkey c" and "timeQue c' = timeQue c"
  shows "tmo_ok c' T = tmo_ok c T"
  using assms by (simp add: tmo_ok_def)

lemma tmo_ok_put_sched [simp]: "tmo_ok (put_sched f c) T = tmo_ok c T"
  by (rule tmo_ok_cong) simp_all

lemma tmo_ok_insert:
  assumes ok: "tmo_ok c T" and q: "q < NPUN" and d: "desc \<noteq> NULL"
    and new: "\<forall>r < NPUN. desc \<notin> set (T r)"
    and prev: "prev = last (NULL # takeWhile (\<lambda>y. tkey c y \<le> tkey c desc) (T q))"
    and cur: "cur = (case dropWhile (\<lambda>y. tkey c y \<le> tkey c desc) (T q) of [] \<Rightarrow> NULL | y # ys \<Rightarrow> y)"
  shows "tmo_ok (link_tmo q desc prev cur c) (T(q := sort_key (tkey c) (T q @ [desc])))"
    and "prev = NULL \<longleftrightarrow> (\<forall>y \<in> set (T q). tkey c desc < tkey c y)"
proof -
  have ch: "chain (tnext c) (timeQue c q) (T q)" and srt: "sorted (map (tkey c) (T q))"
    and nq: "desc \<notin> set (T q)" using ok q new by (auto simp: tmo_ok_def)
  note S = splice_chain [OF ch d nq prev cur]
  have ins: "insert_at (\<lambda>y. tkey c y \<le> tkey c desc) desc (T q) = sort_key (tkey c) (T q @ [desc])"
    by (rule insert_at_sorted [OF srt])
  let ?T = "T(q := sort_key (tkey c) (T q @ [desc]))"
  have dis: "set (T r) \<inter> set (T s) = {}" if "r < NPUN" "s < NPUN" "r \<noteq> s" for r s
    using ok that by (simp add: tmo_ok_def)
  have "chain (splice_next (tnext c) desc prev cur) (splice_head (timeQue c q) desc prev) (?T q)"
    using S(1) unfolding ins by simp
  moreover have "chain (splice_next (tnext c) desc prev cur) (timeQue c r) (?T r)" if "r \<noteq> q" "r < NPUN" for r
    using S(2) [of "timeQue c r" "T r"] ok that new dis [of q r] q by (simp add: tmo_ok_def)
  moreover have "sorted (map (tkey c) (?T r))" if "r < NPUN" for r
    using ok that by (cases "r = q") (simp_all add: tmo_ok_def)
  moreover have "set (?T r) \<inter> set (?T s) = {}" if "r < NPUN" "s < NPUN" "r \<noteq> s" for r s
    using dis [OF that] new that by (cases "r = q"; cases "s = q") simp_all
  ultimately show "tmo_ok (link_tmo q desc prev cur c) ?T"
    unfolding tmo_ok_def link_tmo_simps by (metis fun_upd_apply)
  show "prev = NULL \<longleftrightarrow> (\<forall>y \<in> set (T q). tkey c desc < tkey c y)"
    using S(3) takeWhile_le_sorted(1) [OF srt, of "tkey c desc"] by (auto simp: filter_empty_conv not_le)
qed

text \<open>The timer that raises the timeouts of a processor.\<close>

definition timeout_timer :: "pun \<Rightarrow> cxp \<Rightarrow> ostimer option" where
  "timeout_timer cpu c = os_timers (hw (sch c)) (timer (hw (sch c)) cpu TIMER_TIMEOUT)"

definition left_until :: "cxp \<Rightarrow> Time \<Rightarrow> Time" where "left_until c time = time - now_of c"

text \<open>
  Only the hardware part of the scheduler's state differs, and of that neither the table of timer
  numbers nor the routing of the signals.
\<close>

definition hw_only :: "cxp \<Rightarrow> cxp \<Rightarrow> bool" where
  "hw_only c c' \<longleftrightarrow> (\<exists>h. c' = c\<lparr>sch := (sch c)\<lparr>hw := h\<rparr>\<rparr> \<and> timer h = timer (hw (sch c)) \<and>
     os_readings h = os_readings (hw (sch c)) \<and> thread_id h = thread_id (hw (sch c)) \<and>
     same_signals (hw (sch c)) h \<and> (\<forall>t. os_timers h t = None \<longleftrightarrow> os_timers (hw (sch c)) t = None))"

lemma hw_onlyI:
  "timer (f (hw (sch c))) = timer (hw (sch c)) \<Longrightarrow> os_readings (f (hw (sch c))) = os_readings (hw (sch c)) \<Longrightarrow>
   thread_id (f (hw (sch c))) = thread_id (hw (sch c)) \<Longrightarrow> same_signals (hw (sch c)) (f (hw (sch c))) \<Longrightarrow>
   (\<forall>t. os_timers (f (hw (sch c))) t = None \<longleftrightarrow> os_timers (hw (sch c)) t = None) \<Longrightarrow>
   hw_only c (put_sched (on_hw f) c)"
  unfolding hw_only_def put_sched_def on_hw_def by blast

lemma hw_only_trans: "hw_only a b \<Longrightarrow> hw_only b c \<Longrightarrow> hw_only a c"
  by (fastforce simp: hw_only_def same_signals_def)

lemma hw_only_mask [simp]:
  "hw_only c (put_sched (on_hw (disable cpu)) c)" "hw_only c (put_sched (on_hw (enable cpu)) c)"
  "hw_only c (read_once c)"
  unfolding read_once_def by (rule hw_onlyI; simp add: disable_def enable_def same_signals_def)+

lemma set_timeout_timer_ok:
  assumes "timeout_timer cpu c = Some tm" and "sint diff < 2 ^ 31 * NS_PER_SEC"
  shows "\<exists>c' tm'. set_timeout_timer cpu diff c = Inr c' \<and> hw_only c c' \<and> timeout_timer cpu c' = Some tm' \<and>
    nanos (it_value tm') = max 0 (sint diff) \<and> (armed tm' \<longleftrightarrow> 0 < sint diff) \<and> tm_signo tm' = tm_signo tm"
proof -
  let ?h = "hw (sch c)"
  obtain ts where ts: "set_timer_single cpu TIMER_TIMEOUT diff ?h = Inr (?h\<lparr>os_timers :=
      (os_timers ?h)(timer ?h cpu TIMER_TIMEOUT \<mapsto> tm\<lparr>it_value := ts, it_interval := zero_ts\<rparr>)\<rparr>)"
    "nanos ts = max 0 (sint diff)" "ts \<noteq> zero_ts \<longleftrightarrow> 0 < sint diff"
    using set_timer_single_ok [of ?h cpu TIMER_TIMEOUT tm diff] assms by (auto simp: timeout_timer_def)
  let ?g = "?h\<lparr>os_timers := (os_timers ?h)(timer ?h cpu TIMER_TIMEOUT \<mapsto> tm\<lparr>it_value := ts, it_interval := zero_ts\<rparr>)\<rparr>"
  have "hw_only c (put_sched (on_hw (\<lambda>_. ?g)) c)"
    using assms(1) by (intro hw_onlyI) (auto simp: timeout_timer_def same_signals_def)
  with ts show ?thesis
    by (intro exI [of _ "put_sched (on_hw (\<lambda>_. ?g)) c"])
      (simp add: set_timeout_timer_def timeout_timer_def armed_def)
qed

subsection \<open>Insertion\<close>

lemma hw_onlyD:
  assumes "hw_only c c'"
  shows "tmos c' = tmos c" "timeQue c' = timeQue c" "tnext c' = tnext c" "tkey c' = tkey c"
    "currentTime c' = currentTime c" "procs (sch c') = procs (sch c)" "current (sch c') = current (sch c)"
    "claimed c' = claimed c" "chans c' = chans c" "sched_inv (sch c') Q = sched_inv (sch c) Q"
    "clock_ok cpu c' = clock_ok cpu c" "members (sch c') Q cpu = members (sch c) Q cpu"
    "merged (sch c') cpu xs = merged (sch c) cpu xs" "tmo_ok c' T = tmo_ok c T"
proof -
  obtain h where c': "c' = c\<lparr>sch := (sch c)\<lparr>hw := h\<rparr>\<rparr>" and h: "timer h = timer (hw (sch c))"
    "\<forall>t. os_timers h t = None \<longleftrightarrow> os_timers (hw (sch c)) t = None"
    using assms by (auto simp: hw_only_def)
  show "clock_ok cpu c' = clock_ok cpu c" using h by (simp add: clock_ok_def c')
  show "tmo_ok c' T = tmo_ok c T" by (rule tmo_ok_cong) (simp_all add: c' tnext_def tkey_def fun_eq_iff)
  show "tmos c' = tmos c" "timeQue c' = timeQue c" "tnext c' = tnext c" "tkey c' = tkey c"
    "currentTime c' = currentTime c" "procs (sch c') = procs (sch c)" "current (sch c') = current (sch c)"
    "claimed c' = claimed c" "chans c' = chans c" "sched_inv (sch c') Q = sched_inv (sch c) Q"
    "members (sch c') Q cpu = members (sch c) Q cpu" "merged (sch c') cpu xs = merged (sch c) cpu xs"
    by (simp_all add: c' tnext_def [abs_def] tkey_def [abs_def])
qed

lemma insertInQueue_eq:
  fixes c desc
  defines "go \<equiv> \<lambda>y. tkey c y \<le> tkey c desc"
  assumes ch: "chain (tnext c) (timeQue c q) xs"
    and prev: "prev = last (NULL # takeWhile go xs)" and cur: "cur = (case dropWhile go xs of [] \<Rightarrow> NULL | y # ys \<Rightarrow> y)"
  shows "insertInQueue cpu q desc c =
    (let c1 = link_tmo q desc prev cur (put_sched (on_hw (disable cpu)) c) in
     res_bind (if prev = NULL then res_bind (GetCurrentTime cpu c1) (\<lambda>(now, c).
         set_timeout_timer cpu (t_time (tmos c desc) - now) c) else Inr c1)
       (\<lambda>c. Inr (put_sched (on_hw (enable cpu)) c)))"
proof -
  have w: "walk (\<lambda>cur. time_le (t_time (tmos c cur)) (t_time (tmos c desc))) (\<lambda>cur. t_next (tmos c cur))
      NULL (timeQue c q) = Some (prev, cur)"
    using walk_chain [OF ch, of go NULL] prev cur
    by (simp add: go_def time_le_def tkey_def tnext_def [abs_def])
  show ?thesis
    by (cases "cur = NULL") (simp_all add: insertInQueue_def w Let_def link_tmo_def)
qed

lemma left_until_simps [simp]:
  "now_of (link_tmo q desc prev cur c) = now_of c" "now_of (put_sched (on_hw (disable cpu)) c) = now_of c"
  "now_of (put_sched (on_hw (enable cpu)) c) = now_of c"
  "clock_ok cpu (link_tmo q desc prev cur c) = clock_ok cpu c"
  "timeout_timer cpu (link_tmo q desc prev cur c) = timeout_timer cpu c"
  "timeout_timer cpu (put_sched (on_hw (disable cpu')) c) = timeout_timer cpu c"
  "timeout_timer cpu (put_sched (on_hw (enable cpu')) c) = timeout_timer cpu c"
  "timeout_timer cpu (read_once c) = timeout_timer cpu c"
  "t_time (tmos (read_once c) d) = t_time (tmos c d)"
  by (simp_all add: now_of_def clock_ok_def timeout_timer_def read_once_def disable_def enable_def)

lemma insertInQueue_ok:
  assumes ok: "tmo_ok c T" and q: "q < NPUN" and d: "desc \<noteq> NULL"
    and new: "\<forall>r < NPUN. desc \<notin> set (T r)" and clk: "clock_ok cpu c"
    and tm: "timeout_timer cpu c = Some tm"
    and lim: "sint (left_until c (t_time (tmos c desc))) < 2 ^ 31 * NS_PER_SEC"
  shows "\<exists>c' prev cur tm'. insertInQueue cpu q desc c = Inr c' \<and>
    hw_only (link_tmo q desc prev cur c) c' \<and>
    tmo_ok c' (T(q := sort_key (tkey c) (T q @ [desc]))) \<and> timeout_timer cpu c' = Some tm' \<and>
    (if \<forall>y \<in> set (T q). tkey c desc < tkey c y
     then nanos (it_value tm') = max 0 (sint (left_until c (t_time (tmos c desc)))) \<and>
       (armed tm' \<longleftrightarrow> 0 < sint (left_until c (t_time (tmos c desc)))) else tm' = tm)"
proof -
  let ?c0 = "put_sched (on_hw (disable cpu)) c"
  let ?go = "\<lambda>y. tkey c y \<le> tkey c desc"
  define prev where "prev = last (NULL # takeWhile ?go (T q))"
  define cur where "cur = (case dropWhile ?go (T q) of [] \<Rightarrow> NULL | y # ys \<Rightarrow> y)"
  let ?c1 = "link_tmo q desc prev cur ?c0"
  have ok0: "tmo_ok ?c0 T" using ok by simp
  have ins: "tmo_ok ?c1 (T(q := sort_key (tkey c) (T q @ [desc])))"
    and first: "prev = NULL \<longleftrightarrow> (\<forall>y \<in> set (T q). tkey c desc < tkey c y)"
    using tmo_ok_insert [OF ok0 q d new] by (simp_all add: prev_def cur_def)
  have ch: "chain (tnext c) (timeQue c q) (T q)" using ok q by (simp add: tmo_ok_def)
  note eq = insertInQueue_eq [OF ch prev_def cur_def, of cpu]
  have "link_tmo q desc prev cur (put_sched f c) = put_sched f (link_tmo q desc prev cur c)" for f
    by (simp add: link_tmo_def set_tmo_next_def put_sched_def)
  then have h0: "hw_only (link_tmo q desc prev cur c) ?c1" by simp
  show ?thesis
  proof (cases "prev = NULL")
    case False
    then have nf: "\<not> (\<forall>y \<in> set (T q). tkey c desc < tkey c y)" using first by simp
    from False have "insertInQueue cpu q desc c = Inr (put_sched (on_hw (enable cpu)) ?c1)"
      using eq by simp
    moreover have "hw_only (link_tmo q desc prev cur c) (put_sched (on_hw (enable cpu)) ?c1)"
      by (rule hw_only_trans [OF h0]) simp
    ultimately show ?thesis using nf ins tm unfolding if_not_P [OF nf]
      by - (rule exI [of _ "put_sched (on_hw (enable cpu)) ?c1"], rule exI [of _ prev], rule exI [of _ cur],
        rule exI [of _ tm], simp)
  next
    case True
    have clk1: "clock_ok cpu ?c1" using clk by (simp add: clock_ok_def disable_def)
    let ?c2 = "read_once ?c1"
    have tm2: "timeout_timer cpu ?c2 = Some tm" using tm by simp
    obtain c3 tm' where c3: "set_timeout_timer cpu (left_until c (t_time (tmos c desc))) ?c2 = Inr c3"
      "hw_only ?c2 c3" "timeout_timer cpu c3 = Some tm'"
      "nanos (it_value tm') = max 0 (sint (left_until c (t_time (tmos c desc))))"
      "armed tm' \<longleftrightarrow> 0 < sint (left_until c (t_time (tmos c desc)))"
      using set_timeout_timer_ok [OF tm2 lim] by blast
    have run: "insertInQueue cpu q desc c = Inr (put_sched (on_hw (enable cpu)) c3)"
      using eq True c3(1) GetCurrentTime_eq [OF clk1] by (simp add: left_until_def)
    have "hw_only (link_tmo q desc prev cur c) c3"
      by (rule hw_only_trans [OF h0 hw_only_trans [OF _ c3(2)]]) simp
    then have h: "hw_only (link_tmo q desc prev cur c) (put_sched (on_hw (enable cpu)) c3)"
      by (rule hw_only_trans) simp
    have "tmo_ok c3 (T(q := sort_key (tkey c) (T q @ [desc])))"
      using ins hw_onlyD(14) [OF c3(2)] by (simp add: read_once_def)
    with run h c3 True first show ?thesis
      by - (rule exI [of _ "put_sched (on_hw (enable cpu)) c3"], rule exI [of _ prev], rule exI [of _ cur],
        rule exI [of _ tm'], simp)
  qed
qed

text \<open>
  C20. Inserting a timeout puts its descriptor into the queue at the place of its expiration time,
  behind the others of the same time, and leaves all other queues alone; if it is now the first to
  expire the timer is set to the time that is left, which arms it exactly if that time is positive,
  and otherwise the timer keeps running.
\<close>

theorem insert_timeout:
  assumes "tmo_ok c T" and "q < NPUN" and "desc \<noteq> NULL" and "\<forall>r < NPUN. desc \<notin> set (T r)"
    and "clock_ok cpu c" and "timeout_timer cpu c = Some tm"
    and "sint (left_until c (t_time (tmos c desc))) < 2 ^ 31 * NS_PER_SEC"
  shows "\<exists>c' tm'. insertInQueue cpu q desc c = Inr c' \<and>
    tmo_ok c' (T(q := sort_key (tkey c) (T q @ [desc]))) \<and> procs (sch c') = procs (sch c) \<and>
    timeout_timer cpu c' = Some tm' \<and>
    (if \<forall>y \<in> set (T q). tkey c desc < tkey c y
     then nanos (it_value tm') = max 0 (sint (left_until c (t_time (tmos c desc)))) \<and>
       (armed tm' \<longleftrightarrow> 0 < sint (left_until c (t_time (tmos c desc)))) else tm' = tm)"
proof -
  obtain c' prev cur tm' where c': "insertInQueue cpu q desc c = Inr c'"
    "hw_only (link_tmo q desc prev cur c) c'" "tmo_ok c' (T(q := sort_key (tkey c) (T q @ [desc])))"
    "timeout_timer cpu c' = Some tm'"
    "if \<forall>y \<in> set (T q). tkey c desc < tkey c y
     then nanos (it_value tm') = max 0 (sint (left_until c (t_time (tmos c desc)))) \<and>
       (armed tm' \<longleftrightarrow> 0 < sint (left_until c (t_time (tmos c desc)))) else tm' = tm"
    using insertInQueue_ok [OF assms] by (elim exE conjE) (rule that)
  have "procs (sch c') = procs (sch c)" using hw_onlyD(6) [OF c'(2)] by simp
  with c' show ?thesis by blast
qed

definition sample_timer :: cxp where
  "sample_timer = sample_cxp\<lparr>sch := sample_sched\<lparr>hw := sample_clock_hw\<rparr>,
     tmos := (\<lambda>_. \<lparr>t_time = 0, t_proc = NULL, t_next = NULL, t_type = 0\<rparr>)(0x800 :=
       \<lparr>t_time = 5000000000, t_proc = 0x300, t_next = NULL, t_type = TMO_AFTER\<rparr>)\<rparr>"

lemma sample_timer_facts:
  "tmo_ok sample_timer (\<lambda>_. [])" "clock_ok cpu sample_timer"
  "timeout_timer cpu sample_timer = Some \<lparr>tm_signo = 42, it_value = tick_ts, it_interval = tick_ts\<rparr>"
  "now_of sample_timer = 600000000"
  by (simp_all add: tmo_ok_def sample_timer_def sample_cxp_def clock_ok_def timeout_timer_def
      sample_clock_hw_def now_of_def sample_hw_def ts_time_def Tick_def NS_PER_SEC_def)

theorem insert_timeout_witness:
  "\<exists>c' tm'. insertInQueue 0 0 0x800 sample_timer = Inr c' \<and> timeout_timer 0 c' = Some tm' \<and>
    nanos (it_value tm') = 4400000000"
proof -
  have "t_time (tmos sample_timer 0x800) = 5000000000" by (simp add: sample_timer_def)
  then have "sint (left_until sample_timer (t_time (tmos sample_timer 0x800))) = 4400000000"
    by (simp add: left_until_def sample_timer_facts)
  with insert_timeout [OF sample_timer_facts(1), of 0 "0x800" 0] sample_timer_facts show ?thesis
    by (auto simp: NPUN_def NS_PER_SEC_def)
qed

end
