(* ===== verification/Timeout_Interrupt.thy ===== *)
theory Timeout_Interrupt
  imports Timer_Correct
begin

text \<open>
  The timeout interrupt: it takes the descriptors whose time has come from the queue, frees the
  processes they belong to, sets the timer for the next one and preempts the interrupted process
  if one of the freed processes outranks it.
\<close>

subsection \<open>What the handlers leave alone\<close>

text \<open>
  \<open>steady X c c'\<close>: the scheduling state of at most the processes in \<open>X\<close> differs, and of the records of
  the processes besides it only what the scheduler links; the tick count, the routing of the
  signals and the existence of the timers are the same. In a \<open>calm\<close> change the descriptors and the
  receivers of interrupts are the same as well.
\<close>

definition same_timers :: "hw_state \<Rightarrow> hw_state \<Rightarrow> bool" where
  "same_timers h h' \<longleftrightarrow> timer h' = timer h \<and> os_readings h' = os_readings h \<and> dom (os_timers h') = dom (os_timers h)"

definition steady :: "addr set \<Rightarrow> cxp \<Rightarrow> cxp \<Rightarrow> bool" where
  "steady X c c' \<longleftrightarrow> currentTime c' = currentTime c \<and>
     same_signals (hw (sch c)) (hw (sch c')) \<and> same_timers (hw (sch c)) (hw (sch c')) \<and>
     (\<forall>y. p_pun (proc_of c' y) = p_pun (proc_of c y) \<and> p_stackptr (proc_of c' y) = p_stackptr (proc_of c y) \<and>
       (y \<notin> X \<longrightarrow> p_sched_state (proc_of c' y) = p_sched_state (proc_of c y)))"

definition calm :: "addr set \<Rightarrow> cxp \<Rightarrow> cxp \<Rightarrow> bool" where
  "calm X c c' \<longleftrightarrow> steady X c c' \<and> tmos c' = tmos c \<and> interrupts c' = interrupts c"

lemma steady_refl [simp]: "steady X c c"
  by (simp add: steady_def same_timers_def)

lemma steady_trans: "steady X a b \<Longrightarrow> steady Y b c \<Longrightarrow> X \<subseteq> Z \<Longrightarrow> Y \<subseteq> Z \<Longrightarrow> steady Z a c"
  unfolding steady_def same_signals_def same_timers_def by (elim conjE) (intro conjI allI impI; (metis subsetD)?)

lemma calm_refl [simp]: "calm X c c"
  by (simp add: calm_def)

lemma calm_trans: "calm X a b \<Longrightarrow> calm Y b c \<Longrightarrow> X \<subseteq> Z \<Longrightarrow> Y \<subseteq> Z \<Longrightarrow> calm Z a c"
  unfolding calm_def using steady_trans by metis

lemma steady_core: "core (sch c') = core (sch c) \<Longrightarrow> currentTime c' = currentTime c \<Longrightarrow> steady X c c'"
  using core_eqD [of "sch c'" "sch c"] core_eq_hwD [of "sch c'" "sch c"]
  by (simp add: steady_def same_signals_def same_timers_def proc_of_def)

lemma calm_core: "core s' = core (sch c) \<Longrightarrow> calm X c (c\<lparr>sch := s'\<rparr>)"
  by (simp add: calm_def steady_core)

lemma hw_only_calm: "hw_only c c' \<Longrightarrow> calm X c c'"
  by (auto simp: hw_only_def calm_def steady_def same_timers_def proc_of_def domIff set_eq_iff simp del: not_None_eq)

subsection \<open>Freeing one process\<close>

text \<open>Whether the process of the descriptor \<open>d\<close> sleeps, so that freeing it enqueues it.\<close>

definition sleeps :: "cxp \<Rightarrow> addr \<Rightarrow> bool" where
  "sleeps c d \<longleftrightarrow>
     (t_type (tmos c d) = TMO_AFTER \<and> p_sched_state (proc_of c (t_proc (tmos c d))) = PROC_WAITING \<or>
      t_type (tmos c d) = TMO_ALTING \<and> p_alt_state (proc_of c (t_proc (tmos c d))) = ALT_WAITING)"

definition freed :: "cxp \<Rightarrow> addr \<Rightarrow> bool" where
  "freed c d \<longleftrightarrow>
     (t_type (tmos c d) = TMO_AFTER \<longrightarrow> p_sched_state (proc_of c (t_proc (tmos c d))) = PROC_READY) \<and>
     (t_type (tmos c d) = TMO_ALTING \<longrightarrow>
        p_alt_state (proc_of c (t_proc (tmos c d))) \<notin> {ALT_ENABLING, ALT_WAITING})"

lemma TMO_distinct [simp]: "TMO_AFTER \<noteq> TMO_ALTING" "TMO_ALTING \<noteq> TMO_AFTER"
  by (simp_all add: TMO_AFTER_def TMO_ALTING_def)

text \<open>The state of a process after it has been freed through \<open>d\<close>.\<close>

definition freed_states :: "addr \<Rightarrow> cxp \<Rightarrow> sched \<Rightarrow> sched" where
  "freed_states d c s =
     (if t_type (tmos c d) = TMO_AFTER then set_sched_state (t_proc (tmos c d)) PROC_READY s
      else if p_alt_state (procs s (t_proc (tmos c d))) \<in> {ALT_ENABLING, ALT_WAITING}
           then set_alt_state (t_proc (tmos c d)) ALT_READY s else s)"

lemma freed_states_simps [simp]:
  "sched_inv (freed_states d c s) Q = sched_inv s Q" "members (freed_states d c s) Q cpu = members s Q cpu"
  "idle_on (freed_states d c s) Q cpu x = idle_on s Q cpu x" "current (freed_states d c s) = current s"
  "hw (freed_states d c s) = hw s" "key_of (freed_states d c s) = key_of s"
  by (simp_all add: freed_states_def)

lemma free_timeout_eq:
  assumes "t_type (tmos c d) \<in> {TMO_AFTER, TMO_ALTING}"
  shows "free_timeout d c =
    (if sleeps c d then res_bind (enqueue0 (t_proc (tmos c d)) (freed_states d c (sch c))) (\<lambda>s. Inr (c\<lparr>sch := s\<rparr>))
     else Inr (c\<lparr>sch := freed_states d c (sch c)\<rparr>))"
  using assms
  by (cases "p_alt_state (procs (sch c) (t_proc (tmos c d)))")
    (auto simp: free_timeout_def freeProcess_def maybeFreeAltingProcess_def xchg_ready_def cas_alt_def
      sleeps_def freed_states_def proc_of_def Let_def)

lemma free_timeout_ok:
  assumes inv: "sched_inv (sch c) Q" and cpu: "cpu < NPUN"
    and ty: "t_type (tmos c d) \<in> {TMO_AFTER, TMO_ALTING}"
    and sl: "sleeps c d \<Longrightarrow> idle_on (sch c) Q cpu (t_proc (tmos c d))"
  shows "\<exists>s' ys. free_timeout d c = Inr (c\<lparr>sch := s'\<rparr>) \<and> links_only (freed_states d c (sch c)) s' \<and>
    sched_inv s' (Q(cpu := ys)) \<and>
    members s' (Q(cpu := ys)) cpu = (if sleeps c d then {t_proc (tmos c d)} else {}) \<union> members (sch c) Q cpu"
proof (cases "sleeps c d")
  case False
  then show ?thesis
    using inv ty by (intro exI [of _ "freed_states d c (sch c)"] exI [of _ "Q cpu"]) (simp add: free_timeout_eq)
next
  case True
  let ?x = "t_proc (tmos c d)" and ?s = "freed_states d c (sch c)"
  have inv': "sched_inv ?s Q" and x: "idle_on ?s Q cpu ?x" using inv sl [OF True] by simp_all
  obtain s' where s': "enqueue0 ?x ?s = Inr s'" "links_only ?s s'"
    "sched_inv s' (Q(cpu := enq_list ?s ?x (Q cpu)))"
    using enqueue_behind [OF inv' cpu x] by blast
  have "members s' (Q(cpu := enq_list ?s ?x (Q cpu))) cpu = insert ?x (members ?s Q cpu)"
    using links_onlyD(1,7) [OF s'(2)] by (auto simp: members_def)
  with True s' ty show ?thesis
    by (intro exI [of _ s'] exI [of _ "enq_list ?s ?x (Q cpu)"]) (simp add: free_timeout_eq)
qed

lemma freed_after:
  assumes "links_only (freed_states d c (sch c)) s'"
  shows "freed (c\<lparr>sch := s'\<rparr>) d"
    and "freed c e \<Longrightarrow> freed (c\<lparr>sch := s'\<rparr>) e"
    and "t_proc (tmos c e) = t_proc (tmos c d) \<Longrightarrow> t_type (tmos c e) = t_type (tmos c d) \<Longrightarrow>
      \<not> sleeps (c\<lparr>sch := s'\<rparr>) e"
    and "t_proc (tmos c e) \<noteq> t_proc (tmos c d) \<Longrightarrow> sleeps (c\<lparr>sch := s'\<rparr>) e = sleeps c e"
  using links_onlyD [OF assms]
  by (auto simp: freed_def sleeps_def proc_of_def freed_states_def)

lemma free_calm:
  assumes "links_only (freed_states d c (sch c)) s'"
  shows "calm {t_proc (tmos c d)} c (c\<lparr>sch := s'\<rparr>)"
  using links_onlyD [OF assms]
  by (simp add: calm_def steady_def same_timers_def proc_of_def freed_states_def set_sched_state_def set_alt_state_def)

subsection \<open>Freeing all that are due\<close>

definition due_ok :: "cxp \<Rightarrow> (pun \<Rightarrow> addr list) \<Rightarrow> pun \<Rightarrow> addr list \<Rightarrow> bool" where
  "due_ok c Q cpu ds \<longleftrightarrow>
     (\<forall>d \<in> set ds. t_type (tmos c d) \<in> {TMO_AFTER, TMO_ALTING} \<and>
        (sleeps c d \<longrightarrow> idle_on (sch c) Q cpu (t_proc (tmos c d)))) \<and>
     (\<forall>d \<in> set ds. \<forall>e \<in> set ds. t_proc (tmos c d) = t_proc (tmos c e) \<longrightarrow> t_type (tmos c d) = t_type (tmos c e))"

definition sleepers :: "cxp \<Rightarrow> addr list \<Rightarrow> addr set" where
  "sleepers c ds = {t_proc (tmos c d) |d. d \<in> set ds \<and> sleeps c d}"

lemma sleepers_simps [simp]:
  "sleepers c [] = {}"
  "sleepers c (d # ds) = (if sleeps c d then {t_proc (tmos c d)} else {}) \<union> sleepers c ds"
  by (auto simp: sleepers_def)

text \<open>The rest of the kernel's state stays as it is.\<close>

definition same_rest :: "cxp \<Rightarrow> cxp \<Rightarrow> bool" where
  "same_rest c c' \<longleftrightarrow> tmos c' = tmos c \<and> hw (sch c') = hw (sch c) \<and> currentTime c' = currentTime c \<and>
     current (sch c') = current (sch c) \<and> key_of (sch c') = key_of (sch c)"

lemma due_loop_stop:
  "\<not> (timeQue c q \<noteq> NULL \<and> time_le (t_time (tmos c (timeQue c q))) now) \<Longrightarrow> due_loop q now c = Some (Inr c)"
  by (subst due_loop.simps) (auto simp: Let_def)

lemma due_loop_go:
  "timeQue c q = d \<Longrightarrow> d \<noteq> NULL \<Longrightarrow> time_le (t_time (tmos c d)) now \<Longrightarrow>
    free_timeout d (c\<lparr>timeQue := (timeQue c)(q := t_next (tmos c d))\<rparr>) = Inr c' \<Longrightarrow>
    due_loop q now c = due_loop q now c'"
  by (subst due_loop.simps) (simp add: removeHead_def Let_def)

text \<open>Removing the head of a timeout queue.\<close>

lemma tmo_ok_tail:
  assumes ok: "tmo_ok c T" and q: "q < NPUN" and T: "T q = d # ds"
  shows "timeQue c q = d" "d \<noteq> NULL"
    "tmo_ok (c\<lparr>timeQue := (timeQue c)(q := t_next (tmos c d))\<rparr>) (T(q := ds))"
proof -
  have ch: "chain (tnext c) (timeQue c q) (d # ds)" using ok q T by (auto simp: tmo_ok_def)
  then show "timeQue c q = d" "d \<noteq> NULL" by simp_all
  let ?c = "c\<lparr>timeQue := (timeQue c)(q := t_next (tmos c d))\<rparr>"
  have n: "tnext ?c = tnext c" "tkey ?c = tkey c" by (simp_all add: tnext_def [abs_def] tkey_def [abs_def])
  have dis: "set (T r) \<inter> set (T s) = {}" if "r < NPUN" "s < NPUN" "r \<noteq> s" for r s
    using ok that by (simp add: tmo_ok_def)
  have old: "chain (tnext c) (timeQue c r) (T r)" "sorted (map (tkey c) (T r))" if "r < NPUN" for r
    using ok that by (simp_all add: tmo_ok_def)
  have "t_next (tmos c d) = tnext c d" by (simp add: tnext_def)
  then have "chain (tnext c) (timeQue ?c r) ((T(q := ds)) r)" if "r < NPUN" for r
    using ch old(1) [OF that] by (cases "r = q") simp_all
  moreover have "sorted (map (tkey c) ((T(q := ds)) r))" if "r < NPUN" for r
    using old(2) [OF that] T by (cases "r = q") simp_all
  moreover have "set ((T(q := ds)) r) \<inter> set ((T(q := ds)) s) = {}" if "r < NPUN" "s < NPUN" "r \<noteq> s" for r s
  proof -
    have "set ((T(q := ds)) r) \<subseteq> set (T r)" "set ((T(q := ds)) s) \<subseteq> set (T s)" using T by auto
    then show ?thesis using dis [OF that] by blast
  qed
  ultimately show "tmo_ok ?c (T(q := ds))" unfolding tmo_ok_def n by blast
qed

lemma due_ok_tail:
  assumes due: "due_ok c Q cpu (d # ds)" and c1: "c1 = c\<lparr>timeQue := tq\<rparr>"
    and s': "links_only (freed_states d c1 (sch c1)) s'"
    and m: "members s' (Q(cpu := ys)) cpu = (if sleeps c1 d then {t_proc (tmos c1 d)} else {}) \<union> members (sch c1) Q cpu"
  shows "due_ok (c1\<lparr>sch := s'\<rparr>) (Q(cpu := ys)) cpu ds"
proof -
  note F = freed_after [OF s'] and L = links_onlyD [OF s']
  have same: "tmos c1 = tmos c" "sch c1 = sch c" "tmos (c1\<lparr>sch := s'\<rparr>) = tmos c" using c1 by simp_all
  have sl: "sleeps c1 e = sleeps c e" for e by (simp add: c1 sleeps_def proc_of_def)
  have type: "t_type (tmos c e) = t_type (tmos c d)" if "e \<in> set ds" "t_proc (tmos c e) = t_proc (tmos c d)" for e
    using due that unfolding due_ok_def by (metis list.set_intros)
  have "idle_on s' (Q(cpu := ys)) cpu (t_proc (tmos c e))"
    if e: "e \<in> set ds" "sleeps (c1\<lparr>sch := s'\<rparr>) e" for e
  proof -
    have ne: "t_proc (tmos c e) \<noteq> t_proc (tmos c d)"
      using F(3) [of e] type [OF e(1)] e(2) same by metis
    then have "sleeps c e" using F(4) [of e] e(2) same sl by metis
    then have "idle_on (sch c) Q cpu (t_proc (tmos c e))"
      using due e(1) unfolding due_ok_def by (metis list.set_intros(2))
    then have "idle_on (freed_states d c1 (sch c)) Q cpu (t_proc (tmos c e))" by simp
    with ne m L same show ?thesis by (simp add: idle_on_def)
  qed
  then have "\<forall>e \<in> set ds. sleeps (c1\<lparr>sch := s'\<rparr>) e \<longrightarrow>
      idle_on (sch (c1\<lparr>sch := s'\<rparr>)) (Q(cpu := ys)) cpu (t_proc (tmos c e))" by simp
  moreover have "\<forall>e \<in> set ds. t_type (tmos c e) \<in> {TMO_AFTER, TMO_ALTING}"
    using due [unfolded due_ok_def, THEN conjunct1] by (meson list.set_intros(2))
  moreover have "\<forall>e \<in> set ds. \<forall>f \<in> set ds. t_proc (tmos c e) = t_proc (tmos c f) \<longrightarrow>
      t_type (tmos c e) = t_type (tmos c f)"
    using due [unfolded due_ok_def, THEN conjunct2] by (meson list.set_intros(2))
  ultimately show "due_ok (c1\<lparr>sch := s'\<rparr>) (Q(cpu := ys)) cpu ds"
    unfolding due_ok_def same by blast
qed

lemma sleepers_rest:
  assumes s': "links_only (freed_states d c (sch c)) s'"
    and type: "\<forall>e \<in> set ds. t_proc (tmos c e) = t_proc (tmos c d) \<longrightarrow> t_type (tmos c e) = t_type (tmos c d)"
  shows "(if sleeps c d then {t_proc (tmos c d)} else {}) \<union> sleepers (c\<lparr>sch := s'\<rparr>) ds = sleepers c (d # ds)"
proof -
  note F = freed_after(3,4) [OF s']
  have eq: "sleeps c e \<longleftrightarrow> sleeps c d" if "e \<in> set ds" "t_proc (tmos c e) = t_proc (tmos c d)" for e
    using type that by (simp add: sleeps_def)
  have "e \<in> set ds \<Longrightarrow> sleeps (c\<lparr>sch := s'\<rparr>) e \<longleftrightarrow> t_proc (tmos c e) \<noteq> t_proc (tmos c d) \<and> sleeps c e" for e
    using F [of e] type by blast
  then have "sleepers (c\<lparr>sch := s'\<rparr>) ds =
      {t_proc (tmos c e) |e. e \<in> set ds \<and> t_proc (tmos c e) \<noteq> t_proc (tmos c d) \<and> sleeps c e}"
    unfolding sleepers_def by auto
  also have "(if sleeps c d then {t_proc (tmos c d)} else {}) \<union> \<dots> = sleepers c (d # ds)"
    using eq unfolding sleepers_def by auto
  finally show ?thesis by simp
qed

lemma same_rest_trans: "same_rest a b \<Longrightarrow> same_rest b c \<Longrightarrow> same_rest a c"
  by (simp add: same_rest_def)

lemma due_loop_ok:
  assumes "tmo_ok c T" and "sched_inv (sch c) Q" and "cpu < NPUN" and "T cpu = ds @ rest"
    and "\<forall>d \<in> set ds. tkey c d \<le> sint now" and "rest = [] \<or> sint now < tkey c (hd rest)"
    and "due_ok c Q cpu ds"
  shows "\<exists>c' ys. due_loop cpu now c = Some (Inr c') \<and> same_rest c c' \<and> tmo_ok c' (T(cpu := rest)) \<and>
    sched_inv (sch c') (Q(cpu := ys)) \<and>
    members (sch c') (Q(cpu := ys)) cpu = sleepers c ds \<union> members (sch c) Q cpu \<and>
    (\<forall>d \<in> set ds. freed c' d) \<and> (\<forall>e. freed c e \<longrightarrow> freed c' e) \<and>
    calm ((\<lambda>d. t_proc (tmos c d)) ` set ds) c c'"
  using assms
proof (induction ds arbitrary: c T Q)
  case Nil
  have "timeQue c cpu = (if rest = [] then NULL else hd rest)"
    using Nil.prems(1,3,4) by (intro chain_head [of "tnext c"]) (auto simp: tmo_ok_def)
  then have "due_loop cpu now c = Some (Inr c)"
    using Nil.prems(6) by (intro due_loop_stop) (auto simp: tkey_def time_le_def)
  moreover have "tmo_ok c (T(cpu := rest))" using Nil.prems(1,4) by (metis append_Nil fun_upd_triv)
  moreover have "same_rest c c" by (simp add: same_rest_def)
  ultimately show ?case using Nil.prems(2)
    by (intro exI [of _ c] exI [of _ "Q cpu"]) (simp del: fun_upd_apply)
next
  case (Cons d ds)
  have T: "T cpu = d # (ds @ rest)" using Cons.prems(4) by simp
  note R = tmo_ok_tail [OF Cons.prems(1,3) T]
  let ?c = "c\<lparr>timeQue := (timeQue c)(cpu := t_next (tmos c d))\<rparr>"
  have sl: "sleeps ?c e = sleeps c e" for e by (simp add: sleeps_def proc_of_def)
  then have ty: "t_type (tmos ?c d) \<in> {TMO_AFTER, TMO_ALTING}"
    and nx: "sleeps ?c d \<Longrightarrow> idle_on (sch ?c) Q cpu (t_proc (tmos ?c d))"
    using Cons.prems(7) [unfolded due_ok_def, THEN conjunct1] by simp_all
  have tc: "tmos ?c = tmos c" by simp
  have type: "\<forall>e \<in> set ds. t_proc (tmos ?c e) = t_proc (tmos ?c d) \<longrightarrow> t_type (tmos ?c e) = t_type (tmos ?c d)"
    unfolding tc using Cons.prems(7) [unfolded due_ok_def, THEN conjunct2] by (meson list.set_intros)
  have inv: "sched_inv (sch ?c) Q" using Cons.prems(2) by simp
  obtain s' ys where s': "free_timeout d ?c = Inr (?c\<lparr>sch := s'\<rparr>)" "links_only (freed_states d ?c (sch ?c)) s'"
    "sched_inv s' (Q(cpu := ys))" "members s' (Q(cpu := ys)) cpu =
      (if sleeps ?c d then {t_proc (tmos ?c d)} else {}) \<union> members (sch ?c) Q cpu"
    using free_timeout_ok [OF inv Cons.prems(3) ty nx] by blast
  let ?c1 = "?c\<lparr>sch := s'\<rparr>"
  note L = links_onlyD [OF s'(2)] and F = freed_after [OF s'(2)]
  have "tkey c d \<le> sint now" using Cons.prems(5) by simp
  then have run: "due_loop cpu now c = due_loop cpu now ?c1"
    using R(1,2) s'(1) by (intro due_loop_go) (simp_all add: tkey_def time_le_def)
  have k1: "tkey ?c1 = tkey c" "tnext ?c1 = tnext ?c" "tkey ?c1 = tkey ?c"
    by (simp_all add: tkey_def [abs_def] tnext_def [abs_def])
  have t1: "tmo_ok ?c1 (T(cpu := ds @ rest))" using R(3) tmo_ok_cong [OF k1(2,3)] by simp
  have d1: "due_ok ?c1 (Q(cpu := ys)) cpu ds"
    by (rule due_ok_tail [OF Cons.prems(7) refl s'(2,4)])
  have inv1: "sched_inv (sch ?c1) (Q(cpu := ys))" using s'(3) by simp
  obtain c' zs where c': "due_loop cpu now ?c1 = Some (Inr c')" "same_rest ?c1 c'"
    "tmo_ok c' ((T(cpu := ds @ rest))(cpu := rest))" "sched_inv (sch c') ((Q(cpu := ys))(cpu := zs))"
    "members (sch c') ((Q(cpu := ys))(cpu := zs)) cpu = sleepers ?c1 ds \<union> members (sch ?c1) (Q(cpu := ys)) cpu"
    "\<forall>d \<in> set ds. freed c' d" "\<forall>e. freed ?c1 e \<longrightarrow> freed c' e" "calm ((\<lambda>d. t_proc (tmos ?c1 d)) ` set ds) ?c1 c'"
    using Cons.IH [OF t1 inv1 Cons.prems(3) _ _ _ d1] Cons.prems(5,6) k1(1)
    by (elim exE conjE meta_impE) (simp, simp, simp, blast)
  have rest1: "same_rest c c'"
    using c'(2) L(1,3,8) by (simp add: same_rest_def)
  have old: "freed c' e" if "freed c e" for e
    using F(2) [of e] that c'(7) by (simp add: freed_def proc_of_def)
  have m: "members (sch c') (Q(cpu := zs)) cpu = sleepers c (d # ds) \<union> members (sch c) Q cpu"
    using sleepers_rest [OF s'(2) type] c'(5) s'(4) sl by (auto simp: sleepers_def)
  have "calm {t_proc (tmos c d)} ?c ?c1" using free_calm [OF s'(2)] by simp
  then have "calm {t_proc (tmos c d)} c ?c1" by (simp add: calm_def steady_def proc_of_def)
  from calm_trans [OF this c'(8)] have "calm ((\<lambda>d. t_proc (tmos c d)) ` set (d # ds)) c c'" by auto
  with run c' rest1 old m F(1) show ?case
    by (intro exI [of _ c'] exI [of _ zs]) (simp del: fun_upd_apply)
qed

subsection \<open>The handler\<close>

lemma freed_cong:
  "tmos c' = tmos c \<Longrightarrow> (\<forall>y. p_sched_state (procs (sch c') y) = p_sched_state (procs (sch c) y) \<and>
    p_alt_state (procs (sch c') y) = p_alt_state (procs (sch c) y)) \<Longrightarrow> freed c' d = freed c d"
  by (simp add: freed_def proc_of_def)

lemma sleeps_cong: "tmos c' = tmos c \<Longrightarrow> procs (sch c') = procs (sch c) \<Longrightarrow> sleeps c' d = sleeps c d"
  by (simp only: sleeps_def proc_of_def)

lemma sleepers_cong: "tmos c' = tmos c \<Longrightarrow> procs (sch c') = procs (sch c) \<Longrightarrow> sleepers c' ds = sleepers c ds"
  using sleeps_cong [of c' c] by (simp only: sleepers_def)

lemma due_ok_cong:
  "tmos c' = tmos c \<Longrightarrow> procs (sch c') = procs (sch c) \<Longrightarrow>
    (\<And>x. idle_on (sch c') Q cpu x = idle_on (sch c) Q cpu x) \<Longrightarrow> due_ok c' Q cpu ds = due_ok c Q cpu ds"
  using sleeps_cong [of c' c] by (simp only: due_ok_def)

lemma mask_only_timers:
  "hw s' = (hw s)\<lparr>thr_mask := m\<rparr> \<Longrightarrow> timeout_timer cpu (c\<lparr>sch := s'\<rparr>) = timeout_timer cpu (c\<lparr>sch := s\<rparr>)"
  by (simp add: timeout_timer_def)

text \<open>Setting the timer for the next descriptor, if there is one.\<close>

lemma next_timeout_ok:
  assumes "tmo_ok c T" and "cpu < NPUN" and "timeout_timer cpu c = Some tm"
    and "T cpu = [] \<or> sint (t_time (tmos c (hd (T cpu))) - now) < 2 ^ 31 * NS_PER_SEC"
  shows "\<exists>c' tm'. (if timeQue c cpu \<noteq> NULL then set_timeout_timer cpu (t_time (tmos c (timeQue c cpu)) - now) c
      else Inr c) = Inr c' \<and> hw_only c c' \<and> timeout_timer cpu c' = Some tm' \<and>
    (if T cpu = [] then tm' = tm else nanos (it_value tm') = max 0 (sint (t_time (tmos c (hd (T cpu))) - now)))"
proof -
  have ch: "chain (tnext c) (timeQue c cpu) (T cpu)" using assms(1,2) by (auto simp: tmo_ok_def)
  show ?thesis
  proof (cases "T cpu")
    case Nil
    with ch assms(3) show ?thesis
      by (intro exI [of _ c] exI [of _ tm]) (auto simp: hw_only_def intro: exI [of _ "hw (sch c)"])
  next
    case (Cons y ys)
    then have y: "timeQue c cpu = y" "y \<noteq> NULL" using ch by simp_all
    have "sint (t_time (tmos c y) - now) < 2 ^ 31 * NS_PER_SEC" using assms(4) Cons by simp
    from set_timeout_timer_ok [OF assms(3) this] y Cons show ?thesis by auto
  qed
qed

lemma handle_timeout_ok:
  assumes tok: "tmo_ok c T" and inv: "sched_inv (sch c) Q" and cpu: "cpu < NPUN"
    and clk: "clock_ok cpu c" and tm: "timeout_timer cpu c = Some tm"
    and T: "T cpu = due @ rest" and due: "\<forall>d \<in> set due. tkey c d \<le> sint (now_of c)"
    and nx: "rest = [] \<or> sint (now_of c) < tkey c (hd rest)"
    and dok: "due_ok c Q cpu due"
    and lim: "rest = [] \<or> sint (t_time (tmos c (hd rest)) - now_of c) < 2 ^ 31 * NS_PER_SEC"
  shows "\<exists>b c' ys tm'. handle_timeout_interrupt cpu c = Inr (b, c') \<and> tmo_ok c' (T(cpu := rest)) \<and>
    sched_inv (sch c') (Q(cpu := ys)) \<and> top_running (sch c') (Q(cpu := ys)) cpu \<and>
    members (sch c') (Q(cpu := ys)) cpu = sleepers c due \<union> members (sch c) Q cpu \<and>
    (\<forall>d \<in> set due. freed c' d) \<and>
    timeout_timer cpu c' = Some tm' \<and> (if rest = [] then tm' = tm
      else nanos (it_value tm') = max 0 (sint (t_time (tmos c (hd rest)) - now_of c))) \<and>
    (b \<longrightarrow> key_of (sch c) (current (sch c') cpu) < key_of (sch c) (current (sch c) cpu)) \<and>
    (\<not> b \<longrightarrow> current (sch c') cpu = current (sch c) cpu) \<and> tmos c' = tmos c \<and>
    calm ((\<lambda>d. t_proc (tmos c d)) ` set due) c c'"
proof -
  note D = sched_invD [OF inv cpu]
  let ?c0 = "read_once c" and ?now = "now_of c"
  have h0: "hw_only c ?c0" by simp
  note O = hw_onlyD [OF h0]
  have "idle_on (sch ?c0) Q cpu x = idle_on (sch c) Q cpu x" for x
    by (simp add: read_once_def on_hw_eq)
  then have dok0: "due_ok ?c0 Q cpu due" and sl0: "sleepers ?c0 due = sleepers c due"
    using dok due_ok_cong [OF O(1,6)] sleepers_cong [OF O(1,6)] by blast+
  have tm0: "timeout_timer cpu ?c0 = Some tm"
    using tm by (simp add: timeout_timer_def read_once_def put_sched_def on_hw_def)
  obtain c1 ys where c1: "due_loop cpu ?now ?c0 = Some (Inr c1)" "same_rest ?c0 c1" "tmo_ok c1 (T(cpu := rest))"
    "sched_inv (sch c1) (Q(cpu := ys))" "members (sch c1) (Q(cpu := ys)) cpu = sleepers ?c0 due \<union> members (sch ?c0) Q cpu"
    "\<forall>d \<in> set due. freed c1 d" "calm ((\<lambda>d. t_proc (tmos ?c0 d)) ` set due) ?c0 c1"
    using due_loop_ok [of ?c0 T Q cpu due rest ?now] tok inv cpu T due nx dok0 O by auto
  note R = c1(2) [unfolded same_rest_def]
  have tm1: "timeout_timer cpu c1 = Some tm" using tm0 R by (simp add: timeout_timer_def)
  have r: "(T(cpu := rest)) cpu = rest" and t1: "tmos c1 = tmos c" using R O by simp_all
  have lim1: "rest = [] \<or> sint (t_time (tmos c1 (hd rest)) - ?now) < 2 ^ 31 * NS_PER_SEC"
    unfolding t1 by (rule lim)
  obtain c2 tm' where c2: "(if timeQue c1 cpu \<noteq> NULL then set_timeout_timer cpu (t_time (tmos c1 (timeQue c1 cpu)) - ?now) c1
      else Inr c1) = Inr c2" "hw_only c1 c2" "timeout_timer cpu c2 = Some tm'"
    "if rest = [] then tm' = tm else nanos (it_value tm') = max 0 (sint (t_time (tmos c1 (hd rest)) - ?now))"
    using next_timeout_ok [OF c1(3) cpu tm1, unfolded r, OF lim1] by (elim exE conjE) (rule that)
  note P = hw_onlyD [OF c2(2)]
  have inv2: "sched_inv (sch c2) (Q(cpu := ys))" using c1(4) P by simp
  obtain b s' zs where f: "schedule_from_interrupt cpu (sch c2) = Inr (b, s')"
    "sched_inv s' ((Q(cpu := ys))(cpu := zs))" "top_running s' ((Q(cpu := ys))(cpu := zs)) cpu"
    "members s' ((Q(cpu := ys))(cpu := zs)) cpu = members (sch c2) (Q(cpu := ys)) cpu"
    "b \<longrightarrow> key_of (sch c2) (current s' cpu) < key_of (sch c2) (current (sch c2) cpu) \<and> in_ipq s' cpu = []"
    "\<not> b \<longrightarrow> s' = sch c2 \<and> zs = (Q(cpu := ys)) cpu" "hw s' = (hw (sch c2))\<lparr>thr_mask := thr_mask (hw s')\<rparr>"
    "\<forall>y. p_sched_state (procs s' y) = p_sched_state (procs (sch c2) y) \<and>
      p_alt_state (procs s' y) = p_alt_state (procs (sch c2) y)"
    using schedule_from_interrupt_ok [OF inv2 cpu] by (elim exE conjE) (rule that)
  let ?c' = "c2\<lparr>sch := s'\<rparr>"
  have run: "handle_timeout_interrupt cpu c = Inr (b, ?c')"
    using GetCurrentTime_eq [OF clk] c1(1) c2(1) f(1) D(2,3)
    by (simp add: handle_timeout_interrupt_def get_current_eq proc_of_def Let_def split del: if_split cong: if_cong)
  have k: "key_of (sch c2) = key_of (sch c)" "current (sch c2) = current (sch c)"
    using R P O by (simp_all add: key_of_def fun_eq_iff)
  have tok2: "tmo_ok ?c' (T(cpu := rest))"
    using c1(3) P(14) tmo_ok_cong [of ?c' c2] by (simp add: tnext_def tkey_def fun_eq_iff)
  have tm2: "timeout_timer cpu ?c' = Some tm'"
    using mask_only_timers [OF f(7), of cpu c2] c2(3) by simp
  have fr: "\<forall>d \<in> set due. freed ?c' d"
    using c1(6) freed_cong [of ?c' c1] f(8) P(1,6) by simp
  have mm: "members s' (Q(cpu := zs)) cpu = sleepers c due \<union> members (sch c) Q cpu"
    using f(4) P(12) c1(5) O(12) sl0 by simp
  let ?X = "(\<lambda>d. t_proc (tmos c d)) ` set due"
  have k1: "calm ?X c c1" using calm_trans [OF hw_only_calm [OF h0, where X = "{}"] c1(7)] by (simp add: O(1))
  from calm_trans [OF k1 hw_only_calm [OF c2(2), where X = ?X]] have "calm ?X c c2" by simp
  from calm_trans [OF this calm_core [OF schedule_from_interrupt_core [OF f(1)], where X = ?X]] have "calm ?X c ?c'" by simp
  with run tok2 tm2 fr mm f(2,3,5,6) k c2(4) t1 P(1) show ?thesis
    by (intro exI [of _ b] exI [of _ ?c'] exI [of _ zs] exI [of _ tm']) (simp del: fun_upd_apply cong: if_cong)
qed

text \<open>
  C18. The timeout interrupt takes exactly the descriptors whose time has come from the queue of
  its processor, makes each of their processes ready and enqueues exactly those that sleep, loses
  no other process, sets the timer to the time left until the next expiration (or leaves it alone
  if there is none), and leaves the best ready process running.
\<close>

theorem timeout_interrupt:
  assumes "tmo_ok c T" and "sched_inv (sch c) Q" and "cpu < NPUN"
    and "clock_ok cpu c" and "timeout_timer cpu c = Some tm"
  defines "due \<equiv> filter (\<lambda>d. tkey c d \<le> sint (now_of c)) (T cpu)"
    and "rest \<equiv> filter (\<lambda>d. sint (now_of c) < tkey c d) (T cpu)"
  assumes "due_ok c Q cpu due"
    and "rest = [] \<or> sint (t_time (tmos c (hd rest)) - now_of c) < 2 ^ 31 * NS_PER_SEC"
  shows "\<exists>b c' ys tm'. handle_timeout_interrupt cpu c = Inr (b, c') \<and> tmo_ok c' (T(cpu := rest)) \<and>
    tmos c' = tmos c \<and> (\<forall>d \<in> set due. freed c' d) \<and> sched_inv (sch c') (Q(cpu := ys)) \<and>
    members (sch c') (Q(cpu := ys)) cpu = sleepers c due \<union> members (sch c) Q cpu \<and>
    timeout_timer cpu c' = Some tm' \<and> (if rest = [] then tm' = tm
      else nanos (it_value tm') = max 0 (sint (t_time (tmos c (hd rest)) - now_of c))) \<and>
    top_running (sch c') (Q(cpu := ys)) cpu"
proof -
  have srt: "sorted (map (tkey c) (T cpu))" using assms(1,3) by (auto simp: tmo_ok_def)
  have "due = takeWhile (\<lambda>d. tkey c d \<le> sint (now_of c)) (T cpu)"
    "rest = dropWhile (\<lambda>d. tkey c d \<le> sint (now_of c)) (T cpu)"
    using takeWhile_le_sorted [OF srt, of "sint (now_of c)"] by (simp_all add: due_def rest_def not_le)
  then have T: "T cpu = due @ rest" by simp
  have nx: "rest = [] \<or> sint (now_of c) < tkey c (hd rest)"
    using hd_in_set [of rest] by (auto simp: rest_def)
  have d: "\<forall>d \<in> set due. tkey c d \<le> sint (now_of c)" by (auto simp: due_def)
  show ?thesis
    using handle_timeout_ok [OF assms(1-5) T d nx assms(8,9)] by (elim exE conjE) (intro exI conjI; assumption)
qed

definition sample_due :: cxp where
  "sample_due = sample_cxp\<lparr>
     sch := set_sched_state 0x600 PROC_WAITING (sample_sched\<lparr>hw := sample_clock_hw\<rparr>),
     timeQue := (\<lambda>q. if q = 0 then 0x800 else NULL),
     tmos := (\<lambda>_. \<lparr>t_time = 0, t_proc = NULL, t_next = NULL, t_type = 0\<rparr>)
       (0x800 := \<lparr>t_time = 500000000, t_proc = 0x600, t_next = 0x810, t_type = TMO_AFTER\<rparr>,
        0x810 := \<lparr>t_time = 5000000000, t_proc = 0x700, t_next = NULL, t_type = TMO_AFTER\<rparr>)\<rparr>"

definition sample_times :: "pun \<Rightarrow> addr list" where
  "sample_times q = (if q = 0 then [0x800, 0x810] else [])"

lemma sample_due_facts:
  "tmo_ok sample_due sample_times" "clock_ok cpu sample_due" "sched_inv (sch sample_due) sample_queues"
  "timeout_timer cpu sample_due = Some \<lparr>tm_signo = 42, it_value = tick_ts, it_interval = tick_ts\<rparr>"
  "now_of sample_due = 600000000" "tkey sample_due 0x800 = 500000000" "tkey sample_due 0x810 = 5000000000"
proof -
  show "tmo_ok sample_due sample_times"
    by (simp add: tmo_ok_def sample_times_def) (simp add: sample_due_def tnext_def tkey_def)
  show "sched_inv (sch sample_due) sample_queues" using sample_sched_inv by (simp add: sample_due_def)
qed (simp_all add: sample_due_def sample_cxp_def clock_ok_def timeout_timer_def tkey_def
      sample_clock_hw_def now_of_def sample_hw_def ts_time_def Tick_def NS_PER_SEC_def)

theorem timeout_interrupt_witness:
  "\<exists>b c' ys. handle_timeout_interrupt 0 sample_due = Inr (b, c') \<and>
    p_sched_state (proc_of c' 0x600) = PROC_READY \<and> 0x600 \<in> members (sch c') (sample_queues(0 := ys)) 0"
proof -
  have f: "filter (\<lambda>d. tkey sample_due d \<le> sint (now_of sample_due)) (sample_times 0) = [0x800]"
    "filter (\<lambda>d. sint (now_of sample_due) < tkey sample_due d) (sample_times 0) = [0x810]"
    by (simp_all add: sample_times_def sample_due_facts)
  have t: "tmos sample_due 0x800 = \<lparr>t_time = 500000000, t_proc = 0x600, t_next = 0x810, t_type = TMO_AFTER\<rparr>"
    "t_time (tmos sample_due 0x810) = 5000000000" by (simp_all add: sample_due_def)
  have sl: "sleeps sample_due 0x800" by (simp add: sleeps_def t proc_of_def) (simp add: sample_due_def)
  have "idle_on (sch sample_due) sample_queues 0 0x600"
    using sample_idle_on by (simp add: sample_due_def)
  then have d: "due_ok sample_due sample_queues 0 [0x800]" by (simp add: due_ok_def t)
  have lim: "[0x810] = [] \<or> sint (t_time (tmos sample_due (hd [0x810])) - now_of sample_due) < 2 ^ 31 * NS_PER_SEC"
    by (simp add: t sample_due_facts NS_PER_SEC_def)
  have c0: "0 < NPUN" by (simp add: NPUN_def)
  obtain b c' ys where c': "handle_timeout_interrupt 0 sample_due = Inr (b, c')" "tmos c' = tmos sample_due" "freed c' 0x800"
    "members (sch c') (sample_queues(0 := ys)) 0 = sleepers sample_due [0x800] \<union> members (sch sample_due) sample_queues 0"
    using timeout_interrupt [OF sample_due_facts(1,3) c0 sample_due_facts(2,4), unfolded f, OF d lim] by auto
  have "p_sched_state (proc_of c' 0x600) = PROC_READY"
    using c'(3) by (simp add: freed_def c'(2) t)
  moreover have "0x600 \<in> members (sch c') (sample_queues(0 := ys)) 0"
    using c'(4) sl t by simp
  ultimately show ?thesis using c'(1) by blast
qed

end
