(* ===== verification/Interrupts.thy ===== *)
theory Interrupts
  imports Timeout_Interrupt
begin

text \<open>
  Interrupts for processes (\<^verbatim>\<open>interrupt.c\<close>), the dispatch of an interrupt to its handler
  (\<^verbatim>\<open>sched.c\<close>) and the signal handler (\<^verbatim>\<open>hardware.c\<close>). A handler that preempts
  the interrupted process does not return; the flag of its result says so.
\<close>

subsection \<open>Receiving and transmitting (interrupt.c)\<close>

definition set_interrupt :: "pun \<Rightarrow> nat \<Rightarrow> addr \<Rightarrow> cxp \<Rightarrow> cxp" where
  "set_interrupt pun i p c = c\<lparr>interrupts := (interrupts c)(pun := (interrupts c pun)(i := p))\<rparr>"

definition interrupt_init :: "cxp \<Rightarrow> cxp" where
  "interrupt_init c = c\<lparr>interrupts := (\<lambda>pun i. if pun < NPUN \<and> i < NINTR then NULL else interrupts c pun i)\<rparr>"

definition init_interrupt :: "pun \<Rightarrow> nat \<Rightarrow> cxp \<Rightarrow> cxp" where
  "init_interrupt pun i c = set_interrupt pun i NULL c"

definition receive :: "pun \<Rightarrow> nat \<Rightarrow> cxp \<Rightarrow> unit run" where
  "receive cpu intr_no c =
     run_bind (the_current cpu c) (\<lambda>curr c.
       let pun = p_pun (proc_of c curr) in
       if \<not> (pun < NPUN \<and> intr_no < NINTR) then Fail (OutOfBounds ''interrupts'')
       else
         let c = PREPARE_TO_WAIT curr c;
             c = set_interrupt pun intr_no curr c
         in switching cpu (relinquish cpu) c)"

text \<open>The result is the flag, the receiver (null if none) and the state.\<close>

definition transmit :: "pun \<Rightarrow> nat \<Rightarrow> cxp \<Rightarrow> ((bool \<times> addr) \<times> cxp) res" where
  "transmit cpu intr_no c =
     res_bind (get_current cpu (sch c)) (\<lambda>curr.
       let pun = p_pun (proc_of c curr) in
       if \<not> (pun < NPUN \<and> intr_no < NINTR) then Inl (OutOfBounds ''interrupts'')
       else
         let receiver = interrupts c pun intr_no;
             c = set_interrupt pun intr_no NULL c
         in if receiver \<noteq> NULL then
              let (old_state, s) = xchg_ready receiver (sch c) in
              if old_state = PROC_WAITING then
                res_bind (enqueue0 receiver s) (\<lambda>s.
                res_bind (schedule_from_interrupt cpu s) (\<lambda>(switched, s).
                  Inr ((switched, receiver), c\<lparr>sch := s\<rparr>)))
              else Inr ((False, receiver), c\<lparr>sch := s\<rparr>)
            else Inr ((False, receiver), c))"

subsection \<open>Dispatch (sched.c)\<close>

definition handle_user_interrupt :: "pun \<Rightarrow> nat \<Rightarrow> cxp \<Rightarrow> (bool \<times> cxp) res" where
  "handle_user_interrupt cpu uintr c =
     res_bind (transmit cpu uintr c) (\<lambda>((switched, receiver), c).
       if switched then Inr (True, c)
       else if receiver \<noteq> NULL then
         res_bind (schedule_from_interrupt cpu (sch c)) (\<lambda>(switched, s). Inr (switched, c\<lparr>sch := s\<rparr>))
       else Inr (False, c))"

definition handle_interrupt :: "pun \<Rightarrow> nat \<Rightarrow> cxp \<Rightarrow> (bool \<times> cxp) res" where
  "handle_interrupt cpu inum c =
     (if inum = INTR_INTERPROC then
        res_bind (handle_interprocessor_interrupt cpu (sch c)) (\<lambda>(switched, s). Inr (switched, c\<lparr>sch := s\<rparr>))
      else if inum = INTR_TIMEOUT then handle_timeout_interrupt cpu c
      else if inum = INTR_ELAPSED then Inr (False, handle_elapsed_time_interrupt c)
      else handle_user_interrupt cpu (inum - INTR_USER0) c)"

subsection \<open>The signal handler (hardware.c)\<close>

text \<open>
  The context that the operating system passes to the handler holds the signal mask of the
  interrupted code, so it is saved before the handler's \<^verbatim>\<open>disable\<close>. What the operating system
  does when the handler returns, to install the mask of the interrupted code again, is not part of it.
\<close>

definition handle_signal :: "pun \<Rightarrow> int \<Rightarrow> cxp \<Rightarrow> (bool \<times> cxp) res" where
  "handle_signal cpu signo c =
     res_bind (save_interrupted cpu (sch c)) (\<lambda>s.
       let c = c\<lparr>sch := on_hw (disable cpu) s\<rparr> in
       res_bind (signal_intr signo (hw (sch c))) (\<lambda>intr.
       res_bind (handle_interrupt cpu intr c) (\<lambda>(switched, c).
         if switched then Inr (True, c)
         else Inr (False, put_sched (on_hw (enable cpu)) c))))"

subsection \<open>A user interrupt\<close>

lemma set_interrupt_simps [simp]:
  "sch (set_interrupt q i p c) = sch c" "tmos (set_interrupt q i p c) = tmos c"
  "claimed (set_interrupt q i p c) = claimed c" "chans (set_interrupt q i p c) = chans c"
  "heap (set_interrupt q i p c) = heap c"
  "interrupts (set_interrupt q i p c) = (interrupts c)(q := (interrupts c q)(i := p))"
  by (simp_all add: set_interrupt_def)

lemma set_interrupt_id: "interrupts c q i = p \<Longrightarrow> set_interrupt q i p c = c"
  by (simp add: set_interrupt_def fun_upd_idem)

lemma transmit_none:
  assumes inv: "sched_inv (sch c) Q" and cpu: "cpu < NPUN" and i: "i < NINTR"
    and r: "interrupts c cpu i = NULL"
  shows "transmit cpu i c = Inr ((False, NULL), c)"
  using sched_invD(2,3) [OF inv cpu] cpu i r
  by (simp add: transmit_def get_current_eq proc_of_def set_interrupt_id Let_def)

lemma transmit_awake:
  assumes inv: "sched_inv (sch c) Q" and cpu: "cpu < NPUN" and i: "i < NINTR"
    and r: "interrupts c cpu i = r" "r \<noteq> NULL" and st: "p_sched_state (proc_of c r) \<noteq> PROC_WAITING"
  shows "transmit cpu i c =
    Inr ((False, r), (set_interrupt cpu i NULL c)\<lparr>sch := set_sched_state r PROC_READY (sch c)\<rparr>)"
  using sched_invD(2,3) [OF inv cpu] cpu i r st
  by (simp add: transmit_def get_current_eq proc_of_def xchg_ready_def Let_def)

lemma transmit_waiting:
  assumes inv: "sched_inv (sch c) Q" and cpu: "cpu < NPUN" and i: "i < NINTR"
    and r: "interrupts c cpu i = r" and st: "p_sched_state (proc_of c r) = PROC_WAITING"
    and x: "idle_on (sch c) Q cpu r"
  shows "\<exists>b s' ys. transmit cpu i c = Inr ((b, r), (set_interrupt cpu i NULL c)\<lparr>sch := s'\<rparr>) \<and>
    sched_inv s' (Q(cpu := ys)) \<and> top_running s' (Q(cpu := ys)) cpu \<and>
    members s' (Q(cpu := ys)) cpu = insert r (members (sch c) Q cpu) \<and>
    p_sched_state (procs s' r) = PROC_READY \<and> key_of s' = key_of (sch c)"
proof -
  let ?s = "set_sched_state r PROC_READY (sch c)"
  have inv': "sched_inv ?s Q" and x': "idle_on ?s Q cpu r" using inv x by simp_all
  obtain s1 where s1: "enqueue0 r ?s = Inr s1" "links_only ?s s1"
    "sched_inv s1 (Q(cpu := enq_list ?s r (Q cpu)))"
    using enqueue_behind [OF inv' cpu x'] by blast
  let ?Q = "Q(cpu := enq_list ?s r (Q cpu))"
  note L = links_onlyD [OF s1(2)]
  have m1: "members s1 ?Q cpu = insert r (members (sch c) Q cpu)"
    using L by (auto simp: members_def in_ipq_def set_sched_state_def)
  obtain b s2 ys where s2: "schedule_from_interrupt cpu s1 = Inr (b, s2)" "sched_inv s2 (?Q(cpu := ys))"
    "top_running s2 (?Q(cpu := ys)) cpu" "members s2 (?Q(cpu := ys)) cpu = members s1 ?Q cpu"
    "switched_to cpu (current s2 cpu) s1 s2"
    using schedule_from_interrupt_ok [OF s1(3) cpu] by (elim exE conjE) (rule that)
  have "transmit cpu i c = Inr ((b, r), (set_interrupt cpu i NULL c)\<lparr>sch := s2\<rparr>)"
    using sched_invD(2,3) [OF inv cpu] cpu i r st s1(1) s2(1) x
    by (simp add: transmit_def get_current_eq proc_of_def xchg_ready_def Let_def idle_on_def)
  moreover have "p_sched_state (procs s2 r) = PROC_READY" "key_of s2 = key_of (sch c)"
    using switched_to_key [OF s2(5)] s2(5) L by (simp_all add: switched_to_def)
  ultimately show ?thesis using s2(2,3,4) m1
    by (intro exI [of _ b] exI [of _ s2] exI [of _ ys]) (simp del: fun_upd_apply)
qed

text \<open>One more look at the ready queue at the end of the handler.\<close>

lemma handle_user_awake:
  assumes t: "transmit cpu i c = Inr ((b, r), c1)" and r: "r \<noteq> NULL"
    and inv: "sched_inv (sch c1) Q1" and cpu: "cpu < NPUN" and top: "b \<Longrightarrow> top_running (sch c1) Q1 cpu"
  shows "\<exists>b' s' ys. handle_user_interrupt cpu i c = Inr (b', c1\<lparr>sch := s'\<rparr>) \<and> sched_inv s' (Q1(cpu := ys)) \<and>
    top_running s' (Q1(cpu := ys)) cpu \<and> members s' (Q1(cpu := ys)) cpu = members (sch c1) Q1 cpu \<and>
    p_sched_state (procs s' r) = p_sched_state (proc_of c1 r) \<and> key_of s' = key_of (sch c1)"
proof (cases b)
  case True
  with t inv top show ?thesis
    by (intro exI [of _ True] exI [of _ "sch c1"] exI [of _ "Q1 cpu"]) (simp add: handle_user_interrupt_def proc_of_def)
next
  case False
  obtain b' s' ys where s': "schedule_from_interrupt cpu (sch c1) = Inr (b', s')" "sched_inv s' (Q1(cpu := ys))"
    "top_running s' (Q1(cpu := ys)) cpu" "members s' (Q1(cpu := ys)) cpu = members (sch c1) Q1 cpu"
    "switched_to cpu (current s' cpu) (sch c1) s'"
    using schedule_from_interrupt_ok [OF inv cpu] by (elim exE conjE) (rule that)
  have "handle_user_interrupt cpu i c = Inr (b', c1\<lparr>sch := s'\<rparr>)"
    using t False r s'(1) by (simp add: handle_user_interrupt_def)
  moreover have "p_sched_state (procs s' r) = p_sched_state (proc_of c1 r)" "key_of s' = key_of (sch c1)"
    using switched_to_key [OF s'(5)] s'(5) by (simp_all add: switched_to_def proc_of_def)
  ultimately show ?thesis using s'(2,3,4) by blast
qed

text \<open>The receiver is ready afterwards, and it is enqueued exactly if it had given up the processor.\<close>

lemma user_interrupt_ok:
  assumes inv: "sched_inv (sch c) Q" and cpu: "cpu < NPUN" and i: "i < NINTR"
    and r: "interrupts c cpu i = r" "r \<noteq> NULL"
    and x: "p_sched_state (proc_of c r) = PROC_WAITING \<Longrightarrow> idle_on (sch c) Q cpu r"
  shows "\<exists>b c' ys. handle_user_interrupt cpu i c = Inr (b, c') \<and>
    interrupts c' = (interrupts c)(cpu := (interrupts c cpu)(i := NULL)) \<and> sched_inv (sch c') (Q(cpu := ys)) \<and>
    top_running (sch c') (Q(cpu := ys)) cpu \<and> p_sched_state (proc_of c' r) = PROC_READY \<and>
    members (sch c') (Q(cpu := ys)) cpu = (if p_sched_state (proc_of c r) = PROC_WAITING
      then insert r (members (sch c) Q cpu) else members (sch c) Q cpu) \<and> key_of (sch c') = key_of (sch c)"
proof (cases "p_sched_state (proc_of c r) = PROC_WAITING")
  case True
  obtain b s1 ys where t: "transmit cpu i c = Inr ((b, r), (set_interrupt cpu i NULL c)\<lparr>sch := s1\<rparr>)"
    "sched_inv s1 (Q(cpu := ys))" "top_running s1 (Q(cpu := ys)) cpu"
    "members s1 (Q(cpu := ys)) cpu = insert r (members (sch c) Q cpu)"
    "p_sched_state (procs s1 r) = PROC_READY" "key_of s1 = key_of (sch c)"
    using transmit_waiting [OF inv cpu i r(1) True x [OF True]] by (elim exE conjE) (rule that)
  obtain b' s' zs where h: "handle_user_interrupt cpu i c = Inr (b', (set_interrupt cpu i NULL c)\<lparr>sch := s'\<rparr>)"
    "sched_inv s' ((Q(cpu := ys))(cpu := zs))" "top_running s' ((Q(cpu := ys))(cpu := zs)) cpu"
    "members s' ((Q(cpu := ys))(cpu := zs)) cpu = members s1 (Q(cpu := ys)) cpu"
    "p_sched_state (procs s' r) = PROC_READY" "key_of s' = key_of s1"
    using handle_user_awake [OF t(1) r(2), of "Q(cpu := ys)"] t(2,3,5) cpu by (auto simp: proc_of_def)
  with t True show ?thesis
    by (intro exI [of _ b'] exI [of _ "(set_interrupt cpu i NULL c)\<lparr>sch := s'\<rparr>"] exI [of _ zs])
      (simp add: proc_of_def)
next
  case False
  let ?s1 = "set_sched_state r PROC_READY (sch c)"
  let ?c1 = "(set_interrupt cpu i NULL c)\<lparr>sch := ?s1\<rparr>"
  have "sched_inv (sch ?c1) Q" using inv by simp
  then obtain b' s' zs where h: "handle_user_interrupt cpu i c = Inr (b', ?c1\<lparr>sch := s'\<rparr>)"
    "sched_inv s' (Q(cpu := zs))" "top_running s' (Q(cpu := zs)) cpu"
    "members s' (Q(cpu := zs)) cpu = members ?s1 Q cpu"
    "p_sched_state (procs s' r) = PROC_READY" "key_of s' = key_of ?s1"
    using handle_user_awake [OF transmit_awake [OF inv cpu i r False] r(2), of Q] cpu by (auto simp: proc_of_def)
  with False show ?thesis
    by (intro exI [of _ b'] exI [of _ "?c1\<lparr>sch := s'\<rparr>"] exI [of _ zs]) (simp add: proc_of_def)
qed

text \<open>
  A user interrupt that nobody receives changes nothing. Otherwise its receiver is forgotten
  and is ready afterwards, whether it had already given up the processor or was about to do so; it
  is enqueued exactly in the first case; no process is lost and the best ready one runs.
\<close>

theorem user_interrupt:
  assumes inv: "sched_inv (sch c) Q" and cpu: "cpu < NPUN" and i: "i < NINTR"
  defines "r \<equiv> interrupts c cpu i"
  assumes x: "r \<noteq> NULL \<and> p_sched_state (proc_of c r) = PROC_WAITING \<Longrightarrow> idle_on (sch c) Q cpu r"
  shows "if r = NULL then handle_user_interrupt cpu i c = Inr (False, c)
    else \<exists>b c' ys. handle_user_interrupt cpu i c = Inr (b, c') \<and> interrupts c' cpu i = NULL \<and>
      p_sched_state (proc_of c' r) = PROC_READY \<and> sched_inv (sch c') (Q(cpu := ys)) \<and>
      top_running (sch c') (Q(cpu := ys)) cpu \<and>
      members (sch c') (Q(cpu := ys)) cpu = (if p_sched_state (proc_of c r) = PROC_WAITING
        then insert r (members (sch c) Q cpu) else members (sch c) Q cpu)"
proof (cases "r = NULL")
  case True
  then show ?thesis
    using transmit_none [OF inv cpu i] by (simp add: r_def handle_user_interrupt_def)
next
  case False
  then obtain b c' ys where "handle_user_interrupt cpu i c = Inr (b, c')"
    "interrupts c' = (interrupts c)(cpu := (interrupts c cpu)(i := NULL))" "sched_inv (sch c') (Q(cpu := ys))"
    "top_running (sch c') (Q(cpu := ys)) cpu" "p_sched_state (proc_of c' r) = PROC_READY"
    "members (sch c') (Q(cpu := ys)) cpu = (if p_sched_state (proc_of c r) = PROC_WAITING
      then insert r (members (sch c) Q cpu) else members (sch c) Q cpu)"
    using user_interrupt_ok [OF inv cpu i r_def [THEN meta_eq_to_obj_eq, symmetric] False] x by auto
  with False show ?thesis unfolding if_not_P [OF False]
    by - (rule exI [of _ b], rule exI [of _ c'], rule exI [of _ ys], simp)
qed

definition sample_receiver :: cxp where
  "sample_receiver = sample_cxp\<lparr>interrupts := (\<lambda>p i. if p = 0 \<and> i = 1 then 0x600 else NULL),
     sch := set_sched_state 0x600 PROC_WAITING sample_sched\<rparr>"

theorem user_interrupt_witness:
  "\<exists>b c' ys. handle_user_interrupt 0 1 sample_receiver = Inr (b, c') \<and>
    0x600 \<in> members (sch c') (sample_queues(0 := ys)) 0"
proof -
  have "sched_inv (sch sample_receiver) sample_queues" using sample_sched_inv by (simp add: sample_receiver_def)
  moreover have "interrupts sample_receiver 0 1 = 0x600" "idle_on (sch sample_receiver) sample_queues 0 0x600"
    "p_sched_state (proc_of sample_receiver 0x600) = PROC_WAITING"
    using sample_idle_on by (simp_all add: sample_receiver_def proc_of_def)
  ultimately show ?thesis
    using user_interrupt [of sample_receiver sample_queues 0 1] by (auto simp: NPUN_def NINTR_def)
qed

subsection \<open>Waiting for an interrupt\<close>

lemma receive_waits:
  assumes inv: "sched_inv (sch c) Q" and cpu: "cpu < NPUN" and i: "i < NINTR"
    and m: "merged (sch c) cpu (Q cpu) = x # xs"
  defines "p \<equiv> current (sch c) cpu"
  shows "\<exists>c'. receive cpu i c = Paused c' (Done ()) \<and>
    interrupts c' = (interrupts c)(cpu := (interrupts c cpu)(i := p)) \<and>
    current (sch c') cpu = x \<and> sched_inv (sch c') (Q(cpu := xs)) \<and> top_running (sch c') (Q(cpu := xs)) cpu \<and>
    idle_on (sch c') (Q(cpu := xs)) cpu p \<and> p_sched_state (proc_of c' p) = PROC_WAITING \<and>
    members (sch c) Q cpu = insert p (members (sch c') (Q(cpu := xs)) cpu)"
proof -
  let ?c = "set_interrupt cpu i p (PREPARE_TO_WAIT p c)"
  note D = sched_invD [OF inv cpu]
  obtain s' where s': "switching cpu (relinquish cpu) ?c = Paused (?c\<lparr>sch := s'\<rparr>) (Done ())"
    "switched_to cpu x (set_sched_state p PROC_WAITING (sch ?c)) s'"
    "sched_inv s' (Q(cpu := xs))" "top_running s' (Q(cpu := xs)) cpu"
    "idle_on s' (Q(cpu := xs)) cpu p" "in_ipq s' cpu = []"
    using switching_relinquish [of ?c Q cpu x xs] inv cpu m by (auto simp: p_def proc_of_def)
  have run: "receive cpu i c = switching cpu (relinquish cpu) ?c"
    using D(2,3) cpu i by (simp add: receive_def p_def proc_of_def Let_def)
  have cur: "current s' cpu = x" "p_sched_state (procs s' p) = PROC_WAITING"
    using s'(2) by (simp_all add: switched_to_def)
  have "set (x # xs) = set (Q cpu) \<union> set (in_ipq (sch c) cpu)" unfolding m [symmetric] by simp
  then have "members (sch c) Q cpu = insert p (members s' (Q(cpu := xs)) cpu)"
    using s'(6) cur by (auto simp: members_def p_def)
  moreover have "interrupts (PREPARE_TO_WAIT p c) = interrupts c"
    by (simp add: PREPARE_TO_WAIT_def put_sched_def)
  ultimately show ?thesis using run s' cur
    by (intro exI [of _ "?c\<lparr>sch := s'\<rparr>"]) (simp add: proc_of_def)
qed

text \<open>
  A process that waits for a user interrupt gives up the processor; when the interrupt fires
  the process is ready again, at the head or in its place in the ready queue, every process that
  was there is still there, and the best of them runs.
\<close>

theorem receive_then_interrupt:
  assumes inv: "sched_inv (sch c) Q" and cpu: "cpu < NPUN" and i: "i < 2"
    and m: "merged (sch c) cpu (Q cpu) = x # xs"
  defines "p \<equiv> current (sch c) cpu"
  shows "\<exists>c1 b c2 ys. receive cpu i c = Paused c1 (Done ()) \<and> current (sch c1) cpu = x \<and>
    p_sched_state (proc_of c1 p) = PROC_WAITING \<and> p \<notin> members (sch c1) (Q(cpu := xs)) cpu \<and>
    handle_interrupt cpu (INTR_USER0 + i) c1 = Inr (b, c2) \<and> p_sched_state (proc_of c2 p) = PROC_READY \<and>
    sched_inv (sch c2) (Q(cpu := ys)) \<and> top_running (sch c2) (Q(cpu := ys)) cpu \<and>
    members (sch c2) (Q(cpu := ys)) cpu = members (sch c) Q cpu \<and> interrupts c2 cpu i = NULL"
proof -
  have i5: "i < NINTR" using i by (simp add: NINTR_def)
  obtain c1 where c1: "receive cpu i c = Paused c1 (Done ())"
    "interrupts c1 = (interrupts c)(cpu := (interrupts c cpu)(i := p))" "current (sch c1) cpu = x"
    "sched_inv (sch c1) (Q(cpu := xs))" "idle_on (sch c1) (Q(cpu := xs)) cpu p"
    "p_sched_state (proc_of c1 p) = PROC_WAITING"
    "members (sch c) Q cpu = insert p (members (sch c1) (Q(cpu := xs)) cpu)"
    using receive_waits [OF inv cpu i5 m] unfolding p_def by blast
  have r: "interrupts c1 cpu i = p" "p \<noteq> NULL" using c1(2,5) by (simp_all add: idle_on_def)
  obtain b c2 ys where c2: "handle_user_interrupt cpu i c1 = Inr (b, c2)"
    "interrupts c2 = (interrupts c1)(cpu := (interrupts c1 cpu)(i := NULL))"
    "sched_inv (sch c2) ((Q(cpu := xs))(cpu := ys))" "top_running (sch c2) ((Q(cpu := xs))(cpu := ys)) cpu"
    "p_sched_state (proc_of c2 p) = PROC_READY"
    "members (sch c2) ((Q(cpu := xs))(cpu := ys)) cpu = insert p (members (sch c1) (Q(cpu := xs)) cpu)"
    using user_interrupt_ok [OF c1(4) cpu i5 r c1(5)] c1(6) by auto
  have "handle_interrupt cpu (INTR_USER0 + i) c1 = handle_user_interrupt cpu i c1"
    using i by (simp add: handle_interrupt_def intr_numbers)
  then show ?thesis using c1 c2
    by (intro exI [of _ c1] exI [of _ b] exI [of _ c2] exI [of _ ys]) (simp add: idle_on_def)
qed

theorem receive_then_interrupt_witness:
  "\<exists>c1 b c2. receive 0 1 sample_cxp = Paused c1 (Done ()) \<and> current (sch c1) 0 = 0x400 \<and>
    handle_interrupt 0 4 c1 = Inr (b, c2) \<and> p_sched_state (proc_of c2 0x300) = PROC_READY"
proof -
  have "sched_inv (sch sample_cxp) sample_queues" "current (sch sample_cxp) 0 = 0x300"
    "merged (sch sample_cxp) 0 (sample_queues 0) = [0x400, 0x500, 0x100]"
    using sample_sched_inv sample_merged by (simp_all add: sample_cxp_def) (simp add: sample_sched_def)
  then show ?thesis
    using receive_then_interrupt [of sample_cxp sample_queues 0 1] by (auto simp: NPUN_def INTR_USER0_def)
qed

subsection \<open>Any interrupt\<close>

text \<open>
  What the handlers of a processor rely on: the invariants of the scheduler and of the timeouts,
  and that whoever is recorded as waiting, for a time or for an interrupt, is in no queue.
\<close>

definition handlers_ok :: "pun \<Rightarrow> cxp \<Rightarrow> (pun \<Rightarrow> addr list) \<Rightarrow> (pun \<Rightarrow> addr list) \<Rightarrow> bool" where
  "handlers_ok cpu c Q T \<longleftrightarrow> sched_inv (sch c) Q \<and> top_running (sch c) Q cpu \<and>
     tmo_ok c T \<and> clock_ok cpu c \<and> timeout_timer cpu c \<noteq> None \<and> due_ok c Q cpu (T cpu) \<and>
     (\<forall>d \<in> set (T cpu). sint (t_time (tmos c d) - now_of c) < 2 ^ 31 * NS_PER_SEC) \<and>
     (\<forall>i < NINTR. interrupts c cpu i \<noteq> NULL \<and> p_sched_state (proc_of c (interrupts c cpu i)) = PROC_WAITING \<longrightarrow>
        idle_on (sch c) Q cpu (interrupts c cpu i))"

lemma due_ok_subset: "due_ok c Q cpu ds \<Longrightarrow> set es \<subseteq> set ds \<Longrightarrow> due_ok c Q cpu es"
  unfolding due_ok_def by blast

definition kept :: "pun \<Rightarrow> cxp \<Rightarrow> (pun \<Rightarrow> addr list) \<Rightarrow> cxp \<Rightarrow> bool" where
  "kept cpu c Q c' \<longleftrightarrow> (\<exists>ys T'. sched_inv (sch c') (Q(cpu := ys)) \<and> top_running (sch c') (Q(cpu := ys)) cpu \<and>
     tmo_ok c' T' \<and> members (sch c) Q cpu \<subseteq> members (sch c') (Q(cpu := ys)) cpu)"

lemma tmo_ok_sch [simp]: "tmo_ok (c\<lparr>sch := s\<rparr>) T = tmo_ok c T"
  by (rule tmo_ok_cong) (simp_all add: tnext_def tkey_def fun_eq_iff)

lemma timeout_case:
  assumes "handlers_ok cpu c Q T" and "cpu < NPUN"
  shows "\<exists>b c'. handle_timeout_interrupt cpu c = Inr (b, c') \<and> kept cpu c Q c'"
proof -
  let ?due = "takeWhile (\<lambda>d. tkey c d \<le> sint (now_of c)) (T cpu)"
    and ?rest = "dropWhile (\<lambda>d. tkey c d \<le> sint (now_of c)) (T cpu)"
  note H = assms(1) [unfolded handlers_ok_def]
  obtain tm where tm: "timeout_timer cpu c = Some tm" using H by auto
  have due: "due_ok c Q cpu ?due"
    by (rule due_ok_subset [of c Q cpu "T cpu"]) (use H in \<open>auto dest: set_takeWhileD\<close>)
  have hd: "?rest = [] \<or> hd ?rest \<in> set (T cpu)"
    using hd_in_set [of ?rest] set_dropWhileD [of "hd ?rest"] by fastforce
  have split: "T cpu = ?due @ ?rest" by simp
  have d: "\<forall>d \<in> set ?due. tkey c d \<le> sint (now_of c)" by (auto dest: set_takeWhileD)
  have nx: "?rest = [] \<or> sint (now_of c) < tkey c (hd ?rest)"
    using hd_dropWhile [of "\<lambda>d. tkey c d \<le> sint (now_of c)" "T cpu"] by (meson not_le)
  have lim: "?rest = [] \<or> sint (t_time (tmos c (hd ?rest)) - now_of c) < 2 ^ 31 * NS_PER_SEC"
    using hd H by blast
  have inv: "tmo_ok c T" "sched_inv (sch c) Q" "clock_ok cpu c" using H by blast+
  obtain b c' ys where "handle_timeout_interrupt cpu c = Inr (b, c')" "tmo_ok c' (T(cpu := ?rest))"
    "sched_inv (sch c') (Q(cpu := ys))" "top_running (sch c') (Q(cpu := ys)) cpu"
    "members (sch c') (Q(cpu := ys)) cpu = sleepers c ?due \<union> members (sch c) Q cpu"
    using handle_timeout_ok [OF inv(1,2) assms(2) inv(3) tm split d nx due lim] by (elim exE conjE) (rule that)
  then show ?thesis unfolding kept_def by blast
qed

lemma user_case:
  assumes h: "handlers_ok cpu c Q T" and cpu: "cpu < NPUN" and i: "i < NINTR"
  shows "\<exists>b c'. handle_user_interrupt cpu i c = Inr (b, c') \<and> kept cpu c Q c'"
proof (cases "interrupts c cpu i = NULL")
  case True
  have "handle_user_interrupt cpu i c = Inr (False, c)"
    using h transmit_none [OF _ cpu i True] by (auto simp: handlers_ok_def handle_user_interrupt_def)
  moreover have "kept cpu c Q c"
    using h unfolding handlers_ok_def kept_def by (metis fun_upd_triv subset_refl)
  ultimately show ?thesis by blast
next
  case False
  have inv: "sched_inv (sch c) Q" using h by (simp add: handlers_ok_def)
  obtain b c' ys where u: "handle_user_interrupt cpu i c = Inr (b, c')"
    "sched_inv (sch c') (Q(cpu := ys))" "top_running (sch c') (Q(cpu := ys)) cpu"
    "members (sch c') (Q(cpu := ys)) cpu = (if p_sched_state (proc_of c (interrupts c cpu i)) = PROC_WAITING
      then insert (interrupts c cpu i) (members (sch c) Q cpu) else members (sch c) Q cpu)"
    using user_interrupt_ok [OF inv cpu i refl False] h False i by (auto simp: handlers_ok_def)
  have "tmo_ok c' T"
  proof -
    have "tnext c' = tnext c \<and> tkey c' = tkey c \<and> timeQue c' = timeQue c"
      using u(1) by (auto simp: handle_user_interrupt_def transmit_def set_interrupt_def tnext_def tkey_def
          fun_eq_iff Let_def xchg_ready_def split: if_splits prod.splits)
    then show ?thesis using h tmo_ok_cong [of c' c T] by (simp add: handlers_ok_def)
  qed
  then have "kept cpu c Q c'" using u(2,3,4) unfolding kept_def by (metis subset_insertI subset_refl)
  with u(1) show ?thesis by blast
qed

lemma handle_interrupt_ok:
  assumes h: "handlers_ok cpu c Q T" and cpu: "cpu < NPUN" and i: "i < NINTR"
  shows "\<exists>b c'. handle_interrupt cpu i c = Inr (b, c') \<and> kept cpu c Q c'"
proof -
  note H = h [unfolded handlers_ok_def]
  have inv: "sched_inv (sch c) Q" and top: "top_running (sch c) Q cpu" and t: "tmo_ok c T" using H by blast+
  consider "i = INTR_INTERPROC" | "i = INTR_TIMEOUT" | "i = INTR_ELAPSED"
    | "INTR_USER0 \<le> i" using i by (fastforce simp: intr_numbers)
  then show ?thesis
  proof cases
    case 1
    obtain b s' ys where s': "handle_interprocessor_interrupt cpu (sch c) = Inr (b, s')"
      "sched_inv s' (Q(cpu := ys))" "top_running s' (Q(cpu := ys)) cpu"
      "members s' (Q(cpu := ys)) cpu = members (sch c) Q cpu"
      using interproc_ok [OF inv cpu top] by blast
    then have "kept cpu c Q (c\<lparr>sch := s'\<rparr>)"
      using t unfolding kept_def by (intro exI [of _ ys] exI [of _ T]) simp
    with 1 s'(1) show ?thesis by (simp add: handle_interrupt_def)
  next
    case 2
    with timeout_case [OF h cpu] show ?thesis by (simp add: handle_interrupt_def intr_numbers)
  next
    case 3
    have "kept cpu c Q (handle_elapsed_time_interrupt c)"
      unfolding kept_def using inv top t
      by (intro exI [of _ "Q cpu"] exI [of _ T])
        (simp add: handle_elapsed_time_interrupt_def tmo_ok_def tnext_def [abs_def] tkey_def [abs_def])
    with 3 show ?thesis
      by (intro exI [of _ False] exI [of _ "handle_elapsed_time_interrupt c"])
        (simp add: handle_interrupt_def intr_numbers)
  next
    case 4
    then have "handle_interrupt cpu i c = handle_user_interrupt cpu (i - INTR_USER0) c"
      by (simp add: handle_interrupt_def intr_numbers)
    with user_case [OF h cpu, of "i - INTR_USER0"] i show ?thesis by simp
  qed
qed

text \<open>Entering the signal handler changes only the saved context and the mask.\<close>

lemma handlers_ok_entry:
  fixes x :: "addr \<Rightarrow> ucontext"
  assumes "handlers_ok cpu c Q T"
  defines "c0 \<equiv> c\<lparr>sch := on_hw (disable cpu) ((sch c)\<lparr>ctxs := x\<rparr>)\<rparr>"
  shows "handlers_ok cpu c0 Q T" and "members (sch c0) Q cpu = members (sch c) Q cpu"
proof -
  let ?s = "(sch c)\<lparr>ctxs := x\<rparr>"
  have s: "sched_inv ?s Q = sched_inv (sch c) Q" "top_running ?s Q cpu = top_running (sch c) Q cpu"
    "members ?s Q cpu = members (sch c) Q cpu" "idle_on ?s Q cpu y = idle_on (sch c) Q cpu y" for y
    by (auto simp: sched_inv_def top_running_def members_def idle_on_def running_ok_def)
  then show "members (sch c0) Q cpu = members (sch c) Q cpu" by (simp add: c0_def on_hw_eq)
  have idle: "idle_on (sch c0) Q cpu y = idle_on (sch c) Q cpu y" for y using s by (simp add: c0_def on_hw_eq)
  have "tmo_ok c0 T = tmo_ok c T" "clock_ok cpu c0 = clock_ok cpu c" "now_of c0 = now_of c"
    "timeout_timer cpu c0 = timeout_timer cpu c"
    by (simp_all add: c0_def clock_ok_def now_of_def timeout_timer_def on_hw_eq disable_def)
  moreover have "due_ok c0 Q cpu (T cpu) = due_ok c Q cpu (T cpu)"
    using idle by (intro due_ok_cong) (simp_all add: c0_def on_hw_eq)
  moreover have "sched_inv (sch c0) Q = sched_inv (sch c) Q" "top_running (sch c0) Q cpu = top_running (sch c) Q cpu"
    using s by (simp_all add: c0_def on_hw_eq)
  moreover have "tmos c0 = tmos c" "interrupts c0 = interrupts c" "\<And>y. proc_of c0 y = proc_of c y"
    by (simp_all add: c0_def proc_of_def on_hw_eq)
  ultimately show "handlers_ok cpu c0 Q T" using assms(1) idle unfolding handlers_ok_def by simp
qed

lemma kept_enable: "kept cpu c Q (put_sched (on_hw (enable cpu)) c') = kept cpu c Q c'"
  by (simp add: kept_def on_hw_eq)

lemma handle_signal_ok:
  assumes "routing n (hw (sch c)) P A" and "(cpu, i) \<in> A" and "cpu < NPUN" and "i < NINTR"
    and "handlers_ok cpu c Q T" and "n \<le> 10" and "p_stackptr (proc_of c (current (sch c) cpu)) \<noteq> NULL"
  shows "\<exists>b c' ys T'. handle_signal cpu (signal_no (hw (sch c)) cpu i) c = Inr (b, c') \<and>
    sched_inv (sch c') (Q(cpu := ys)) \<and> top_running (sch c') (Q(cpu := ys)) cpu \<and> tmo_ok c' T' \<and>
    members (sch c) Q cpu \<subseteq> members (sch c') (Q(cpu := ys)) cpu \<and>
    (\<not> b \<longrightarrow> thr_mask (hw (sch c')) cpu = sigmask (hw (sch c')) cpu)"
proof -
  let ?h = "hw (sch c)" and ?p = "current (sch c) cpu"
  have inv: "sched_inv (sch c) Q" using assms(5) by (simp add: handlers_ok_def)
  let ?sp = "p_stackptr (procs (sch c) ?p)"
  let ?x = "(ctxs (sch c))(?sp := (ctxs (sch c) ?sp)\<lparr>uc_point := Interrupted, uc_sigmask := thr_mask ?h cpu\<rparr>)"
  let ?c0 = "c\<lparr>sch := on_hw (disable cpu) ((sch c)\<lparr>ctxs := ?x\<rparr>)\<rparr>"
  note E = handlers_ok_entry [OF assms(5), where x = ?x]
  have save: "save_interrupted cpu (sch c) = Inr ((sch c)\<lparr>ctxs := ?x\<rparr>)"
    using sched_invD(2) [OF inv assms(3)] assms(7) by (simp add: save_interrupted_def get_current_eq proc_of_def Let_def)
  have intr: "signal_intr (signal_no ?h cpu i) (hw (sch ?c0)) = Inr i"
    using routing_signal_intr(1) [OF assms(1,2,6)] by (simp add: signal_intr_def on_hw_eq disable_def Let_def split: if_splits)
  obtain b c1 where c1: "handle_interrupt cpu i ?c0 = Inr (b, c1)" "kept cpu ?c0 Q c1"
    using handle_interrupt_ok [OF E(1) assms(3,4)] by blast
  let ?c' = "if b then c1 else put_sched (on_hw (enable cpu)) c1"
  have "handle_signal cpu (signal_no ?h cpu i) c = Inr (b, ?c')"
    using save intr c1(1) by (simp add: handle_signal_def)
  moreover have "kept cpu c Q ?c'"
    using c1(2) E(2) kept_enable [of cpu c Q c1] by (simp add: kept_def)
  moreover have "\<not> b \<longrightarrow> thr_mask (hw (sch ?c')) cpu = sigmask (hw (sch ?c')) cpu"
    by (simp add: on_hw_eq enable_def)
  ultimately show ?thesis unfolding kept_def by blast
qed

text \<open>
  Every signal that set-up has routed to a processor is handled to the end there, if the stack
  pointer of the interrupted process is not null: the handler
  of its interrupt runs with all signals blocked; it keeps the invariants of the scheduler and of
  the timeouts, loses no process and leaves the best ready one running; and if it returns to the
  interrupted code then exactly the signals of the processor are unblocked again.
\<close>

theorem signal_handled:
  assumes "routing n (hw (sch c)) P A" and "(cpu, i) \<in> A" and "cpu < NPUN" and "i < NINTR"
    and "handlers_ok cpu c Q T" and "n \<le> 10" and "p_stackptr (proc_of c (current (sch c) cpu)) \<noteq> NULL"
  shows "\<exists>b c' ys T'. handle_signal cpu (signal_no (hw (sch c)) cpu i) c = Inr (b, c') \<and>
    sched_inv (sch c') (Q(cpu := ys)) \<and> top_running (sch c') (Q(cpu := ys)) cpu \<and> tmo_ok c' T' \<and>
    members (sch c) Q cpu \<subseteq> members (sch c') (Q(cpu := ys)) cpu \<and>
    (\<not> b \<longrightarrow> thr_mask (hw (sch c')) cpu = sigmask (hw (sch c')) cpu)"
  by (rule handle_signal_ok [OF assms])

definition sample_signal :: cxp where
  "sample_signal = put_sched (on_hw (\<lambda>h. h\<lparr>os_SIGRTMIN := 34, os_SIGRTMAX := 64, SIGBASE := 34, next_signo := 35,
     interrupt := replicate 10 \<lparr>d_pun = 0, d_intr = 1\<rparr>, signal_no := (\<lambda>_ _. 34),
     sigmask := (\<lambda>_. {34 .. 64} - {34})\<rparr>)) sample_due"

lemma sample_signal_ok: "handlers_ok 0 sample_signal sample_queues sample_times"
  "routing 1 (hw (sch sample_signal)) {0} {(0, 1)}"
proof -
  have D: "tmos sample_signal = tmos sample_due" "timeQue sample_signal = timeQue sample_due"
    "tnext sample_signal = tnext sample_due" "tkey sample_signal = tkey sample_due"
    "procs (sch sample_signal) = procs (sch sample_due)"
    "sched_inv (sch sample_signal) Q = sched_inv (sch sample_due) Q" "clock_ok cpu sample_signal = clock_ok cpu sample_due"
    "tmo_ok sample_signal T = tmo_ok sample_due T" for Q T cpu
    by (simp_all add: sample_signal_def on_hw_eq clock_ok_def)
  have t: "tmos sample_due 0x800 = \<lparr>t_time = 500000000, t_proc = 0x600, t_next = 0x810, t_type = TMO_AFTER\<rparr>"
    "tmos sample_due 0x810 = \<lparr>t_time = 5000000000, t_proc = 0x700, t_next = NULL, t_type = TMO_AFTER\<rparr>"
    by (simp_all add: sample_due_def)
  have "now_of sample_signal = 600000000" "timeout_timer 0 sample_signal = timeout_timer 0 sample_due"
    using sample_due_facts(5) by (simp_all add: sample_signal_def now_of_def timeout_timer_def on_hw_eq)
  moreover have "top_running (sch sample_signal) sample_queues 0"
    using sample_top by (simp add: sample_signal_def sample_due_def on_hw_eq)
  moreover have "idle_on (sch sample_signal) sample_queues 0 0x600"
    using sample_idle_on by (simp add: sample_signal_def sample_due_def on_hw_eq)
  moreover have "p_sched_state (proc_of sample_due 0x700) = PROC_READY"
    by (simp add: sample_due_def proc_of_def) (simp add: sample_sched_def sample_process_def)
  then have "due_ok sample_signal sample_queues 0 (sample_times 0)"
    using calculation(4) D(1,5) by (auto simp: due_ok_def sample_times_def t sleeps_def proc_of_def)
  moreover have "interrupts sample_signal = (\<lambda>_ _. NULL)"
    by (simp add: sample_signal_def sample_due_def sample_cxp_def put_sched_def)
  ultimately show "handlers_ok 0 sample_signal sample_queues sample_times"
    using sample_due_facts D by (auto simp: handlers_ok_def sample_times_def t NS_PER_SEC_def)
  show "routing 1 (hw (sch sample_signal)) {0} {(0, 1)}"
    by (simp add: routing_def sample_signal_def on_hw_eq NPUN_NINTR)
qed

theorem signal_handled_witness:
  "\<exists>b c' ys. handle_signal 0 34 sample_signal = Inr (b, c') \<and> top_running (sch c') (sample_queues(0 := ys)) 0"
proof -
  have "signal_no (hw (sch sample_signal)) 0 1 = 34" by (simp add: sample_signal_def on_hw_eq)
  moreover have "p_stackptr (proc_of sample_signal (current (sch sample_signal) 0)) \<noteq> NULL"
    by (simp add: sample_signal_def sample_due_def on_hw_eq proc_of_def)
      (simp add: sample_cxp_def set_sched_state_def sample_sched_def sample_process_def proc_stack_def sizeof_Process_def)
  ultimately show ?thesis
    using signal_handled [OF sample_signal_ok(2) _ _ _ sample_signal_ok(1)]
    by (auto simp: NPUN_def NINTR_def)
qed

end
