(* ===== verification/Lifecycle.thy ===== *)
theory Lifecycle
  imports Interrupts
begin

text \<open>
  The life of a process and of the whole system (\<^verbatim>\<open>sched.c\<close> and \<^verbatim>\<open>hardware.c\<close>):
  building a process record, terminating a process on the termination stack of its processor, and
  the initialization, which starts the other processors. The first word of a released record
  holds the link of the free list, and that word is the field \<^verbatim>\<open>stackptr\<close>.
\<close>

subsection \<open>Building a process\<close>

definition put_proc :: "addr \<Rightarrow> process \<Rightarrow> cxp \<Rightarrow> cxp" where
  "put_proc p pr c = put_sched (\<lambda>s. s\<lparr>procs := (procs s)(p := pr)\<rparr>) c"

definition run_res :: "'a res \<Rightarrow> cxp \<Rightarrow> 'a run" where
  "run_res r c = (case r of Inl e \<Rightarrow> Fail e | Inr a \<Rightarrow> Done a c)"

lemma run_res_simps [simp]: "run_res (Inr a) c = Done a c" "run_res (Inl e) c = Fail e"
  by (simp_all add: run_res_def)

definition build_process :: "pun \<Rightarrow> uint32 \<Rightarrow> uint16 \<Rightarrow> pun \<Rightarrow> cxp \<Rightarrow> addr run" where
  "build_process cpu stacksize pri pun c =
     run_bind (run_res (find_mem_index (stacksize + sizeof_Process)) c) (\<lambda>index c.
     run_bind (allocate_mem cpu index c) (\<lambda>proc c.
       Done proc (put_proc proc ((proc_of c proc)\<lparr>p_next := NULL, p_index := of_nat index, p_pri := pri,
         p_pun := pun, p_alt_state := ALT_NONE, p_sched_state := PROC_WAITING\<rparr>) c)))"

definition make_process ::
  "pun \<Rightarrow> code_p \<Rightarrow> addr \<Rightarrow> addr \<Rightarrow> uint32 \<Rightarrow> uint16 \<Rightarrow> pun \<Rightarrow> addr \<Rightarrow> cxp \<Rightarrow> addr run" where
  "make_process cpu code arg1 arg2 stacksize pri pun userArgs c =
     run_bind (build_process cpu stacksize pri pun c) (\<lambda>proc c.
       Done proc (put_sched (build_context cpu proc stacksize code arg1 arg2 userArgs) c))"

subsection \<open>Termination\<close>

definition TERM_STACK_SIZE :: uint32 where "TERM_STACK_SIZE = 4096"

text \<open>
  The address \<^verbatim>\<open>&term->stack[pun]\<close>: \<open>base\<close> is the address of the array
  \<^verbatim>\<open>termination\<close>, whose elements hold a mutex, padded to a word, and 4096 words.
\<close>

definition term_stack :: "addr \<Rightarrow> pun \<Rightarrow> addr" where
  "term_stack base pun = base + ucast pun * (4 + 4 * TERM_STACK_SIZE) + 4 + 4 * ucast pun"

definition set_stack :: "pun \<Rightarrow> addr \<Rightarrow> addr \<Rightarrow> uint32 \<Rightarrow> code_p \<Rightarrow> sched \<Rightarrow> sched" where
  "set_stack cpu proc stack stacksize code s =
     (let sp = p_stackptr (procs s proc);
          s = s\<lparr>ctxs := (ctxs s)(sp := \<lparr>uc_point = At_entry code NULL NULL NULL,
                uc_sigmask = thr_mask (hw s) cpu, uc_sp = stack, uc_size = stacksize\<rparr>)\<rparr>
      in s\<lparr>executing := (executing s)(cpu := sp),
           hw := (hw s)\<lparr>thr_mask := (thr_mask (hw s))(cpu := uc_sigmask (ctxs s sp))\<rparr>\<rparr>)"

text \<open>
  The first step of \<^verbatim>\<open>finish_termination\<close>, with interrupts still enabled: the record
  goes back to the allocator, whose link overwrites its first word.
\<close>

definition release_record :: "pun \<Rightarrow> addr \<Rightarrow> cxp \<Rightarrow> unit run" where
  "release_record cpu oldproc c =
     run_bind (release_mem cpu (unat (p_index (proc_of c oldproc))) oldproc c) (\<lambda>_ c.
       Done () (put_proc oldproc ((proc_of c oldproc)\<lparr>p_stackptr := blk_next c oldproc\<rparr>) c))"

text \<open>The process ends here; the state is the one in which the next process runs.\<close>

definition finish_termination :: "pun \<Rightarrow> cxp \<Rightarrow> unit run" where
  "finish_termination cpu c =
     run_bind (the_current cpu c) (\<lambda>oldproc c.
       let pun = p_pun (proc_of c oldproc) in
       run_bind (release_record cpu oldproc c) (\<lambda>_ c.
         let c = put_sched (on_hw (disable cpu)) c;
             c = release_mutex (Mutex_term pun) c
         in on_sched (\<lambda>s.
              res_bind (take_proc cpu pun s) (\<lambda>(newproc, s).
              res_bind (set_current cpu newproc s) (\<lambda>s.
              res_bind (restore_context cpu newproc s) (\<lambda>s. Inr (resume_process cpu s))))) c))"

definition terminate :: "addr \<Rightarrow> pun \<Rightarrow> cxp \<Rightarrow> unit run" where
  "terminate base cpu c =
     run_bind (the_current cpu c) (\<lambda>curr c.
       let pun = p_pun (proc_of c curr) in
       run_bind (claim_mutex cpu (Mutex_term pun) c) (\<lambda>_ c.
         finish_termination cpu
           (put_sched (set_stack cpu curr (term_stack base pun) TERM_STACK_SIZE Finish_termination) c)))"

subsection \<open>Initialization\<close>

definition IDLE_STACK_SIZE :: uint32 where "IDLE_STACK_SIZE = 8192"

text \<open>The processors other than the initial one.\<close>

definition other_puns :: "pun list" where "other_puns = map of_nat [1 ..< unat NPUN]"

definition sched_init :: "cxp \<Rightarrow> cxp" where
  "sched_init c =
     (let c = put_sched (\<lambda>s. s\<lparr>ipQues := (\<lambda>p. if p < NPUN then ipq_init else ipQues s p)\<rparr>) c;
          c = put_sched (\<lambda>s. s\<lparr>rdyQues := (\<lambda>p. if p < NPUN then NULL else rdyQues s p)\<rparr>) c
      in foldl (\<lambda>c p. init_mutex (Mutex_term p) c) c (0 # other_puns))"

text \<open>
  A new thread starts with the signal mask of its creator; \<open>thread\<close> says whether
  \<^verbatim>\<open>pthread_create\<close> succeeds.
\<close>

definition activate_processor :: "(pun \<Rightarrow> bool) \<Rightarrow> pun \<Rightarrow> cxp \<Rightarrow> cxp res" where
  "activate_processor thread pun c =
     (if pun = 0 then
        res_bind (init_processor 0 (hw (sch c))) (\<lambda>h. Inr (put_sched (on_hw (\<lambda>_. h)) c))
      else if thread pun then
        Inr (put_sched (on_hw (\<lambda>h. h\<lparr>thr_mask := (thr_mask h)(pun := thr_mask h 0)\<rparr>)) c)
      else Inl (Plotz ''activate_processor pthread_create''))"

text \<open>What the new thread does before the barrier, and after it.\<close>

definition run_process_init :: "pun \<Rightarrow> cxp \<Rightarrow> cxp res" where
  "run_process_init pun c =
     res_bind (init_processor pun (hw (sch c))) (\<lambda>h.
       Inr (put_sched (on_hw (\<lambda>_. barrier_arrive h)) c))"

definition run_process_start :: "pun \<Rightarrow> addr \<Rightarrow> cxp \<Rightarrow> cxp" where
  "run_process_start pun context c =
     put_sched (\<lambda>s. s\<lparr>executing := (executing s)(pun := context),
       hw := (hw s)\<lparr>thr_mask := (thr_mask (hw s))(pun := uc_sigmask (ctxs s context))\<rparr>\<rparr>) c"

text \<open>
  From here on the running code is that of the initial process: when it loses the processor, its
  context is saved in the record of that process.
\<close>

definition run_as :: "addr \<Rightarrow> cxp \<Rightarrow> cxp" where
  "run_as proc c = put_sched (\<lambda>s. s\<lparr>executing := (executing s)(0 := p_stackptr (procs s proc))\<rparr>) c"

text \<open>Starting the other processors, each with an idle process.\<close>

primrec start_others :: "(pun \<Rightarrow> bool) \<Rightarrow> pun list \<Rightarrow> cxp \<Rightarrow> unit run" where
  "start_others thread [] c = Done () c"
| "start_others thread (pun # puns) c =
     run_bind (make_process 0 Idle NULL NULL IDLE_STACK_SIZE IDLE_PRI pun NULL c) (\<lambda>idler c.
       let c = put_sched (\<lambda>s. s\<lparr>current := (current s)(pun := idler),
             current_pri := (current_pri s)(pun := IDLE_PRI)\<rparr>) c
       in run_bind (of_step (activate_processor thread pun) c) (\<lambda>_ c. start_others thread puns c))"

definition init_modules :: "(uint32 \<Rightarrow> addr) \<Rightarrow> uint32 \<Rightarrow> uint32 \<Rightarrow> cxp \<Rightarrow> cxp res" where
  "init_modules malloc tsize istacksize c =
     (let c = put_sched (on_hw (disable 0)) c; c = put_sched (on_hw hardware_init) c in
      res_bind (memory_init malloc (tsize - istacksize) c) (\<lambda>c.
      let c = interrupt_init c; c = timer_init c in Inr (sched_init c)))"

definition init_processes :: "(pun \<Rightarrow> bool) \<Rightarrow> uint32 \<Rightarrow> cxp \<Rightarrow> unit run" where
  "init_processes thread istacksize c =
     run_bind (make_process 0 No_code NULL NULL istacksize INIT_PRI 0 NULL c) (\<lambda>proc c.
     run_bind (of_step (activate_processor thread 0) c) (\<lambda>_ c.
     run_bind (on_sched (set_current 0 proc) c) (\<lambda>_ c.
     run_bind (make_process 0 Idle NULL NULL IDLE_STACK_SIZE IDLE_PRI 0 NULL (run_as proc c)) (\<lambda>idler c.
     run_bind (on_sched (enqueue0 idler) c) (\<lambda>_ c.
     start_others thread other_puns c)))))"

text \<open>
  The barrier: the initial processor arrives, the threads of the others initialize their
  processors and arrive, each then enters the context of its idle process, and the initial
  processor enables its interrupts. The order of the arrivals does not matter, because nobody
  passes the barrier before all have arrived.
\<close>

definition synchronize_processors :: "cxp \<Rightarrow> cxp res" where
  "synchronize_processors c =
     (let c = put_sched (on_hw barrier_arrive) c in
      res_bind (foldl (\<lambda>r p. res_bind r (run_process_init p)) (Inr c) other_puns) (\<lambda>c.
      if barrier_open (hw (sch c))
      then Inr (foldl (\<lambda>c p. run_process_start p (p_stackptr (proc_of c (current (sch c) p))) c) c other_puns)
      else Inl (SpinsForever ''synchronize_processors'')))"

definition initialize :: "(uint32 \<Rightarrow> addr) \<Rightarrow> (pun \<Rightarrow> bool) \<Rightarrow> uint32 \<Rightarrow> uint32 \<Rightarrow> cxp \<Rightarrow> unit run" where
  "initialize malloc thread tsize istacksize c =
     run_bind (of_step (init_modules malloc tsize istacksize) c) (\<lambda>_ c.
     run_bind (init_processes thread istacksize c) (\<lambda>_ c.
     run_bind (of_step synchronize_processors c) (\<lambda>_ c.
     Done () (put_sched (on_hw (enable 0)) c))))"

text \<open>The idle process, as far as its first sleep.\<close>

definition idle :: "pun \<Rightarrow> cxp \<Rightarrow> cxp" where
  "idle cpu c = put_sched (on_hw (enable cpu)) c"

end
