(* ===== verification/Lifecycle_Correct.thy ===== *)
theory Lifecycle_Correct
  imports Lifecycle
begin

text \<open>
  Correctness of process creation, of termination and of the initialization: a new process
  record overlaps nothing, a terminated process hands its memory and the processor on, and the
  initialization establishes the invariants on which the other theories rest.
\<close>

subsection \<open>A new record does not disturb the queues\<close>

lemma sched_inv_frame:
  assumes inv: "sched_inv s Q"
    and f: "rdyQues s' = rdyQues s" "ipQues s' = ipQues s" "current s' = current s"
      "current_pri s' = current_pri s" "executing s' = executing s"
    and pr: "\<And>p x. p < NPUN \<Longrightarrow> x \<in> members s Q p \<Longrightarrow> procs s' x = procs s x"
  shows "sched_inv s' Q" and "members s' Q p = members s Q p"
proof -
  have i: "in_ipq s' = in_ipq s" using f by (simp add: in_ipq_def fun_eq_iff)
  have m: "members s' Q p = members s Q p" for p using f i by (simp add: members_def)
  then show "members s' Q p = members s Q p" .
  have q: "procs s' x = procs s x" if "p < NPUN" "x = current s p \<or> x \<in> set (Q p) \<or> x \<in> set (in_ipq s p)" for p x
    using pr [of p x] that by (auto simp: members_def)
  have "ready_ok s' Q"
  proof -
    have "chain (next_of s') (rdyQues s' p) (Q p) = chain (next_of s) (rdyQues s p) (Q p)" if "p < NPUN" for p
      unfolding f using q [OF that] by (intro chain_cong) (simp add: next_of_def)
    moreover have "sorted (map (key_of s') (Q p)) = sorted (map (key_of s) (Q p))" if "p < NPUN" for p
    proof -
      have "map (key_of s') (Q p) = map (key_of s) (Q p)" using q [OF that] by (simp add: key_of_def)
      then show ?thesis by (simp only:)
    qed
    moreover have "(\<forall>x \<in> set (Q p). p_pun (procs s' x) = p) = (\<forall>x \<in> set (Q p). p_pun (procs s x) = p)" if "p < NPUN" for p
      using q [OF that] by auto
    moreover have "ready_ok s Q" using inv by (simp add: sched_inv_def queues_ok_def)
    ultimately show ?thesis by (simp add: ready_ok_def ready_chain_def)
  qed
  then have "queues_ok s' Q"
    using inv i f q by (simp add: queues_ok_def sched_inv_def)
  moreover have "running_ok s' p" if "p < NPUN" for p
    using inv that f q [OF that] by (simp add: running_ok_def sched_inv_def)
  ultimately show "sched_inv s' Q"
    using inv m i f pr unfolding sched_inv_def by simp
qed

text \<open>Every process of a queue, and every running one, is a live block of its size class.\<close>

definition live :: "cxp \<Rightarrow> (pun \<Rightarrow> addr list) \<Rightarrow> (addr \<times> nat) set \<Rightarrow> bool" where
  "live c Q L \<longleftrightarrow> (\<forall>p < NPUN. \<forall>x \<in> members (sch c) Q p. (x, unat (p_index (proc_of c x))) \<in> L)"

lemma mem_ok_fields [simp]:
  "mem_ok lo (c\<lparr>sch := s\<rparr>) F L = mem_ok lo c F L" "room_for is (c\<lparr>sch := s\<rparr>) = room_for is c"
  "mem_ok lo (c\<lparr>claimed := m\<rparr>) F L = mem_ok lo c F L"
  by (simp_all add: mem_ok_def room_for_def)

lemma class_index: "i < NCLASS \<Longrightarrow> unat (of_nat i :: uint16) = i"
  by (simp add: NCLASS_def unat_of_nat)

subsection \<open>Making a process\<close>

definition new_context :: "pun \<Rightarrow> code_p \<Rightarrow> addr \<Rightarrow> addr \<Rightarrow> addr \<Rightarrow> uint32 \<Rightarrow> addr \<Rightarrow> sched \<Rightarrow> ucontext" where
  "new_context cpu code a1 a2 ua stacksize b s =
     \<lparr>uc_point = At_entry code a1 a2 ua, uc_sigmask = thr_mask (hw s) cpu,
      uc_sp = proc_stack b + sizeof_ucontext s, uc_size = stacksize - sizeof_ucontext s\<rparr>"

definition new_process :: "addr \<Rightarrow> nat \<Rightarrow> uint16 \<Rightarrow> pun \<Rightarrow> process" where
  "new_process b i pri pun = \<lparr>p_stackptr = proc_stack b, p_next = NULL, p_index = of_nat i, p_pri = pri,
     p_pun = pun, p_alt_state = ALT_NONE, p_sched_state = PROC_WAITING\<rparr>"

text \<open>The state with the process in it.\<close>

definition with_process :: "addr \<Rightarrow> process \<Rightarrow> ucontext \<Rightarrow> sched \<Rightarrow> sched" where
  "with_process b pr u s = s\<lparr>procs := (procs s)(b := pr), ctxs := (ctxs s)(p_stackptr pr := u)\<rparr>"

lemma with_process_simps [simp]:
  "rdyQues (with_process b pr u s) = rdyQues s" "ipQues (with_process b pr u s) = ipQues s"
  "current (with_process b pr u s) = current s" "current_pri (with_process b pr u s) = current_pri s"
  "executing (with_process b pr u s) = executing s" "hw (with_process b pr u s) = hw s"
  "procs (with_process b pr u s) = (procs s)(b := pr)" "in_ipq (with_process b pr u s) = in_ipq s"
  "ctxs (with_process b pr u s) = (ctxs s)(p_stackptr pr := u)"
  "sizeof_ucontext (with_process b pr u s) = sizeof_ucontext s"
  by (simp_all add: with_process_def in_ipq_def fun_eq_iff)

lemma members_with_process [simp]: "members (with_process b pr u s) Q p = members s Q p"
  by (simp add: members_def)

lemma all_fields:
  "pr\<lparr>p_next := n, p_index := i, p_pri := pri, p_pun := pun, p_alt_state := a, p_sched_state := st,
     p_stackptr := sp\<rparr> = \<lparr>p_stackptr = sp, p_next = n, p_index = i, p_pri = pri, p_pun = pun,
     p_alt_state = a, p_sched_state = st\<rparr>"
  by (cases pr) simp

lemma make_process_eq:
  assumes f: "find_mem_index (stacksize + sizeof_Process) = Inr i"
    and a: "allocate_mem cpu i c = Done b c1" and s: "sch c1 = sch c"
  shows "make_process cpu code a1 a2 stacksize pri pun ua c = Done b (c1\<lparr>sch := with_process b
    (new_process b i pri pun) (new_context cpu code a1 a2 ua stacksize b (sch c)) (sch c)\<rparr>)"
  using assms
  by (simp add: make_process_def build_process_def put_proc_def put_sched_def proc_of_def build_context_def
      with_process_def new_process_def new_context_def all_fields Let_def)

lemma make_process_raw:
  assumes mem: "mem_ok lo c F L" and room: "room_for (i # is) c" and free: "\<not> claimed c Mutex_mem"
    and f: "find_mem_index (stacksize + sizeof_Process) = Inr i"
  shows "\<exists>b c' F' pl tl. make_process cpu code a1 a2 stacksize pri pun ua c = Done b c' \<and>
    c' = c\<lparr>claimed := (claimed c)(Mutex_mem := False), procmemlist := pl, tail := tl,
      sch := with_process b (new_process b i pri pun) (new_context cpu code a1 a2 ua stacksize b (sch c)) (sch c)\<rparr> \<and>
    b \<noteq> NULL \<and> (\<forall>x \<in> L. fst x \<noteq> b \<and> span x \<inter> span (b, i) = {}) \<and> mem_ok lo c' F' (insert (b, i) L) \<and>
    room_for is c'"
proof -
  obtain b c1 F' pl tl where a: "allocate_mem cpu i c = Done b c1"
    "c1 = c\<lparr>claimed := (claimed c)(Mutex_mem := False), procmemlist := pl, tail := tl\<rparr>"
    "b \<noteq> NULL" "(b, i) \<notin> L" "mem_ok lo c1 F' (insert (b, i) L)" "room_for is c1"
    "\<forall>x \<in> L. fst x \<noteq> b \<and> span x \<inter> span (b, i) = {}"
    using allocate_ok [OF mem room free, of cpu] by (elim exE conjE) (rule that)
  let ?c' = "c1\<lparr>sch := with_process b (new_process b i pri pun)
    (new_context cpu code a1 a2 ua stacksize b (sch c)) (sch c)\<rparr>"
  have "make_process cpu code a1 a2 stacksize pri pun ua c = Done b ?c'"
    using make_process_eq [OF f a(1)] a(2) by simp
  moreover have "?c' = c\<lparr>claimed := (claimed c)(Mutex_mem := False), procmemlist := pl, tail := tl, sch := with_process b
      (new_process b i pri pun) (new_context cpu code a1 a2 ua stacksize b (sch c)) (sch c)\<rparr>" using a(2) by simp
  moreover have "mem_ok lo ?c' F' (insert (b, i) L)" "room_for is ?c'" using a(5,6) by simp_all
  ultimately show ?thesis using a(3,7)
    by - (rule exI [of _ b], rule exI [of _ ?c'], rule exI [of _ F'], rule exI [of _ pl], rule exI [of _ tl], blast)
qed

lemma make_process_ok:
  assumes inv: "sched_inv (sch c) Q" and mem: "mem_ok lo c F L" and live: "live c Q L" and pun: "pun < NPUN"
    and room: "room_for (i # is) c" and free: "\<not> claimed c Mutex_mem"
    and f: "find_mem_index (stacksize + sizeof_Process) = Inr i"
  shows "\<exists>b c' F' pl tl. make_process cpu code a1 a2 stacksize pri pun ua c = Done b c' \<and>
    c' = c\<lparr>claimed := (claimed c)(Mutex_mem := False), procmemlist := pl, tail := tl,
      sch := with_process b (new_process b i pri pun) (new_context cpu code a1 a2 ua stacksize b (sch c)) (sch c)\<rparr> \<and>
    (\<forall>x \<in> L. fst x \<noteq> b \<and> span x \<inter> span (b, i) = {}) \<and> mem_ok lo c' F' (insert (b, i) L) \<and>
    room_for is c' \<and> live c' Q (insert (b, i) L) \<and> sched_inv (sch c') Q \<and>
    (\<forall>p. members (sch c') Q p = members (sch c) Q p) \<and> idle_on (sch c') Q pun b \<and>
    (\<forall>p < NPUN. b \<notin> members (sch c) Q p)"
proof -
  have i: "i < NCLASS" using room_for_Cons [OF room] by simp
  obtain b c' F' pl tl where a: "make_process cpu code a1 a2 stacksize pri pun ua c = Done b c'"
    "c' = c\<lparr>claimed := (claimed c)(Mutex_mem := False), procmemlist := pl, tail := tl,
      sch := with_process b (new_process b i pri pun) (new_context cpu code a1 a2 ua stacksize b (sch c)) (sch c)\<rparr>"
    "b \<noteq> NULL" "\<forall>x \<in> L. fst x \<noteq> b \<and> span x \<inter> span (b, i) = {}" "mem_ok lo c' F' (insert (b, i) L)" "room_for is c'"
    using make_process_raw [OF mem room free f, of cpu code a1 a2 pri pun ua] by (elim exE conjE) (rule that)
  have fresh: "b \<notin> members (sch c) Q p" if "p < NPUN" for p
    using live a(4) that unfolding live_def by fastforce
  have "sched_inv (sch c') Q"
    unfolding a(2) using fresh by (simp, intro sched_inv_frame(1) [OF inv]) auto
  moreover have m: "\<forall>p. members (sch c') Q p = members (sch c) Q p" unfolding a(2) by simp
  moreover have "live c' Q (insert (b, i) L)"
    using live m fresh unfolding a(2) by (auto simp: live_def proc_of_def)
  moreover have "idle_on (sch c') Q pun b"
    using a(3) fresh [OF pun] m unfolding a(2) by (simp add: idle_on_def new_process_def)
  ultimately show ?thesis using a fresh
    by - (rule exI [of _ b], rule exI [of _ c'], rule exI [of _ F'], rule exI [of _ pl], rule exI [of _ tl], blast)
qed

text \<open>The memory every request finds: at least one block of the largest class is left.\<close>

definition roomy :: "cxp \<Rightarrow> bool" where
  "roomy c \<longleftrightarrow> unat (tail c) + 24576 < 2 ^ 32 \<and> 24576 \<le> unat (taillen c)"

lemma roomy_for: "roomy c \<Longrightarrow> i < NCLASS \<Longrightarrow> room_for [i] c"
  using class_sizes(2) [of i] by (simp add: roomy_def room_for_def)

lemma record_class:
  assumes "unat stacksize + 16 \<le> 24576"
  shows "\<exists>i < NCLASS. find_mem_index (stacksize + sizeof_Process) = Inr i \<and> unat stacksize + 16 \<le> class_size i"
proof -
  have u: "unat (stacksize + sizeof_Process) = unat stacksize + 16"
    using assms by (simp add: sizeof_Process_def unat_word_ariths)
  then have "stacksize + sizeof_Process \<le> 24576" using assms by (simp add: word_le_nat_alt)
  then show ?thesis using find_mem_index_cases [of "stacksize + sizeof_Process"] u by auto
qed

text \<open>
  Making a process, with room in memory and the memory lock free: its record, with the stack,
  fits into a fresh block that overlaps no live block; no queue holds it and no queue, running
  process or live block is disturbed; and its context starts at the given code with the given
  arguments and with the signal mask of its creator, whichever processor the process is for.
\<close>

theorem make_process_fresh:
  assumes "sched_inv (sch c) Q" and "mem_ok lo c F L" and "live c Q L" and "pun < NPUN"
    and "roomy c" and "\<not> claimed c Mutex_mem" and "unat stacksize + 16 \<le> 24576"
  shows "\<exists>b i c' F'. make_process cpu code a1 a2 stacksize pri pun ua c = Done b c' \<and>
    16 + unat stacksize \<le> class_size i \<and> (\<forall>x \<in> L. span x \<inter> span (b, i) = {}) \<and>
    mem_ok lo c' F' (insert (b, i) L) \<and> live c' Q (insert (b, i) L) \<and> sched_inv (sch c') Q \<and>
    idle_on (sch c') Q pun b \<and> p_pri (proc_of c' b) = pri \<and>
    uc_point (ctxs (sch c') (proc_stack b)) = At_entry code a1 a2 ua \<and>
    uc_sigmask (ctxs (sch c') (proc_stack b)) = thr_mask (hw (sch c)) cpu"
proof -
  obtain i where i: "i < NCLASS" "find_mem_index (stacksize + sizeof_Process) = Inr i"
    "unat stacksize + 16 \<le> class_size i" using record_class [OF assms(7)] by blast
  from make_process_ok [OF assms(1-4) roomy_for [OF assms(5) i(1)] assms(6) i(2), of cpu code a1 a2 pri ua]
  obtain b c' F' where c': "make_process cpu code a1 a2 stacksize pri pun ua c = Done b c'"
    "procs (sch c') b = new_process b i pri pun"
    "ctxs (sch c') (proc_stack b) = new_context cpu code a1 a2 ua stacksize b (sch c)"
    "\<forall>x \<in> L. span x \<inter> span (b, i) = {}" "mem_ok lo c' F' (insert (b, i) L)"
    "live c' Q (insert (b, i) L)" "sched_inv (sch c') Q" "idle_on (sch c') Q pun b"
    by (auto simp: new_process_def)
  then show ?thesis using i(3)
    by - (rule exI [of _ b], rule exI [of _ i], rule exI [of _ c'], rule exI [of _ F'],
      simp add: new_process_def new_context_def proc_of_def)
qed

lemma sample_live_mem:
  "mem_ok 1 sample_cxp (\<lambda>_. []) ((\<lambda>a. (a, 3)) ` {0x100, 0x200, 0x300, 0x400, 0x500})"
  "live sample_cxp sample_queues ((\<lambda>a. (a, 3)) ` {0x100, 0x200, 0x300, 0x400, 0x500})"
proof -
  have "class_size 3 = 96" by (simp add: class_size_def procmemlen_def)
  then show "mem_ok 1 sample_cxp (\<lambda>_. []) ((\<lambda>a. (a, 3)) ` {0x100, 0x200, 0x300, 0x400, 0x500})"
    by (simp add: mem_ok_def blocks_def sample_cxp_def NCLASS_def span_def)
  show "live sample_cxp sample_queues ((\<lambda>a. (a, 3)) ` {0x100, 0x200, 0x300, 0x400, 0x500})"
    by (auto simp: live_def sample_members sample_cxp_def proc_of_def split: if_splits)
      (simp_all add: sample_sched_def sample_process_def)
qed

definition sample_roomy :: cxp where "sample_roomy = sample_cxp\<lparr>taillen := 0x10000\<rparr>"

lemma sample_roomy_ok:
  "sched_inv (sch sample_roomy) sample_queues" "roomy sample_roomy" "\<not> claimed sample_roomy m"
  "mem_ok 1 sample_roomy (\<lambda>_. []) ((\<lambda>a. (a, 3)) ` {0x100, 0x200, 0x300, 0x400, 0x500})"
  "live sample_roomy sample_queues ((\<lambda>a. (a, 3)) ` {0x100, 0x200, 0x300, 0x400, 0x500})"
proof -
  show "sched_inv (sch sample_roomy) sample_queues"
    using sample_sched_inv by (simp add: sample_roomy_def sample_cxp_def)
  show "mem_ok 1 sample_roomy (\<lambda>_. []) ((\<lambda>a. (a, 3)) ` {0x100, 0x200, 0x300, 0x400, 0x500})"
    using sample_live_mem(1) by (simp add: mem_ok_def sample_roomy_def)
  show "live sample_roomy sample_queues ((\<lambda>a. (a, 3)) ` {0x100, 0x200, 0x300, 0x400, 0x500})"
    using sample_live_mem(2) by (simp add: live_def sample_roomy_def proc_of_def)
qed (simp_all add: sample_roomy_def sample_cxp_def roomy_def)

theorem make_process_fresh_witness:
  "\<exists>b c'. make_process 0 (User_code 0x8000) NULL NULL 1024 0x2200 1 0x77 sample_roomy = Done b c' \<and>
    idle_on (sch c') sample_queues 1 b"
  using make_process_fresh [OF sample_roomy_ok(1,4,5) _ sample_roomy_ok(2,3), where pun = 1 and stacksize = 1024 and cpu = 0
      and code = "User_code 0x8000" and ?a1.0 = NULL and ?a2.0 = NULL and pri = "0x2200" and ua = "0x77"]
  by (auto simp: NPUN_def)

text \<open>
  The stack of a new process: if the requested size is at least that of a saved context then
  context and stack lie inside the block of the process record; if it is smaller, the size of the
  stack wraps around to more than four gigabytes less the size of a context.
\<close>

theorem stack_inside_record:
  assumes "sched_inv (sch c) Q" and "mem_ok lo c F L" and "live c Q L" and "pun < NPUN"
    and "roomy c" and "\<not> claimed c Mutex_mem" and "unat stacksize + 16 \<le> 24576"
  shows "\<exists>b i c'. make_process cpu code a1 a2 stacksize pri pun ua c = Done b c' \<and>
    (let u = ctxs (sch c') (p_stackptr (proc_of c' b)); n = sizeof_ucontext (sch c) in
     if n \<le> stacksize
     then {unat (proc_stack b) ..< unat (proc_stack b) + unat n} \<subseteq> span (b, i) \<and>
       {unat (uc_sp u) ..< unat (uc_sp u) + unat (uc_size u)} \<subseteq> span (b, i) \<and>
       unat (uc_sp u) = unat (proc_stack b) + unat n
     else 2 ^ 32 - unat n \<le> unat (uc_size u))"
proof -
  obtain i where i: "i < NCLASS" "find_mem_index (stacksize + sizeof_Process) = Inr i"
    "unat stacksize + 16 \<le> class_size i" using record_class [OF assms(7)] by blast
  let ?n = "sizeof_ucontext (sch c)"
  from make_process_ok [OF assms(1-4) roomy_for [OF assms(5) i(1)] assms(6) i(2), of cpu code a1 a2 pri ua]
  obtain b c' F' where c': "make_process cpu code a1 a2 stacksize pri pun ua c = Done b c'"
    "procs (sch c') b = new_process b i pri pun" "mem_ok lo c' F' (insert (b, i) L)"
    "ctxs (sch c') (proc_stack b) = new_context cpu code a1 a2 ua stacksize b (sch c)"
    by (auto simp: new_process_def)
  have "(b, i) \<in> blocks F' (insert (b, i) L)" by (simp add: blocks_def)
  then have "span (b, i) \<subseteq> {lo ..< unat (tail c')}" using c'(3) by (auto simp: mem_ok_def)
  then have "unat b + class_size i \<le> unat (tail c')"
    using class_sizes(3) [OF i(1)] by (auto simp: span_def subset_eq Ball_def dest: spec [of _ "unat b + class_size i - 1"])
  moreover have "unat (tail c') < 2 ^ 32" using unsigned_less [of "tail c'"] by simp
  ultimately have top: "unat b + class_size i < 2 ^ 32" by linarith
  have b16: "unat (proc_stack b) = unat b + 16"
    using top i(3) by (simp add: proc_stack_def sizeof_Process_def unat_word_ariths)
  show ?thesis
  proof (cases "?n \<le> stacksize")
    case True
    then have n: "unat ?n \<le> unat stacksize" by (simp add: word_le_nat_alt)
    have sp: "unat (proc_stack b + ?n) = unat b + 16 + unat ?n"
      using top i(3) n b16 by (simp add: unat_word_ariths)
    have sz: "unat (stacksize - ?n) = unat stacksize - unat ?n" using True by (rule unat_sub)
    show ?thesis using c'(1,2,4) True b16 sp sz n i(3)
      by - (rule exI [of _ b], rule exI [of _ i], rule exI [of _ c'],
        simp add: new_process_def new_context_def proc_of_def span_def Let_def)
  next
    case False
    then have n: "unat stacksize < unat ?n" by (simp add: word_le_nat_alt)
    then have "unat (stacksize - ?n) = unat stacksize + 2 ^ 32 - unat ?n"
      by (simp add: unat_sub_if')
    then have "2 ^ 32 - unat ?n \<le> unat (stacksize - ?n)" by simp
    with c'(1,2,4) False show ?thesis
      by - (rule exI [of _ b], rule exI [of _ i], rule exI [of _ c'],
        simp add: new_process_def new_context_def proc_of_def Let_def)
  qed
qed

theorem stack_inside_record_witness:
  "\<exists>b i c'. make_process 0 (User_code 0x8000) NULL NULL 1024 0x2200 1 0x77 sample_roomy = Done b c' \<and>
    {unat (uc_sp (ctxs (sch c') (p_stackptr (proc_of c' b)))) ..<
     unat (uc_sp (ctxs (sch c') (p_stackptr (proc_of c' b)))) +
     unat (uc_size (ctxs (sch c') (p_stackptr (proc_of c' b))))} \<subseteq> span (b, i)"
proof -
  have "sizeof_ucontext (sch sample_roomy) = 348"
    by (simp add: sample_roomy_def sample_cxp_def sample_sched_def)
  then show ?thesis
    using stack_inside_record [OF sample_roomy_ok(1,4,5) _ sample_roomy_ok(2,3), where pun = 1 and stacksize = 1024 and cpu = 0
      and code = "User_code 0x8000" and ?a1.0 = NULL and ?a2.0 = NULL and pri = "0x2200" and ua = "0x77"]
    by (auto simp: NPUN_def Let_def)
qed

subsection \<open>Terminating\<close>

text \<open>Changing the stack pointer of a record moves nothing.\<close>

definition set_stackptr :: "addr \<Rightarrow> addr \<Rightarrow> sched \<Rightarrow> sched" where
  "set_stackptr p a s = s\<lparr>procs := (procs s)(p := procs s p\<lparr>p_stackptr := a\<rparr>)\<rparr>"

lemma set_stackptr_simps [simp]:
  "rdyQues (set_stackptr p a s) = rdyQues s" "ipQues (set_stackptr p a s) = ipQues s"
  "current (set_stackptr p a s) = current s" "current_pri (set_stackptr p a s) = current_pri s"
  "executing (set_stackptr p a s) = executing s" "hw (set_stackptr p a s) = hw s"
  "members (set_stackptr p a s) Q q = members s Q q" "in_ipq (set_stackptr p a s) = in_ipq s"
  "p_stackptr (procs (set_stackptr p a s) y) = (if y = p then a else p_stackptr (procs s y))"
  "p_next (procs (set_stackptr p a s) y) = p_next (procs s y)" "p_pri (procs (set_stackptr p a s) y) = p_pri (procs s y)"
  "p_pun (procs (set_stackptr p a s) y) = p_pun (procs s y)" "p_index (procs (set_stackptr p a s) y) = p_index (procs s y)"
  "p_alt_state (procs (set_stackptr p a s) y) = p_alt_state (procs s y)"
  "p_sched_state (procs (set_stackptr p a s) y) = p_sched_state (procs s y)"
  by (simp_all add: set_stackptr_def members_def in_ipq_def fun_eq_iff)

lemma set_stackptr_places [simp]:
  "next_of (set_stackptr p a s) = next_of s" "key_of (set_stackptr p a s) = key_of s"
  "queues_ok (set_stackptr p a s) Q = queues_ok s Q" "merged (set_stackptr p a s) q ys = merged s q ys"
proof -
  show n: "next_of (set_stackptr p a s) = next_of s" and k: "key_of (set_stackptr p a s) = key_of s"
    by (simp_all add: next_of_def key_of_def fun_eq_iff)
  show "queues_ok (set_stackptr p a s) Q = queues_ok s Q" "merged (set_stackptr p a s) q ys = merged s q ys"
    by (simp_all add: queues_ok_def ready_ok_def ready_chain_def merged_def n k)
qed

text \<open>Links apart, only processes of the set have changed.\<close>

definition same_but :: "addr set \<Rightarrow> sched \<Rightarrow> sched \<Rightarrow> bool" where
  "same_but X s s' \<longleftrightarrow> (\<forall>y. y \<notin> X \<longrightarrow> ctxs s' (proc_stack y) = ctxs s (proc_stack y) \<and>
     p_pri (procs s' y) = p_pri (procs s y) \<and> p_pun (procs s' y) = p_pun (procs s y) \<and>
     p_index (procs s' y) = p_index (procs s y) \<and> p_stackptr (procs s' y) = p_stackptr (procs s y) \<and>
     p_alt_state (procs s' y) = p_alt_state (procs s y) \<and> p_sched_state (procs s' y) = p_sched_state (procs s y))"

text \<open>Leaving the processor to the first ready process for good.\<close>

definition leave :: "pun \<Rightarrow> sched \<Rightarrow> sched res" where
  "leave cpu s = res_bind (take_proc cpu cpu s) (\<lambda>(newproc, s).
     res_bind (set_current cpu newproc s) (\<lambda>s.
     res_bind (restore_context cpu newproc s) (\<lambda>s. Inr (resume_process cpu s))))"

lemma leave_ok:
  assumes inv: "sched_inv s Q" and cpu: "cpu < NPUN" and m: "merged s cpu (Q cpu) = x # xs"
    and s1: "s1 = (set_stackptr (current s cpu) a s)\<lparr>ctxs := u, executing := (executing s)(cpu := e), hw := h\<rparr>"
  shows "\<exists>s'. leave cpu s1 = Inr s' \<and> sched_inv s' (Q(cpu := xs)) \<and> top_running s' (Q(cpu := xs)) cpu \<and>
    current s' = (current s)(cpu := x) \<and> executing s' cpu = proc_stack x \<and>
    members s' (Q(cpu := xs)) cpu = set (x # xs) \<and> (\<forall>q. q \<noteq> cpu \<longrightarrow> members s' (Q(cpu := xs)) q = members s Q q) \<and>
    current s cpu \<notin> set (x # xs) \<and> (\<forall>y. p_index (procs s' y) = p_index (procs s y)) \<and>
    in_ipq s' cpu = [] \<and> same_but {current s cpu} (s\<lparr>ctxs := u\<rparr>) s'"
proof -
  note D = sched_invD [OF inv cpu] and M = merged_props [OF inv cpu]
  let ?p = "current s cpu"
  have ok1: "queues_ok s1 Q" using D(1) by (simp add: s1)
  have m1: "merged s1 cpu (Q cpu) = x # xs" using m by (simp add: s1 merged_def)
  obtain t where t: "take_proc cpu cpu s1 = Inr (x, t)" "queues_only cpu s1 t"
    "queues_ok t (Q(cpu := xs))" "in_ipq t cpu = []"
    using take_proc_ok [OF ok1 cpu m1] by blast
  note q = queues_onlyD [OF t(2)]
  have mem: "set (x # xs) = set (Q cpu) \<union> set (in_ipq s cpu)" unfolding m [symmetric] by simp
  have x: "x \<in> members s Q cpu" and pn: "?p \<notin> set (x # xs)"
    using mem M(3) m by (auto simp: members_def)
  have xn: "x \<noteq> NULL" "p_pun (procs s x) = cpu" "p_stackptr (procs s x) = proc_stack x"
    using mem D(6,7) [of x] by (auto simp: members_def)
  let ?t1 = "t\<lparr>current := (current t)(cpu := x), current_pri := (current_pri t)(cpu := p_pri (procs t x))\<rparr>"
  have t1: "set_current cpu x t = Inr ?t1" using xn q by (intro set_current_eq) (auto simp: s1)
  obtain k where r: "restore_context cpu x ?t1 =
      Inr (?t1\<lparr>executing := (executing ?t1)(cpu := proc_stack x), hw := (hw ?t1)\<lparr>thr_mask := k\<rparr>\<rparr>)"
    using restore_context_ok [OF xn(1), of cpu ?t1] by blast
  let ?r = "?t1\<lparr>executing := (executing ?t1)(cpu := proc_stack x), hw := (hw ?t1)\<lparr>thr_mask := k\<rparr>\<rparr>"
  obtain h' where rs: "resume_process cpu ?r = ?r\<lparr>hw := h'\<rparr>" by (rule resume_process_cases)
  let ?s' = "?r\<lparr>hw := h'\<rparr>"
  let ?v = "set_stackptr ?p (proc_stack ?p) ?s'"
  have run: "leave cpu s1 = Inr ?s'" using t(1) t1 r rs by (simp add: leave_def)
  have i: "in_ipq ?v cpu = []" "in_ipq ?s' cpu = []" using t(4) by simp_all
  have pp: "p_stackptr (procs s ?p) = proc_stack ?p" using D(6) by (simp add: members_def)
  have sw: "switched_to cpu x s ?v"
    using q xn(3) pp by (auto simp: switched_to_def s1 fun_eq_iff)
  have okv: "queues_ok ?v (Q(cpu := xs))"
    using t(3) by simp
  have "x \<notin> set xs" using M(1) m by simp
  then have invv: "sched_inv ?v (Q(cpu := xs))"
    using i mem by (intro sched_inv_switched [OF inv cpu sw okv x]) (auto simp: members_def)
  have cs: "current ?s' = (current s)(cpu := x)" using q by (simp add: s1 fun_eq_iff)
  have ms: "members ?s' (Q(cpu := xs)) cpu = set (x # xs)" using i cs by (simp add: members_def)
  have mo: "members ?s' (Q(cpu := xs)) r = members s Q r" if "r \<noteq> cpu" for r
    using that sw by (simp add: members_def switched_to_def)
  have po: "?p \<notin> members ?s' (Q(cpu := xs)) r" if "r < NPUN" for r
  proof (cases "r = cpu")
    case True
    with ms pn show ?thesis by simp
  next
    case False
    have "p_pun (procs s y) = r" if "y \<in> members s Q r" for y
      using sched_invD(3,7) [OF inv \<open>r < NPUN\<close>] that by (auto simp: members_def)
    with False mo D(3) show ?thesis by auto
  qed
  have "sched_inv ?s' (Q(cpu := xs))"
  proof (rule sched_inv_frame(1) [OF invv])
    fix r y assume "r < NPUN" "y \<in> members ?v (Q(cpu := xs)) r"
    then have "y \<noteq> ?p" using po [of r] by (auto simp only: set_stackptr_simps)
    then show "procs ?s' y = procs ?v y" by (simp add: set_stackptr_def)
  qed simp_all
  moreover have "top_running ?s' (Q(cpu := xs)) cpu"
    using M(2) m q by (auto simp: top_running_def key_of_def s1)
  moreover have "executing ?s' cpu = proc_stack x" by simp
  moreover have "\<forall>y. p_index (procs ?s' y) = p_index (procs s y)" using q by (simp add: s1)
  moreover have "same_but {?p} (s\<lparr>ctxs := u\<rparr>) ?s'" using q by (simp add: same_but_def s1)
  ultimately show ?thesis using run cs ms mo pn i(2) by blast
qed

lemma release_shape:
  assumes "\<not> claimed c Mutex_mem" and "i < NALLOC" and "b \<noteq> NULL"
  shows "release_mem cpu i b c = Done () (c\<lparr>claimed := (claimed c)(Mutex_mem := False),
    blk_next := (blk_next c)(b := procmemlist c i), procmemlist := (procmemlist c)(i := b)\<rparr>)"
  using assms by (simp add: release_mem_def release_mutex_def Let_def)

lemma terminate_ok:
  assumes inv: "sched_inv (sch c) Q" and mem: "mem_ok lo c F L" and live: "live c Q L" and cpu: "cpu < NPUN"
    and free: "\<not> claimed c Mutex_mem" "\<not> claimed c (Mutex_term cpu)"
    and m: "merged (sch c) cpu (Q cpu) = x # xs"
  defines "p \<equiv> current (sch c) cpu" and "i \<equiv> unat (p_index (proc_of c (current (sch c) cpu)))"
  shows "\<exists>c'. terminate base cpu c = Done () c' \<and> current (sch c') cpu = x \<and> executing (sch c') cpu = proc_stack x \<and>
    sched_inv (sch c') (Q(cpu := xs)) \<and> top_running (sch c') (Q(cpu := xs)) cpu \<and>
    members (sch c) Q cpu = insert p (members (sch c') (Q(cpu := xs)) cpu) \<and>
    p \<notin> members (sch c') (Q(cpu := xs)) cpu \<and> mem_ok lo c' (F(i := p # F i)) (L - {(p, i)}) \<and>
    live c' (Q(cpu := xs)) (L - {(p, i)}) \<and> \<not> claimed c' Mutex_mem \<and> \<not> claimed c' (Mutex_term cpu) \<and>
    procmemlist c' i = p \<and> in_ipq (sch c') cpu = [] \<and> same_but {p} (sch c) (sch c') \<and>
    chans c' = chans c \<and> heap c' = heap c \<and> barriers c' = barriers c \<and>
    (\<forall>m. m \<noteq> Mutex_mem \<longrightarrow> m \<noteq> Mutex_term cpu \<longrightarrow> claimed c' m = claimed c m)"
proof -
  note D = sched_invD [OF inv cpu]
  have pL: "(p, i) \<in> L" using live cpu by (simp add: live_def p_def i_def members_def)
  have "(p, i) \<in> blocks F L" using pL by (simp add: blocks_def)
  then have "snd (p, i) < NCLASS" using mem unfolding mem_ok_def by blast
  then have i: "i < NCLASS" "p \<noteq> NULL" using D(2) by (simp_all add: p_def)
  let ?s2 = "set_stack cpu p (term_stack base cpu) TERM_STACK_SIZE Finish_termination (sch c)"
  let ?c2 = "c\<lparr>claimed := (claimed c)(Mutex_term cpu := True), sch := ?s2\<rparr>"
  have s2: "procs ?s2 = procs (sch c)" "current ?s2 = current (sch c)" by (simp_all add: set_stack_def Let_def)
  let ?c3 = "?c2\<lparr>claimed := (claimed ?c2)(Mutex_mem := False),
    blk_next := (blk_next ?c2)(p := procmemlist ?c2 i), procmemlist := (procmemlist ?c2)(i := p)\<rparr>"
  have rel: "release_mem cpu i p ?c2 = Done () ?c3"
    using free(1) i NCLASS_NALLOC [OF i(1)] by (intro release_shape) auto
  have mem2: "mem_ok lo ?c2 F L" and free2: "\<not> claimed ?c2 Mutex_mem" using mem free by simp_all
  have mem3: "mem_ok lo ?c3 (F(i := p # F i)) (L - {(p, i)})"
    using release_mem_ok [OF mem2 pL free2, of cpu] rel by auto
  let ?s4 = "on_hw (disable cpu) (set_stackptr p (procmemlist c i) ?s2)"
  have sp: "p_stackptr (procs (sch c) p) = proc_stack p" using D(6) by (simp add: members_def p_def)
  obtain u e h where s4: "?s4 = (set_stackptr p (procmemlist c i) (sch c))\<lparr>ctxs := u, executing := (executing (sch c))(cpu := e), hw := h\<rparr>"
    and u: "\<forall>a. a \<noteq> proc_stack p \<longrightarrow> u a = ctxs (sch c) a"
  proof (rule that)
    let ?sp = "p_stackptr (procs (sch c) p)"
    let ?u = "(ctxs (sch c))(?sp := \<lparr>uc_point = At_entry Finish_termination NULL NULL NULL,
      uc_sigmask = thr_mask (hw (sch c)) cpu, uc_sp = term_stack base cpu, uc_size = TERM_STACK_SIZE\<rparr>)"
    show "?s4 = (set_stackptr p (procmemlist c i) (sch c))\<lparr>ctxs := ?u, executing := (executing (sch c))(cpu := ?sp),
        hw := disable cpu ((hw (sch c))\<lparr>thr_mask := (thr_mask (hw (sch c)))(cpu := uc_sigmask (?u ?sp))\<rparr>)\<rparr>"
      by (simp add: set_stack_def set_stackptr_def on_hw_def Let_def)
    show "\<forall>a. a \<noteq> proc_stack p \<longrightarrow> ?u a = ctxs (sch c) a" by (simp add: sp)
  qed
  obtain s' where s': "leave cpu ?s4 = Inr s'" "sched_inv s' (Q(cpu := xs))" "top_running s' (Q(cpu := xs)) cpu"
    "current s' = (current (sch c))(cpu := x)" "executing s' cpu = proc_stack x"
    "members s' (Q(cpu := xs)) cpu = set (x # xs)"
    "\<forall>q. q \<noteq> cpu \<longrightarrow> members s' (Q(cpu := xs)) q = members (sch c) Q q" "p \<notin> set (x # xs)"
    "\<forall>y. p_index (procs s' y) = p_index (procs (sch c) y)" "in_ipq s' cpu = []" "same_but {p} ((sch c)\<lparr>ctxs := u\<rparr>) s'"
    using leave_ok [OF inv cpu m s4 [unfolded p_def], folded p_def] by (elim exE conjE) (rule that)
  let ?c' = "?c3\<lparr>claimed := (claimed ?c3)(Mutex_term cpu := False), sch := s'\<rparr>"
  have pun: "p_pun (procs (sch c) p) = cpu" "p \<noteq> NULL" "current (sch c) cpu = p" using D(2,3) by (simp_all add: p_def)
  have idx: "unat (p_index (procs (sch c) p)) = i" by (simp add: i_def p_def proc_of_def)
  have put: "put_sched (on_hw (disable cpu)) (put_proc p ((proc_of ?c3 p)\<lparr>p_stackptr := blk_next ?c3 p\<rparr>) ?c3) = ?c3\<lparr>sch := ?s4\<rparr>"
    by (simp add: put_sched_def put_proc_def proc_of_def set_stackptr_def s2 on_hw_def)
  have "finish_termination cpu ?c2 = on_sched (leave cpu) (release_mutex (Mutex_term cpu) (?c3\<lparr>sch := ?s4\<rparr>))"
    using rel put pun idx s2
    by (simp add: finish_termination_def release_record_def proc_of_def leave_def [abs_def] Let_def del: cxp.update_convs)
  also have "\<dots> = Done () ?c'"
    using s'(1) by (simp add: release_mutex_def)
  finally have "finish_termination cpu ?c2 = Done () ?c'" .
  then have run: "terminate base cpu c = Done () ?c'"
    using free(2) pun by (simp add: terminate_def proc_of_def put_sched_def)
  have all: "members (sch c) Q cpu = insert p (members s' (Q(cpu := xs)) cpu)"
    using s'(6) set_merged [of "sch c" cpu "Q cpu"] m by (auto simp: members_def p_def)
  have L: "live ?c' (Q(cpu := xs)) (L - {(p, i)})"
  proof -
    have "(y, unat (p_index (procs s' y))) \<in> L - {(p, i)}" if q: "q < NPUN" "y \<in> members s' (Q(cpu := xs)) q" for q y
    proof (cases "q = cpu")
      case True
      then have "y \<noteq> p" "y \<in> members (sch c) Q cpu" using q(2) s'(6,8) all by auto
      with live cpu s'(9) show ?thesis by (simp add: live_def proc_of_def)
    next
      case False
      then have y: "y \<in> members (sch c) Q q" using q(2) s'(7) by simp
      then have "p_pun (procs (sch c) y) = q" using sched_invD(3,7) [OF inv q(1)] by (auto simp: members_def)
      with False pun have "y \<noteq> p" by auto
      with live q(1) y s'(9) show ?thesis by (simp add: live_def proc_of_def)
    qed
    then show ?thesis by (simp add: live_def proc_of_def)
  qed
  have "p \<notin> members s' (Q(cpu := xs)) cpu" using s'(6,8) by simp
  moreover have "mem_ok lo ?c' (F(i := p # F i)) (L - {(p, i)})" using mem3 by (simp add: mem_ok_def)
  moreover have "same_but {p} (sch c) s'" using s'(11) u by (simp add: same_but_def proc_stack_def)
  ultimately show ?thesis using run s' all L by (intro exI [of _ ?c']) simp
qed

text \<open>
  C29. Terminating, with the locks free and another process ready (the idle process always is): the
  process leaves the system, its record is free memory, the first one to be allocated again in its
  class, no other process is lost, the first ready process runs in its own context, the invariants
  are kept and both locks are free again.
\<close>

theorem terminate_hands_over:
  assumes inv: "sched_inv (sch c) Q" and "mem_ok lo c F L" and "live c Q L" and cpu: "cpu < NPUN"
    and "\<not> claimed c Mutex_mem" and "\<not> claimed c (Mutex_term cpu)"
    and m: "merged (sch c) cpu (Q cpu) \<noteq> []"
  defines "p \<equiv> current (sch c) cpu" and "i \<equiv> unat (p_index (proc_of c (current (sch c) cpu)))"
    and "Q' \<equiv> Q(cpu := tl (merged (sch c) cpu (Q cpu)))"
  shows "\<exists>c'. terminate base cpu c = Done () c' \<and> current (sch c') cpu = hd (merged (sch c) cpu (Q cpu)) \<and>
    executing (sch c') cpu = proc_stack (current (sch c') cpu) \<and>
    sched_inv (sch c') Q' \<and> top_running (sch c') Q' cpu \<and> p \<notin> members (sch c') Q' cpu \<and>
    members (sch c) Q cpu = insert p (members (sch c') Q' cpu) \<and>
    mem_ok lo c' (F(i := p # F i)) (L - {(p, i)}) \<and> live c' Q' (L - {(p, i)}) \<and> procmemlist c' i = p \<and>
    \<not> claimed c' Mutex_mem \<and> \<not> claimed c' (Mutex_term cpu)"
proof -
  obtain x xs where "merged (sch c) cpu (Q cpu) = x # xs" using m by (cases "merged (sch c) cpu (Q cpu)") auto
  with terminate_ok [OF assms(1-6) this, of base] show ?thesis
    unfolding p_def i_def Q'_def by auto
qed

theorem terminate_hands_over_witness:
  "\<exists>c'. terminate 0x9000 0 sample_roomy = Done () c' \<and> current (sch c') 0 = 0x400 \<and> procmemlist c' 3 = 0x300"
proof -
  have f: "current (sch sample_roomy) 0 = 0x300" "merged (sch sample_roomy) 0 (sample_queues 0) = [0x400, 0x500, 0x100]"
    using sample_merged by (simp_all add: sample_roomy_def sample_cxp_def) (simp add: sample_sched_def)
  have "unat (p_index (proc_of sample_roomy 0x300)) = 3"
    by (simp add: sample_roomy_def sample_cxp_def proc_of_def sample_sched_def sample_process_def)
  with f show ?thesis
    using terminate_hands_over [OF sample_roomy_ok(1,4,5) _ sample_roomy_ok(3,3), of 0 "0x9000"]
    by (auto simp: NPUN_def)
qed

text \<open>The release writes the old head of the free list over the stack pointer of the record.\<close>

lemma release_record_ok:
  assumes mem: "mem_ok lo c F L" and L: "(p, i) \<in> L" and i: "i = unat (p_index (proc_of c p))"
    and free: "\<not> claimed c Mutex_mem"
  shows "\<exists>c'. release_record cpu p c = Done () c' \<and> mem_ok lo c' (F(i := p # F i)) (L - {(p, i)}) \<and>
    sch c' = set_stackptr p (procmemlist c i) (sch c)"
proof -
  have ok: "(p, i) \<in> blocks F L" using L by (simp add: blocks_def)
  then have n: "i < NCLASS" and sp: "span (p, i) \<subseteq> {lo ..< unat (tail c)}" "0 < lo"
    using mem by (auto simp: mem_ok_def)
  then have "p \<noteq> NULL" using span_nonempty [OF n, of p] by fastforce
  let ?c1 = "c\<lparr>claimed := (claimed c)(Mutex_mem := False), blk_next := (blk_next c)(p := procmemlist c i),
      procmemlist := (procmemlist c)(i := p)\<rparr>"
  have rel: "release_mem cpu i p c = Done () ?c1"
    using release_shape [OF free conjunct1 [OF NCLASS_NALLOC [OF n]] \<open>p \<noteq> NULL\<close>] .
  then have "mem_ok lo ?c1 (F(i := p # F i)) (L - {(p, i)})" using release_mem_ok [OF mem L free, of cpu] by auto
  moreover have "release_record cpu p c = Done () (?c1\<lparr>sch := set_stackptr p (procmemlist c i) (sch c)\<rparr>)"
    using rel by (simp add: release_record_def put_proc_def put_sched_def proc_of_def set_stackptr_def i [symmetric])
      (simp add: i proc_of_def)
  ultimately show ?thesis by (intro exI [of _ "?c1\<lparr>sch := set_stackptr p (procmemlist c i) (sch c)\<rparr>"]) simp
qed

lemma elapsed_signal:
  assumes "signal_intr signo (hw (sch c)) = Inr INTR_ELAPSED" and "current (sch c) cpu = p" and "p \<noteq> NULL"
    and "p_stackptr (procs (sch c) p) = a" and "a \<noteq> NULL"
  shows "\<exists>c'. handle_signal cpu signo c = Inr (False, c') \<and> ctxs (sch c') = (ctxs (sch c))(a := (ctxs (sch c) a)\<lparr>
      uc_point := Interrupted, uc_sigmask := thr_mask (hw (sch c)) cpu\<rparr>) \<and>
    procmemlist c' = procmemlist c \<and> blk_next c' = blk_next c \<and> tail c' = tail c"
proof -
  let ?x = "(ctxs (sch c))(a := (ctxs (sch c) a)\<lparr>uc_point := Interrupted, uc_sigmask := thr_mask (hw (sch c)) cpu\<rparr>)"
  have "save_interrupted cpu (sch c) = Inr ((sch c)\<lparr>ctxs := ?x\<rparr>)"
    using assms(2-5) by (simp add: save_interrupted_def get_current_eq Let_def)
  moreover have "signal_intr signo (hw (on_hw (disable cpu) ((sch c)\<lparr>ctxs := ?x\<rparr>))) = Inr INTR_ELAPSED"
    using assms(1) by (simp add: signal_intr_def on_hw_eq disable_def Let_def split: if_splits)
  ultimately show ?thesis
    by (simp add: handle_signal_def handle_interrupt_def handle_elapsed_time_interrupt_def put_sched_def on_hw_eq intr_numbers)
qed

text \<open>
  C35. Between the release of its record and the disabling of interrupts the terminating process is
  still the current one, with interrupts as they were, while its record is a block of the free list
  and the first word of the record, the stack pointer, is the link to the next free block. If there
  is no next one, every signal that arrives then makes the handler write to address zero. Otherwise
  the handler of the elapsed-time signal runs to its end and saves the interrupted context at the
  next block of the free list, which is not live, so that it may be handed out at any time.
\<close>

theorem interrupt_after_release:
  assumes "mem_ok lo c F L" and "(p, i) \<in> L" and "current (sch c) cpu = p"
    and "i = unat (p_index (proc_of c p))" and "\<not> claimed c Mutex_mem"
    and "signal_intr signo (hw (sch c)) = Inr INTR_ELAPSED"
  shows "\<exists>c'. release_record cpu p c = Done () c' \<and> mem_ok lo c' (F(i := p # F i)) (L - {(p, i)}) \<and>
    current (sch c') cpu = p \<and> thr_mask (hw (sch c')) cpu = thr_mask (hw (sch c)) cpu \<and>
    (case F i of
       [] \<Rightarrow> \<forall>n. handle_signal cpu n c' = Inl NullDeref
     | a # as \<Rightarrow> (a, i) \<notin> L \<and> (\<exists>c''. handle_signal cpu signo c' = Inr (False, c'') \<and>
         mem_ok lo c'' (F(i := p # a # as)) (L - {(p, i)}) \<and> uc_point (ctxs (sch c'') a) = Interrupted \<and>
         uc_sigmask (ctxs (sch c'') a) = thr_mask (hw (sch c)) cpu \<and> (\<forall>b. b \<noteq> a \<longrightarrow> ctxs (sch c'') b = ctxs (sch c) b)))"
proof -
  let ?h = "procmemlist c i"
  obtain c' where c': "release_record cpu p c = Done () c'" "mem_ok lo c' (F(i := p # F i)) (L - {(p, i)})"
    "sch c' = set_stackptr p ?h (sch c)"
    using release_record_ok [OF assms(1,2,4,5)] by blast
  have ok: "(p, i) \<in> blocks F L" using assms(2) by (simp add: blocks_def)
  then have n: "i < NCLASS" and sp: "span (p, i) \<subseteq> {lo ..< unat (tail c)}" "0 < lo"
    using assms(1) by (auto simp: mem_ok_def)
  then have pn: "p \<noteq> NULL" using span_nonempty [OF n, of p] by fastforce
  have ch: "chain (blk_next c) ?h (F i)" using assms(1) n by (simp add: mem_ok_def)
  have s: "current (sch c') cpu = p" "hw (sch c') = hw (sch c)" "ctxs (sch c') = ctxs (sch c)"
    "p_stackptr (procs (sch c') p) = ?h" using assms(3) by (simp_all add: c'(3) set_stackptr_def)
  show ?thesis
  proof (cases "F i")
    case Nil
    then have "?h = NULL" using ch by simp
    then have "handle_signal cpu n c' = Inl NullDeref" for n
      using s pn by (simp add: handle_signal_def save_interrupted_def get_current_eq Let_def)
    with Nil c'(1,2) s show ?thesis by (intro exI [of _ c']) simp
  next
    case (Cons a as)
    then have a: "?h = a" "a \<noteq> NULL" using ch by simp_all
    obtain c'' where c'': "handle_signal cpu signo c' = Inr (False, c'')"
      "ctxs (sch c'') = (ctxs (sch c'))(a := (ctxs (sch c') a)\<lparr>uc_point := Interrupted,
        uc_sigmask := thr_mask (hw (sch c')) cpu\<rparr>)"
      "procmemlist c'' = procmemlist c'" "blk_next c'' = blk_next c'" "tail c'' = tail c'"
      using elapsed_signal [of signo c' cpu p a] assms(6) s a pn by auto
    have "mem_ok lo c'' (F(i := p # a # as)) (L - {(p, i)})"
      using c'(2) Cons by (simp add: mem_ok_def c''(3-5))
    moreover have "(a, i) \<notin> L" using assms(1) Cons by (auto simp: mem_ok_def)
    ultimately show ?thesis using Cons c'(1,2) c'' s by (intro exI [of _ c']) auto
  qed
qed

definition sample_signals :: "cxp \<Rightarrow> cxp" where
  "sample_signals = put_sched (on_hw (\<lambda>h. h\<lparr>SIGBASE := 34, interrupt := replicate 10 \<lparr>d_pun = 0, d_intr = INTR_ELAPSED\<rparr>\<rparr>))"

lemma sample_signals_ok:
  "signal_intr 34 (hw (sch (sample_signals c))) = Inr INTR_ELAPSED" "claimed (sample_signals c) = claimed c"
  "mem_ok lo (sample_signals c) F L = mem_ok lo c F L" "current (sch (sample_signals c)) = current (sch c)"
  "proc_of (sample_signals c) = proc_of c"
  by (simp_all add: sample_signals_def signal_intr_def on_hw_eq put_sched_def proc_of_def fun_eq_iff)

text \<open>The running process 0x300 ends, first with no free block of its class, then after 0x500 was released.\<close>

theorem interrupt_after_release_witness:
  "(\<exists>c'. release_record 0 0x300 (sample_signals sample_roomy) = Done () c' \<and> handle_signal 0 34 c' = Inl NullDeref) \<and>
   (\<exists>c1 c' c''. release_mem 0 3 0x500 sample_roomy = Done () c1 \<and> release_record 0 0x300 (sample_signals c1) = Done () c' \<and>
     handle_signal 0 34 c' = Inr (False, c'') \<and> uc_point (ctxs (sch c'') 0x500) = Interrupted)"
proof
  let ?L = "(\<lambda>a. (a, 3)) ` {0x100, 0x200, 0x300, 0x400, 0x500} :: (addr \<times> nat) set"
  have s: "current (sch sample_roomy) 0 = 0x300" "3 = unat (p_index (proc_of sample_roomy 0x300))"
    by (simp_all add: sample_roomy_def sample_cxp_def proc_of_def sample_sched_def sample_process_def)
  show "\<exists>c'. release_record 0 0x300 (sample_signals sample_roomy) = Done () c' \<and> handle_signal 0 34 c' = Inl NullDeref"
    using interrupt_after_release [of 1 "sample_signals sample_roomy" "\<lambda>_. []" ?L "0x300" 3 0 34]
      sample_roomy_ok(3,4) s by (auto simp: sample_signals_ok)
  have "(0x500, 3) \<in> ?L" by simp
  then obtain c1 where c1: "release_mem 0 3 0x500 sample_roomy = Done () c1"
    "mem_ok 1 c1 ((\<lambda>_. [])(3 := [0x500])) (?L - {(0x500, 3)})" "\<not> claimed c1 Mutex_mem" "sch c1 = sch sample_roomy"
    using release_mem_ok [OF sample_roomy_ok(4) _ sample_roomy_ok(3), of "0x500" 3 0] by auto
  moreover have "proc_of c1 = proc_of sample_roomy" using c1(4) by (simp add: proc_of_def fun_eq_iff)
  ultimately show "\<exists>c1 c' c''. release_mem 0 3 0x500 sample_roomy = Done () c1 \<and>
      release_record 0 0x300 (sample_signals c1) = Done () c' \<and>
      handle_signal 0 34 c' = Inr (False, c'') \<and> uc_point (ctxs (sch c'') 0x500) = Interrupted"
    using interrupt_after_release [of 1 "sample_signals c1" "(\<lambda>_. [])(3 := [0x500])" "?L - {(0x500, 3)}" "0x300" 3 0 34]
      s by (fastforce simp: sample_signals_ok)
qed

end
