(* ===== verification/Run.thy ===== *)
theory Run
  imports Lifecycle_Correct
begin

text \<open>
  The parallel constructs (\<^verbatim>\<open>run.c\<close>) and the barrier on which their parent waits
  (\<^verbatim>\<open>par_barrier.m\<close>). A construct makes one process per child, makes each of them ready and
  gives up the processor; each child announces its end at the barrier, and the last one makes the
  parent ready again. The arrays of the caller are functions of the index; the barrier lies on the
  parent's stack, at the address \<open>barr\<close>.
\<close>

subsection \<open>The barrier (par_barrier.m)\<close>

text \<open>The count is an \<^verbatim>\<open>int\<close>; the atomic subtraction wraps around.\<close>

definition par_barr_init :: "addr \<Rightarrow> addr \<Rightarrow> uint32 \<Rightarrow> cxp \<Rightarrow> cxp" where
  "par_barr_init barr p nc c =
     c\<lparr>barriers := (barriers c)(barr := \<lparr>children = sint nc, parent = p\<rparr>)\<rparr>"

definition fetch_sub :: "addr \<Rightarrow> cxp \<Rightarrow> int \<times> cxp" where
  "fetch_sub barr c =
     (let b = barriers c barr
      in (children b,
          c\<lparr>barriers := (barriers c)(barr := b\<lparr>children := sint (word_of_int (children b - 1) :: uint32)\<rparr>)\<rparr>))"

definition par_barr_sync :: "pun \<Rightarrow> addr \<Rightarrow> cxp \<Rightarrow> unit run" where
  "par_barr_sync cpu barr c =
     (let (pre, c) = fetch_sub barr c
      in if pre = 1 then switching cpu (schedule cpu (parent (barriers c barr))) c else Done () c)"

subsection \<open>A child\<close>

text \<open>
  The code of the user is a parameter: \<open>user code args\<close> runs it. \<open>base\<close> is the address of the
  array of termination stacks.
\<close>

definition run_in_par ::
  "(addr \<Rightarrow> addr \<Rightarrow> cxp \<Rightarrow> unit run) \<Rightarrow> addr \<Rightarrow> pun \<Rightarrow> addr \<Rightarrow> addr \<Rightarrow> addr \<Rightarrow> cxp \<Rightarrow> unit run" where
  "run_in_par user base cpu code barr userArgs c =
     run_bind (user code userArgs c) (\<lambda>_ c.
     run_bind (par_barr_sync cpu barr c) (\<lambda>_ c.
     terminate base cpu c))"

subsection \<open>The constructs\<close>

text \<open>
  The loop over the children. Priority and processor of a child may depend on its index and on
  the record of the parent. A child of the parent's processor is enqueued, so that it cannot preempt
  the parent, one of another processor is scheduled.
\<close>

primrec fork :: "pun \<Rightarrow> addr \<Rightarrow> addr \<Rightarrow> (nat \<Rightarrow> addr) \<Rightarrow> (nat \<Rightarrow> addr) \<Rightarrow> (nat \<Rightarrow> uint32) \<Rightarrow>
    (nat \<Rightarrow> process \<Rightarrow> uint16) \<Rightarrow> (nat \<Rightarrow> process \<Rightarrow> pun) \<Rightarrow> nat list \<Rightarrow> cxp \<Rightarrow> unit run" where
  "fork cpu p barr code userArgs stacksize pri pun [] c = Done () c"
| "fork cpu p barr code userArgs stacksize pri pun (i # is) c =
     run_bind (make_process cpu Run_in_par (code i) barr (stacksize i)
         (pri i (proc_of c p)) (pun i (proc_of c p)) (userArgs i) c) (\<lambda>proc c.
     run_bind
       (if pun i (proc_of c p) = p_pun (proc_of c p) then on_sched (enqueue cpu proc) c
        else switching cpu (schedule cpu proc) c) (\<lambda>_ c.
     fork cpu p barr code userArgs stacksize pri pun is c))"

definition par :: "pun \<Rightarrow> addr \<Rightarrow> (nat \<Rightarrow> addr) \<Rightarrow> (nat \<Rightarrow> addr) \<Rightarrow> (nat \<Rightarrow> uint32) \<Rightarrow> uint32 \<Rightarrow>
    cxp \<Rightarrow> unit run" where
  "par cpu barr code userArgs stacksize nc c =
     run_bind (the_current cpu c) (\<lambda>p c.
     let c = par_barr_init barr p nc c;
         c = PREPARE_TO_WAIT p c
     in run_bind (fork cpu p barr code userArgs stacksize (\<lambda>i. p_pri) (\<lambda>i. p_pun) [0 ..< unat nc] c) (\<lambda>_ c.
        switching cpu (relinquish cpu) c))"

definition par_pri :: "pun \<Rightarrow> addr \<Rightarrow> (nat \<Rightarrow> addr) \<Rightarrow> (nat \<Rightarrow> addr) \<Rightarrow> (nat \<Rightarrow> uint32) \<Rightarrow> uint32 \<Rightarrow>
    cxp \<Rightarrow> unit run" where
  "par_pri cpu barr code userArgs stacksize nc c =
     (if unat nc > PRI_PROCS then Fail (Plotz ''Too many child processes'')
      else run_bind (the_current cpu c) (\<lambda>p c.
        let c = par_barr_init barr p nc c;
            ppri = p_pri (proc_of c p);
            level = unat (pri_level ppri) + 1
        in if level > PRI_LEVELS then Fail (Plotz ''Too many PRI levels'')
           else
             let c = PREPARE_TO_WAIT p c
             in run_bind (fork cpu p barr code userArgs stacksize
                  (\<lambda>i _. child_priority ppri i) (\<lambda>i. p_pun) [0 ..< unat nc] c) (\<lambda>_ c.
                switching cpu (relinquish cpu) c)))"

definition placed_par :: "pun \<Rightarrow> addr \<Rightarrow> (nat \<Rightarrow> addr) \<Rightarrow> (nat \<Rightarrow> addr) \<Rightarrow> (nat \<Rightarrow> uint32) \<Rightarrow>
    (nat \<Rightarrow> pun) \<Rightarrow> uint32 \<Rightarrow> cxp \<Rightarrow> unit run" where
  "placed_par cpu barr code userArgs stacksize pun nc c =
     run_bind (the_current cpu c) (\<lambda>p c.
     let c = par_barr_init barr p nc c;
         c = PREPARE_TO_WAIT p c
     in run_bind (fork cpu p barr code userArgs stacksize (\<lambda>i. p_pri) (\<lambda>i _. pun i) [0 ..< unat nc] c) (\<lambda>_ c.
        switching cpu (relinquish cpu) c))"

definition placed_par_pri :: "pun \<Rightarrow> addr \<Rightarrow> (nat \<Rightarrow> addr) \<Rightarrow> (nat \<Rightarrow> addr) \<Rightarrow> (nat \<Rightarrow> uint32) \<Rightarrow>
    (nat \<Rightarrow> pun) \<Rightarrow> uint32 \<Rightarrow> cxp \<Rightarrow> unit run" where
  "placed_par_pri cpu barr code userArgs stacksize pun nc c =
     (if unat nc > PRI_PROCS then Fail (Plotz ''Too many child processes'')
      else run_bind (the_current cpu c) (\<lambda>p c.
        let c = par_barr_init barr p nc c;
            ppri = p_pri (proc_of c p);
            level = unat (pri_level ppri) + 1
        in if level > PRI_LEVELS then Fail (Plotz ''Too many PRI levels'')
           else
             let c = PREPARE_TO_WAIT p c
             in run_bind (fork cpu p barr code userArgs stacksize
                  (\<lambda>i _. child_priority ppri i) (\<lambda>i _. pun i) [0 ..< unat nc] c) (\<lambda>_ c.
                switching cpu (relinquish cpu) c)))"

end
