(* ===== verification/Run_Correct.thy ===== *)
theory Run_Correct
  imports Run
begin

text \<open>
  Correctness of the parallel constructs: what the loop over the children leaves in the queues, the
  state in which the parent waits, and the barrier that wakes it.
\<close>

subsection \<open>Making one process ready without losing the processor\<close>

text \<open>
  \<open>steady s s'\<close>: at most links, interprocessor queues, masks and the signals sent differ.
\<close>

definition steady :: "sched \<Rightarrow> sched \<Rightarrow> bool" where
  "steady s s' \<longleftrightarrow> links_only (s\<lparr>ipQues := ipQues s', hw := hw s'\<rparr>) s' \<and> thread_id (hw s') = thread_id (hw s)"

lemma steadyD:
  assumes "steady s s'"
  shows "current s' = current s" "current_pri s' = current_pri s" "ctxs s' = ctxs s" "executing s' = executing s"
    "key_of s' = key_of s" "p_pri (procs s' x) = p_pri (procs s x)" "p_pun (procs s' x) = p_pun (procs s x)"
    "p_stackptr (procs s' x) = p_stackptr (procs s x)" "p_index (procs s' x) = p_index (procs s x)"
    "p_alt_state (procs s' x) = p_alt_state (procs s x)"
    "p_sched_state (procs s' x) = p_sched_state (procs s x)" "thread_id (hw s') = thread_id (hw s)"
  using assms links_onlyD [of "s\<lparr>ipQues := ipQues s', hw := hw s'\<rparr>" s'] by (simp_all add: steady_def)

definition make_ready :: "pun \<Rightarrow> pun \<Rightarrow> addr \<Rightarrow> cxp \<Rightarrow> unit run" where
  "make_ready cpu pun x c =
     (if pun = cpu then on_sched (enqueue cpu x) c else switching cpu (schedule cpu x) c)"

definition queues_with :: "sched \<Rightarrow> pun \<Rightarrow> pun \<Rightarrow> addr \<Rightarrow> (pun \<Rightarrow> addr list) \<Rightarrow> pun \<Rightarrow> addr list" where
  "queues_with s cpu pun x Q = (if pun = cpu then Q(cpu := enq_list s x (Q cpu)) else Q)"

lemma make_ready_ok:
  assumes inv: "sched_inv (sch c) Q" and cpu: "cpu < NPUN" "pun < NPUN" and x: "idle_on (sch c) Q pun x"
    and t: "pun \<noteq> cpu \<Longrightarrow> thread_id (hw (sch c)) pun \<noteq> None \<and> length (in_ipq (sch c) pun) < QSIZE - 1"
  shows "\<exists>s'. make_ready cpu pun x c = Done () (c\<lparr>sch := s'\<rparr>) \<and> steady (sch c) s' \<and>
    sched_inv s' (queues_with (sch c) cpu pun x Q) \<and>
    in_ipq s' = (if pun = cpu then in_ipq (sch c) else (in_ipq (sch c))(pun := in_ipq (sch c) pun @ [x]))"
proof (cases "pun = cpu")
  case True
  let ?s = "(sch c)\<lparr>hw := disable cpu (hw (sch c))\<rparr>"
  obtain s' where s': "enqueue0 x ?s = Inr s'" "links_only ?s s'" "sched_inv s' (Q(cpu := enq_list ?s x (Q cpu)))"
    using enqueue_behind [of ?s Q cpu x] inv cpu x True by auto
  note l = links_onlyD [OF s'(2)]
  let ?s' = "s'\<lparr>hw := enable cpu (hw s')\<rparr>"
  have "make_ready cpu pun x c = Done () (c\<lparr>sch := ?s'\<rparr>)"
    using s'(1) True by (simp add: make_ready_def enqueue_def on_hw_eq)
  moreover have "steady (sch c) ?s'" using s'(2) by (simp add: steady_def links_only_def enable_def disable_def)
  moreover have "sched_inv ?s' (queues_with (sch c) cpu pun x Q)" using s'(3) True by (simp add: queues_with_def)
  moreover have "in_ipq ?s' = in_ipq (sch c)" using l(7) by simp
  ultimately show ?thesis using True by - (rule exI [of _ ?s'], simp)
next
  case False
  obtain target where tt: "thread_id (hw (sch c)) pun = Some target" and room: "length (in_ipq (sch c) pun) < QSIZE - 1"
    using t [OF False] by blast
  obtain q h where q: "schedule cpu x (sch c) = Inr ((sch c)\<lparr>ipQues := (ipQues (sch c))(pun := q), hw := h\<rparr>)"
    "in_ipq ((sch c)\<lparr>ipQues := (ipQues (sch c))(pun := q)\<rparr>) = (in_ipq (sch c))(pun := in_ipq (sch c) pun @ [x])"
    "sched_inv ((sch c)\<lparr>ipQues := (ipQues (sch c))(pun := q)\<rparr>) Q"
    "h = enable cpu ((disable cpu (hw (sch c)))\<lparr>os_sent := os_sent (hw (sch c)) @
      [(target, signal_no (hw (sch c)) pun INTR_INTERPROC)]\<rparr>)"
    using schedule_remote [OF inv cpu(2) False x tt room] by blast
  let ?s = "(sch c)\<lparr>ipQues := (ipQues (sch c))(pun := q)\<rparr>" and ?s' = "(sch c)\<lparr>ipQues := (ipQues (sch c))(pun := q), hw := h\<rparr>"
  have "make_ready cpu pun x c = Done () (c\<lparr>sch := ?s'\<rparr>)"
    using q(1) False by (simp add: make_ready_def switching_simps)
  moreover have "steady (sch c) ?s'"
    using q(4) by (simp add: steady_def links_only_def enable_def disable_def)
  moreover have "sched_inv ?s' (queues_with (sch c) cpu pun x Q)"
    using q(3) False by (simp add: queues_with_def)
  moreover have "in_ipq ?s' = (in_ipq (sch c))(pun := in_ipq (sch c) pun @ [x])"
    unfolding in_ipq_fields(1) by (rule q(2))
  ultimately show ?thesis using False by - (rule exI [of _ ?s'], simp only: if_False simp_thms)
qed

subsection \<open>One child\<close>

lemma live_grow:
  assumes "live c Q L" and "\<And>p. members (sch c') Q' p \<subseteq> insert b (members (sch c) Q p)"
    and "\<And>x. p_index (proc_of c' x) = p_index (proc_of c x)" and "(b, unat (p_index (proc_of c' b))) \<in> L"
  shows "live c' Q' L"
  using assms unfolding live_def by fastforce

lemma spawn_ok:
  assumes inv: "sched_inv (sch c) Q" and mem: "mem_ok lo c F L" and live: "live c Q L"
    and cpu: "cpu < NPUN" "pun < NPUN" and room: "room_for (i # is) c" and free: "\<not> claimed c Mutex_mem"
    and f: "find_mem_index (stacksize + sizeof_Process) = Inr i"
    and t: "pun \<noteq> cpu \<longrightarrow> thread_id (hw (sch c)) pun \<noteq> None \<and> length (in_ipq (sch c) pun) < QSIZE - 1"
  shows "\<exists>b c1 c2 F'. make_process cpu code a1 a2 stacksize pri pun ua c = Done b c1 \<and>
    make_ready cpu pun b c1 = Done () c2 \<and>
    (\<forall>x. x \<noteq> b \<longrightarrow> proc_of c1 x = proc_of c x) \<and> (\<forall>p < NPUN. b \<notin> members (sch c) Q p) \<and>
    c2 = c\<lparr>claimed := claimed c2, procmemlist := procmemlist c2, tail := tail c2, sch := sch c2\<rparr> \<and>
    steady (with_process b (new_process b i pri pun) (new_context cpu code a1 a2 ua stacksize b (sch c)) (sch c)) (sch c2) \<and>
    sched_inv (sch c2) (if pun = cpu then Q(cpu := sort_key (key_of (sch c2)) (Q cpu @ [b])) else Q) \<and>
    in_ipq (sch c2) = (if pun = cpu then in_ipq (sch c) else (in_ipq (sch c))(pun := in_ipq (sch c) pun @ [b])) \<and>
    mem_ok lo c2 F' (insert (b, i) L) \<and> room_for is c2 \<and> claimed c2 = (claimed c)(Mutex_mem := False) \<and>
    (\<forall>x \<in> L. fst x \<noteq> b) \<and>
    live c2 (if pun = cpu then Q(cpu := sort_key (key_of (sch c2)) (Q cpu @ [b])) else Q) (insert (b, i) L)"
proof -
  have i: "i < NCLASS" using room_for_Cons [OF room] by simp
  let ?pr = "\<lambda>b. new_process b i pri pun" and ?u = "\<lambda>b. new_context cpu code a1 a2 ua stacksize b (sch c)"
  obtain b c1 F' pl tl where m: "make_process cpu code a1 a2 stacksize pri pun ua c = Done b c1"
    "c1 = c\<lparr>claimed := (claimed c)(Mutex_mem := False), procmemlist := pl, tail := tl,
      sch := with_process b (?pr b) (?u b) (sch c)\<rparr>"
    "\<forall>x \<in> L. fst x \<noteq> b \<and> span x \<inter> span (b, i) = {}" "mem_ok lo c1 F' (insert (b, i) L)" "room_for is c1"
    "live c1 Q (insert (b, i) L)" "sched_inv (sch c1) Q" "\<forall>p. members (sch c1) Q p = members (sch c) Q p"
    "idle_on (sch c1) Q pun b" "\<forall>p < NPUN. b \<notin> members (sch c) Q p"
    using make_process_ok [OF inv mem live cpu(2) room free f, of cpu code a1 a2 pri ua] by (elim exE conjE) (rule that)
  have s1: "sch c1 = with_process b (?pr b) (?u b) (sch c)" using m(2) by simp
  have t1: "pun \<noteq> cpu \<longrightarrow> thread_id (hw (sch c1)) pun \<noteq> None \<and> length (in_ipq (sch c1) pun) < QSIZE - 1"
    using t by (simp add: s1)
  obtain s2 where s2: "make_ready cpu pun b c1 = Done () (c1\<lparr>sch := s2\<rparr>)" "steady (sch c1) s2"
    "sched_inv s2 (queues_with (sch c1) cpu pun b Q)"
    "in_ipq s2 = (if pun = cpu then in_ipq (sch c1) else (in_ipq (sch c1))(pun := in_ipq (sch c1) pun @ [b]))"
    using make_ready_ok [OF m(7) cpu m(9) t1 [rule_format]] by blast
  note st = steadyD [OF s2(2)]
  let ?Q = "if pun = cpu then Q(cpu := sort_key (key_of s2) (Q cpu @ [b])) else Q"
  have Q: "queues_with (sch c1) cpu pun b Q = ?Q" by (simp add: queues_with_def enq_list_def st)
  define Q' where "Q' = ?Q"
  have sub: "members s2 Q' p \<subseteq> insert b (members (sch c1) Q p)" for p
    using st(1) s2(4) by (auto simp: members_def Q'_def split: if_splits)
  have "live (c1\<lparr>sch := s2\<rparr>) Q' (insert (b, i) L)"
    using sub st(9) by (intro live_grow [OF m(6), where b = b])
      (simp_all add: proc_of_def s1 new_process_def class_index [OF i])
  then have "live (c1\<lparr>sch := s2\<rparr>) ?Q (insert (b, i) L)" by (simp only: Q'_def)
  moreover have "in_ipq s2 = (if pun = cpu then in_ipq (sch c) else (in_ipq (sch c))(pun := in_ipq (sch c) pun @ [b]))"
    using s2(4) by (simp add: s1)
  moreover have "\<forall>x. x \<noteq> b \<longrightarrow> proc_of c1 x = proc_of c x" by (simp add: proc_of_def s1)
  ultimately show ?thesis using m s2 Q s1
    by - (rule exI [of _ b], rule exI [of _ c1], rule exI [of _ "c1\<lparr>sch := s2\<rparr>"], rule exI [of _ F'],
      simp cong: if_cong split del: if_split)
qed

subsection \<open>The loop over the children\<close>

text \<open>
  What the loop has done to the processes: \<open>bs\<close> are the new records, nothing else has changed
  but links.
\<close>

definition spawned :: "addr list \<Rightarrow> sched \<Rightarrow> sched \<Rightarrow> bool" where
  "spawned bs s s' \<longleftrightarrow> current s' = current s \<and> thread_id (hw s') = thread_id (hw s) \<and>
     (\<forall>x. x \<notin> set bs \<longrightarrow> p_pri (procs s' x) = p_pri (procs s x) \<and> p_pun (procs s' x) = p_pun (procs s x) \<and>
        p_alt_state (procs s' x) = p_alt_state (procs s x) \<and> p_index (procs s' x) = p_index (procs s x) \<and>
        p_sched_state (procs s' x) = p_sched_state (procs s x) \<and>
        ctxs s' (proc_stack x) = ctxs s (proc_stack x))"

lemma spawned_first:
  assumes "steady (with_process b pr u s) s'" and "p_stackptr pr = proc_stack b"
  shows "spawned [b] s s'"
  using steadyD [OF assms(1)] assms(2) by (simp add: spawned_def proc_stack_def)

lemma spawned_Cons: "spawned [b] s t \<Longrightarrow> spawned bs t s' \<Longrightarrow> spawned (b # bs) s s'"
  by (simp add: spawned_def)

text \<open>A child as the parent has made it.\<close>

definition child_at :: "(nat \<Rightarrow> addr) \<Rightarrow> addr \<Rightarrow> (nat \<Rightarrow> addr) \<Rightarrow> (nat \<Rightarrow> uint16) \<Rightarrow> (nat \<Rightarrow> pun) \<Rightarrow>
    sched \<Rightarrow> nat \<Rightarrow> addr \<Rightarrow> bool" where
  "child_at code barr userArgs pri pun s i b \<longleftrightarrow> p_pri (procs s b) = pri i \<and> p_pun (procs s b) = pun i \<and>
     uc_point (ctxs s (proc_stack b)) = At_entry Run_in_par (code i) barr (userArgs i)"

lemma child_at_spawned:
  "spawned bs s s' \<Longrightarrow> b \<notin> set bs \<Longrightarrow> child_at code barr ua pri pun s i b \<Longrightarrow> child_at code barr ua pri pun s' i b"
  by (simp add: spawned_def child_at_def)

lemma insort_key_cong_set: "\<forall>y \<in> insert x (set ys). f y = g y \<Longrightarrow> insort_key f x ys = insort_key g x ys"
  by (induction ys) auto

lemma sort_key_cong_set: "\<forall>x \<in> set xs. f x = g x \<Longrightarrow> sort_key f xs = sort_key g xs"
proof (induction xs)
  case (Cons x xs)
  then show ?case using insort_key_cong_set [of x "sort_key g xs" f g] by simp
qed simp

lemma frame_trans:
  "c2 = c\<lparr>claimed := m2, procmemlist := l2, tail := t2, sch := s2\<rparr> \<Longrightarrow>
   c' = c2\<lparr>claimed := m', procmemlist := l', tail := t', sch := s'\<rparr> \<Longrightarrow>
   c' = c\<lparr>claimed := m', procmemlist := l', tail := t', sch := s'\<rparr>"
  by simp

lemma fork_ok:
  assumes inv: "sched_inv (sch c) Q" and mem: "mem_ok lo c F L" and live: "live c Q L" and cpu: "cpu < NPUN"
    and room: "room_for (map cls is) c" and free: "\<not> claimed c Mutex_mem"
    and p: "current (sch c) cpu = p" "p_pri (proc_of c p) = ppri"
    and f: "\<forall>i \<in> set is. find_mem_index (stacksize i + sizeof_Process) = Inr (cls i)"
    and fns: "\<forall>i \<in> set is. pun' i < NPUN \<and> (\<forall>pr. p_pri pr = ppri \<longrightarrow> p_pun pr = cpu \<longrightarrow> pri i pr = pri' i \<and> pun i pr = pun' i)"
    and t: "\<forall>q < NPUN. q \<noteq> cpu \<longrightarrow> q \<in> pun' ` set is \<longrightarrow> thread_id (hw (sch c)) q \<noteq> None \<and>
      length (in_ipq (sch c) q) + length (filter (\<lambda>i. pun' i = q) is) < QSIZE"
  shows "\<exists>c' F' bs Q'. fork cpu p barr code userArgs stacksize pri pun is c = Done () c' \<and>
    c' = c\<lparr>claimed := claimed c', procmemlist := procmemlist c', tail := tail c', sch := sch c'\<rparr> \<and>
    spawned bs (sch c) (sch c') \<and> distinct bs \<and> (\<forall>q < NPUN. set bs \<inter> members (sch c) Q q = {}) \<and>
    list_all2 (child_at code barr userArgs pri' pun' (sch c')) is bs \<and>
    Q' = Q(cpu := sort_key (key_of (sch c')) (Q cpu @ filter (\<lambda>b. p_pun (proc_of c' b) = cpu) bs)) \<and>
    sched_inv (sch c') Q' \<and> in_ipq (sch c') cpu = in_ipq (sch c) cpu \<and>
    (\<forall>q. q \<noteq> cpu \<longrightarrow> in_ipq (sch c') q = in_ipq (sch c) q @ filter (\<lambda>b. p_pun (proc_of c' b) = q) bs) \<and>
    mem_ok lo c' F' (L \<union> set (zip bs (map cls is))) \<and> live c' Q' (L \<union> set (zip bs (map cls is))) \<and>
    claimed c' = (claimed c)(Mutex_mem := False) \<and> (\<forall>x \<in> L. fst x \<notin> set bs)"
  using assms
proof (induction "is" arbitrary: c F L Q)
  case Nil
  have "sort_key (key_of (sch c)) (Q cpu) = Q cpu"
    using sched_invD(8) [OF Nil.prems(1,4)] by (simp add: sort_key_id_if_sorted)
  then show ?case using Nil.prems
    by - (rule exI [of _ c], rule exI [of _ F], rule exI [of _ "[]"], rule exI [of _ Q],
      auto simp: spawned_def fun_eq_iff)
next
  case (Cons i "is")
  let ?pun = "pun' i"
  have np: "?pun < NPUN" using Cons.prems by simp
  have room: "room_for (cls i # map cls is) c" using Cons.prems by simp
  have fi: "find_mem_index (stacksize i + sizeof_Process) = Inr (cls i)" using Cons.prems by simp
  have ti: "?pun \<noteq> cpu \<longrightarrow> thread_id (hw (sch c)) ?pun \<noteq> None \<and> length (in_ipq (sch c) ?pun) < QSIZE - 1"
    using Cons.prems(11) np by auto
  obtain b c1 c2 F1 where a: "make_process cpu Run_in_par (code i) barr (stacksize i) (pri' i) ?pun (userArgs i) c = Done b c1"
    "make_ready cpu ?pun b c1 = Done () c2" "\<forall>x. x \<noteq> b \<longrightarrow> proc_of c1 x = proc_of c x"
    "\<forall>p < NPUN. b \<notin> members (sch c) Q p"
    "c2 = c\<lparr>claimed := claimed c2, procmemlist := procmemlist c2, tail := tail c2, sch := sch c2\<rparr>"
    "steady (with_process b (new_process b (cls i) (pri' i) ?pun)
      (new_context cpu Run_in_par (code i) barr (userArgs i) (stacksize i) b (sch c)) (sch c)) (sch c2)"
    "sched_inv (sch c2) (if ?pun = cpu then Q(cpu := sort_key (key_of (sch c2)) (Q cpu @ [b])) else Q)"
    "in_ipq (sch c2) = (if ?pun = cpu then in_ipq (sch c) else (in_ipq (sch c))(?pun := in_ipq (sch c) ?pun @ [b]))"
    "mem_ok lo c2 F1 (insert (b, cls i) L)" "room_for (map cls is) c2" "claimed c2 = (claimed c)(Mutex_mem := False)" "\<forall>x \<in> L. fst x \<noteq> b"
    "live c2 (if ?pun = cpu then Q(cpu := sort_key (key_of (sch c2)) (Q cpu @ [b])) else Q) (insert (b, cls i) L)"
    using spawn_ok [OF Cons.prems(1,2,3,4) np room Cons.prems(6) fi ti, of Run_in_par "code i" barr "pri' i" "userArgs i"]
    by (elim exE conjE) (rule that)
  note st = steadyD [OF a(6)]
  define Q1 where "Q1 = (if ?pun = cpu then Q(cpu := sort_key (key_of (sch c2)) (Q cpu @ [b])) else Q)"
  have sp: "spawned [b] (sch c) (sch c2)" using spawned_first [OF a(6)] by (simp add: new_process_def)
  have pb: "p \<noteq> b" using a(4) Cons.prems(4,7) by (auto simp: members_def)
  have p2: "current (sch c2) cpu = p" "p_pri (proc_of c2 p) = ppri"
    using sp pb Cons.prems(7,8) by (simp_all add: spawned_def proc_of_def)
  have free2: "\<not> claimed c2 Mutex_mem" using a(11) by simp
  have mem2: "insert b (members (sch c) Q ?pun) \<subseteq> members (sch c2) Q1 ?pun" "members (sch c) Q q \<subseteq> members (sch c2) Q1 q" for q
    using st(1) a(8) by (auto simp: members_def Q1_def)
  have tl: "\<forall>i \<in> set is. find_mem_index (stacksize i + sizeof_Process) = Inr (cls i)"
    "\<forall>i \<in> set is. pun' i < NPUN \<and> (\<forall>pr. p_pri pr = ppri \<longrightarrow> p_pun pr = cpu \<longrightarrow> pri i pr = pri' i \<and> pun i pr = pun' i)"
    using Cons.prems(9,10) by simp_all
  have t2: "\<forall>q < NPUN. q \<noteq> cpu \<longrightarrow> q \<in> pun' ` set is \<longrightarrow> thread_id (hw (sch c2)) q \<noteq> None \<and>
      length (in_ipq (sch c2) q) + length (filter (\<lambda>i. pun' i = q) is) < QSIZE"
    using Cons.prems(11) a(8) sp by (fastforce simp: spawned_def)
  obtain c' F' bs Q' where r: "fork cpu p barr code userArgs stacksize pri pun is c2 = Done () c'"
    "c' = c2\<lparr>claimed := claimed c', procmemlist := procmemlist c', tail := tail c', sch := sch c'\<rparr>"
    "spawned bs (sch c2) (sch c')" "distinct bs" "\<forall>q < NPUN. set bs \<inter> members (sch c2) Q1 q = {}"
    "list_all2 (child_at code barr userArgs pri' pun' (sch c')) is bs"
    "Q' = Q1(cpu := sort_key (key_of (sch c')) (Q1 cpu @ filter (\<lambda>b. p_pun (proc_of c' b) = cpu) bs))"
    "sched_inv (sch c') Q'" "in_ipq (sch c') cpu = in_ipq (sch c2) cpu"
    "\<forall>q. q \<noteq> cpu \<longrightarrow> in_ipq (sch c') q = in_ipq (sch c2) q @ filter (\<lambda>b. p_pun (proc_of c' b) = q) bs"
    "mem_ok lo c' F' (insert (b, cls i) L \<union> set (zip bs (map cls is)))"
    "live c' Q' (insert (b, cls i) L \<union> set (zip bs (map cls is)))" "claimed c' = (claimed c2)(Mutex_mem := False)"
    "\<forall>x \<in> insert (b, cls i) L. fst x \<notin> set bs"
    using Cons.IH [OF a(7) [folded Q1_def] a(9) a(13) [folded Q1_def] Cons.prems(4) a(10) free2 p2 tl t2]
    by (elim exE conjE) (rule that)
  have nb: "b \<notin> set bs" using r(5) mem2(1) np by auto
  have pun: "p_pun (proc_of c' b) = ?pun"
    using r(3) nb st(7) by (simp add: spawned_def proc_of_def new_process_def)
  have run: "fork cpu p barr code userArgs stacksize pri pun (i # is) c = Done () c'"
  proof -
    have "p_pun (proc_of c p) = cpu" using sched_invD(3) [OF Cons.prems(1,4)] Cons.prems(7) by (simp add: proc_of_def)
    moreover from this have "pri i (proc_of c p) = pri' i" "pun i (proc_of c p) = ?pun"
      using Cons.prems(8,10) by simp_all
    moreover have "proc_of c1 p = proc_of c p" using a(3) pb by simp
    ultimately show ?thesis using a(1,2) r(1) by (simp add: make_ready_def cong: if_cong)
  qed
  have Q: "Q' = Q(cpu := sort_key (key_of (sch c')) (Q cpu @ filter (\<lambda>b. p_pun (proc_of c' b) = cpu) (b # bs)))"
  proof (cases "?pun = cpu")
    case True
    have "\<forall>x \<in> set (Q cpu @ [b]). key_of (sch c2) x = key_of (sch c') x"
    proof
      fix x assume x: "x \<in> set (Q cpu @ [b])"
      have "set (Q cpu) \<subseteq> members (sch c) Q cpu" by (auto simp: members_def)
      then have "x \<notin> set bs" using x mem2(2) [of cpu] r(5) Cons.prems(4) nb by auto
      then show "key_of (sch c2) x = key_of (sch c') x" using r(3) by (simp add: spawned_def key_of_def)
    qed
    then have "sort_key (key_of (sch c2)) (Q cpu @ [b]) = sort_key (key_of (sch c')) (Q cpu @ [b])"
      by (rule sort_key_cong_set)
    then show ?thesis using True pun sort_key_append_sort [of "key_of (sch c')" "Q cpu @ [b]"]
      by (simp add: r(7) Q1_def)
  qed (simp add: r(7) Q1_def pun)
  have ch: "list_all2 (child_at code barr userArgs pri' pun' (sch c')) (i # is) (b # bs)"
  proof -
    have "child_at code barr userArgs pri' pun' (sch c2) i b"
      using st by (simp add: child_at_def new_process_def new_context_def)
    then show ?thesis using r(3,6) nb by (simp add: child_at_spawned)
  qed
  have iq: "in_ipq (sch c') cpu = in_ipq (sch c) cpu"
    "\<forall>q. q \<noteq> cpu \<longrightarrow> in_ipq (sch c') q = in_ipq (sch c) q @ filter (\<lambda>b. p_pun (proc_of c' b) = q) (b # bs)"
    using r(9,10) a(8) pun by auto
  have d: "\<forall>q < NPUN. set (b # bs) \<inter> members (sch c) Q q = {}"
  proof (intro allI impI)
    fix q :: pun assume "q < NPUN"
    then have "set bs \<inter> members (sch c2) Q1 q = {}" "b \<notin> members (sch c) Q q" using r(5) a(4) by auto
    then show "set (b # bs) \<inter> members (sch c) Q q = {}" using mem2(2) [of q] by auto
  qed
  have c': "c' = c\<lparr>claimed := claimed c', procmemlist := procmemlist c', tail := tail c', sch := sch c'\<rparr>"
    using a(5) r(2) by (rule frame_trans)
  have L: "insert (b, cls i) L \<union> set (zip bs (map cls is)) = L \<union> set (zip (b # bs) (map cls (i # is)))" by simp
  have db: "distinct (b # bs)" using nb r(4) by simp
  show ?case
    by (rule exI [of _ c'], rule exI [of _ F'], rule exI [of _ "b # bs"], rule exI [of _ Q'])
      (intro conjI run c' spawned_Cons [OF sp r(3)] db d ch Q r(8) iq r(11) [unfolded L] r(12) [unfolded L], simp add: r(13) a(11), use r(14) a(12) in simp)
qed

subsection \<open>A construct as a whole\<close>

definition construct :: "pun \<Rightarrow> addr \<Rightarrow> addr \<Rightarrow> (nat \<Rightarrow> addr) \<Rightarrow> (nat \<Rightarrow> addr) \<Rightarrow> (nat \<Rightarrow> uint32) \<Rightarrow>
    (nat \<Rightarrow> process \<Rightarrow> uint16) \<Rightarrow> (nat \<Rightarrow> process \<Rightarrow> pun) \<Rightarrow> uint32 \<Rightarrow> cxp \<Rightarrow> unit run" where
  "construct cpu p barr code userArgs stacksize pri pun nc c =
     run_bind (fork cpu p barr code userArgs stacksize pri pun [0 ..< unat nc]
         (PREPARE_TO_WAIT p (par_barr_init barr p nc c))) (\<lambda>_ c. switching cpu (relinquish cpu) c)"

lemma prepared_simps [simp]:
  "sch (par_barr_init barr p nc c) = sch c"
  "barriers (PREPARE_TO_WAIT p c) = barriers c" "barriers (par_barr_init barr p nc c) = (barriers c)(barr := \<lparr>children = sint nc, parent = p\<rparr>)"
  "claimed (par_barr_init barr p nc c) = claimed c"
  "mem_ok lo (PREPARE_TO_WAIT p c) F L = mem_ok lo c F L" "mem_ok lo (par_barr_init barr p nc c) F L = mem_ok lo c F L"
  "room_for is (PREPARE_TO_WAIT p c) = room_for is c" "room_for is (par_barr_init barr p nc c) = room_for is c"
  by (simp_all add: par_barr_init_def PREPARE_TO_WAIT_def put_sched_def mem_ok_def room_for_def)

lemma prepared_sched [simp]:
  "in_ipq (set_sched_state p st s) = in_ipq s" "ctxs (set_sched_state p st s) = ctxs s"
  "p_index (procs (set_sched_state p st s) x) = p_index (procs s x)"
  by (simp_all add: set_sched_state_def in_ipq_def fun_eq_iff)

lemma construct_ok:
  assumes inv: "sched_inv (sch c) Q" and mem: "mem_ok lo c F L" and live: "live c Q L" and cpu: "cpu < NPUN"
    and room: "room_for (map cls [0 ..< unat nc]) c" and free: "\<not> claimed c Mutex_mem"
    and p: "current (sch c) cpu = p"
    and f: "\<forall>i < unat nc. find_mem_index (stacksize i + sizeof_Process) = Inr (cls i)"
    and fns: "\<forall>i < unat nc. pun' i < NPUN \<and>
      (\<forall>pr. p_pri pr = p_pri (proc_of c p) \<longrightarrow> p_pun pr = cpu \<longrightarrow> pri i pr = pri' i \<and> pun i pr = pun' i)"
    and t: "\<forall>q < NPUN. q \<noteq> cpu \<longrightarrow> q \<in> pun' ` {..< unat nc} \<longrightarrow> thread_id (hw (sch c)) q \<noteq> None \<and>
      length (in_ipq (sch c) q) + length (filter (\<lambda>i. pun' i = q) [0 ..< unat nc]) < QSIZE"
    and work: "Q cpu \<noteq> []"
  shows "\<exists>c' F' bs R. construct cpu p barr code userArgs stacksize pri pun nc c = Paused c' (Done ()) \<and>
    barriers c' = (barriers c)(barr := \<lparr>children = sint nc, parent = p\<rparr>) \<and>
    length bs = unat nc \<and> distinct bs \<and> (\<forall>q < NPUN. set bs \<inter> members (sch c) Q q = {}) \<and>
    (\<forall>i < unat nc. child_at code barr userArgs pri' pun' (sch c') i (bs ! i)) \<and>
    current (sch c') cpu # R = sort_key (key_of (sch c'))
      (Q cpu @ filter (\<lambda>b. p_pun (proc_of c' b) = cpu) bs @ in_ipq (sch c) cpu) \<and>
    sched_inv (sch c') (Q(cpu := R)) \<and> in_ipq (sch c') cpu = [] \<and>
    (\<forall>q. q \<noteq> cpu \<longrightarrow> in_ipq (sch c') q = in_ipq (sch c) q @ filter (\<lambda>b. p_pun (proc_of c' b) = q) bs) \<and>
    (\<forall>q. q \<noteq> cpu \<longrightarrow> current (sch c') q = current (sch c) q) \<and>
    idle_on (sch c') (Q(cpu := R)) cpu p \<and> p_sched_state (proc_of c' p) = PROC_WAITING \<and>
    (\<forall>q < NPUN. \<forall>x \<in> members (sch c) Q q. key_of (sch c') x = key_of (sch c) x) \<and>
    mem_ok lo c' F' (L \<union> set (zip bs (map cls [0 ..< unat nc]))) \<and>
    live c' (Q(cpu := R)) (L \<union> set (zip bs (map cls [0 ..< unat nc]))) \<and>
    claimed c' = (claimed c)(Mutex_mem := False) \<and> (\<forall>x \<in> L. fst x \<notin> set bs) \<and> chans c' = chans c \<and> heap c' = heap c \<and>
    uc_point (ctxs (sch c') (proc_stack p)) = In_relinquish \<and> p_index (proc_of c' p) = p_index (proc_of c p)"
proof -
  let ?c = "PREPARE_TO_WAIT p (par_barr_init barr p nc c)" and ?is = "[0 ..< unat nc]"
  have l: "live ?c Q L" using live by (simp add: live_def proc_of_def)
  have pre: "sched_inv (sch ?c) Q" "mem_ok lo ?c F L" "room_for (map cls ?is) ?c" "\<not> claimed ?c Mutex_mem"
    "current (sch ?c) cpu = p" "p_pri (proc_of ?c p) = p_pri (proc_of c p)"
    "\<forall>i \<in> set ?is. find_mem_index (stacksize i + sizeof_Process) = Inr (cls i)"
    "\<forall>i \<in> set ?is. pun' i < NPUN \<and>
      (\<forall>pr. p_pri pr = p_pri (proc_of c p) \<longrightarrow> p_pun pr = cpu \<longrightarrow> pri i pr = pri' i \<and> pun i pr = pun' i)"
    "\<forall>q < NPUN. q \<noteq> cpu \<longrightarrow> q \<in> pun' ` set ?is \<longrightarrow> thread_id (hw (sch ?c)) q \<noteq> None \<and>
      length (in_ipq (sch ?c) q) + length (filter (\<lambda>i. pun' i = q) ?is) < QSIZE"
    using inv mem room free p f fns t by (simp_all add: proc_of_def atLeast0LessThan)
  obtain c1 F1 bs Q1 where r: "fork cpu p barr code userArgs stacksize pri pun ?is ?c = Done () c1"
    "c1 = ?c\<lparr>claimed := claimed c1, procmemlist := procmemlist c1, tail := tail c1, sch := sch c1\<rparr>"
    "spawned bs (sch ?c) (sch c1)" "distinct bs" "\<forall>q < NPUN. set bs \<inter> members (sch ?c) Q q = {}"
    "list_all2 (child_at code barr userArgs pri' pun' (sch c1)) ?is bs"
    "Q1 = Q(cpu := sort_key (key_of (sch c1)) (Q cpu @ filter (\<lambda>b. p_pun (proc_of c1 b) = cpu) bs))"
    "sched_inv (sch c1) Q1" "in_ipq (sch c1) cpu = in_ipq (sch ?c) cpu"
    "\<forall>q. q \<noteq> cpu \<longrightarrow> in_ipq (sch c1) q = in_ipq (sch ?c) q @ filter (\<lambda>b. p_pun (proc_of c1 b) = q) bs"
    "mem_ok lo c1 F1 (L \<union> set (zip bs (map cls ?is)))"
    "live c1 Q1 (L \<union> set (zip bs (map cls ?is)))" "claimed c1 = (claimed ?c)(Mutex_mem := False)" "\<forall>x \<in> L. fst x \<notin> set bs"
    using fork_ok [where cls = cls and ppri = "p_pri (proc_of c p)" and pri = pri and pun = pun and pri' = pri' and
        pun' = pun' and stacksize = stacksize and barr = barr and code = code and userArgs = userArgs,
        OF pre(1,2) l cpu pre(3-9)] by (elim exE conjE) (rule that)
  have st: "current (sch c1) = current (sch c)" using r(3) by (simp add: spawned_def)
  have pb: "p \<notin> set bs" using r(5) p cpu by (auto simp: members_def)
  have prep: "p_sched_state (proc_of c1 (current (sch c1) cpu)) = PROC_PREPARING_TO_WAIT"
    using r(3) pb p st by (simp add: spawned_def proc_of_def)
  let ?local = "filter (\<lambda>b. p_pun (proc_of c1 b) = cpu) bs"
  let ?k = "key_of (sch c1)"
  have m: "merged (sch c1) cpu (Q1 cpu) = sort_key ?k (Q cpu @ ?local @ in_ipq (sch c) cpu)"
    using sort_key_append_sort [of ?k "Q cpu @ ?local" "in_ipq (sch c) cpu"] r(9)
    by (simp add: merged_def r(7))
  have "sort_key ?k (Q cpu @ ?local @ in_ipq (sch c) cpu) \<noteq> []" using work by (metis append_is_Nil_conv set_empty set_sort)
  then obtain x R where xR: "sort_key ?k (Q cpu @ ?local @ in_ipq (sch c) cpu) = x # R" by (meson neq_Nil_conv)
  obtain s' where s': "switching cpu (relinquish cpu) c1 = Paused (c1\<lparr>sch := s'\<rparr>) (Done ())"
    "switched_to cpu x (set_sched_state (current (sch c1) cpu) PROC_WAITING (sch c1)) s'"
    "sched_inv s' (Q1(cpu := R))" "top_running s' (Q1(cpu := R)) cpu"
    "idle_on s' (Q1(cpu := R)) cpu (current (sch c1) cpu)" "in_ipq s' cpu = []"
    "left_at In_relinquish (current (sch c1) cpu) (sch c1) s'"
    using switching_relinquish [OF r(8) cpu m [unfolded xR] prep] by (elim exE conjE) (rule that)
  have Q1: "Q1(cpu := R) = Q(cpu := R)" by (simp add: r(7))
  let ?c' = "c1\<lparr>sch := s'\<rparr>"
  have pf: "p_pri (procs s' y) = p_pri (procs (sch c1) y)" "p_pun (procs s' y) = p_pun (procs (sch c1) y)" for y
    using s'(2) by (simp_all add: switched_to_def)
  have k: "key_of s' = ?k" by (simp add: key_of_def fun_eq_iff pf)
  have pun: "p_pun (proc_of ?c' b) = p_pun (proc_of c1 b)" for b by (simp add: proc_of_def pf)
  have run: "construct cpu p barr code userArgs stacksize pri pun nc c = Paused ?c' (Done ())"
    by (simp add: construct_def r(1) s'(1))
  have lv: "live ?c' (Q(cpu := R)) (L \<union> set (zip bs (map cls ?is)))"
  proof -
    have "members s' (Q(cpu := R)) q \<subseteq> members (sch c1) Q1 q" if q: "q < NPUN" for q
    proof (cases "q = cpu")
      case True
      have "set (x # R) = set (merged (sch c1) cpu (Q1 cpu))" using m xR by simp
      then show ?thesis using s'(2,6) True by (auto simp: members_def switched_to_def)
    next
      case False
      then show ?thesis using s'(2) by (simp add: members_def switched_to_def r(7))
    qed
    moreover have "p_index (procs s' y) = p_index (procs (sch c1) y)" for y using s'(7) by (simp add: left_at_def)
    ultimately show ?thesis using r(12) unfolding live_def by (fastforce simp: proc_of_def)
  qed
  have fr: "chans ?c' = chans c" "heap ?c' = heap c" "claimed ?c' = (claimed c)(Mutex_mem := False)"
    "uc_point (ctxs s' (proc_stack p)) = In_relinquish" "p_index (procs s' p) = p_index (proc_of c p)"
  proof -
    show "chans ?c' = chans c" "heap ?c' = heap c" by (simp, subst r(2), simp add: par_barr_init_def)+
    show "claimed ?c' = (claimed c)(Mutex_mem := False)" using r(13) by simp
    show "uc_point (ctxs s' (proc_stack p)) = In_relinquish" using s'(7) st p by (simp add: left_at_def)
    show "p_index (procs s' p) = p_index (proc_of c p)"
      using s'(7) r(3) pb by (simp add: left_at_def spawned_def proc_of_def)
  qed
  have bar: "barriers ?c' = (barriers c)(barr := \<lparr>children = sint nc, parent = p\<rparr>)"
  proof -
    have "barriers c1 = barriers ?c" by (subst r(2)) simp
    then show ?thesis by simp
  qed
  have len: "length bs = unat nc" using list_all2_lengthD [OF r(6)] by simp
  have ch: "\<forall>i < unat nc. child_at code barr userArgs pri' pun' (sch ?c') i (bs ! i)"
  proof (intro allI impI)
    fix i assume i: "i < unat nc"
    have "child_at code barr userArgs pri' pun' (sch c1) i (bs ! i)"
      using list_all2_nthD [OF r(6), of i] i by simp
    moreover have "bs ! i \<noteq> p" using i len pb nth_mem [of i bs] by auto
    ultimately show "child_at code barr userArgs pri' pun' (sch ?c') i (bs ! i)"
      using s'(7) p st by (simp add: child_at_def pf left_at_def proc_stack_def)
  qed
  have cur: "current s' cpu = x" "\<forall>q. q \<noteq> cpu \<longrightarrow> current s' q = current (sch c) q"
    "\<forall>q. q \<noteq> cpu \<longrightarrow> in_ipq s' q = in_ipq (sch c1) q"
    "p_sched_state (proc_of ?c' p) = PROC_WAITING"
    using s'(2) st p by (simp_all add: switched_to_def proc_of_def)
  have old: "\<forall>q < NPUN. \<forall>x \<in> members (sch c) Q q. key_of s' x = key_of (sch c) x"
  proof (intro allI impI ballI)
    fix q x assume "q < NPUN" "x \<in> members (sch c) Q q"
    then have "x \<notin> set bs" using r(5) by auto
    then show "key_of s' x = key_of (sch c) x" unfolding k using r(3) by (simp add: spawned_def key_of_def)
  qed
  show ?thesis
  proof (rule exI [of _ ?c'], rule exI [of _ F1], rule exI [of _ bs], rule exI [of _ R], intro conjI)
    show "current (sch ?c') cpu # R = sort_key (key_of (sch ?c'))
      (Q cpu @ filter (\<lambda>b. p_pun (proc_of ?c' b) = cpu) bs @ in_ipq (sch c) cpu)"
      using xR cur(1) by (simp add: k pun)
    show "\<forall>q. q \<noteq> cpu \<longrightarrow> in_ipq (sch ?c') q = in_ipq (sch c) q @ filter (\<lambda>b. p_pun (proc_of ?c' b) = q) bs"
      using cur(3) r(10) by (simp add: pun)
  qed (use run bar len r(4,5,11,14) ch s'(3-6) cur(2,4) old p st lv fr in \<open>simp_all add: Q1 proc_of_def\<close>)
qed

subsection \<open>The constructs\<close>

lemma par_construct:
  assumes "current (sch c) cpu \<noteq> NULL"
  shows "par cpu barr code ua ss nc c = construct cpu (current (sch c) cpu) barr code ua ss (\<lambda>i. p_pri) (\<lambda>i. p_pun) nc c"
    "placed_par cpu barr code ua ss pun nc c =
      construct cpu (current (sch c) cpu) barr code ua ss (\<lambda>i. p_pri) (\<lambda>i _. pun i) nc c"
  using assms by (simp_all add: par_def placed_par_def construct_def Let_def)

lemma par_pri_construct:
  assumes "current (sch c) cpu \<noteq> NULL" and "unat nc \<le> PRI_PROCS"
    and "unat (pri_level (p_pri (proc_of c (current (sch c) cpu)))) < PRI_LEVELS"
  defines "prio \<equiv> child_priority (p_pri (proc_of c (current (sch c) cpu)))"
  shows "par_pri cpu barr code ua ss nc c =
      construct cpu (current (sch c) cpu) barr code ua ss (\<lambda>i _. prio i) (\<lambda>i. p_pun) nc c"
    "placed_par_pri cpu barr code ua ss pun nc c =
      construct cpu (current (sch c) cpu) barr code ua ss (\<lambda>i _. prio i) (\<lambda>i _. pun i) nc c"
  using assms by (simp_all add: par_pri_def placed_par_pri_def construct_def prio_def Let_def proc_of_def)

lemma children_local:
  assumes "length bs = n" and "\<forall>i < n. child_at code barr ua pri (\<lambda>_. cpu) (sch c) i (bs ! i)"
  shows "filter (\<lambda>b. p_pun (proc_of c b) = cpu) bs = bs"
  using assms by (intro filter_True) (auto simp: in_set_conv_nth child_at_def proc_of_def)

text \<open>
  The construct \<^verbatim>\<open>par\<close>, with memory for its children: the parent leaves a barrier that
  counts all children and waits, in no queue; there is one new process per child, with the parent's
  priority and the child's code, argument and barrier as its entry; the ready queue of the
  processor is the stable sort of the former one, the children in the order of their indices, and
  what came from the other processor; its first process runs.
\<close>

theorem par_forks_children:
  assumes "sched_inv (sch c) Q" and "mem_ok lo c F L" and "live c Q L" and "cpu < NPUN"
    and "room_for (map cls [0 ..< unat nc]) c" and "\<not> claimed c Mutex_mem"
    and "\<forall>i < unat nc. find_mem_index (stacksize i + sizeof_Process) = Inr (cls i)" and "Q cpu \<noteq> []"
  defines "p \<equiv> current (sch c) cpu"
  shows "\<exists>c' F' bs R. par cpu barr code userArgs stacksize nc c = Paused c' (Done ()) \<and>
    barriers c' = (barriers c)(barr := \<lparr>children = sint nc, parent = p\<rparr>) \<and>
    length bs = unat nc \<and> distinct bs \<and> (\<forall>q < NPUN. set bs \<inter> members (sch c) Q q = {}) \<and>
    (\<forall>i < unat nc. child_at code barr userArgs (\<lambda>_. p_pri (proc_of c p)) (\<lambda>_. cpu) (sch c') i (bs ! i)) \<and>
    current (sch c') cpu # R = sort_key (key_of (sch c')) (Q cpu @ bs @ in_ipq (sch c) cpu) \<and>
    sched_inv (sch c') (Q(cpu := R)) \<and> idle_on (sch c') (Q(cpu := R)) cpu p \<and>
    p_sched_state (proc_of c' p) = PROC_WAITING \<and>
    mem_ok lo c' F' (L \<union> set (zip bs (map cls [0 ..< unat nc])))"
proof -
  have p: "p \<noteq> NULL" and pc: "current (sch c) cpu = p"
    using sched_invD(2) [OF assms(1,4)] by (simp_all add: p_def)
  have fns: "\<forall>i < unat nc. cpu < NPUN \<and> (\<forall>pr. p_pri pr = p_pri (proc_of c p) \<longrightarrow> p_pun pr = cpu \<longrightarrow>
      p_pri pr = p_pri (proc_of c p) \<and> p_pun pr = cpu)" using assms(4) by simp
  have t: "\<forall>q < NPUN. q \<noteq> cpu \<longrightarrow> q \<in> (\<lambda>_. cpu) ` {..< unat nc} \<longrightarrow> thread_id (hw (sch c)) q \<noteq> None \<and>
      length (in_ipq (sch c) q) + length (filter (\<lambda>i. cpu = q) [0 ..< unat nc]) < QSIZE" by auto
  obtain c' F' bs R where r: "construct cpu p barr code userArgs stacksize (\<lambda>i. p_pri) (\<lambda>i. p_pun) nc c = Paused c' (Done ())"
    "barriers c' = (barriers c)(barr := \<lparr>children = sint nc, parent = p\<rparr>)"
    "length bs = unat nc" "distinct bs" "\<forall>q < NPUN. set bs \<inter> members (sch c) Q q = {}"
    "\<forall>i < unat nc. child_at code barr userArgs (\<lambda>_. p_pri (proc_of c p)) (\<lambda>_. cpu) (sch c') i (bs ! i)"
    "current (sch c') cpu # R = sort_key (key_of (sch c'))
      (Q cpu @ filter (\<lambda>b. p_pun (proc_of c' b) = cpu) bs @ in_ipq (sch c) cpu)"
    "sched_inv (sch c') (Q(cpu := R))" "idle_on (sch c') (Q(cpu := R)) cpu p"
    "p_sched_state (proc_of c' p) = PROC_WAITING"
    "mem_ok lo c' F' (L \<union> set (zip bs (map cls [0 ..< unat nc])))"
    using construct_ok [where pri = "\<lambda>i. p_pri" and pun = "\<lambda>i. p_pun" and pri' = "\<lambda>_. p_pri (proc_of c p)" and
        pun' = "\<lambda>_. cpu" and cls = cls and stacksize = stacksize and barr = barr and code = code and userArgs = userArgs,
        OF assms(1-6) pc assms(7) fns t assms(8)] by (elim exE conjE) (rule that)
  show ?thesis using r(7) p unfolding children_local [OF r(3,6)]
    by - (rule exI [of _ c'], rule exI [of _ F'], rule exI [of _ bs], rule exI [of _ R],
      intro conjI r(2-6,8-11), simp_all add: par_construct p_def r(1) [unfolded p_def])
qed

lemma sample_class:
  "find_mem_index (1024 + sizeof_Process) = Inr 11" "class_size 11 = 1536" "11 < NCLASS"
  by (simp_all add: find_mem_index_def procmemlen_def sizeof_Process_def class_size_def NCLASS_def)

lemma sample_room: "room_for [11, 11] sample_roomy"
  using sample_class by (simp add: room_for_def sample_roomy_def sample_cxp_def)

theorem par_forks_children_witness:
  "\<exists>c'. par 0 0x2000 (\<lambda>_. 0x8000) (\<lambda>i. of_nat i) (\<lambda>_. 1024) 2 sample_roomy = Paused c' (Done ()) \<and>
    children (barriers c' 0x2000) = 2 \<and> p_sched_state (proc_of c' 0x300) = PROC_WAITING"
proof -
  have h: "room_for (map (\<lambda>_. 11) [0 ..< unat (2 :: uint32)]) sample_roomy" "(0 :: pun) < NPUN"
    "sample_queues 0 \<noteq> []" "current (sch sample_roomy) 0 = 0x300"
    using sample_room
    by (simp_all add: upt_rec NPUN_def sample_queues_def sample_roomy_def sample_cxp_def sample_sched_def)
  have f: "\<forall>i < unat (2 :: uint32). find_mem_index ((\<lambda>_. 1024) i + sizeof_Process) = Inr ((\<lambda>_. 11) i)"
    using sample_class by simp
  show ?thesis
    using par_forks_children [where stacksize = "\<lambda>_. 1024" and cls = "\<lambda>_. 11" and code = "\<lambda>_. 0x8000" and
        userArgs = of_nat and barr = "0x2000", OF sample_roomy_ok(1,4,5) h(2,1) sample_roomy_ok(3) f h(3)]
    unfolding h(4) by (elim exE conjE) (intro exI conjI, assumption, simp_all)
qed

text \<open>The children of one construct, in the order of their indices, get strictly lower priorities.\<close>

lemma children_ranked:
  assumes "unat (pri_level p) < 4" and "pval p + pri_delta (unat (pri_level p)) \<le> 4096" and "i < j" and "j < 8"
  shows "pri_gt (child_priority p i) (child_priority p j)"
proof -
  have "pri_delta (Suc (unat (pri_level p))) > 0" using assms(1) by (intro pri_delta_pos) simp
  then show ?thesis using assms child_priority_pval [OF refl assms(1) _ assms(2)] by (simp add: pri_iffs)
qed

lemma filter_sorted_part:
  assumes "set bs \<inter> set xs = {}" and "set bs \<inter> set zs = {}" and "set ys \<subseteq> set bs" and "sorted (map k ys)"
  shows "filter (\<lambda>x. x \<in> set bs) (sort_key k (xs @ ys @ zs)) = ys"
proof -
  have "filter (\<lambda>x. x \<in> set bs) xs = []" "filter (\<lambda>x. x \<in> set bs) zs = []" "filter (\<lambda>x. x \<in> set bs) ys = ys"
    using assms(1-3) by (auto simp: filter_empty_conv intro!: filter_True)
  then show ?thesis using assms(4) by (simp add: filter_sort sort_key_id_if_sorted)
qed

lemma children_sorted:
  assumes n: "length bs \<le> 8" and lv: "unat (pri_level p) < 4" "pval p + pri_delta (unat (pri_level p)) \<le> 4096"
    and ch: "\<forall>i < length bs. child_at code barr ua (child_priority p) pun s i (bs ! i)"
  shows "sorted (map (key_of s) (filter P bs))"
proof -
  have "sorted_wrt (\<lambda>x y. key_of s x \<le> key_of s y) bs"
    unfolding sorted_wrt_iff_nth_less
  proof (intro allI impI)
    fix i j assume "i < j" "j < length bs"
    then show "key_of s (bs ! i) \<le> key_of s (bs ! j)"
      using children_ranked [OF lv, of i j] ch n by (auto simp: child_at_def key_of_def pri_iffs)
  qed
  then show ?thesis by (simp add: sorted_map sorted_wrt_filter)
qed

text \<open>
  C23. The construct \<^verbatim>\<open>placed_par_pri\<close> with at most eight children, below the fourth
  level, with memory for the children and room in the interprocessor queues: the children get
  strictly falling priorities in the order of their indices, all on the next level; each one is in
  the ready queue of the parent's processor or has been sent to its own; in both places the
  children stand in the order of their indices; the parent waits for all of them.
\<close>

theorem placed_par_pri_forks:
  assumes "sched_inv (sch c) Q" and "mem_ok lo c F L" and "live c Q L" and "cpu < NPUN"
    and "room_for (map cls [0 ..< unat nc]) c" and "\<not> claimed c Mutex_mem"
    and "\<forall>i < unat nc. find_mem_index (stacksize i + sizeof_Process) = Inr (cls i)" and "Q cpu \<noteq> []"
    and n: "unat nc \<le> 8" and pl: "\<forall>i < unat nc. pun i < NPUN"
    and t: "\<forall>q < NPUN. q \<noteq> cpu \<longrightarrow> thread_id (hw (sch c)) q \<noteq> None \<and>
      length (in_ipq (sch c) q) + length (filter (\<lambda>i. pun i = q) [0 ..< unat nc]) < QSIZE"
  defines "p \<equiv> current (sch c) cpu"
  defines "ppri \<equiv> p_pri (proc_of c p)"
  assumes lv: "unat (pri_level ppri) < 4" "pval ppri + pri_delta (unat (pri_level ppri)) \<le> 4096"
  shows "\<exists>c' bs R. placed_par_pri cpu barr code userArgs stacksize pun nc c = Paused c' (Done ()) \<and>
    barriers c' = (barriers c)(barr := \<lparr>children = sint nc, parent = p\<rparr>) \<and>
    length bs = unat nc \<and> distinct bs \<and> (\<forall>q < NPUN. set bs \<inter> members (sch c) Q q = {}) \<and>
    (\<forall>i < unat nc. child_at code barr userArgs (child_priority ppri) pun (sch c') i (bs ! i)) \<and>
    (\<forall>i j. i < j \<and> j < unat nc \<longrightarrow> pri_gt (p_pri (proc_of c' (bs ! i))) (p_pri (proc_of c' (bs ! j)))) \<and>
    sched_inv (sch c') (Q(cpu := R)) \<and>
    filter (\<lambda>x. x \<in> set bs) (current (sch c') cpu # R) = filter (\<lambda>b. p_pun (proc_of c' b) = cpu) bs \<and>
    (\<forall>q. q \<noteq> cpu \<longrightarrow> in_ipq (sch c') q = in_ipq (sch c) q @ filter (\<lambda>b. p_pun (proc_of c' b) = q) bs) \<and>
    idle_on (sch c') (Q(cpu := R)) cpu p \<and> p_sched_state (proc_of c' p) = PROC_WAITING"
proof -
  have p: "p \<noteq> NULL" and pc: "current (sch c) cpu = p"
    using sched_invD(2) [OF assms(1,4)] by (simp_all add: p_def)
  have fns: "\<forall>i < unat nc. pun i < NPUN \<and> (\<forall>pr. p_pri pr = p_pri (proc_of c p) \<longrightarrow> p_pun pr = cpu \<longrightarrow>
      child_priority ppri i = child_priority ppri i \<and> pun i = pun i)" using pl by simp
  have t': "\<forall>q < NPUN. q \<noteq> cpu \<longrightarrow> q \<in> pun ` {..< unat nc} \<longrightarrow> thread_id (hw (sch c)) q \<noteq> None \<and>
      length (in_ipq (sch c) q) + length (filter (\<lambda>i. pun i = q) [0 ..< unat nc]) < QSIZE" using t by blast
  obtain c' F' bs R where r: "construct cpu p barr code userArgs stacksize (\<lambda>i _. child_priority ppri i) (\<lambda>i _. pun i) nc c =
      Paused c' (Done ())"
    "barriers c' = (barriers c)(barr := \<lparr>children = sint nc, parent = p\<rparr>)"
    "length bs = unat nc" "distinct bs" "\<forall>q < NPUN. set bs \<inter> members (sch c) Q q = {}"
    "\<forall>i < unat nc. child_at code barr userArgs (child_priority ppri) pun (sch c') i (bs ! i)"
    "current (sch c') cpu # R = sort_key (key_of (sch c'))
      (Q cpu @ filter (\<lambda>b. p_pun (proc_of c' b) = cpu) bs @ in_ipq (sch c) cpu)"
    "sched_inv (sch c') (Q(cpu := R))"
    "\<forall>q. q \<noteq> cpu \<longrightarrow> in_ipq (sch c') q = in_ipq (sch c) q @ filter (\<lambda>b. p_pun (proc_of c' b) = q) bs"
    "idle_on (sch c') (Q(cpu := R)) cpu p" "p_sched_state (proc_of c' p) = PROC_WAITING"
    using construct_ok [where pri = "\<lambda>i _. child_priority ppri i" and pun = "\<lambda>i _. pun i" and pri' = "child_priority ppri" and
        pun' = pun and cls = cls and stacksize = stacksize and barr = barr and code = code and userArgs = userArgs,
        OF assms(1-6) pc assms(7) fns t' assms(8)] by (elim exE conjE) (rule that)
  have "set bs \<inter> members (sch c) Q cpu = {}" using r(5) assms(4) by simp
  then have dj: "set bs \<inter> set (Q cpu) = {}" "set bs \<inter> set (in_ipq (sch c) cpu) = {}" by (auto simp: members_def)
  have "sorted (map (key_of (sch c')) (filter (\<lambda>b. p_pun (proc_of c' b) = cpu) bs))"
    using children_sorted [OF _ lv] r(3,6) n by simp
  then have order: "filter (\<lambda>x. x \<in> set bs) (current (sch c') cpu # R) = filter (\<lambda>b. p_pun (proc_of c' b) = cpu) bs"
    unfolding r(7) using dj by (intro filter_sorted_part) auto
  have ranked: "\<forall>i j. i < j \<and> j < unat nc \<longrightarrow> pri_gt (p_pri (proc_of c' (bs ! i))) (p_pri (proc_of c' (bs ! j)))"
    using children_ranked [OF lv] r(6) n by (simp add: child_at_def proc_of_def)
  have "placed_par_pri cpu barr code userArgs stacksize pun nc c = Paused c' (Done ())"
    using par_pri_construct(2) [of c cpu nc] p n lv(1) r(1)
    by (simp add: p_def ppri_def PRI_PROCS_def PRI_LEVELS_def)
  then show ?thesis
    by - (rule exI [of _ c'], rule exI [of _ bs], rule exI [of _ R], intro conjI r(2-6,8-11) ranked order)
qed

definition sample_placed :: cxp where
  "sample_placed = put_sched (on_hw (\<lambda>h. h\<lparr>thread_id := Map.empty(0 \<mapsto> 7, 1 \<mapsto> 8)\<rparr>)) sample_roomy"

lemma sample_placed_ok:
  "sched_inv (sch sample_placed) sample_queues" "\<not> claimed sample_placed m"
  "mem_ok 1 sample_placed (\<lambda>_. []) ((\<lambda>a. (a, 3)) ` {0x100, 0x200, 0x300, 0x400, 0x500})"
  "live sample_placed sample_queues ((\<lambda>a. (a, 3)) ` {0x100, 0x200, 0x300, 0x400, 0x500})"
  "room_for [11, 11] sample_placed" "current (sch sample_placed) 0 = 0x300" "proc_of sample_placed = proc_of sample_roomy"
  using sample_roomy_ok(1,4,5) sample_roomy_ok(3) [of m] sample_room
  by (simp_all add: sample_placed_def put_sched_def on_hw_def live_def proc_of_def fun_eq_iff)
    (simp add: sample_roomy_def sample_cxp_def sample_sched_def)

theorem placed_par_pri_forks_witness:
  "\<exists>c' b. placed_par_pri 0 0x2000 (\<lambda>_. 0x8000) of_nat (\<lambda>_. 1024) (\<lambda>i. of_nat i) 2 sample_placed = Paused c' (Done ()) \<and>
    in_ipq (sch c') 1 = [b] \<and> p_pri (proc_of c' b) = child_priority (p_pri (proc_of sample_roomy 0x300)) 1"
proof -
  have h: "room_for (map (\<lambda>_. 11) [0 ..< unat (2 :: uint32)]) sample_placed" "(0 :: pun) < NPUN"
    "sample_queues 0 \<noteq> []"
    using sample_placed_ok(5) by (simp_all add: upt_rec NPUN_def sample_queues_def)
  have f: "\<forall>i < unat (2 :: uint32). find_mem_index ((\<lambda>_. 1024) i + sizeof_Process) = Inr ((\<lambda>_. 11) i)"
    using sample_class by simp
  have n: "unat (2 :: uint32) \<le> 8" "\<forall>i < unat (2 :: uint32). of_nat i < NPUN"
    by (auto simp: NPUN_def less_2_cases_iff)
  have i: "in_ipq (sch sample_placed) q = (if q = 0 then [0x500] else [])" for q
    using sample_in_ipq by (simp add: sample_placed_def put_sched_def sample_roomy_def sample_cxp_def on_hw_def)
  have t: "\<forall>q < NPUN. q \<noteq> 0 \<longrightarrow> thread_id (hw (sch sample_placed)) q \<noteq> None \<and>
      length (in_ipq (sch sample_placed) q) + length (filter (\<lambda>i. of_nat i = q) [0 ..< unat (2 :: uint32)]) < QSIZE"
    by (simp add: less_NPUN i upt_rec QSIZE_def) (simp add: sample_placed_def put_sched_def)
  have lv: "unat (pri_level (p_pri (proc_of sample_placed (current (sch sample_placed) 0)))) < 4"
    "pval (p_pri (proc_of sample_placed (current (sch sample_placed) 0))) +
      pri_delta (unat (pri_level (p_pri (proc_of sample_placed (current (sch sample_placed) 0))))) \<le> 4096"
    by (simp_all add: sample_placed_ok(6,7))
      (simp_all add: proc_of_def sample_roomy_def sample_cxp_def sample_sched_def sample_process_def pri_level_def pval_def
        PRI_LVL_MASK_def PRI_VAL_MASK_def)
  show ?thesis
    using placed_par_pri_forks [where stacksize = "\<lambda>_. 1024" and cls = "\<lambda>_. 11" and code = "\<lambda>_. 0x8000" and
        userArgs = of_nat and barr = "0x2000" and pun = of_nat, OF sample_placed_ok(1,3,4) h(2,1) sample_placed_ok(2) f h(3) n t lv]
    unfolding sample_placed_ok(6,7)
  proof (elim exE conjE)
    fix c' bs R
    assume len: "length bs = unat (2 :: uint32)" and run: "placed_par_pri 0 0x2000 (\<lambda>_. 0x8000) of_nat (\<lambda>_. 1024) of_nat 2 sample_placed =
        Paused c' (Done ())"
      and ch: "\<forall>i < unat (2 :: uint32). child_at (\<lambda>_. 0x8000) 0x2000 of_nat
        (child_priority (p_pri (proc_of sample_roomy 0x300))) of_nat (sch c') i (bs ! i)"
      and q: "\<forall>q. q \<noteq> 0 \<longrightarrow> in_ipq (sch c') q = in_ipq (sch sample_placed) q @ filter (\<lambda>b. p_pun (proc_of c' b) = q) bs"
    have "length bs = Suc (Suc 0)" using len by simp
    then obtain x y where bs: "bs = [x, y]" by (auto simp: length_Suc_conv)
    have "child_at (\<lambda>_. 0x8000) 0x2000 of_nat (child_priority (p_pri (proc_of sample_roomy 0x300))) of_nat (sch c') 0 x"
      "child_at (\<lambda>_. 0x8000) 0x2000 of_nat (child_priority (p_pri (proc_of sample_roomy 0x300))) of_nat (sch c') 1 y"
      using ch [rule_format, of 0] ch [rule_format, of 1] bs by simp_all
    then show ?thesis using run q [rule_format, of 1] bs
      by - (rule exI [of _ c'], rule exI [of _ y], simp add: child_at_def proc_of_def i)
  qed
qed

end
