(* ===== verification/System.thy ===== *)
theory System
  imports Run_Correct
begin

text \<open>
  Several processes on one processor. The operations of the other theories end, or pause, in the
  state in which another process runs; here a machine keeps what is left of the code of every
  process that has lost the processor, and goes on with the process whose context the processor
  has entered. With it the parallel construct, the channels, the barrier and the termination are put
  together: two children of a construct that communicate.
\<close>

subsection \<open>The machine\<close>

record machine =
  m_proc :: addr  \<comment> \<open>the process that executes\<close>
  m_run :: "unit run"  \<comment> \<open>what is left of its code\<close>
  m_saved :: "addr \<Rightarrow> cxp \<Rightarrow> unit run"  \<comment> \<open>what is left of the code of the others\<close>

text \<open>
  The processor has entered a context: a new child begins with \<^verbatim>\<open>run_in_par\<close>, any other
  process goes on where it lost the processor. The idle process only waits for interrupts.
\<close>

definition enter :: "(addr \<Rightarrow> addr \<Rightarrow> cxp \<Rightarrow> unit run) \<Rightarrow> addr \<Rightarrow> pun \<Rightarrow> (addr \<Rightarrow> cxp \<Rightarrow> unit run) \<Rightarrow> cxp \<Rightarrow>
    machine option" where
  "enter user base cpu saved c =
     (let p = current (sch c) cpu in
      case uc_point (ctxs (sch c) (executing (sch c) cpu)) of
        At_entry code a1 a2 a3 \<Rightarrow>
          (if code = Run_in_par
           then Some \<lparr>m_proc = p, m_run = run_in_par user base cpu a1 a2 a3 c, m_saved = saved\<rparr> else None)
      | _ \<Rightarrow> Some \<lparr>m_proc = p, m_run = saved p c, m_saved = saved\<rparr>)"

text \<open>
  A process has paused, or it has terminated, so that another one is current. Otherwise the code
  has come to its end, or failed.
\<close>

definition m_next :: "(addr \<Rightarrow> addr \<Rightarrow> cxp \<Rightarrow> unit run) \<Rightarrow> addr \<Rightarrow> pun \<Rightarrow> machine \<Rightarrow> machine option" where
  "m_next user base cpu m =
     (case m_run m of
        Fail e \<Rightarrow> None
      | Paused c k \<Rightarrow> enter user base cpu ((m_saved m)(m_proc m := k)) c
      | Done u c \<Rightarrow> if current (sch c) cpu = m_proc m then None else enter user base cpu (m_saved m) c)"

primrec m_after :: "(addr \<Rightarrow> addr \<Rightarrow> cxp \<Rightarrow> unit run) \<Rightarrow> addr \<Rightarrow> pun \<Rightarrow> nat \<Rightarrow> machine \<Rightarrow> machine option" where
  "m_after user base cpu 0 m = Some m"
| "m_after user base cpu (Suc n) m = Option.bind (m_next user base cpu m) (m_after user base cpu n)"

subsection \<open>What a step keeps\<close>

lemma same_butD:
  assumes "same_but X s s'" and "y \<notin> X"
  shows "ctxs s' (proc_stack y) = ctxs s (proc_stack y)" "p_pri (procs s' y) = p_pri (procs s y)"
    "p_pun (procs s' y) = p_pun (procs s y)" "p_index (procs s' y) = p_index (procs s y)"
    "p_stackptr (procs s' y) = p_stackptr (procs s y)" "p_alt_state (procs s' y) = p_alt_state (procs s y)"
    "p_sched_state (procs s' y) = p_sched_state (procs s y)" "key_of s' y = key_of s y"
  using assms by (simp_all add: same_but_def key_of_def)

lemma same_but_trans: "same_but X s t \<Longrightarrow> same_but Y t u \<Longrightarrow> same_but (X \<union> Y) s u"
  by (simp add: same_but_def)

lemma same_but_mono: "same_but X s t \<Longrightarrow> X \<subseteq> Y \<Longrightarrow> same_but Y s t"
  by (auto simp: same_but_def)

text \<open>The invariants of all components, with nothing under way between the processors.\<close>

definition at_ease :: "nat \<Rightarrow> pun \<Rightarrow> cxp \<Rightarrow> (pun \<Rightarrow> addr list) \<Rightarrow> (nat \<Rightarrow> addr list) \<Rightarrow> (addr \<times> nat) set \<Rightarrow> bool" where
  "at_ease lo cpu c Q F L \<longleftrightarrow> sched_inv (sch c) Q \<and> mem_ok lo c F L \<and> live c Q L \<and> in_ipq (sch c) cpu = [] \<and>
     \<not> claimed c Mutex_mem \<and> \<not> claimed c (Mutex_term cpu)"

lemma merged_no_ipq:
  assumes "sched_inv s Q" and "cpu < NPUN" and "in_ipq s cpu = []"
  shows "merged s cpu (Q cpu) = Q cpu"
  using sched_invD(8) [OF assms(1,2)] assms(3) by (simp add: merged_def sort_key_id_if_sorted)

text \<open>The context that the processor has entered is that of the current process.\<close>

lemma entered:
  assumes "sched_inv (sch c) Q" and "cpu < NPUN" and "uc_point (ctxs (sch c) (proc_stack (current (sch c) cpu))) = pt"
  shows "uc_point (ctxs (sch c) (executing (sch c) cpu)) = pt"
proof -
  have "running_ok (sch c) cpu" using assms(1,2) by (simp add: sched_inv_def)
  then show ?thesis using sched_invD(6) [OF assms(1,2), of "current (sch c) cpu"] assms(3)
    by (simp add: running_ok_def members_def)
qed

lemma insert_first: "\<forall>y \<in> set ys. k x < k y \<Longrightarrow> sorted (map k ys) \<Longrightarrow> sort_key k (ys @ [x]) = x # ys"
proof (induction ys)
  case (Cons y ys)
  then show ?case by (cases ys) auto
qed simp

lemma two_first:
  assumes "k x = m" and "k y = m" and "\<forall>z \<in> set (us @ vs). m < k z"
  shows "sort_key k (us @ [x, y] @ vs) = x # y # sort_key k (us @ vs)"
  using assms(3)
proof (induction us)
  case Nil
  have "insort_key k z zs = z # zs" if "\<forall>w \<in> set zs. k z \<le> k w" for z zs
    using that by (cases zs) auto
  from this [of "sort_key k vs" y] show ?case using Nil assms(1,2) by (simp add: less_imp_le)
qed (use assms(1,2) in auto)

text \<open>Making a process of equal or lower priority ready puts it into the queue.\<close>

lemma schedule_behind:
  assumes inv: "sched_inv s Q" and cpu: "cpu < NPUN" and x: "idle_on s Q cpu x"
    and k: "key_of s (current s cpu) \<le> key_of s x"
  shows "\<exists>s'. schedule cpu x s = Inr s' \<and> steady s s' \<and> in_ipq s' = in_ipq s \<and>
    sched_inv s' (Q(cpu := enq_list s x (Q cpu)))"
proof -
  let ?s = "on_hw (disable cpu) s"
  obtain s1 where s1: "schedule0 In_schedule cpu x ?s = Inr (False, s1)" "links_only ?s s1" "in_ipq s1 = in_ipq s"
    "sched_inv s1 (Q(cpu := enq_list s x (Q cpu)))"
    using schedule0_local [where site = In_schedule, of ?s Q cpu x] inv cpu x k
    by (auto simp: on_hw_eq cong: if_cong)
  let ?s' = "on_hw (enable cpu) s1"
  have "schedule cpu x s = Inr ?s'" using s1(1) by (simp add: schedule_def)
  moreover have "steady s ?s'" using s1(2) by (simp add: steady_def links_only_def on_hw_eq enable_def disable_def)
  ultimately show ?thesis using s1(3,4) by (intro exI [of _ ?s']) (simp add: on_hw_eq)
qed

lemma live_keep:
  assumes "live c Q L" and "\<And>q. q < NPUN \<Longrightarrow> members (sch c') Q' q \<subseteq> insert x (members (sch c) Q q)"
    and "\<And>y. p_index (procs (sch c') y) = p_index (procs (sch c) y)" and "(x, unat (p_index (proc_of c x))) \<in> L"
  shows "live c' Q' L"
  using assms unfolding live_def by (fastforce simp: proc_of_def)

lemma live_current: "live c Q L \<Longrightarrow> cpu < NPUN \<Longrightarrow> x = current (sch c) cpu \<Longrightarrow> (x, unat (p_index (proc_of c x))) \<in> L"
  by (simp add: live_def members_def)

lemma set_state_fields:
  "p_stackptr (procs (set_sched_state p st s) y) = p_stackptr (procs s y)"
  "y \<noteq> p \<Longrightarrow> p_sched_state (procs (set_sched_state p st s) y) = p_sched_state (procs s y)"
  by (simp_all add: set_sched_state_def)

lemma kernel_more [simp]:
  "mem_ok lo (release_mutex m c) F L = mem_ok lo c F L" "mem_ok lo (set_chan ch v c) F L = mem_ok lo c F L"
  "mem_ok lo (c\<lparr>heap := h\<rparr>) F L = mem_ok lo c F L" "mem_ok lo (c\<lparr>barriers := bs\<rparr>) F L = mem_ok lo c F L"
  "barriers (release_mutex m c) = barriers c" "barriers (set_chan ch v c) = barriers c"
  by (simp_all add: release_mutex_def set_chan_def mem_ok_def)

subsection \<open>The steps\<close>

text \<open>The first partner waits in the channel.\<close>

lemma wait_step:
  assumes ease: "at_ease lo cpu c Q F L" and cpu: "cpu < NPUN" and Q: "Q cpu = y # ys"
    and ch: "waiting (chans c ch) = NULL" "\<not> claimed c (Mutex_chan ch)" and op: "op \<in> {chan_in, chan_out}"
  defines "x \<equiv> current (sch c) cpu"
  shows "\<exists>c'. op cpu ch b len c = Paused c' (Done ()) \<and> at_ease lo cpu c' (Q(cpu := ys)) F L \<and>
    current (sch c') cpu = y \<and> chans c' = (chans c)(ch := \<lparr>waiting = x, io_ptr = b\<rparr>) \<and> heap c' = heap c \<and>
    barriers c' = barriers c \<and> claimed c' = (claimed c)(Mutex_chan ch := False) \<and> same_but {x} (sch c) (sch c') \<and>
    key_of (sch c') = key_of (sch c) \<and> p_index (proc_of c' x) = p_index (proc_of c x) \<and>
    idle_on (sch c') (Q(cpu := ys)) cpu x \<and> p_sched_state (proc_of c' x) = PROC_WAITING \<and>
    uc_point (ctxs (sch c') (proc_stack x)) = In_relinquish"
proof -
  note E = ease [unfolded at_ease_def]
  have inv: "sched_inv (sch c) Q" and lv: "live c Q L" using E by blast+
  let ?c = "release_mutex (Mutex_chan ch) (PREPARE_TO_WAIT x (set_chan ch \<lparr>waiting = x, io_ptr = b\<rparr>
    (c\<lparr>claimed := (claimed c)(Mutex_chan ch := True)\<rparr>)))"
  have run: "op cpu ch b len c = switching cpu (relinquish cpu) ?c"
    using in_finds_none [OF inv cpu ch(2,1), of b len] op by (auto simp: x_def Let_def)
  have m: "merged (sch ?c) cpu (Q cpu) = y # ys"
    using merged_no_ipq [OF inv cpu] E Q by simp
  have pre: "sched_inv (sch ?c) Q" "p_sched_state (proc_of ?c (current (sch ?c) cpu)) = PROC_PREPARING_TO_WAIT"
    using inv by (simp_all add: proc_of_def x_def)
  obtain s' where s': "switching cpu (relinquish cpu) ?c = Paused (?c\<lparr>sch := s'\<rparr>) (Done ())"
    "switched_to cpu y (set_sched_state (current (sch ?c) cpu) PROC_WAITING (sch ?c)) s'" "sched_inv s' (Q(cpu := ys))"
    "idle_on s' (Q(cpu := ys)) cpu (current (sch ?c) cpu)" "in_ipq s' cpu = []"
    "left_at In_relinquish (current (sch ?c) cpu) (sch ?c) s'"
    using switching_relinquish [OF pre(1) cpu m pre(2)] by (elim exE conjE) (rule that)
  let ?c' = "?c\<lparr>sch := s'\<rparr>"
  have cur: "current (sch ?c) cpu = x" by (simp add: x_def)
  note sw = s'(2) [unfolded switched_to_def cur] and la = s'(6) [unfolded left_at_def cur]
  have idx: "p_index (procs s' z) = p_index (procs (sch c) z)" for z using la by simp
  have sub: "members s' (Q(cpu := ys)) q \<subseteq> insert x (members (sch c) Q q)" if "q < NPUN" for q
    using sw s'(5) Q by (cases "q = cpu") (auto simp: members_def)
  have "live ?c' (Q(cpu := ys)) L"
    using live_keep [OF lv, of ?c' "Q(cpu := ys)" x] sub idx live_current [OF lv cpu x_def [THEN meta_eq_to_obj_eq]] by simp
  moreover have "same_but {x} (sch c) s'"
    using sw la idx by (simp add: same_but_def proc_stack_def set_state_fields)
  moreover have "key_of s' = key_of (sch c)" using sw by (simp add: key_of_def fun_eq_iff)
  ultimately show ?thesis
    using run s'(1,3,4,5) sw la idx E unfolding cur
    by - (rule exI [of _ ?c'], simp add: at_ease_def proc_of_def)
qed

text \<open>A waiting process of the own priority is made ready; it comes first in the queue.\<close>

lemma wake_step:
  assumes ease: "at_ease lo cpu c Q F L" and cpu: "cpu < NPUN" and x: "idle_on (sch c) Q cpu x"
    and xL: "(x, unat (p_index (proc_of c x))) \<in> L" and k: "key_of (sch c) x = key_of (sch c) (current (sch c) cpu)"
    and low: "\<forall>y \<in> set (Q cpu). key_of (sch c) x < key_of (sch c) y"
    and s: "s = sch c \<or> s = set_sched_state x PROC_READY (sch c)"
  shows "\<exists>s'. schedule cpu x s = Inr s' \<and> at_ease lo cpu (c\<lparr>sch := s'\<rparr>) (Q(cpu := x # Q cpu)) F L \<and>
    current s' = current (sch c) \<and> ctxs s' = ctxs (sch c) \<and> same_but {x} (sch c) s' \<and> key_of s' = key_of (sch c) \<and>
    p_index (procs s' x) = p_index (proc_of c x)"
proof -
  note E = ease [unfolded at_ease_def]
  have s0: "sched_inv s Q" "idle_on s Q cpu x" "key_of s = key_of (sch c)" "current s = current (sch c)"
    "ctxs s = ctxs (sch c)" "in_ipq s = in_ipq (sch c)" "members s Q q = members (sch c) Q q"
    "p_index (procs s y) = p_index (procs (sch c) y)" for q y
    using s E x by auto
  obtain s' where s': "schedule cpu x s = Inr s'" "steady s s'" "in_ipq s' = in_ipq s"
    "sched_inv s' (Q(cpu := enq_list s x (Q cpu)))"
    using schedule_behind [OF s0(1) cpu s0(2)] k s0(3,4) by auto
  have "sorted (map (key_of (sch c)) (Q cpu))" using sched_invD(8) [OF _ cpu] E by blast
  then have q: "enq_list s x (Q cpu) = x # Q cpu"
    using insert_first low by (simp add: enq_list_def s0(3))
  note st = steadyD [OF s'(2)]
  have "live (c\<lparr>sch := s'\<rparr>) (Q(cpu := x # Q cpu)) L"
  proof (rule live_keep [where x = x])
    show "live c Q L" using E by blast
    show "members (sch (c\<lparr>sch := s'\<rparr>)) (Q(cpu := x # Q cpu)) q \<subseteq> insert x (members (sch c) Q q)" for q
      using st(1) s0(4,6) s'(3) by (auto simp: members_def)
  qed (use st(9) s0(8) xL in simp_all)
  moreover have "same_but {x} (sch c) s'"
    using s st by (auto simp: same_but_def set_state_fields)
  ultimately show ?thesis using s'(1,3,4) s0 st E q
    by (intro exI [of _ s']) (simp add: at_ease_def proc_of_def)
qed

text \<open>The second partner copies the data and makes the first one ready.\<close>

lemma meet_step:
  assumes ease: "at_ease lo cpu c Q F L" and cpu: "cpu < NPUN" and x: "idle_on (sch c) Q cpu x"
    and xL: "(x, unat (p_index (proc_of c x))) \<in> L" and k: "key_of (sch c) x = key_of (sch c) (current (sch c) cpu)"
    and low: "\<forall>y \<in> set (Q cpu). key_of (sch c) x < key_of (sch c) y" and st: "p_sched_state (proc_of c x) = PROC_WAITING"
    and ch: "chans c ch = \<lparr>waiting = x, io_ptr = b\<rparr>" "\<not> claimed c (Mutex_chan ch)"
    and op: "op = chan_in \<and> dest = d \<and> src = b \<or> op = chan_out \<and> dest = b \<and> src = d" and ptr: "dest \<noteq> NULL" "src \<noteq> NULL"
  shows "\<exists>c'. op cpu ch d len c = Done () c' \<and> at_ease lo cpu c' (Q(cpu := x # Q cpu)) F L \<and>
    current (sch c') = current (sch c) \<and> ctxs (sch c') = ctxs (sch c) \<and> same_but {x} (sch c) (sch c') \<and>
    key_of (sch c') = key_of (sch c) \<and> p_index (proc_of c' x) = p_index (proc_of c x) \<and>
    waiting (chans c' ch) = NULL \<and> heap c' = copy_bytes dest src len (heap c) \<and> barriers c' = barriers c \<and>
    claimed c' = (claimed c)(Mutex_chan ch := False) \<and> (\<forall>z. z \<noteq> ch \<longrightarrow> chans c' z = chans c z)"
proof -
  let ?c = "release_mutex (Mutex_chan ch) (set_chan ch \<lparr>waiting = NULL, io_ptr = NULL\<rparr>
    (c\<lparr>claimed := (claimed c)(Mutex_chan ch := True), heap := copy_bytes dest src len (heap c)\<rparr>))"
  note E = ease [unfolded at_ease_def]
  have xn: "x \<noteq> NULL" "current (sch c) cpu \<noteq> NULL" using x sched_invD(2) [OF _ cpu] E by (auto simp: idle_on_def)
  have run: "op cpu ch d len c = wake cpu x ?c"
    using op ch xn ptr by (auto simp: chan_in_def chan_out_def memcpy_def Let_def)
  have ease': "at_ease lo cpu ?c Q F L"
    using E by (auto simp: at_ease_def live_def proc_of_def)
  obtain s' where s': "schedule cpu x (set_sched_state x PROC_READY (sch ?c)) = Inr s'"
    "at_ease lo cpu (?c\<lparr>sch := s'\<rparr>) (Q(cpu := x # Q cpu)) F L" "current s' = current (sch ?c)"
    "ctxs s' = ctxs (sch ?c)" "same_but {x} (sch ?c) s'" "key_of s' = key_of (sch ?c)"
    "p_index (procs s' x) = p_index (proc_of ?c x)"
    using wake_step [OF ease' cpu, of x "set_sched_state x PROC_READY (sch ?c)"] x xL k low by (auto simp: proc_of_def)
  have "wake cpu x ?c = Done () (?c\<lparr>sch := s'\<rparr>)"
    using s'(1,3) st by (simp add: wake_def xchg_ready_def switching_def proc_of_def Let_def)
  with run s' show ?thesis by - (rule exI [of _ "?c\<lparr>sch := s'\<rparr>"], simp add: proc_of_def)
qed

text \<open>A child that is not the last one announces its end, and ends.\<close>

lemma end_step:
  assumes ease: "at_ease lo cpu c Q F L" and cpu: "cpu < NPUN" and Q: "Q cpu = y # ys"
  defines "x \<equiv> current (sch c) cpu"
  shows "\<exists>c' F' i. terminate base cpu c = Done () c' \<and> i = unat (p_index (proc_of c x)) \<and>
    at_ease lo cpu c' (Q(cpu := ys)) F' (L - {(x, i)}) \<and> current (sch c') cpu = y \<and> same_but {x} (sch c) (sch c') \<and>
    x \<notin> members (sch c') (Q(cpu := ys)) cpu \<and> x \<noteq> y \<and>
    chans c' = chans c \<and> heap c' = heap c \<and> barriers c' = barriers c \<and>
    (\<forall>ch. claimed c' (Mutex_chan ch) = claimed c (Mutex_chan ch))"
proof -
  note E = ease [unfolded at_ease_def]
  have inv: "sched_inv (sch c) Q" using E by blast
  have m: "merged (sch c) cpu (Q cpu) = y # ys" using merged_no_ipq [OF inv cpu] E Q by simp
  have "x \<noteq> y" using sched_invD(4) [OF inv cpu] Q by (auto simp: x_def)
  then show ?thesis
    using terminate_ok [OF inv _ _ cpu _ _ m, of lo F L base] E unfolding x_def [symmetric]
    by (elim conjE) (simp add: at_ease_def, blast)
qed

lemma idle_move:
  assumes "idle_on s Q cpu p" and "same_but X s s'" and "p \<notin> X" and "members s' Q' cpu \<subseteq> members s Q cpu"
  shows "idle_on s' Q' cpu p"
  using assms same_butD(3,5) [OF assms(2,3)] by (auto simp: idle_on_def)

subsection \<open>Entering a process\<close>

lemma enter_child:
  assumes "sched_inv (sch c) Q" and "cpu < NPUN"
    and "uc_point (ctxs (sch c) (proc_stack (current (sch c) cpu))) = At_entry Run_in_par code barr ua"
  shows "enter user base cpu sv c =
    Some \<lparr>m_proc = current (sch c) cpu, m_run = run_in_par user base cpu code barr ua c, m_saved = sv\<rparr>"
  using entered [OF assms] by (simp add: enter_def)

lemma enter_back:
  assumes "sched_inv (sch c) Q" and "cpu < NPUN"
    and "uc_point (ctxs (sch c) (proc_stack (current (sch c) cpu))) = In_relinquish"
  shows "enter user base cpu sv c = Some \<lparr>m_proc = current (sch c) cpu, m_run = sv (current (sch c) cpu) c, m_saved = sv\<rparr>"
  using entered [OF assms] by (simp add: enter_def Let_def)

lemma trans_neq: "x = y \<Longrightarrow> y \<noteq> z \<Longrightarrow> x \<noteq> z"
  by simp

lemma m_after_Paused:
  "m_after user base cpu (Suc n) \<lparr>m_proc = p, m_run = Paused c k, m_saved = sv\<rparr> =
    Option.bind (enter user base cpu (sv(p := k)) c) (m_after user base cpu n)"
  by (simp add: m_next_def)

lemma m_after_Done:
  "current (sch c) cpu \<noteq> p \<Longrightarrow> m_after user base cpu (Suc n) \<lparr>m_proc = p, m_run = Done () c, m_saved = sv\<rparr> =
    Option.bind (enter user base cpu sv c) (m_after user base cpu n)"
  by (simp add: m_next_def)

subsection \<open>The children of one construct\<close>

text \<open>The first child has come to its wait, the second one has met it, and both have ended.\<close>

definition counted :: "addr \<Rightarrow> int \<Rightarrow> cxp \<Rightarrow> cxp" where
  "counted barr n c = c\<lparr>barriers := (barriers c)(barr := (barriers c barr)\<lparr>children := n\<rparr>)\<rparr>"

lemma heap_fields:
  "sch (c\<lparr>heap := h\<rparr>) = sch c" "chans (c\<lparr>heap := h\<rparr>) = chans c" "barriers (c\<lparr>heap := h\<rparr>) = barriers c"
  "claimed (c\<lparr>heap := h\<rparr>) = claimed c" "heap (c\<lparr>heap := h\<rparr>) = h" "proc_of (c\<lparr>heap := h\<rparr>) = proc_of c"
  by (simp_all add: proc_of_def fun_eq_iff)

lemma at_ease_heap [simp]: "at_ease lo cpu (c\<lparr>heap := h\<rparr>) Q F L = at_ease lo cpu c Q F L"
  by (simp add: at_ease_def live_def proc_of_def)

lemma counted_simps [simp]:
  "sch (counted barr n c) = sch c" "chans (counted barr n c) = chans c" "heap (counted barr n c) = heap c"
  "claimed (counted barr n c) = claimed c" "children (barriers (counted barr n c) barr) = n"
  "parent (barriers (counted barr n c) barr) = parent (barriers c barr)"
  "at_ease lo cpu (counted barr n c) Q F L = at_ease lo cpu c Q F L"
  "proc_of (counted barr n c) x = proc_of c x"
  by (simp_all add: counted_def at_ease_def live_def proc_of_def)

lemma sync_more:
  "children (barriers c barr) = 2 \<Longrightarrow> par_barr_sync cpu barr c = Done () (counted barr 1 c)"
  by (simp add: par_barr_sync_def fetch_sub_def counted_def Let_def)

lemma sync_last:
  "children (barriers c barr) = 1 \<Longrightarrow>
    par_barr_sync cpu barr c = switching cpu (schedule cpu (parent (barriers c barr))) (counted barr 0 c)"
  by (simp add: par_barr_sync_def fetch_sub_def counted_def Let_def)

lemma mem_ok_class:
  assumes "mem_ok lo c F L" and "(b, i) \<in> L" and "(b, j) \<in> L"
  shows "i = j"
proof (rule ccontr)
  assume ne: "i \<noteq> j"
  have B: "(b, i) \<in> blocks F L" "(b, j) \<in> blocks F L" using assms(2,3) by (simp_all add: blocks_def)
  then have "snd (b, i) < NCLASS" "snd (b, j) < NCLASS" using assms(1) unfolding mem_ok_def by blast+
  then have "unat b \<in> span (b, i) \<inter> span (b, j)" by (simp add: span_nonempty)
  moreover have "span (b, i) \<inter> span (b, j) = {}" using assms(1) B ne unfolding mem_ok_def by blast
  ultimately show False by blast
qed

text \<open>
  The second child, from its entry to its end: it meets the first one, announces its end, and leaves
  the processor to the first one.
\<close>

lemma second_child:
  assumes ease: "at_ease lo cpu c (Q(cpu := R)) F L" and cpu: "cpu < NPUN" and x: "idle_on (sch c) (Q(cpu := R)) cpu x"
    and xL: "(x, unat (p_index (proc_of c x))) \<in> L" and k: "key_of (sch c) x = key_of (sch c) (current (sch c) cpu)"
    and low: "\<forall>y \<in> set R. key_of (sch c) x < key_of (sch c) y" and st: "p_sched_state (proc_of c x) = PROC_WAITING"
    and ch: "chans c ch = \<lparr>waiting = x, io_ptr = b\<rparr>" "\<not> claimed c (Mutex_chan ch)"
    and op: "op = chan_in \<and> dest = d \<and> src = b \<or> op = chan_out \<and> dest = b \<and> src = d" and ptr: "dest \<noteq> NULL" "src \<noteq> NULL"
    and bar: "children (barriers c barr) = 2" and user: "\<And>c. user code ua c = op cpu ch d len (c\<lparr>heap := ini (heap c)\<rparr>)"
  defines "y \<equiv> current (sch c) cpu"
  shows "\<exists>c' F' i. run_in_par user base cpu code barr ua c = Done () c' \<and> i = unat (p_index (proc_of c y)) \<and>
    at_ease lo cpu c' (Q(cpu := R)) F' (L - {(y, i)}) \<and> current (sch c') cpu = x \<and> x \<noteq> y \<and>
    ctxs (sch c') (proc_stack x) = ctxs (sch c) (proc_stack x) \<and> p_index (proc_of c' x) = p_index (proc_of c x) \<and>
    key_of (sch c') x = key_of (sch c) x \<and> same_but {x, y} (sch c) (sch c') \<and>
    waiting (chans c' ch) = NULL \<and> heap c' = copy_bytes dest src len (ini (heap c)) \<and> children (barriers c' barr) = 1 \<and>
    parent (barriers c' barr) = parent (barriers c barr) \<and> \<not> claimed c' (Mutex_chan ch)"
proof -
  have low': "\<forall>z \<in> set ((Q(cpu := R)) cpu). key_of (sch c) x < key_of (sch c) z" using low by simp
  let ?c = "c\<lparr>heap := ini (heap c)\<rparr>"
  have pre: "at_ease lo cpu ?c (Q(cpu := R)) F L" "idle_on (sch ?c) (Q(cpu := R)) cpu x"
    "(x, unat (p_index (proc_of ?c x))) \<in> L" "key_of (sch ?c) x = key_of (sch ?c) (current (sch ?c) cpu)"
    "\<forall>z \<in> set ((Q(cpu := R)) cpu). key_of (sch ?c) x < key_of (sch ?c) z" "p_sched_state (proc_of ?c x) = PROC_WAITING"
    "chans ?c ch = \<lparr>waiting = x, io_ptr = b\<rparr>" "\<not> claimed ?c (Mutex_chan ch)"
    using ease x xL k low' st ch by (simp_all add: proc_of_def)
  obtain c1 where c1: "op cpu ch d len ?c = Done () c1" "at_ease lo cpu c1 ((Q(cpu := R))(cpu := x # (Q(cpu := R)) cpu)) F L"
    "current (sch c1) = current (sch c)" "ctxs (sch c1) = ctxs (sch c)" "same_but {x} (sch c) (sch c1)"
    "key_of (sch c1) = key_of (sch c)" "p_index (proc_of c1 x) = p_index (proc_of c x)"
    "waiting (chans c1 ch) = NULL" "heap c1 = copy_bytes dest src len (ini (heap c))" "barriers c1 = barriers c"
    "claimed c1 = (claimed c)(Mutex_chan ch := False)"
    using meet_step [where len = len, OF pre(1) cpu pre(2-8) op ptr, unfolded heap_fields]
    by (elim exE conjE) (rule that)
  let ?c2 = "counted barr 1 c1"
  have e2: "at_ease lo cpu ?c2 (Q(cpu := x # R)) F L" using c1(2) by simp
  have Q2: "(Q(cpu := x # R)) cpu = x # R" by simp
  have y2: "current (sch ?c2) cpu = y" using c1(3) by (simp add: y_def)
  obtain c' F' i where c': "terminate base cpu ?c2 = Done () c'" "i = unat (p_index (proc_of ?c2 y))"
    "at_ease lo cpu c' ((Q(cpu := x # R))(cpu := R)) F' (L - {(y, i)})" "current (sch c') cpu = x"
    "same_but {y} (sch ?c2) (sch c')" "y \<noteq> x" "chans c' = chans ?c2" "heap c' = heap ?c2" "barriers c' = barriers ?c2"
    "\<forall>ch. claimed c' (Mutex_chan ch) = claimed ?c2 (Mutex_chan ch)"
    using end_step [OF e2 cpu Q2, of base, unfolded y2] by (elim exE conjE) (rule that)
  have run: "run_in_par user base cpu code barr ua c = Done () c'"
    using c1(1,10) c'(1) bar by (simp add: run_in_par_def user sync_more)
  have yi: "p_index (proc_of c1 y) = p_index (proc_of c y)"
    using same_butD(4) [OF c1(5), of y] c'(6) by (simp add: proc_of_def)
  have sb: "same_but {x, y} (sch c) (sch c')"
    using same_but_trans [OF c1(5), of "{y}" "sch c'"] c'(5) by (simp add: insert_commute)
  note sx = same_butD [OF c'(5), of x]
  show ?thesis
    using run c' c1(4,6-11) yi sx sb
    by - (rule exI [of _ c'], rule exI [of _ F'], rule exI [of _ i], simp add: proc_of_def)
qed

text \<open>The first child, from its wait to its end: it is the last one, so it makes the parent ready.\<close>

lemma first_child_ends:
  assumes ease: "at_ease lo cpu c (Q(cpu := R)) F L" and cpu: "cpu < NPUN" and p: "idle_on (sch c) (Q(cpu := R)) cpu p"
    and pL: "(p, unat (p_index (proc_of c p))) \<in> L" and k: "key_of (sch c) p = key_of (sch c) (current (sch c) cpu)"
    and low: "\<forall>y \<in> set R. key_of (sch c) p < key_of (sch c) y"
    and bar: "children (barriers c barr) = 1" "parent (barriers c barr) = p"
  defines "x \<equiv> current (sch c) cpu"
  shows "\<exists>c' F' i. run_bind (par_barr_sync cpu barr c) (\<lambda>_ c. terminate base cpu c) = Done () c' \<and>
    i = unat (p_index (proc_of c x)) \<and> at_ease lo cpu c' (Q(cpu := R)) F' (L - {(x, i)}) \<and>
    current (sch c') cpu = p \<and> p \<noteq> x \<and> ctxs (sch c') (proc_stack p) = ctxs (sch c) (proc_stack p) \<and>
    chans c' = chans c \<and> heap c' = heap c \<and> children (barriers c' barr) = 0 \<and>
    (\<forall>ch. claimed c' (Mutex_chan ch) = claimed c (Mutex_chan ch))"
proof -
  let ?c1 = "counted barr 0 c"
  have e1: "at_ease lo cpu ?c1 (Q(cpu := R)) F L" using ease by simp
  have p1: "idle_on (sch ?c1) (Q(cpu := R)) cpu p" "(p, unat (p_index (proc_of ?c1 p))) \<in> L"
    "key_of (sch ?c1) p = key_of (sch ?c1) (current (sch ?c1) cpu)"
    "\<forall>y \<in> set ((Q(cpu := R)) cpu). key_of (sch ?c1) p < key_of (sch ?c1) y" using p pL k low by simp_all
  obtain s' where s': "schedule cpu p (sch ?c1) = Inr s'" "at_ease lo cpu (?c1\<lparr>sch := s'\<rparr>) ((Q(cpu := R))(cpu := p # (Q(cpu := R)) cpu)) F L"
    "current s' = current (sch ?c1)" "ctxs s' = ctxs (sch ?c1)" "same_but {p} (sch ?c1) s'" "key_of s' = key_of (sch ?c1)"
    using wake_step [OF e1 cpu p1 disjI1 [OF refl]] by (elim exE conjE) (rule that)
  let ?c2 = "?c1\<lparr>sch := s'\<rparr>"
  have e2: "at_ease lo cpu ?c2 (Q(cpu := p # R)) F L" using s'(2) by simp
  have Q2: "(Q(cpu := p # R)) cpu = p # R" by simp
  have x2: "current (sch ?c2) cpu = x" using s'(3) by (simp add: x_def)
  obtain c' F' i where c': "terminate base cpu ?c2 = Done () c'" "i = unat (p_index (proc_of ?c2 x))"
    "at_ease lo cpu c' ((Q(cpu := p # R))(cpu := R)) F' (L - {(x, i)})" "current (sch c') cpu = p"
    "same_but {x} (sch ?c2) (sch c')" "x \<noteq> p" "chans c' = chans ?c2" "heap c' = heap ?c2" "barriers c' = barriers ?c2"
    "\<forall>ch. claimed c' (Mutex_chan ch) = claimed ?c2 (Mutex_chan ch)"
    using end_step [OF e2 cpu Q2, of base, unfolded x2] by (elim exE conjE) (rule that)
  have run: "run_bind (par_barr_sync cpu barr c) (\<lambda>_ c. terminate base cpu c) = Done () c'"
    using s'(1,3) c'(1) bar by (simp add: sync_last switching_simps)
  have "p_index (proc_of ?c2 x) = p_index (proc_of c x)"
    using same_butD(4) [OF s'(5), of x] c'(6) by (simp add: proc_of_def)
  then show ?thesis
    using run c' s'(4) same_butD(1) [OF c'(5), of p]
    by - (rule exI [of _ c'], rule exI [of _ F'], rule exI [of _ i], simp)
qed

text \<open>
  The start: the parent has made the two children, which come before all others, and waits; the
  first child runs.
\<close>

lemma par_start:
  assumes inv: "sched_inv (sch c) Q" and mem: "mem_ok lo c F L" and live: "live c Q L" and cpu: "cpu < NPUN"
    and room: "room_for [cls 0, cls 1] c" and free: "\<not> claimed c Mutex_mem" "\<not> claimed c (Mutex_term cpu)"
    and f: "\<forall>i < 2. find_mem_index (stacksize i + sizeof_Process) = Inr (cls i)" and work: "Q cpu \<noteq> []"
    and p: "current (sch c) cpu = p"
    and low: "\<forall>x \<in> set (merged (sch c) cpu (Q cpu)). pri_gt (p_pri (proc_of c p)) (p_pri (proc_of c x))"
  defines "R \<equiv> merged (sch c) cpu (Q cpu)"
  shows "\<exists>c' F' b d. par cpu barr code userArgs stacksize 2 c = Paused c' (Done ()) \<and>
    barriers c' barr = \<lparr>children = 2, parent = p\<rparr> \<and> b \<noteq> d \<and> b \<notin> fst ` L \<and> d \<notin> fst ` L \<and>
    uc_point (ctxs (sch c') (proc_stack b)) = At_entry Run_in_par (code 0) barr (userArgs 0) \<and>
    uc_point (ctxs (sch c') (proc_stack d)) = At_entry Run_in_par (code 1) barr (userArgs 1) \<and>
    uc_point (ctxs (sch c') (proc_stack p)) = In_relinquish \<and> p_index (proc_of c' p) = p_index (proc_of c p) \<and>
    current (sch c') cpu = b \<and> at_ease lo cpu c' (Q(cpu := d # R)) F' (L \<union> {(b, cls 0), (d, cls 1)}) \<and>
    idle_on (sch c') (Q(cpu := d # R)) cpu p \<and> key_of (sch c') b = key_of (sch c') p \<and>
    key_of (sch c') d = key_of (sch c') p \<and> (\<forall>y \<in> set R. key_of (sch c') p < key_of (sch c') y) \<and>
    claimed c' = (claimed c)(Mutex_mem := False) \<and> chans c' = chans c \<and> heap c' = heap c"
proof -
  let ?pr = "p_pri (proc_of c p)"
  have pn: "p \<noteq> NULL" using sched_invD(2) [OF inv cpu] p by simp
  have n2: "unat (2 :: uint32) = 2" "[0 ..< 2] = [0, 1 :: nat]" by (simp_all add: upt_rec)
  have pre: "room_for (map cls [0 ..< unat (2 :: uint32)]) c"
    "\<forall>i < unat (2 :: uint32). find_mem_index (stacksize i + sizeof_Process) = Inr (cls i)"
    "\<forall>i < unat (2 :: uint32). cpu < NPUN \<and> (\<forall>pr. p_pri pr = ?pr \<longrightarrow> p_pun pr = cpu \<longrightarrow> p_pri pr = ?pr \<and> p_pun pr = cpu)"
    "\<forall>q < NPUN. q \<noteq> cpu \<longrightarrow> q \<in> (\<lambda>_. cpu) ` {..< unat (2 :: uint32)} \<longrightarrow> thread_id (hw (sch c)) q \<noteq> None \<and>
      length (in_ipq (sch c) q) + length (filter (\<lambda>i. cpu = q) [0 ..< unat (2 :: uint32)]) < QSIZE"
    using room f cpu unfolding n2 by auto
  obtain c' F' bs R' where r: "construct cpu p barr code userArgs stacksize (\<lambda>i. p_pri) (\<lambda>i. p_pun) 2 c = Paused c' (Done ())"
    "barriers c' = (barriers c)(barr := \<lparr>children = sint (2 :: uint32), parent = p\<rparr>)" "length bs = unat (2 :: uint32)" "distinct bs"
    "\<forall>q < NPUN. set bs \<inter> members (sch c) Q q = {}"
    "\<forall>i < unat (2 :: uint32). child_at code barr userArgs (\<lambda>_. ?pr) (\<lambda>_. cpu) (sch c') i (bs ! i)"
    "current (sch c') cpu # R' = sort_key (key_of (sch c'))
      (Q cpu @ filter (\<lambda>b. p_pun (proc_of c' b) = cpu) bs @ in_ipq (sch c) cpu)"
    "sched_inv (sch c') (Q(cpu := R'))" "in_ipq (sch c') cpu = []" "idle_on (sch c') (Q(cpu := R')) cpu p"
    "\<forall>q < NPUN. \<forall>x \<in> members (sch c) Q q. key_of (sch c') x = key_of (sch c) x"
    "mem_ok lo c' F' (L \<union> set (zip bs (map cls [0 ..< unat (2 :: uint32)])))"
    "live c' (Q(cpu := R')) (L \<union> set (zip bs (map cls [0 ..< unat (2 :: uint32)])))"
    "claimed c' = (claimed c)(Mutex_mem := False)" "\<forall>x \<in> L. fst x \<notin> set bs" "chans c' = chans c" "heap c' = heap c"
    "uc_point (ctxs (sch c') (proc_stack p)) = In_relinquish" "p_index (proc_of c' p) = p_index (proc_of c p)"
    using construct_ok [where pri = "\<lambda>i. p_pri" and pun = "\<lambda>i. p_pun" and pri' = "\<lambda>_. ?pr" and
        pun' = "\<lambda>_. cpu" and cls = cls and stacksize = stacksize and barr = barr and code = code and userArgs = userArgs,
        OF inv mem live cpu pre(1) free(1) p pre(2-4) work] by (elim exE conjE) (rule that)
  obtain b d where bs: "bs = [b, d]" using r(3) n2(1) by (auto simp: numeral_2_eq_2 length_Suc_conv)
  have ch: "child_at code barr userArgs (\<lambda>_. ?pr) (\<lambda>_. cpu) (sch c') 0 b"
    "child_at code barr userArgs (\<lambda>_. ?pr) (\<lambda>_. cpu) (sch c') 1 d"
    using r(6) n2(1) bs by (auto dest: spec [of _ 0] spec [of _ 1])
  let ?k = "key_of (sch c')"
  have kp: "?k p = key_of (sch c) p" using r(11) cpu p by (auto simp: members_def)
  have kb: "?k b = ?k p" "?k d = ?k p" unfolding kp using ch by (simp_all add: child_at_def key_of_def proc_of_def)
  have kx: "?k x = key_of (sch c) x" "?k p < ?k x" if "x \<in> set (Q cpu @ in_ipq (sch c) cpu)" for x
  proof -
    have "x \<in> members (sch c) Q cpu" using that by (auto simp: members_def)
    then show "?k x = key_of (sch c) x" using r(11) cpu by blast
    then show "?k p < ?k x" unfolding kp using low that by (auto simp: key_of_def proc_of_def pri_iffs)
  qed
  have R: "R = sort_key ?k (Q cpu @ in_ipq (sch c) cpu)"
    unfolding R_def merged_def using kx(1) by (intro sort_key_cong_set) simp
  have loc: "filter (\<lambda>b. p_pun (proc_of c' b) = cpu) bs = [b, d]"
    using ch by (simp add: bs child_at_def proc_of_def)
  have "sort_key ?k (Q cpu @ [b, d] @ in_ipq (sch c) cpu) = b # d # R"
    using kb kx(2) unfolding R by (intro two_first) auto
  then have cur: "current (sch c') cpu = b" "R' = d # R" using r(7) loc by simp_all
  have L: "L \<union> set (zip bs (map cls [0 ..< unat (2 :: uint32)])) = L \<union> {(b, cls 0), (d, cls 1)}"
    by (auto simp: n2 bs)
  have "at_ease lo cpu c' (Q(cpu := d # R)) F' (L \<union> {(b, cls 0), (d, cls 1)})"
    using r(8,9,12-14) free(2) unfolding at_ease_def L cur by simp
  moreover have "par cpu barr code userArgs stacksize 2 c = Paused c' (Done ())"
    using r(1) pn p by (simp add: par_construct)
  moreover have "b \<noteq> d" "b \<notin> fst ` L" "d \<notin> fst ` L" using r(4,15) by (auto simp: bs)
  moreover have "barriers c' barr = \<lparr>children = 2, parent = p\<rparr>" using r(2) by simp
  moreover have "idle_on (sch c') (Q(cpu := d # R)) cpu p" using r(10) cur(2) by simp
  moreover have "uc_point (ctxs (sch c') (proc_stack b)) = At_entry Run_in_par (code 0) barr (userArgs 0)"
    "uc_point (ctxs (sch c') (proc_stack d)) = At_entry Run_in_par (code 1) barr (userArgs 1)"
    using ch by (simp_all add: child_at_def)
  moreover have "\<forall>y \<in> set R. ?k p < ?k y" using kx(2) unfolding R by simp
  ultimately show ?thesis
    using r(14,16-19) kb cur(1)
    by - (rule exI [of _ c'], rule exI [of _ F'], rule exI [of _ b], rule exI [of _ d], intro conjI)
qed

text \<open>
  The two children up to the end of the second one: the first one waits in the channel, the second
  one meets it and ends.
\<close>

lemma children_meet:
  assumes ease: "at_ease lo cpu c (Q(cpu := d # R)) F L" and cpu: "cpu < NPUN" and b: "current (sch c) cpu = b"
    and L: "(b, i) \<in> L" "(d, j) \<in> L" and k: "key_of (sch c) d = key_of (sch c) b"
    and low: "\<forall>y \<in> set R. key_of (sch c) b < key_of (sch c) y" and bar: "children (barriers c barr) = 2"
    and ch: "waiting (chans c ch) = NULL" "\<not> claimed c (Mutex_chan ch)" and ptr: "dest \<noteq> NULL" "src \<noteq> NULL"
    and user: "\<And>c. prog c = (let c = c\<lparr>heap := ini (heap c)\<rparr> in if sends then chan_out cpu ch src len c else chan_in cpu ch dest len c)"
      "\<And>c. user code ua c = (let c = c\<lparr>heap := ini' (heap c)\<rparr> in if sends then chan_in cpu ch dest len c else chan_out cpu ch src len c)"
  shows "\<exists>c2 c3 F3. prog c = Paused c2 (Done ()) \<and> sched_inv (sch c2) (Q(cpu := R)) \<and> current (sch c2) cpu = d \<and>
    same_but {b} (sch c) (sch c2) \<and> run_in_par user base cpu code barr ua c2 = Done () c3 \<and>
    at_ease lo cpu c3 (Q(cpu := R)) F3 (L - {(d, j)}) \<and> current (sch c3) cpu = b \<and> b \<notin> set R \<and> d \<notin> set R \<and>
    uc_point (ctxs (sch c3) (proc_stack b)) = In_relinquish \<and> unat (p_index (proc_of c3 b)) = i \<and>
    key_of (sch c3) b = key_of (sch c) b \<and> same_but {b, d} (sch c) (sch c3) \<and> waiting (chans c3 ch) = NULL \<and>
    heap c3 = copy_bytes dest src len (ini' (ini (heap c))) \<and> children (barriers c3 barr) = 1 \<and>
    parent (barriers c3 barr) = parent (barriers c barr) \<and> \<not> claimed c3 (Mutex_chan ch)"
proof -
  let ?first = "if sends then chan_out else chan_in" and ?second = "if sends then chan_in else chan_out"
  let ?b1 = "if sends then src else dest" and ?b2 = "if sends then dest else src"
  have Q1: "(Q(cpu := d # R)) cpu = d # R" and fst: "?first \<in> {chan_in, chan_out}" by auto
  let ?c = "c\<lparr>heap := ini (heap c)\<rparr>"
  have pre: "at_ease lo cpu ?c (Q(cpu := d # R)) F L" "waiting (chans ?c ch) = NULL" "\<not> claimed ?c (Mutex_chan ch)"
    using ease ch by simp_all
  obtain c2 where s2: "?first cpu ch ?b1 len ?c = Paused c2 (Done ())" "at_ease lo cpu c2 ((Q(cpu := d # R))(cpu := R)) F L"
    "current (sch c2) cpu = d" "chans c2 = (chans c)(ch := \<lparr>waiting = b, io_ptr = ?b1\<rparr>)" "heap c2 = ini (heap c)"
    "barriers c2 = barriers c" "claimed c2 = (claimed c)(Mutex_chan ch := False)" "same_but {b} (sch c) (sch c2)"
    "key_of (sch c2) = key_of (sch c)" "p_index (proc_of c2 b) = p_index (proc_of c b)"
    "idle_on (sch c2) ((Q(cpu := d # R))(cpu := R)) cpu b" "p_sched_state (proc_of c2 b) = PROC_WAITING"
    "uc_point (ctxs (sch c2) (proc_stack b)) = In_relinquish"
    using wait_step [where len = len and b = ?b1, OF pre(1) cpu Q1 pre(2,3) fst, unfolded heap_fields b]
    by (elim exE conjE) (rule that)
  have e2: "at_ease lo cpu c2 (Q(cpu := R)) F L" and b2: "idle_on (sch c2) (Q(cpu := R)) cpu b" using s2(2,11) by simp_all
  have E1: "live c (Q(cpu := d # R)) L" "mem_ok lo c F L"
    and E2: "live c2 (Q(cpu := R)) L" "sched_inv (sch c2) (Q(cpu := R))"
    using ease e2 by (simp_all add: at_ease_def)
  have bL: "(b, unat (p_index (proc_of c2 b))) \<in> L"
    using live_current [OF E1(1) cpu b [symmetric]] s2(10) by simp
  then have bi: "unat (p_index (proc_of c2 b)) = i" using mem_ok_class [OF E1(2)] L(1) by blast
  have di: "unat (p_index (proc_of c2 d)) = j"
    using live_current [OF E2(1) cpu s2(3) [symmetric]] mem_ok_class [OF E1(2)] L(2) by blast
  have bk: "key_of (sch c2) b = key_of (sch c2) (current (sch c2) cpu)" "\<forall>y \<in> set R. key_of (sch c2) b < key_of (sch c2) y"
    using k low s2(3,9) by simp_all
  have ch2: "chans c2 ch = \<lparr>waiting = b, io_ptr = ?b1\<rparr>" "\<not> claimed c2 (Mutex_chan ch)" using s2(4,7) by simp_all
  have op2: "?second = chan_in \<and> dest = ?b2 \<and> src = ?b1 \<or> ?second = chan_out \<and> dest = ?b1 \<and> src = ?b2" by simp
  have bar2: "children (barriers c2 barr) = 2" using bar s2(6) by simp
  have user2: "user code ua c = ?second cpu ch ?b2 len (c\<lparr>heap := ini' (heap c)\<rparr>)" for c using user(2) by simp
  obtain c3 F3 where s3: "run_in_par user base cpu code barr ua c2 = Done () c3"
    "at_ease lo cpu c3 (Q(cpu := R)) F3 (L - {(d, j)})" "current (sch c3) cpu = b"
    "ctxs (sch c3) (proc_stack b) = ctxs (sch c2) (proc_stack b)" "p_index (proc_of c3 b) = p_index (proc_of c2 b)"
    "key_of (sch c3) b = key_of (sch c2) b" "same_but {b, d} (sch c2) (sch c3)" "waiting (chans c3 ch) = NULL"
    "heap c3 = copy_bytes dest src len (ini' (heap c2))" "children (barriers c3 barr) = 1"
    "parent (barriers c3 barr) = parent (barriers c2 barr)" "\<not> claimed c3 (Mutex_chan ch)"
    using second_child [where base = base and user = user and ua = ua and code = code and op = ?second,
      OF e2 cpu b2 bL bk s2(12) ch2 op2 ptr bar2 user2, unfolded s2(3) di] by (elim exE conjE) (rule that, simp_all)
  have sb: "same_but {b, d} (sch c) (sch c3)" using same_but_trans [OF s2(8) s3(7)] by (simp add: insert_commute)
  have "sched_inv (sch c3) (Q(cpu := R))" using s3(2) by (simp add: at_ease_def)
  then have Rn: "b \<notin> set R" "d \<notin> set R"
    using sched_invD(4) [OF _ cpu] s3(3) sched_invD(4) [OF E2(2) cpu] s2(3) by fastforce+
  have "prog c = Paused c2 (Done ())" using s2(1) user(1) by (simp split: if_splits)
  then show ?thesis
    using s2(3,5,6,8,9,13) s3 E2(2) sb Rn bi
    by - (rule exI [of _ c2], rule exI [of _ c3], rule exI [of _ F3], simp)
qed

text \<open>The four changes of the process: to the first child, to the second one, back, and to the parent.\<close>

lemma four_moves:
  assumes cpu: "cpu < NPUN" and par: "run0 = Paused c1 (Done ())"
    and c1: "sched_inv (sch c1) Q1" "current (sch c1) cpu = b"
      "uc_point (ctxs (sch c1) (proc_stack b)) = At_entry Run_in_par code0 barr ua0"
    and c2: "user code0 ua0 c1 = Paused c2 (Done ())" "sched_inv (sch c2) Q2" "current (sch c2) cpu = d"
      "uc_point (ctxs (sch c2) (proc_stack d)) = At_entry Run_in_par code1 barr ua1"
    and c3: "run_in_par user base cpu code1 barr ua1 c2 = Done () c3" "sched_inv (sch c3) Q3" "current (sch c3) cpu = b"
      "uc_point (ctxs (sch c3) (proc_stack b)) = In_relinquish"
    and c4: "run_bind (par_barr_sync cpu barr c3) (\<lambda>_ c. terminate base cpu c) = Done () c4" "sched_inv (sch c4) Q4"
      "current (sch c4) cpu = p" "uc_point (ctxs (sch c4) (proc_stack p)) = In_relinquish"
    and neq: "b \<noteq> d" "p \<noteq> b"
  shows "\<exists>sv'. m_after user base cpu (Suc (Suc (Suc (Suc 0)))) \<lparr>m_proc = p, m_run = run0, m_saved = sv\<rparr> =
    Some \<lparr>m_proc = p, m_run = Done () c4, m_saved = sv'\<rparr>"
proof -
  let ?k = "\<lambda>c'. run_bind (par_barr_sync cpu barr c') (\<lambda>_ c. terminate base cpu c)"
  let ?sv1 = "sv(p := Done ())" and ?sv2 = "(sv(p := Done ()))(b := ?k)"
  have r1: "run_in_par user base cpu code0 barr ua0 c1 = Paused c2 ?k"
    using c2(1) by (simp add: run_in_par_def)
  have n1: "enter user base cpu ?sv1 c1 = Some \<lparr>m_proc = b, m_run = Paused c2 ?k, m_saved = ?sv1\<rparr>"
    using enter_child [OF c1(1) cpu, unfolded c1(2), OF c1(3)] r1 by simp
  have n2: "enter user base cpu ?sv2 c2 = Some \<lparr>m_proc = d, m_run = Done () c3, m_saved = ?sv2\<rparr>"
    using enter_child [OF c2(2) cpu, unfolded c2(3), OF c2(4)] c3(1) by simp
  have n3: "enter user base cpu ?sv2 c3 = Some \<lparr>m_proc = b, m_run = Done () c4, m_saved = ?sv2\<rparr>"
    using enter_back [OF c3(2) cpu, unfolded c3(3), OF c3(4)] c4(1) by simp
  have n4: "enter user base cpu ?sv2 c4 = Some \<lparr>m_proc = p, m_run = Done () c4, m_saved = ?sv2\<rparr>"
    using enter_back [OF c4(2) cpu, unfolded c4(3), OF c4(4)] neq(2) by simp
  show ?thesis
    unfolding par m_after_Paused n1 bind.simps n2
      m_after_Done [OF c3(3) [THEN trans_neq, OF neq(1)]] n3 m_after_Done [OF c4(3) [THEN trans_neq, OF neq(2)]] n4
    by simp
qed

text \<open>The parts put together.\<close>

lemma construct_communicates:
  assumes inv: "sched_inv (sch c) Q" and mem: "mem_ok lo c F L" and live: "live c Q L" and cpu: "cpu < NPUN"
    and room: "room_for [cls 0, cls 1] c" and free: "\<not> claimed c Mutex_mem" "\<not> claimed c (Mutex_term cpu)"
      "\<not> claimed c (Mutex_chan ch)"
    and f: "\<forall>i < 2. find_mem_index (stacksize i + sizeof_Process) = Inr (cls i)" and work: "Q cpu \<noteq> []"
    and low: "\<forall>x \<in> set (merged (sch c) cpu (Q cpu)). pri_gt (p_pri (proc_of c p)) (p_pri (proc_of c x))"
    and p: "current (sch c) cpu = p"
    and ptr: "waiting (chans c ch) = NULL" "dest \<noteq> NULL" "src \<noteq> NULL"
    and user: "\<And>c. user (code 0) (userArgs 0) c = (let c = c\<lparr>heap := ini (heap c)\<rparr> in
        if sends then chan_out cpu ch src len c else chan_in cpu ch dest len c)"
      "\<And>c. user (code 1) (userArgs 1) c = (let c = c\<lparr>heap := ini' (heap c)\<rparr> in
        if sends then chan_in cpu ch dest len c else chan_out cpu ch src len c)"
  shows "\<exists>n sv' c' F'. m_after user base cpu n
      \<lparr>m_proc = p, m_run = par cpu barr code userArgs stacksize 2 c, m_saved = sv\<rparr> =
      Some \<lparr>m_proc = p, m_run = Done () c', m_saved = sv'\<rparr> \<and> current (sch c') cpu = p \<and>
    heap c' = copy_bytes dest src len (ini' (ini (heap c))) \<and> children (barriers c' barr) = 0 \<and>
    waiting (chans c' ch) = NULL \<and> \<not> claimed c' (Mutex_chan ch) \<and>
    at_ease lo cpu c' (Q(cpu := merged (sch c) cpu (Q cpu))) F' L"
proof -
  define R where "R = merged (sch c) cpu (Q cpu)"
  obtain c1 F1 b d where s1: "par cpu barr code userArgs stacksize 2 c = Paused c1 (Done ())"
    "barriers c1 barr = \<lparr>children = 2, parent = p\<rparr>" "b \<noteq> d" "b \<notin> fst ` L" "d \<notin> fst ` L"
    "uc_point (ctxs (sch c1) (proc_stack b)) = At_entry Run_in_par (code 0) barr (userArgs 0)"
    "uc_point (ctxs (sch c1) (proc_stack d)) = At_entry Run_in_par (code 1) barr (userArgs 1)"
    "uc_point (ctxs (sch c1) (proc_stack p)) = In_relinquish" "p_index (proc_of c1 p) = p_index (proc_of c p)"
    "current (sch c1) cpu = b" "at_ease lo cpu c1 (Q(cpu := d # R)) F1 (L \<union> {(b, cls 0), (d, cls 1)})"
    "idle_on (sch c1) (Q(cpu := d # R)) cpu p" "key_of (sch c1) b = key_of (sch c1) p"
    "key_of (sch c1) d = key_of (sch c1) p" "\<forall>y \<in> set R. key_of (sch c1) p < key_of (sch c1) y"
    "claimed c1 = (claimed c)(Mutex_mem := False)" "chans c1 = chans c" "heap c1 = heap c"
    using par_start [OF inv mem live cpu room free(1,2) f work p low, folded R_def, of barr code userArgs]
    by (elim exE conjE) (rule that)
  let ?L = "L \<union> {(b, cls 0), (d, cls 1)}"
  have pre: "(b, cls 0) \<in> ?L" "(d, cls 1) \<in> ?L" "key_of (sch c1) d = key_of (sch c1) b"
    "\<forall>y \<in> set R. key_of (sch c1) b < key_of (sch c1) y" "children (barriers c1 barr) = 2"
    "waiting (chans c1 ch) = NULL" "\<not> claimed c1 (Mutex_chan ch)"
    using s1(2,13-17) ptr(1) free(3) by simp_all
  obtain c2 c3 F3 where s3: "user (code 0) (userArgs 0) c1 = Paused c2 (Done ())" "sched_inv (sch c2) (Q(cpu := R))"
    "current (sch c2) cpu = d" "same_but {b} (sch c1) (sch c2)"
    "run_in_par user base cpu (code 1) barr (userArgs 1) c2 = Done () c3"
    "at_ease lo cpu c3 (Q(cpu := R)) F3 (?L - {(d, cls 1)})" "current (sch c3) cpu = b" "b \<notin> set R" "d \<notin> set R"
    "uc_point (ctxs (sch c3) (proc_stack b)) = In_relinquish" "unat (p_index (proc_of c3 b)) = cls 0"
    "key_of (sch c3) b = key_of (sch c1) b" "same_but {b, d} (sch c1) (sch c3)" "waiting (chans c3 ch) = NULL"
    "heap c3 = copy_bytes dest src len (ini' (ini (heap c1)))" "children (barriers c3 barr) = 1"
    "parent (barriers c3 barr) = parent (barriers c1 barr)" "\<not> claimed c3 (Mutex_chan ch)"
    using children_meet [where base = base and user = user and ua = "userArgs 1" and code = "code 1" and len = len and
        prog = "user (code 0) (userArgs 0)" and sends = sends, OF s1(11) cpu s1(10) pre ptr(2,3) user]
    by (elim exE conjE) (rule that)
  have E3: "sched_inv (sch c3) (Q(cpu := R))" "in_ipq (sch c3) cpu = []" using s3(6) by (simp_all add: at_ease_def)
  have pn: "p \<notin> {b, d}" using s1(10,12) by (auto simp: idle_on_def members_def)
  note sb = s3(13)
  note sp = same_butD [OF sb pn]
  have pi: "idle_on (sch c3) (Q(cpu := R)) cpu p"
    by (rule idle_move [OF s1(12) sb pn]) (use s1(10) s3(7) E3(2) in \<open>auto simp: members_def\<close>)
  have pL: "(p, unat (p_index (proc_of c3 p))) \<in> ?L - {(d, cls 1)}"
    using sp(4) s1(9) pn live_current [OF live cpu p [symmetric]] by (auto simp: proc_of_def)
  have pk: "key_of (sch c3) p = key_of (sch c3) (current (sch c3) cpu)" "\<forall>y \<in> set R. key_of (sch c3) p < key_of (sch c3) y"
  proof -
    show "key_of (sch c3) p = key_of (sch c3) (current (sch c3) cpu)"
      using sp(8) s1(13) s3(7,12) by simp
    show "\<forall>y \<in> set R. key_of (sch c3) p < key_of (sch c3) y"
      using sp(8) s1(15) s3(8,9) same_butD(8) [OF sb] by (metis insertE singletonD)
  qed
  have bar3: "parent (barriers c3 barr) = p" using s1(2) s3(17) by simp
  obtain c4 F4 where s4: "run_bind (par_barr_sync cpu barr c3) (\<lambda>_ c. terminate base cpu c) = Done () c4"
    "at_ease lo cpu c4 (Q(cpu := R)) F4 (?L - {(d, cls 1)} - {(b, cls 0)})" "current (sch c4) cpu = p" "p \<noteq> b"
    "ctxs (sch c4) (proc_stack p) = ctxs (sch c3) (proc_stack p)" "chans c4 = chans c3" "heap c4 = heap c3"
    "children (barriers c4 barr) = 0" "\<forall>ch. claimed c4 (Mutex_chan ch) = claimed c3 (Mutex_chan ch)"
    using first_child_ends [where base = base, OF s3(6) cpu pi pL pk s3(16) bar3, unfolded s3(7,11)]
    by (elim exE conjE) (rule that, simp_all)
  have L: "?L - {(d, cls 1)} - {(b, cls 0)} = L" using s1(4,5) by force
  have E4: "sched_inv (sch c4) (Q(cpu := R))" using s4(2) by (simp add: at_ease_def)
  have u2: "uc_point (ctxs (sch c2) (proc_stack d)) = At_entry Run_in_par (code 1) barr (userArgs 1)"
    using same_butD(1) [OF s3(4), of d] s1(3,7) by simp
  have E1: "sched_inv (sch c1) (Q(cpu := d # R))" using s1(11) by (simp add: at_ease_def)
  have u4: "uc_point (ctxs (sch c4) (proc_stack p)) = In_relinquish" using s4(5) sp(1) s1(8) by simp
  obtain sv' where "m_after user base cpu (Suc (Suc (Suc (Suc 0))))
      \<lparr>m_proc = p, m_run = par cpu barr code userArgs stacksize 2 c, m_saved = sv\<rparr> =
      Some \<lparr>m_proc = p, m_run = Done () c4, m_saved = sv'\<rparr>"
    using four_moves [OF cpu s1(1) E1 s1(10,6) s3(1,2,3) u2 s3(5) E3(1) s3(7,10) s4(1) E4 s4(3) u4 s1(3) s4(4)] by blast
  then show ?thesis
    using s4 s3(14,15,18) s1(18) L by (intro exI conjI) (assumption, simp_all add: R_def)
qed

text \<open>
  C1. A whole construct, as \<^verbatim>\<open>examples/commun.c\<close> uses it: a process makes two children of
  which one sends on a channel and the other one receives from it, in either order, on a processor
  where it has the highest priority. After finitely many changes of the process the construct
  returns to the parent: the message is where the receiver wanted it, the barrier is down to zero,
  the channel is free, the records of the children are free memory again, and the ready queue holds
  exactly the processes that were ready before, in their order.
\<close>

theorem par_communicates:
  assumes inv: "sched_inv (sch c) Q" and mem: "mem_ok lo c F L" and live: "live c Q L" and cpu: "cpu < NPUN"
    and room: "room_for [cls 0, cls 1] c" and free: "\<not> claimed c Mutex_mem" "\<not> claimed c (Mutex_term cpu)"
      "\<not> claimed c (Mutex_chan ch)"
    and f: "\<forall>i < 2. find_mem_index (stacksize i + sizeof_Process) = Inr (cls i)" and work: "Q cpu \<noteq> []"
    and low: "\<forall>x \<in> set (merged (sch c) cpu (Q cpu)). pri_gt (p_pri (proc_of c p)) (p_pri (proc_of c x))"
    and p: "current (sch c) cpu = p"
    and ptr: "waiting (chans c ch) = NULL" "dest \<noteq> NULL" "src \<noteq> NULL"
    and user: "\<And>c. user (code 0) (userArgs 0) c = (let c = c\<lparr>heap := ini (heap c)\<rparr> in
        if sends then chan_out cpu ch src len c else chan_in cpu ch dest len c)"
      "\<And>c. user (code 1) (userArgs 1) c = (let c = c\<lparr>heap := ini' (heap c)\<rparr> in
        if sends then chan_in cpu ch dest len c else chan_out cpu ch src len c)"
  shows "\<exists>n sv' c' F'. m_after user base cpu n
      \<lparr>m_proc = p, m_run = par cpu barr code userArgs stacksize 2 c, m_saved = sv\<rparr> =
      Some \<lparr>m_proc = p, m_run = Done () c', m_saved = sv'\<rparr> \<and> current (sch c') cpu = p \<and>
    heap c' = copy_bytes dest src len (ini' (ini (heap c))) \<and> children (barriers c' barr) = 0 \<and>
    waiting (chans c' ch) = NULL \<and> \<not> claimed c' (Mutex_chan ch) \<and>
    at_ease lo cpu c' (Q(cpu := merged (sch c) cpu (Q cpu))) F' L"
  by (rule construct_communicates [where ini = ini and ini' = ini' and user = user and code = code and userArgs = userArgs and
      stacksize = stacksize and cls = cls and Q = Q and sends = sends, OF assms])

theorem par_communicates_witness:
  "\<exists>n sv' c' F'. m_after (\<lambda>code ua c. if ua = 0 then chan_out 0 0x3000 0x5000 8 c else chan_in 0 0x3000 0x1000 8 c) 0x9000 0 n
      \<lparr>m_proc = 0x300, m_run = par 0 0x2000 (\<lambda>_. 0x8000) (\<lambda>i. of_nat i) (\<lambda>_. 1024) 2 (sample_roomy\<lparr>sch := urgent_sched\<rparr>),
        m_saved = \<lambda>_. Done ()\<rparr> = Some \<lparr>m_proc = 0x300, m_run = Done () c', m_saved = sv'\<rparr> \<and>
    heap c' = copy_bytes 0x1000 0x5000 8 (heap sample_roomy) \<and> children (barriers c' 0x2000) = 0 \<and>
    sched_inv (sch c') (sample_queues(0 := [0x400, 0x500, 0x100]))"
proof -
  let ?c = "sample_roomy\<lparr>sch := urgent_sched\<rparr>" and ?L = "(\<lambda>a. (a, 3)) ` {0x100, 0x200, 0x300, 0x400, 0x500 :: addr}"
  let ?user = "\<lambda>code ua c. if ua = 0 then chan_out 0 0x3000 0x5000 8 c else chan_in 0 0x3000 0x1000 8 c"
  have inv: "sched_inv (sch ?c) sample_queues" using urgent_sched_inv by simp
  have mem: "mem_ok 1 ?c (\<lambda>_. []) ?L" using sample_roomy_ok(4) by simp
  have live: "live ?c sample_queues ?L"
    using sample_roomy_ok(5)
    by (auto simp: live_def members_def proc_of_def urgent_sched_simps sample_roomy_def sample_cxp_def sample_process_def)
  have room: "room_for [11, 11] ?c" using sample_room by simp
  have free: "\<not> claimed ?c m" for m using sample_roomy_ok(3) by simp
  have f: "\<forall>i < 2. find_mem_index ((\<lambda>_. 1024) i + sizeof_Process) = Inr ((\<lambda>_. 11) (i :: nat))"
    using sample_class by simp
  have work: "sample_queues 0 \<noteq> []" and cpu: "(0 :: pun) < NPUN" and p: "current (sch ?c) 0 = 0x300"
    by (simp_all add: sample_queues_def NPUN_def urgent_sched_simps) (simp add: sample_sched_def)
  have M: "merged (sch ?c) 0 (sample_queues 0) = [0x400, 0x500, 0x100]" using urgent_merged by simp
  have low: "\<forall>x \<in> set (merged (sch ?c) 0 (sample_queues 0)). pri_gt (p_pri (proc_of ?c 0x300)) (p_pri (proc_of ?c x))"
    unfolding M by (simp add: proc_of_def urgent_sched_simps)
      (simp add: sample_sched_def sample_process_def pri_iffs pval_mod IDLE_PRI_def PRI_LOW_def)
  have ptr: "waiting (chans ?c 0x3000) = NULL" "(0x1000 :: addr) \<noteq> NULL" "(0x5000 :: addr) \<noteq> NULL"
    by (simp_all add: sample_roomy_def sample_cxp_def)
  show ?thesis
    using par_communicates [where sends = True and ini = "\<lambda>h. h" and ini' = "\<lambda>h. h" and code = "\<lambda>_. 0x8000" and userArgs = "\<lambda>i. of_nat i" and user = ?user and
        stacksize = "\<lambda>_. 1024" and cls = "\<lambda>_. 11" and base = "0x9000" and barr = "0x2000" and sv = "\<lambda>_. Done ()" and
        len = 8, OF inv mem live cpu room free free free f work low p ptr]
    unfolding M at_ease_def by simp blast
qed

end
