(* ===== verification/Initialization.thy ===== *)
theory Initialization
  imports Lifecycle_Correct
begin

text \<open>
  The initialization establishes the invariants: from a state in which the static variables are
  zero, and if the operating system grants the memory, the timers and the thread, the initial
  process runs on processor 0 with the idle process of that processor ready, the idle process of
  processor 1 runs there, and everything the handlers rely on holds.
\<close>

lemma enqueue0_empty:
  assumes "p \<noteq> NULL" and "p_pun (procs s p) < NPUN" and "rdyQues s (p_pun (procs s p)) = NULL"
  shows "enqueue0 p s = Inr (set_next p NULL (s\<lparr>rdyQues := (rdyQues s)(p_pun (procs s p) := p)\<rparr>))"
  using assms by (simp add: enqueue0_def walk_stop Let_def)

lemma barrier_set_up:
  "define_handler cpu i h = Inr h' \<Longrightarrow> barrier h' = barrier h \<and> os_readings h' = os_readings h"
  "init_timer cpu ty h = Inr h' \<Longrightarrow> barrier h' = barrier h \<and> os_readings h' = os_readings h"
  "set_timer_repeating cpu ty t h = Inr h' \<Longrightarrow> barrier h' = barrier h \<and> os_readings h' = os_readings h"
  by (auto simp: define_handler_def init_timer_def set_timer_repeating_def timer_settime_def Let_def
      split: if_splits option.splits)

lemma barrier_init_processor:
  "init_processor cpu h = Inr h' \<Longrightarrow> barrier h' = barrier h \<and> os_readings h' = os_readings h"
  by (auto simp: init_processor_def define_interrupt_handlers_def Let_def dest!: barrier_set_up split: if_splits)

lemma other_puns_eq: "other_puns = [1]"
  by (simp add: other_puns_def NPUN_def upt_rec)

subsection \<open>Up to the barrier\<close>

definition idle_class :: nat where "idle_class = 17"

lemma find_idle: "find_mem_index (IDLE_STACK_SIZE + sizeof_Process) = Inr idle_class"
  by (simp add: find_mem_index_def procmemlen_def IDLE_STACK_SIZE_def sizeof_Process_def idle_class_def)

text \<open>The state of the scheduler when the initial processor reaches the barrier.\<close>

definition booting :: "addr \<Rightarrow> addr \<Rightarrow> addr \<Rightarrow> nat \<Rightarrow> sched \<Rightarrow> bool" where
  "booting b0 b1 b2 i s \<longleftrightarrow> distinct [b0, b1, b2] \<and> NULL \<notin> {b0, b1, b2} \<and>
     procs s b0 = new_process b0 i INIT_PRI 0 \<and> procs s b1 = new_process b1 idle_class IDLE_PRI 0 \<and>
     procs s b2 = new_process b2 idle_class IDLE_PRI 1 \<and>
     rdyQues s 0 = b1 \<and> rdyQues s 1 = NULL \<and> (\<forall>p < NPUN. ipQues s p = ipq_init) \<and>
     current s 0 = b0 \<and> current s 1 = b2 \<and> current_pri s 0 = INIT_PRI \<and> current_pri s 1 = IDLE_PRI \<and>
     executing s 0 = proc_stack b0"

lemma set_current_new:
  "procs s b = new_process b i pri cpu \<Longrightarrow> b \<noteq> NULL \<Longrightarrow> set_current cpu b s =
    Inr (s\<lparr>current := (current s)(cpu := b), current_pri := (current_pri s)(cpu := pri)\<rparr>)"
  by (simp add: set_current_def new_process_def)


definition zero_sched :: "hw_state \<Rightarrow> sched \<Rightarrow> sched" where
  "zero_sched h s = s\<lparr>ipQues := (\<lambda>p. if p < NPUN then ipq_init else ipQues s p),
     rdyQues := (\<lambda>p. if p < NPUN then NULL else rdyQues s p), hw := h\<rparr>"

lemma modules_ok:
  assumes m: "malloc (tsize - istacksize) = T0" "T0 \<noteq> NULL" and free: "\<forall>m. \<not> claimed c m"
  shows "\<exists>c'. init_modules malloc tsize istacksize c = Inr c' \<and>
    sch c' = zero_sched (hardware_init (disable 0 (hw (sch c)))) (sch c) \<and> (\<forall>m. \<not> claimed c' m) \<and>
    tail c' = T0 \<and> taillen c' = tsize - istacksize \<and> mem_ok (unat T0) c' (\<lambda>_. []) {} \<and>
    (\<forall>p < NPUN. timeQue c' p = NULL \<and> (\<forall>i < NINTR. interrupts c' p i = NULL)) \<and> currentTime c' = currentTime c"
proof -
  have pos: "0 < unat T0" using m(2) by (simp add: unat_gt_0)
  show ?thesis
    using m free pos NCLASS_NALLOC
    by (simp add: init_modules_def memory_init_def acquire_memory_def sched_init_def timer_init_def
        interrupt_init_def other_puns_eq put_sched_def on_hw_def init_mutex_def zero_sched_def mem_ok_def
        blocks_def Let_def cong: if_cong)
qed

text \<open>What a scheduler's state looks like with three new processes.\<close>

lemma processes_ok:
  assumes mem: "mem_ok lo c (\<lambda>_. []) {}" and free: "\<forall>m. \<not> claimed c m"
    and room: "room_for (i # idle_class # idle_class # ks) c"
    and f: "find_mem_index (istacksize + sizeof_Process) = Inr i" and thread: "thread 1"
    and ip: "init_processor 0 (hw (sch c)) = Inr h0"
    and s: "sch c = zero_sched (hw (sch c)) s0"
  shows "\<exists>c' F b0 b1 b2. init_processes thread istacksize c = Done () c' \<and> booting b0 b1 b2 i (sch c') \<and>
    mem_ok lo c' F {(b0, i), (b1, idle_class), (b2, idle_class)} \<and> (\<forall>m. \<not> claimed c' m) \<and>
    hw (sch c') = h0\<lparr>thr_mask := (thr_mask h0)(1 := thr_mask h0 0)\<rparr> \<and>
    timeQue c' = timeQue c \<and> interrupts c' = interrupts c \<and> tmos c' = tmos c \<and> room_for ks c' \<and>
    currentTime c' = currentTime c"
proof -
  have np: "(0::pun) < NPUN" "(1::pun) < NPUN" by (simp_all add: NPUN_def)
  have r0: "rdyQues (sch c) 0 = NULL" "rdyQues (sch c) 1 = NULL" "\<forall>p < NPUN. ipQues (sch c) p = ipq_init"
    using np by (subst s, simp add: zero_sched_def)+
  have fm: "\<not> claimed c Mutex_mem" using free by simp
  obtain b0 c1 F1 pl1 tl1 where m1: "make_process 0 No_code NULL NULL istacksize INIT_PRI 0 NULL c = Done b0 c1"
    "c1 = c\<lparr>claimed := (claimed c)(Mutex_mem := False), procmemlist := pl1, tail := tl1, sch := with_process b0
      (new_process b0 i INIT_PRI 0) (new_context 0 No_code NULL NULL NULL istacksize b0 (sch c)) (sch c)\<rparr>"
    "b0 \<noteq> NULL" "mem_ok lo c1 F1 {(b0, i)}" "room_for (idle_class # idle_class # ks) c1"
    using make_process_raw [OF mem room fm f, of 0 No_code NULL NULL INIT_PRI 0 NULL] by (elim exE conjE) (rule that)
  let ?c2 = "put_sched (on_hw (\<lambda>_. h0)) c1"
  let ?s3 = "(sch ?c2)\<lparr>current := (current (sch ?c2))(0 := b0), current_pri := (current_pri (sch ?c2))(0 := INIT_PRI)\<rparr>"
  let ?c4 = "run_as b0 (?c2\<lparr>sch := ?s3\<rparr>)"
  have a0: "activate_processor thread 0 c1 = Inr ?c2"
    using ip m1(2) by (simp add: activate_processor_def)
  have pr: "procs (sch ?c2) b0 = new_process b0 i INIT_PRI 0" using m1(2) by simp
  have sc: "set_current 0 b0 (sch ?c2) = Inr ?s3" by (rule set_current_new [OF pr m1(3)])
  have mem4: "mem_ok lo ?c4 F1 {(b0, i)}" and room4: "room_for (idle_class # idle_class # ks) ?c4"
    and fm4: "\<not> claimed ?c4 Mutex_mem"
    using m1(2,4,5) by (simp_all add: run_as_def put_sched_def mem_ok_def room_for_def)
  obtain b1 c5 F5 pl5 tl5 where m5: "make_process 0 Idle NULL NULL IDLE_STACK_SIZE IDLE_PRI 0 NULL ?c4 = Done b1 c5"
    "c5 = ?c4\<lparr>claimed := (claimed ?c4)(Mutex_mem := False), procmemlist := pl5, tail := tl5, sch := with_process b1
      (new_process b1 idle_class IDLE_PRI 0) (new_context 0 Idle NULL NULL NULL IDLE_STACK_SIZE b1 (sch ?c4)) (sch ?c4)\<rparr>"
    "b1 \<noteq> NULL" "\<forall>x \<in> {(b0, i)}. fst x \<noteq> b1 \<and> span x \<inter> span (b1, idle_class) = {}"
    "mem_ok lo c5 F5 (insert (b1, idle_class) {(b0, i)})" "room_for (idle_class # ks) c5"
    using make_process_raw [OF mem4 room4 fm4 find_idle, of 0 Idle NULL NULL IDLE_PRI 0 NULL] by (elim exE conjE) (rule that)
  have pr5: "procs (sch c5) b1 = new_process b1 idle_class IDLE_PRI 0" "procs (sch c5) b0 = new_process b0 i INIT_PRI 0"
    using m5(2,4) m1(2) by (simp_all add: run_as_def put_sched_def)
  let ?s6 = "set_next b1 NULL ((sch c5)\<lparr>rdyQues := (rdyQues (sch c5))(0 := b1)\<rparr>)"
  let ?c6 = "c5\<lparr>sch := ?s6\<rparr>"
  have q5: "rdyQues (sch c5) 0 = NULL" using m5(2) m1(2) r0 by (simp add: run_as_def put_sched_def)
  have e: "enqueue0 b1 (sch c5) = Inr ?s6"
    using enqueue0_empty [of b1 "sch c5"] m5(3) pr5(1) q5 np by (simp add: new_process_def)
  have mem6: "mem_ok lo ?c6 F5 (insert (b1, idle_class) {(b0, i)})" and room6: "room_for (idle_class # ks) ?c6"
    and fm6: "\<not> claimed ?c6 Mutex_mem"
    using m5(2,5,6) by simp_all
  obtain b2 c7 F7 pl7 tl7 where m7: "make_process 0 Idle NULL NULL IDLE_STACK_SIZE IDLE_PRI 1 NULL ?c6 = Done b2 c7"
    "c7 = ?c6\<lparr>claimed := (claimed ?c6)(Mutex_mem := False), procmemlist := pl7, tail := tl7, sch := with_process b2
      (new_process b2 idle_class IDLE_PRI 1) (new_context 0 Idle NULL NULL NULL IDLE_STACK_SIZE b2 (sch ?c6)) (sch ?c6)\<rparr>"
    "b2 \<noteq> NULL" "\<forall>x \<in> insert (b1, idle_class) {(b0, i)}. fst x \<noteq> b2 \<and> span x \<inter> span (b2, idle_class) = {}"
    "mem_ok lo c7 F7 (insert (b2, idle_class) (insert (b1, idle_class) {(b0, i)}))" "room_for ks c7"
    using make_process_raw [OF mem6 room6 fm6 find_idle, of 0 Idle NULL NULL IDLE_PRI 1 NULL] by (elim exE conjE) (rule that)
  let ?c8 = "put_sched (\<lambda>s. s\<lparr>current := (current s)(1 := b2), current_pri := (current_pri s)(1 := IDLE_PRI)\<rparr>) c7"
  let ?c9 = "put_sched (on_hw (\<lambda>h. h\<lparr>thr_mask := (thr_mask h)(1 := thr_mask h 0)\<rparr>)) ?c8"
  have a1: "activate_processor thread 1 ?c8 = Inr ?c9" using thread by (simp add: activate_processor_def)
  have run: "init_processes thread istacksize c = Done () ?c9"
    unfolding init_processes_def m1(1) run_bind_simps of_step_def a0 sum.case on_sched_def sc m5(1) e
      other_puns_eq start_others.simps m7(1) Let_def a1 ..
  have np': "(new_process b n pri pun)\<lparr>p_next := NULL\<rparr> = new_process b n pri pun" for b n pri pun
    by (simp add: new_process_def)
  have d: "b1 \<noteq> b0" "b2 \<noteq> b0" "b2 \<noteq> b1" using m5(4) m7(4) by auto
  have p9: "procs (sch ?c9) = (procs (sch c))(b0 := new_process b0 i INIT_PRI 0,
      b1 := new_process b1 idle_class IDLE_PRI 0, b2 := new_process b2 idle_class IDLE_PRI 1)"
    using m1(2) m5(2) m7(2) d by (simp add: run_as_def put_sched_def set_next_def np' fun_eq_iff)
  have f9: "rdyQues (sch ?c9) 0 = b1" "rdyQues (sch ?c9) 1 = NULL" "\<forall>p < NPUN. ipQues (sch ?c9) p = ipq_init"
    "current (sch ?c9) 0 = b0" "current (sch ?c9) 1 = b2" "current_pri (sch ?c9) 0 = INIT_PRI"
    "current_pri (sch ?c9) 1 = IDLE_PRI" "executing (sch ?c9) 0 = proc_stack b0"
    using m1(2) m5(2) m7(2) d r0 by (simp_all add: run_as_def put_sched_def set_next_def new_process_def)
  have "booting b0 b1 b2 i (sch ?c9)"
    using p9 f9 d m1(3) m5(3) m7(3) by (simp add: booting_def)
  moreover have "hw (sch ?c9) = h0\<lparr>thr_mask := (thr_mask h0)(1 := thr_mask h0 0)\<rparr>"
    using m1(2) m5(2) m7(2) by (simp add: run_as_def put_sched_def)
  moreover have "\<forall>m. \<not> claimed ?c9 m" "timeQue ?c9 = timeQue c" "interrupts ?c9 = interrupts c" "tmos ?c9 = tmos c"
    "currentTime ?c9 = currentTime c"
    using m1(2) m5(2) m7(2) free by (simp_all add: run_as_def put_sched_def)
  moreover have "mem_ok lo ?c9 F7 {(b0, i), (b1, idle_class), (b2, idle_class)}"
    using m7(5) by (simp add: put_sched_def insert_commute)
  moreover have "room_for ks ?c9" using m7(6) by (simp add: put_sched_def)
  ultimately show ?thesis using run
    by - (rule exI [of _ ?c9], rule exI [of _ F7], rule exI [of _ b0], rule exI [of _ b1], rule exI [of _ b2], blast)
qed

subsection \<open>Past the barrier\<close>

definition first_queues :: "addr \<Rightarrow> pun \<Rightarrow> addr list" where
  "first_queues b p = (if p = 0 then [b] else [])"

lemma booting_inv:
  assumes b: "booting b0 b1 b2 i s" and e: "executing s 1 = proc_stack b2"
  shows "sched_inv s (first_queues b1)" and "p < NPUN \<Longrightarrow> top_running s (first_queues b1) p"
    and "members s (first_queues b1) 0 = {b0, b1}" and "members s (first_queues b1) 1 = {b2}"
proof -
  note B = b [unfolded booting_def]
  have q: "in_ipq s p = []" if "p < NPUN" for p using B that by (simp add: in_ipq_def)
  show m: "members s (first_queues b1) 0 = {b0, b1}" "members s (first_queues b1) 1 = {b2}"
    using B q by (auto simp: members_def first_queues_def less_NPUN)
  have "ready_ok s (first_queues b1)"
    using B by (auto simp: ready_ok_def ready_chain_def first_queues_def less_NPUN next_of_def new_process_def)
  then have "queues_ok s (first_queues b1)"
    using B q by (auto simp: queues_ok_def less_NPUN)
  moreover have "running_ok s p" if "p < NPUN" for p
    using B e that by (auto simp: running_ok_def less_NPUN new_process_def)
  ultimately show "sched_inv s (first_queues b1)"
    using B q m unfolding sched_inv_def by (auto simp: less_NPUN first_queues_def new_process_def)
  show "top_running s (first_queues b1) p" if "p < NPUN"
    using B that by (auto simp: top_running_def first_queues_def less_NPUN key_of_def new_process_def
        IDLE_PRI_def PRI_LOW_def INIT_PRI_def PRI_HIGH_def pval_mod)
qed

lemma synchronize_ok:
  assumes bar: "barrier (hw (sch c)) = 2" and g: "init_processor 1 (barrier_arrive (hw (sch c))) = Inr g"
    and sp: "p_stackptr (proc_of c (current (sch c) 1)) = a"
  shows "synchronize_processors c = Inr (c\<lparr>sch := (sch c)\<lparr>hw := (barrier_arrive g)\<lparr>thr_mask :=
      (thr_mask g)(1 := uc_sigmask (ctxs (sch c) a))\<rparr>, executing := (executing (sch c))(1 := a)\<rparr>\<rparr>)"
proof -
  have "barrier g = 1" using barrier_init_processor [OF g] bar by (simp add: barrier_arrive_def)
  then have "barrier_open (barrier_arrive g)" by (simp add: barrier_open_def barrier_arrive_def)
  with g sp show ?thesis
    by (simp add: synchronize_processors_def other_puns_eq put_sched_def on_hw_def run_process_init_def
        run_process_start_def proc_of_def barrier_arrive_def)
qed

lemma booting_cong:
  assumes "booting b0 b1 b2 i s"
  shows "booting b0 b1 b2 i (s\<lparr>hw := h\<rparr>)" "booting b0 b1 b2 i (s\<lparr>executing := (executing s)(1 := e)\<rparr>)"
  using assms by (simp_all add: booting_def)

lemma initialize_ok:
  assumes z: "static_zero (hw (sch c))" and bar: "barrier (hw (sch c)) = 2" and free: "\<forall>m. \<not> claimed c m"
    and tm: "os_new_timer (hw (sch c)) 0 = Some t" "os_new_timer (hw (sch c)) 1 = Some u"
      "os_new_timer (hw (sch c)) 2 = Some v" "distinct [t, u, v]"
    and thread: "thread 1" and m: "malloc (tsize - istacksize) = T0" "T0 \<noteq> NULL"
    and f: "find_mem_index (istacksize + sizeof_Process) = Inr i"
    and room: "unat T0 + class_size i + 2 * class_size idle_class + sum_list (map class_size ks) < 2 ^ 32" "class_size i \<le> unat (tsize - istacksize)"
      "class_size idle_class \<le> unat (tsize - istacksize)" "i < NCLASS"
      "\<forall>k \<in> set ks. k < NCLASS \<and> class_size k \<le> unat (tsize - istacksize)"
  shows "\<exists>c' F b0 b1 b2. initialize malloc thread tsize istacksize c = Done () c' \<and> booting b0 b1 b2 i (sch c') \<and>
    executing (sch c') 1 = proc_stack b2 \<and> mem_ok (unat T0) c' F {(b0, i), (b1, idle_class), (b2, idle_class)} \<and>
    (\<forall>m. \<not> claimed c' m) \<and> routing 9 (hw (sch c')) {0, 1} ({0} \<times> intrs_of 0 \<union> {1} \<times> intrs_of 1) \<and>
    tmo_ok c' (\<lambda>_. []) \<and> clock_ok 0 c' \<and> timeout_timer 0 c' \<noteq> None \<and> timeout_timer 1 c' \<noteq> None \<and>
    (\<forall>p < NPUN. \<forall>i < NINTR. interrupts c' p i = NULL) \<and>
    thr_mask (hw (sch c')) 0 = sigmask (hw (sch c')) 0 \<and> room_for ks c' \<and>
    currentTime c' = currentTime c \<and> os_readings (hw (sch c')) = os_readings (hw (sch c))"
proof -
  let ?h = "disable 0 (hw (sch c))"
  obtain c3 where c3: "init_modules malloc tsize istacksize c = Inr c3"
    "sch c3 = zero_sched (hardware_init ?h) (sch c)" "\<forall>m. \<not> claimed c3 m" "tail c3 = T0"
    "taillen c3 = tsize - istacksize" "mem_ok (unat T0) c3 (\<lambda>_. []) {}"
    "\<forall>p < NPUN. timeQue c3 p = NULL \<and> (\<forall>i < NINTR. interrupts c3 p i = NULL)" "currentTime c3 = currentTime c"
    using modules_ok [of malloc tsize istacksize T0 c, OF m free] by blast
  have h3: "hw (sch c3) = hardware_init ?h" "sch c3 = zero_sched (hw (sch c3)) (sch c)"
    using c3(2) by (simp_all add: zero_sched_def)
  have zh: "static_zero ?h" "os_new_timer ?h = os_new_timer (hw (sch c))"
    using z by (simp_all add: static_zero_def disable_def)
  obtain h0 where h0: "init_processor 0 (hardware_init ?h) = Inr h0" "routing 5 h0 {0} ({0} \<times> intrs_of 0)"
    "n_created h0 = 2" "os_new_timer h0 = os_new_timer ?h"
    "timer h0 = (\<lambda>_ _. 0)(0 := (\<lambda>_. 0)(TIMER_ELAPSED := t, TIMER_TIMEOUT := u))"
    "os_timers h0 = [t \<mapsto> \<lparr>tm_signo = signal_no h0 0 INTR_ELAPSED, it_value = tick_ts, it_interval = tick_ts\<rparr>,
      u \<mapsto> \<lparr>tm_signo = signal_no h0 0 INTR_TIMEOUT, it_value = zero_ts, it_interval = zero_ts\<rparr>]"
    using init_processor_0 [OF zh(1), of t u] tm zh(2) by auto
  have ip: "init_processor 0 (hw (sch c3)) = Inr h0" using h0(1) h3(1) by simp
  have b0: "barrier h0 = 2" and r0: "os_readings h0 = os_readings (hw (sch c))"
    using barrier_init_processor [OF h0(1)] bar by (simp_all add: hardware_init_def disable_def)
  have room3: "room_for (i # idle_class # idle_class # ks) c3"
    using room c3(4,5) by (simp add: room_for_def idle_class_def NCLASS_def)
  obtain c4 F b0' b1 b2 where c4: "init_processes thread istacksize c3 = Done () c4" "booting b0' b1 b2 i (sch c4)"
    "mem_ok (unat T0) c4 F {(b0', i), (b1, idle_class), (b2, idle_class)}" "\<forall>m. \<not> claimed c4 m"
    "hw (sch c4) = h0\<lparr>thr_mask := (thr_mask h0)(1 := thr_mask h0 0)\<rparr>"
    "timeQue c4 = timeQue c3" "interrupts c4 = interrupts c3" "room_for ks c4" "currentTime c4 = currentTime c3"
    using processes_ok [where thread = thread, OF c3(6,3) room3 f thread ip h3(2)] by blast
  let ?g = "barrier_arrive (hw (sch c4))"
  have r5: "routing 5 ?g {0} ({0} \<times> intrs_of 0)" and v: "os_new_timer ?g (n_created ?g) = Some v"
    using h0(2,3,4) c4(5) tm(3) zh(2) routing_cong [of ?g h0] by (simp_all add: barrier_arrive_def)
  obtain g where g: "init_processor 1 ?g = Inr g" "routing 9 g {0, 1} ({0} \<times> intrs_of 0 \<union> {1} \<times> intrs_of 1)"
    "timer g = (timer ?g)(1 := (timer ?g 1)(TIMER_TIMEOUT := v))"
    "os_timers g = (os_timers ?g)(v \<mapsto>
      \<lparr>tm_signo = signal_no g 1 INTR_TIMEOUT, it_value = zero_ts, it_interval = zero_ts\<rparr>)"
    using init_processor_1 [OF r5 v] by (elim exE conjE) (rule that)
  have sp: "p_stackptr (proc_of c4 (current (sch c4) 1)) = proc_stack b2"
    using c4(2) by (simp add: booting_def proc_of_def new_process_def)
  have b4: "barrier (hw (sch c4)) = 2" using c4(5) b0 by simp
  let ?h5 = "(barrier_arrive g)\<lparr>thr_mask := (thr_mask g)(1 := uc_sigmask (ctxs (sch c4) (proc_stack b2)))\<rparr>"
  let ?c' = "c4\<lparr>sch := (sch c4)\<lparr>hw := enable 0 ?h5, executing := (executing (sch c4))(1 := proc_stack b2)\<rparr>\<rparr>"
  have run: "initialize malloc thread tsize istacksize c = Done () ?c'"
    using c3(1) c4(1) synchronize_ok [OF b4 g(1) sp]
    by (simp add: initialize_def of_step_def put_sched_def on_hw_def)
  have "booting b0' b1 b2 i (sch ?c')"
    using booting_cong(2) [OF booting_cong(1) [OF c4(2), of "enable 0 ?h5"], of "proc_stack b2"] by simp
  moreover have "mem_ok (unat T0) ?c' F {(b0', i), (b1, idle_class), (b2, idle_class)}" using c4(3) by simp
  moreover have "routing 9 (hw (sch ?c')) {0, 1} ({0} \<times> intrs_of 0 \<union> {1} \<times> intrs_of 1)"
    using g(2) routing_cong [of "hw (sch ?c')" g] by (simp add: enable_def barrier_arrive_def)
  moreover have "tmo_ok ?c' (\<lambda>_. [])" using c3(7) c4(6) by (simp add: tmo_ok_def)
  moreover have "clock_ok 0 ?c'" "timeout_timer 0 ?c' \<noteq> None" "timeout_timer 1 ?c' \<noteq> None"
    using g(3,4) h0(5,6) c4(5) tm(4)
    by (simp_all add: clock_ok_def timeout_timer_def enable_def barrier_arrive_def intr_numbers)
  moreover have "room_for ks ?c'" using c4(8) by simp
  moreover have "currentTime ?c' = currentTime c" using c4(9) c3(8) by simp
  moreover have "os_readings (hw (sch ?c')) = os_readings (hw (sch c))"
    using barrier_init_processor [OF g(1)] r0 c4(5) by (simp add: enable_def barrier_arrive_def)
  ultimately show ?thesis using run c4(4,7) c3(7)
    by - (rule exI [of _ ?c'], rule exI [of _ F], rule exI [of _ b0'], rule exI [of _ b1], rule exI [of _ b2],
      simp add: enable_def)
qed

lemma initialize_state:
  assumes "static_zero (hw (sch c))" and "barrier (hw (sch c)) = 2" and "\<forall>m. \<not> claimed c m"
    and "os_new_timer (hw (sch c)) 0 = Some t" and "os_new_timer (hw (sch c)) 1 = Some u"
    and "os_new_timer (hw (sch c)) 2 = Some v" and "distinct [t, u, v]"
    and "thread 1" and "malloc (tsize - istacksize) = T0" and "T0 \<noteq> NULL"
    and "find_mem_index (istacksize + sizeof_Process) = Inr i" and "i < NCLASS"
    and "unat T0 + class_size i + 2 * class_size idle_class < 2 ^ 32"
    and "class_size i \<le> unat (tsize - istacksize)" and "class_size idle_class \<le> unat (tsize - istacksize)"
  shows "\<exists>c' F b0 b1 b2. initialize malloc thread tsize istacksize c = Done () c' \<and>
    sched_inv (sch c') (first_queues b1) \<and> current (sch c') 0 = b0 \<and> current (sch c') 1 = b2 \<and>
    p_pri (proc_of c' b0) = INIT_PRI \<and> p_pri (proc_of c' b1) = IDLE_PRI \<and> p_pri (proc_of c' b2) = IDLE_PRI \<and>
    mem_ok (unat T0) c' F {(b0, i), (b1, idle_class), (b2, idle_class)} \<and>
    live c' (first_queues b1) {(b0, i), (b1, idle_class), (b2, idle_class)} \<and> (\<forall>m. \<not> claimed c' m) \<and>
    routing 9 (hw (sch c')) {0, 1} ({0} \<times> intrs_of 0 \<union> {1} \<times> intrs_of 1) \<and>
    handlers_ok 0 c' (first_queues b1) (\<lambda>_. []) \<and> thr_mask (hw (sch c')) 0 = sigmask (hw (sch c')) 0"
proof -
  obtain c' F b0 b1 b2 where c': "initialize malloc thread tsize istacksize c = Done () c'" "booting b0 b1 b2 i (sch c')"
    "executing (sch c') 1 = proc_stack b2" "mem_ok (unat T0) c' F {(b0, i), (b1, idle_class), (b2, idle_class)}"
    "\<forall>m. \<not> claimed c' m" "routing 9 (hw (sch c')) {0, 1} ({0} \<times> intrs_of 0 \<union> {1} \<times> intrs_of 1)"
    "tmo_ok c' (\<lambda>_. [])" "clock_ok 0 c'" "timeout_timer 0 c' \<noteq> None"
    "\<forall>p < NPUN. \<forall>i < NINTR. interrupts c' p i = NULL" "thr_mask (hw (sch c')) 0 = sigmask (hw (sch c')) 0"
    using initialize_ok [where thread = thread and malloc = malloc and tsize = tsize and istacksize = istacksize and c = c and ks = "[]", OF assms(1-11), simplified]
      assms(12-15) by auto
  note B = c'(2) [unfolded booting_def] and I = booting_inv [OF c'(2,3)]
  have z: "(0::pun) < NPUN" by (simp add: NPUN_def)
  have "handlers_ok 0 c' (first_queues b1) (\<lambda>_. [])"
    using I(1) I(2) [OF z] c'(7,8,9,10) z by (simp add: handlers_ok_def due_ok_def)
  moreover have "live c' (first_queues b1) {(b0, i), (b1, idle_class), (b2, idle_class)}"
    using B I(3,4) class_index [OF assms(12)] class_index [of idle_class]
    by (auto simp: live_def less_NPUN proc_of_def new_process_def idle_class_def NCLASS_def)
  ultimately show ?thesis using c' I(1) B
    by - (rule exI [of _ c'], rule exI [of _ F], rule exI [of _ b0], rule exI [of _ b1], rule exI [of _ b2],
      simp add: proc_of_def new_process_def)
qed

text \<open>
  From zero-initialized static variables, if the operating system grants the memory, the three
  timers and the thread, initialization ends with: the initial process running on processor 0 at
  the highest priority with that processor's idle process ready, the idle process of processor 1
  running there, the invariants of the scheduler, the memory and the timeouts established, every
  signal routed, all locks free, everything the interrupt handlers of processor 0 rely on in place
  and its interrupts enabled.
\<close>

theorem initialize_establishes:
  assumes "static_zero (hw (sch c))" and "barrier (hw (sch c)) = 2" and "\<forall>m. \<not> claimed c m"
    and "os_new_timer (hw (sch c)) 0 = Some t" and "os_new_timer (hw (sch c)) 1 = Some u"
    and "os_new_timer (hw (sch c)) 2 = Some v" and "distinct [t, u, v]"
    and "thread 1" and "malloc (tsize - istacksize) = T0" and "T0 \<noteq> NULL"
    and "find_mem_index (istacksize + sizeof_Process) = Inr i" and "i < NCLASS"
    and "unat T0 + class_size i + 2 * class_size idle_class < 2 ^ 32"
    and "class_size i \<le> unat (tsize - istacksize)" and "class_size idle_class \<le> unat (tsize - istacksize)"
  shows "\<exists>c' F b0 b1 b2. initialize malloc thread tsize istacksize c = Done () c' \<and>
    sched_inv (sch c') (first_queues b1) \<and> current (sch c') 0 = b0 \<and> current (sch c') 1 = b2 \<and>
    p_pri (proc_of c' b0) = INIT_PRI \<and> p_pri (proc_of c' b1) = IDLE_PRI \<and> p_pri (proc_of c' b2) = IDLE_PRI \<and>
    mem_ok (unat T0) c' F {(b0, i), (b1, idle_class), (b2, idle_class)} \<and>
    live c' (first_queues b1) {(b0, i), (b1, idle_class), (b2, idle_class)} \<and> (\<forall>m. \<not> claimed c' m) \<and>
    routing 9 (hw (sch c')) {0, 1} ({0} \<times> intrs_of 0 \<union> {1} \<times> intrs_of 1) \<and>
    handlers_ok 0 c' (first_queues b1) (\<lambda>_. []) \<and> thr_mask (hw (sch c')) 0 = sigmask (hw (sch c')) 0"
  by (rule initialize_state [where thread = thread and malloc = malloc, OF assms])

theorem initialize_establishes_witness:
  "\<exists>c' b0 b1 b2. initialize (\<lambda>_. 0x100000) (\<lambda>_. True) 0x20000 1024 sample_cxp = Done () c' \<and>
    sched_inv (sch c') (first_queues b1) \<and> current (sch c') 0 = b0 \<and> current (sch c') 1 = b2"
proof -
  have h: "static_zero (hw (sch sample_cxp))" "barrier (hw (sch sample_cxp)) = 2" "\<forall>m. \<not> claimed sample_cxp m"
    "os_new_timer (hw (sch sample_cxp)) 0 = Some 1" "os_new_timer (hw (sch sample_cxp)) 1 = Some 2"
    "os_new_timer (hw (sch sample_cxp)) 2 = Some 3" "distinct [1, 2, 3 :: int]"
    by (simp_all add: sample_cxp_def sample_sched_def sample_hw_def static_zero_def)
  have k: "find_mem_index (1024 + sizeof_Process) = Inr 11" "class_size 11 = 1536" "class_size idle_class = 10240" "11 < NCLASS"
    by (simp_all add: find_mem_index_def procmemlen_def sizeof_Process_def class_size_def idle_class_def NCLASS_def)
  have r: "unat (0x100000 :: addr) + class_size 11 + 2 * class_size idle_class < 2 ^ 32"
    "class_size 11 \<le> unat (0x20000 - 1024 :: uint32)" "class_size idle_class \<le> unat (0x20000 - 1024 :: uint32)"
    "(0x100000 :: addr) \<noteq> NULL"
    by (simp_all add: k)
  show ?thesis
    using initialize_establishes [where thread = "\<lambda>_. True" and malloc = "\<lambda>_. 0x100000" and tsize = "0x20000"
      and istacksize = 1024, OF h TrueI refl r(4) k(1,4) r(1-3)] by (elim exE conjE) (intro exI conjI)
qed

end
