(* ===== verification/Commun.thy ===== *)
theory Commun
  imports System Initialization
begin

unbundle bit_operations_syntax

text \<open>
  A complete program, \<^verbatim>\<open>examples/commun.c\<close>: it initializes the library, makes a channel
  and two children that communicate over it, and ends when both have ended. What it prints is left
  out. The addresses of the two functions, of the channel, of the barrier of the construct and of
  the local variables of the children are parameters: the compiler and the stacks determine them.
\<close>

subsection \<open>The program\<close>

text \<open>An \<^verbatim>\<open>int\<close> of four bytes in memory, the lowest byte first.\<close>

definition put_int :: "addr \<Rightarrow> uint32 \<Rightarrow> (addr \<Rightarrow> uint8) \<Rightarrow> addr \<Rightarrow> uint8" where
  "put_int a v h = h(a := ucast v, a + 1 := ucast (drop_bit 8 v), a + 2 := ucast (drop_bit 16 v),
     a + 3 := ucast (drop_bit 24 v))"

definition get_int :: "addr \<Rightarrow> (addr \<Rightarrow> uint8) \<Rightarrow> uint32" where
  "get_int a h = ucast (h a) OR push_bit 8 (ucast (h (a + 1))) OR push_bit 16 (ucast (h (a + 2))) OR
     push_bit 24 (ucast (h (a + 3)))"

definition sizeof_int :: uint32 where "sizeof_int = 4"

text \<open>\<^verbatim>\<open>x\<close> and \<^verbatim>\<open>z\<close> are the addresses of the variables of that name.\<close>

definition child1 :: "pun \<Rightarrow> addr \<Rightarrow> addr \<Rightarrow> cxp \<Rightarrow> unit run" where
  "child1 cpu x arg c = chan_in cpu arg x sizeof_int c"

definition child2 :: "pun \<Rightarrow> addr \<Rightarrow> addr \<Rightarrow> cxp \<Rightarrow> unit run" where
  "child2 cpu z arg c = (let c = c\<lparr>heap := put_int z 72 (heap c)\<rparr> in chan_out cpu arg z sizeof_int c)"

text \<open>The function at a code address.\<close>

definition commun_code :: "addr \<Rightarrow> addr \<Rightarrow> addr \<Rightarrow> pun \<Rightarrow> addr \<Rightarrow> addr \<Rightarrow> cxp \<Rightarrow> unit run" where
  "commun_code fn1 x z cpu code arg c = (if code = fn1 then child1 cpu x arg c else child2 cpu z arg c)"

definition commun_main :: "(uint32 \<Rightarrow> addr) \<Rightarrow> (pun \<Rightarrow> bool) \<Rightarrow> addr \<Rightarrow> addr \<Rightarrow> addr \<Rightarrow> addr \<Rightarrow> cxp \<Rightarrow> unit run" where
  "commun_main malloc thread fn1 fn2 chan barr c =
     run_bind (initialize malloc thread 0x40000000 8192 c) (\<lambda>_ c.
     let c = init_channel chan c
     in run_bind (par 0 barr ((!) [fn1, fn2]) ((!) [chan, chan]) ((!) [2000, 2000]) 2 c) (\<lambda>_ c.
     Done () c))"

subsection \<open>The message\<close>

lemma get_put_int: "get_int a (put_int a v h) = v"
proof (rule bit_word_eqI)
  fix n assume "n < LENGTH(32)"
  then consider "n < 8" | "8 \<le> n" "n < 16" | "16 \<le> n" "n < 24" | "24 \<le> n" "n < 32" by fastforce
  then show "bit (get_int a (put_int a v h)) n = bit v n"
    by cases (simp_all add: get_int_def put_int_def bit_simps, auto)
qed

lemma get_copied:
  "get_int d (copy_bytes d s sizeof_int h) = get_int s h"
  by (simp add: get_int_def copy_bytes_def sizeof_int_def)

text \<open>The classes of the stacks that the program asks for.\<close>

lemma commun_class:
  "find_mem_index (2000 + sizeof_Process) = Inr 12" "find_mem_index (8192 + sizeof_Process) = Inr 17"
  "class_size 12 = 2048" "class_size 17 = 10240" "12 < NCLASS" "17 < NCLASS"
  by (simp_all add: find_mem_index_def procmemlen_def sizeof_Process_def class_size_def NCLASS_def)

text \<open>The state after the initialization, as far as the construct needs it.\<close>

lemma booted_at_ease:
  assumes "booting b0 b1 b2 i (sch c)"
  shows "merged (sch c) 0 (first_queues b1 0) = [b1]" "current (sch c) 0 = b0"
    "pri_gt (p_pri (proc_of c b0)) (p_pri (proc_of c b1))"
proof -
  have "in_ipq (sch c) 0 = []" using assms by (simp add: booting_def in_ipq_def NPUN_def)
  then show "merged (sch c) 0 (first_queues b1 0) = [b1]" by (simp add: merged_def first_queues_def)
  show "current (sch c) 0 = b0" using assms by (simp add: booting_def)
  show "pri_gt (p_pri (proc_of c b0)) (p_pri (proc_of c b1))"
    using assms by (simp add: booting_def proc_of_def new_process_def pri_iffs pval_mod IDLE_PRI_def PRI_LOW_def INIT_PRI_def PRI_HIGH_def)
qed

lemma init_channel_frame:
  "sch (init_channel ch c) = sch c" "proc_of (init_channel ch c) = proc_of c" "heap (init_channel ch c) = heap c"
  "live (init_channel ch c) Q L = live c Q L" "mem_ok lo (init_channel ch c) F L = mem_ok lo c F L"
  "room_for ks (init_channel ch c) = room_for ks c"
  "waiting (chans (init_channel ch c) ch') = (if ch' = ch then NULL else waiting (chans c ch'))"
  "\<forall>m. \<not> claimed c m \<Longrightarrow> \<not> claimed (init_channel ch c) m"
  by (simp_all add: init_channel_def init_mutex_def proc_of_def live_def room_for_def mem_ok_def set_chan_def fun_eq_iff)

text \<open>What the programs find after the initialization.\<close>

lemma program_starts:
  assumes zero: "static_zero (hw (sch c))" "barrier (hw (sch c)) = 2" "\<forall>m. \<not> claimed c m"
    and timers: "os_new_timer (hw (sch c)) 0 = Some t" "os_new_timer (hw (sch c)) 1 = Some u"
      "os_new_timer (hw (sch c)) 2 = Some v" "distinct [t, u, v]"
    and thread: "thread 1" and memory: "malloc (0x40000000 - 8192) = T0" "T0 \<noteq> NULL" "unat T0 + unat (0x40000000 - 8192 :: uint32) \<le> 2 ^ 32"
  shows "\<exists>c1 F b0 b1 L. initialize malloc thread 0x40000000 8192 c = Done () c1 \<and> sched_inv (sch c1) (first_queues b1) \<and>
    mem_ok (unat T0) c1 F L \<and> live c1 (first_queues b1) L \<and> room_for [12, 12] c1 \<and> (\<forall>m. \<not> claimed c1 m) \<and>
    current (sch c1) 0 = b0 \<and> first_queues b1 0 = [b1] \<and> merged (sch c1) 0 [b1] = [b1] \<and>
    pri_gt (p_pri (proc_of c1 b0)) (p_pri (proc_of c1 b1))"
proof -
  have room: "unat T0 + class_size 17 + 2 * class_size idle_class + sum_list (map class_size [12, 12]) < 2 ^ 32"
    "class_size 17 \<le> unat (0x40000000 - 8192 :: uint32)" "class_size idle_class \<le> unat (0x40000000 - 8192 :: uint32)"
    "\<forall>k \<in> set [12, 12]. k < NCLASS \<and> class_size k \<le> unat (0x40000000 - 8192 :: uint32)"
    using memory(3) by (simp_all add: commun_class idle_class_def)
  obtain c1 F b0 b1 b2 where c1: "initialize malloc thread 0x40000000 8192 c = Done () c1" "booting b0 b1 b2 17 (sch c1)"
    "executing (sch c1) 1 = proc_stack b2" "mem_ok (unat T0) c1 F {(b0, 17), (b1, idle_class), (b2, idle_class)}"
    "\<forall>m. \<not> claimed c1 m" "room_for [12, 12] c1"
    using initialize_ok [where thread = thread and malloc = malloc and ks = "[12, 12]",
      OF zero timers thread memory(1,2) commun_class(2) room(1-3) commun_class(6) room(4)] by (elim exE conjE) (rule that)
  note I = booting_inv [OF c1(2,3)] and B = booted_at_ease [OF c1(2)]
  have "live c1 (first_queues b1) {(b0, 17), (b1, idle_class), (b2, idle_class)}"
    using c1(2) I(3,4) commun_class(6)
    by (auto simp: live_def booting_def less_NPUN proc_of_def new_process_def idle_class_def)
  moreover have "first_queues b1 0 = [b1]" by (simp add: first_queues_def)
  ultimately show ?thesis using c1(1,4-6) I(1) B by metis
qed

text \<open>A state to start from.\<close>

lemma sample_cxp_starts:
  "static_zero (hw (sch sample_cxp))" "barrier (hw (sch sample_cxp)) = 2" "\<forall>m. \<not> claimed sample_cxp m"
    "os_new_timer (hw (sch sample_cxp)) 0 = Some 1" "os_new_timer (hw (sch sample_cxp)) 1 = Some 2"
    "os_new_timer (hw (sch sample_cxp)) 2 = Some 3" "distinct [1, 2, 3 :: int]"
  by (simp_all add: sample_cxp_def sample_sched_def sample_hw_def static_zero_def)

text \<open>
  C2. The program \<^verbatim>\<open>examples/commun.c\<close> from its start to its end: if the operating
  system grants what the initialization asks for, then after finitely many changes of the process
  \<^verbatim>\<open>main\<close> comes to its end; the variable of the first child holds the number 72 that
  the second one has sent, both children have ended, and the scheduler is in the state in which the
  initialization has left it.
\<close>

theorem commun_delivers:
  assumes zero: "static_zero (hw (sch c))" "barrier (hw (sch c)) = 2" "\<forall>m. \<not> claimed c m"
    and timers: "os_new_timer (hw (sch c)) 0 = Some t" "os_new_timer (hw (sch c)) 1 = Some u"
      "os_new_timer (hw (sch c)) 2 = Some v" "distinct [t, u, v]"
    and thread: "thread 1" and memory: "malloc (0x40000000 - 8192) = T0" "T0 \<noteq> NULL" "unat T0 + unat (0x40000000 - 8192 :: uint32) \<le> 2 ^ 32"
    and fns: "fn1 \<noteq> fn2" and vars: "x \<noteq> NULL" "z \<noteq> NULL"
  shows "\<exists>p n sv' c' b F L. m_after (commun_code fn1 x z 0) base 0 n
      \<lparr>m_proc = p, m_run = commun_main malloc thread fn1 fn2 chan barr c, m_saved = sv\<rparr> =
      Some \<lparr>m_proc = p, m_run = Done () c', m_saved = sv'\<rparr> \<and> current (sch c') 0 = p \<and>
    get_int x (heap c') = 72 \<and> children (barriers c' barr) = 0 \<and> waiting (chans c' chan) = NULL \<and>
    at_ease (unat T0) 0 c' (first_queues b) F L"
proof -
  obtain c1 F b0 b1 L where c1: "initialize malloc thread 0x40000000 8192 c = Done () c1" "sched_inv (sch c1) (first_queues b1)"
    "mem_ok (unat T0) c1 F L" "live c1 (first_queues b1) L" "room_for [12, 12] c1" "\<forall>m. \<not> claimed c1 m" "current (sch c1) 0 = b0"
    "first_queues b1 0 = [b1]" "merged (sch c1) 0 [b1] = [b1]" "pri_gt (p_pri (proc_of c1 b0)) (p_pri (proc_of c1 b1))"
    using program_starts [where thread = thread and malloc = malloc, OF zero timers thread memory] by (elim exE conjE) (rule that)
  let ?c = "init_channel chan c1" and ?Q = "first_queues b1"
  note fr = init_channel_frame
  have st: "sched_inv (sch ?c) ?Q" "mem_ok (unat T0) ?c F L" "live ?c ?Q L" "(0 :: pun) < NPUN" "room_for [12, 12] ?c"
    "?Q 0 \<noteq> []" "current (sch ?c) 0 = b0" "waiting (chans ?c chan) = NULL"
    "\<forall>x \<in> set (merged (sch ?c) 0 (?Q 0)). pri_gt (p_pri (proc_of ?c b0)) (p_pri (proc_of ?c x))"
    using c1 by (simp_all add: fr NPUN_def)
  have cl: "\<not> claimed ?c m" for m using c1(6) fr(8) by blast
  have cls: "\<forall>i < 2. find_mem_index ([2000, 2000] ! i + sizeof_Process) = Inr ((\<lambda>_. 12) i)"
    using commun_class(1) by (auto simp: less_2_cases_iff)
  have user: "commun_code fn1 x z 0 ([fn1, fn2] ! 0) ([chan, chan] ! 0) c = (let c = c\<lparr>heap := heap c\<rparr> in
      if False then chan_out 0 chan z sizeof_int c else chan_in 0 chan x sizeof_int c)"
    "commun_code fn1 x z 0 ([fn1, fn2] ! 1) ([chan, chan] ! 1) c = (let c = c\<lparr>heap := put_int z 72 (heap c)\<rparr> in
      if False then chan_in 0 chan x sizeof_int c else chan_out 0 chan z sizeof_int c)" for c
    using fns by (simp_all add: commun_code_def child1_def child2_def)
  obtain n sv' c' F' where r: "m_after (commun_code fn1 x z 0) base 0 n
      \<lparr>m_proc = b0, m_run = par 0 barr ((!) [fn1, fn2]) ((!) [chan, chan]) ((!) [2000, 2000]) 2 ?c, m_saved = sv\<rparr> =
      Some \<lparr>m_proc = b0, m_run = Done () c', m_saved = sv'\<rparr>" "current (sch c') 0 = b0"
    "heap c' = copy_bytes x z sizeof_int (put_int z 72 (heap ?c))" "children (barriers c' barr) = 0"
    "waiting (chans c' chan) = NULL"
    "at_ease (unat T0) 0 c' ((first_queues b1)(0 := merged (sch ?c) 0 (first_queues b1 0))) F' L"
    using construct_communicates [where ini = "\<lambda>h. h" and ini' = "put_int z 72" and user = "commun_code fn1 x z 0" and
        code = "(!) [fn1, fn2]" and userArgs = "(!) [chan, chan]" and stacksize = "(!) [2000, 2000]" and cls = "\<lambda>_. 12" and
        sends = False and base = base and barr = barr and sv = sv, OF st(1-5) cl cl cl cls st(6,9,7,8) vars user]
    by (elim exE conjE) (rule that)
  have "(\<lambda>_ c. Done () c) = (Done :: unit \<Rightarrow> cxp \<Rightarrow> unit run)" by (simp add: fun_eq_iff)
  then have main: "commun_main malloc thread fn1 fn2 chan barr c =
      par 0 barr ((!) [fn1, fn2]) ((!) [chan, chan]) ((!) [2000, 2000]) 2 ?c"
    using c1(1) run_bind_Done [of "par 0 barr ((!) [fn1, fn2]) ((!) [chan, chan]) ((!) [2000, 2000]) 2 ?c"]
    by (simp add: commun_main_def)
  have "(first_queues b1)(0 := merged (sch ?c) 0 (first_queues b1 0)) = first_queues b1"
    using c1(8,9) fr(1) by (simp add: fun_eq_iff)
  then show ?thesis using r main
    by - (rule exI [of _ b0], rule exI [of _ n], rule exI [of _ sv'], rule exI [of _ c'], rule exI [of _ b1],
      rule exI [of _ F'], rule exI [of _ L], simp add: get_copied get_put_int)
qed

theorem commun_delivers_witness:
  "\<exists>p n sv' c'. m_after (commun_code 0x8000 0x7000 0x7100 0) 0x9000 0 n
      \<lparr>m_proc = p, m_run = commun_main (\<lambda>_. 0x100000) (\<lambda>_. True) 0x8000 0x8100 0x3000 0x2000 sample_cxp,
        m_saved = \<lambda>_. Done ()\<rparr> = Some \<lparr>m_proc = p, m_run = Done () c', m_saved = sv'\<rparr> \<and>
    get_int 0x7000 (heap c') = 72"
proof -
  have a: "(0x100000 :: addr) \<noteq> NULL" "unat (0x100000 :: addr) + unat (0x40000000 - 8192 :: uint32) \<le> 2 ^ 32"
    "(0x8000 :: addr) \<noteq> 0x8100" "(0x7000 :: addr) \<noteq> NULL" "(0x7100 :: addr) \<noteq> NULL"
    by simp_all
  show ?thesis
    using commun_delivers [where thread = "\<lambda>_. True" and malloc = "\<lambda>_. 0x100000" and base = "0x9000" and chan = "0x3000" and
        barr = "0x2000" and sv = "\<lambda>_. Done ()", OF sample_cxp_starts TrueI refl a] by (elim exE conjE) (intro exI conjI)
qed

end
