(* ===== verification/Alt.thy ===== *)
theory Alt
  imports Timer
begin

text \<open>
  Alternation (\<^verbatim>\<open>alt.c\<close>): a process waits for the first of several guards to become ready.
  It announces itself at the guards one after the other, waits if none is ready, and then takes
  back its announcements; the ready guard that is visited last on the way back is selected. The
  guards of an alternation are a function of their index. The functions by which wakers and the
  alternation agree on who schedules it are in \<open>Wakeup\<close>.
\<close>

subsection \<open>Guards\<close>

text \<open>A guard is a tagged union; the type of the union member is the tag.\<close>

datatype guard =
    Guard_chan addr
  | Guard_skip
  | Guard_timer Time
  | Guard_interrupt addr

record alternation =
  favorite :: uint16
  nrGuards :: uint16
  guards :: "nat \<Rightarrow> guard"

definition init_channel_guard :: "addr \<Rightarrow> guard" where "init_channel_guard chan = Guard_chan chan"
definition init_skip_guard :: guard where "init_skip_guard = Guard_skip"
definition init_timer_guard :: "Time \<Rightarrow> guard" where "init_timer_guard time = Guard_timer time"
definition init_interrupt_guard :: "addr \<Rightarrow> guard" where "init_interrupt_guard intr = Guard_interrupt intr"

definition init_alt :: "(nat \<Rightarrow> guard) \<Rightarrow> int \<Rightarrow> alternation" where
  "init_alt gs n = \<lparr>favorite = 0, nrGuards = word_of_int n, guards = gs\<rparr>"

text \<open>The \<^verbatim>\<open>unsigned long\<close> of all ones, as the signed time that holds it.\<close>

definition NO_TIME :: Time where "NO_TIME = MAX_TIME"

subsection \<open>Enabling and disabling\<close>

text \<open>
  One guard of the first loop: whether it is ready, and the earliest timeout so far. There is no
  case for an interrupt guard.
\<close>

definition enable_guard :: "pun \<Rightarrow> addr \<Rightarrow> guard \<Rightarrow> Time \<Rightarrow> cxp \<Rightarrow> (bool \<times> Time) run" where
  "enable_guard cpu p g earliest c = (case g of
     Guard_chan ch \<Rightarrow> run_bind (enable_channel cpu ch p c) (\<lambda>ready c. Done (ready, earliest) c)
   | Guard_skip \<Rightarrow> Done (True, earliest) c
   | Guard_timer time \<Rightarrow>
       let earliest = (if time_lt time earliest then time else earliest)
       in run_bind (enable_timeout cpu time p c) (\<lambda>ready c. Done (ready, earliest) c)
   | Guard_interrupt i \<Rightarrow> Done (False, earliest) c)"

text \<open>
  The first loop, over the indices of the guards in the order in which it visits them: the
  position at which it has found a ready guard, if it has.
\<close>

primrec enable_guards :: "pun \<Rightarrow> addr \<Rightarrow> (nat \<Rightarrow> guard) \<Rightarrow> nat list \<Rightarrow> nat \<Rightarrow> Time \<Rightarrow> cxp \<Rightarrow>
    (nat option \<times> Time) run" where
  "enable_guards cpu p gs [] k earliest c = Done (None, earliest) c"
| "enable_guards cpu p gs (i # is) k earliest c =
     run_bind (enable_guard cpu p (gs i) earliest c) (\<lambda>(ready, earliest) c.
       if ready then Done (Some k, earliest) c
       else enable_guards cpu p gs is (k + 1) earliest c)"

definition disable_guard :: "pun \<Rightarrow> addr \<Rightarrow> guard \<Rightarrow> cxp \<Rightarrow> bool run" where
  "disable_guard cpu p g c = (case g of
     Guard_chan ch \<Rightarrow> disable_channel cpu ch p c
   | Guard_skip \<Rightarrow> Done True c
   | Guard_timer time \<Rightarrow> disable_timeout cpu time p c
   | Guard_interrupt i \<Rightarrow> Done False c)"

primrec disable_guards :: "pun \<Rightarrow> addr \<Rightarrow> (nat \<Rightarrow> guard) \<Rightarrow> nat list \<Rightarrow> int \<Rightarrow> cxp \<Rightarrow> int run" where
  "disable_guards cpu p gs [] selected c = Done selected c"
| "disable_guards cpu p gs (i # is) selected c =
     run_bind (disable_guard cpu p (gs i) c) (\<lambda>ready c.
       disable_guards cpu p gs is (if ready then int i else selected) c)"

text \<open>Between the loops: nothing if a guard was ready, else the earliest timeout and the wait.\<close>

definition alt_wait :: "pun \<Rightarrow> addr \<Rightarrow> cxp \<Rightarrow> unit run" where
  "alt_wait cpu p c =
     (let (wait, s) = altShouldWait p (sch c); c = c\<lparr>sch := s\<rparr>
      in if wait then switching cpu (relinquish_unconditional cpu) c else Done () c)"

definition await_guard :: "pun \<Rightarrow> addr \<Rightarrow> nat option \<Rightarrow> Time \<Rightarrow> cxp \<Rightarrow> unit run" where
  "await_guard cpu p found earliest c =
     (if found \<noteq> None then Done () c
      else if earliest \<noteq> NO_TIME then
        run_bind (enable_timeout cpu earliest p c) (\<lambda>ready c. if ready then Done () c else alt_wait cpu p c)
      else alt_wait cpu p c)"

definition next_favorite :: "int \<Rightarrow> uint16 \<Rightarrow> uint16" where
  "next_favorite selected n =
     (let f = word_of_int (selected + 1) in if n \<le> f then f - n else f)"

text \<open>The end of both functions.\<close>

definition alt_end :: "pun \<Rightarrow> addr \<Rightarrow> alternation \<Rightarrow> nat list \<Rightarrow> cxp \<Rightarrow> (int \<times> alternation) run" where
  "alt_end cpu p alt is c =
     run_bind (disable_guards cpu p (guards alt) is (-1) c) (\<lambda>selected c.
       Done (selected, alt\<lparr>favorite := next_favorite selected (nrGuards alt)\<rparr>) (put_sched (altFinish p) c))"

subsection \<open>Selection\<close>

text \<open>
  The value is the index of the selected guard, with the alternation, whose field
  \<^verbatim>\<open>favorite\<close> has been written.
\<close>

definition priSelect :: "pun \<Rightarrow> alternation \<Rightarrow> cxp \<Rightarrow> (int \<times> alternation) run" where
  "priSelect cpu alt c =
     run_bind (the_current cpu c) (\<lambda>p c.
     let c = put_sched (altEnabling p) c; n = unat (nrGuards alt) in
     run_bind (enable_guards cpu p (guards alt) [0 ..< n] 0 NO_TIME c) (\<lambda>(found, earliest) c.
     run_bind (await_guard cpu p found earliest c) (\<lambda>_ c.
       let i = (case found of Some k \<Rightarrow> k + 1 | None \<Rightarrow> n)
       in alt_end cpu p alt (rev [0 ..< i]) c)))"

text \<open>The indices that the loops of \<^verbatim>\<open>fairSelect\<close> visit in \<open>k\<close> rounds, starting from \<open>i\<close>.\<close>

primrec fair_forward :: "nat \<Rightarrow> nat \<Rightarrow> nat \<Rightarrow> nat list" where
  "fair_forward n 0 i = []"
| "fair_forward n (Suc k) i = i # fair_forward n k ((i + 1) mod n)"

primrec fair_back :: "nat \<Rightarrow> nat \<Rightarrow> nat \<Rightarrow> nat list" where
  "fair_back n 0 i = []"
| "fair_back n (Suc k) i = i # fair_back n k ((i + n - 1) mod n)"

text \<open>
  If no guard was ready, the index is stepped back once after the first loop; without guards that
  is a division by zero.
\<close>

definition fairSelect :: "pun \<Rightarrow> alternation \<Rightarrow> cxp \<Rightarrow> (int \<times> alternation) run" where
  "fairSelect cpu alt c =
     run_bind (the_current cpu c) (\<lambda>p c.
     let c = put_sched (altEnabling p) c; n = unat (nrGuards alt);
         is = fair_forward n n (unat (favorite alt)) in
     run_bind (enable_guards cpu p (guards alt) is 0 NO_TIME c) (\<lambda>(found, earliest) c.
     case found of
       Some k \<Rightarrow> alt_end cpu p alt (fair_back n (k + 1) (is ! k)) c
     | None \<Rightarrow>
         if n = 0 then Fail DivByZero
         else
           let i = (last is + 1) mod n; i = (i + n - 1) mod n in
           run_bind (await_guard cpu p found earliest c) (\<lambda>_ c.
             alt_end cpu p alt (fair_back n n i) c)))"

end
