(* ===== verification/Forever.thy ===== *)
theory Forever
  imports Kernel
begin

text \<open>
  Endless loops. The body of a \<^verbatim>\<open>while (true)\<close> passes its variables from round to round.
  A round may lose the processor or not, so the loop is corecursive over its pauses and recursive
  over the rounds between two of them: rounds without end that never lose the processor spin.
\<close>

subsection \<open>The loop\<close>

text \<open>The rounds up to the next pause: the state and the rest of the round, or an error.\<close>

partial_function (option) first_pause ::
  "('s \<Rightarrow> cxp \<Rightarrow> 's run) \<Rightarrow> 's run \<Rightarrow> (cxp \<times> (cxp \<Rightarrow> 's run)) res option" where
  "first_pause body r = (case r of
     Done s c \<Rightarrow> first_pause body (body s c)
   | Fail e \<Rightarrow> Some (Inl e)
   | Paused c k \<Rightarrow> Some (Inr (c, k)))"

definition to_pause :: "('s \<Rightarrow> cxp \<Rightarrow> 's run) \<Rightarrow> 's run \<Rightarrow> (cxp \<times> (cxp \<Rightarrow> 's run)) res" where
  "to_pause body r = res_bind (of_loop ''while (true)'' (first_pause body r)) (\<lambda>r. r)"

primcorec goes_on :: "('s \<Rightarrow> cxp \<Rightarrow> 's run) \<Rightarrow> 's run \<Rightarrow> 'a run" where
  "goes_on body r = (case to_pause body r of
     Inl e \<Rightarrow> Fail e
   | Inr p \<Rightarrow> Paused (fst p) (\<lambda>c. goes_on body (snd p c)))"

definition forever :: "('s \<Rightarrow> cxp \<Rightarrow> 's run) \<Rightarrow> 's \<Rightarrow> cxp \<Rightarrow> 'a run" where
  "forever body s c = goes_on body (body s c)"

subsection \<open>Its laws\<close>

lemma to_pause_simps:
  "to_pause body (Done s c) = to_pause body (body s c)"
  "to_pause body (Fail e) = Inl e"
  "to_pause body (Paused c k) = Inr (c, k)"
  by (simp_all add: to_pause_def first_pause.simps [of body "Done s c"] first_pause.simps [of body "Fail e"]
    first_pause.simps [of body "Paused c k"])

lemma goes_on_simps:
  "goes_on body (Done s c) = forever body s c"
  "goes_on body (Fail e) = Fail e"
  "goes_on body (Paused c k) = Paused c (\<lambda>c'. goes_on body (k c'))"
  by (simp_all add: forever_def goes_on.code [of body "Done s c"] goes_on.code [of body "body s c"]
    goes_on.code [of body "Fail e"] goes_on.code [of body "Paused c k"] to_pause_simps)

text \<open>A round, and then the loop again.\<close>

lemma goes_on_bind: "goes_on body r = run_bind r (forever body)"
proof (coinduction arbitrary: r rule: run.coinduct_strong)
  case Eq_run
  then show ?case by (cases r) (auto simp: goes_on_simps rel_fun_def)
qed

lemma forever_unfold: "forever body s c = run_bind (body s c) (forever body)"
  unfolding forever_def [of body s c] by (rule goes_on_bind)

text \<open>A loop all of whose rounds end without a pause spins.\<close>

lemma forever_spins:
  assumes "I s c" and round: "\<And>s c. I s c \<Longrightarrow> \<exists>s' c'. body s c = Done s' c' \<and> I s' c'"
  shows "forever body s c = Fail (SpinsForever ''while (true)'')"
proof -
  have "\<forall>s c. r = Done s c \<longrightarrow> \<not> I s c" if "first_pause body r = Some x" for r x
  proof (rule first_pause.raw_induct [OF _ that, where P = "\<lambda>body' r x. body' = body \<longrightarrow> (\<forall>s c. r = Done s c \<longrightarrow> \<not> I s c)", THEN mp, OF _ refl])
    fix fp body' r x
    assume ih: "\<And>body' r x. fp body' r = Some x \<Longrightarrow> body' = body \<longrightarrow> (\<forall>s c. r = Done s c \<longrightarrow> \<not> I s c)"
      and st: "(case r of Done s c \<Rightarrow> fp body' (body' s c) | Fail e \<Rightarrow> Some (Inl e) | Paused c k \<Rightarrow> Some (Inr (c, k))) = Some x"
    show "body' = body \<longrightarrow> (\<forall>s c. r = Done s c \<longrightarrow> \<not> I s c)"
      using ih st round by fastforce
  qed
  moreover obtain s' c' where "body s c = Done s' c'" "I s' c'" using round assms(1) by blast
  ultimately have "first_pause body (body s c) = None" by (cases "first_pause body (body s c)") auto
  then show ?thesis unfolding forever_def by (subst goes_on.code) (simp add: to_pause_def of_loop_def)
qed

end
