(* ===== verification/Samples.thy ===== *)
theory Samples
  imports Commun Alt Forever Interrupts "HOL-Library.Signed_Division"
begin

text \<open>
  The sample programs in \<^verbatim>\<open>src/examples\<close> other than \<^verbatim>\<open>commun.c\<close>. What they print is
  left out; readings of the clock that only serve a message are kept, because they are operations of
  the library. The addresses of functions, channels, barriers, stack frames and local variables are
  parameters, and so are the results of \<^verbatim>\<open>malloc\<close> and \<^verbatim>\<open>pthread_create\<close>.
  Variables whose address is taken are in memory. A program for several processors has the
  functions of its namesake, only its \<^verbatim>\<open>main\<close> differs and is given here (the consumer of
  \<^verbatim>\<open>alt3-mp.c\<close> selects as the one of \<^verbatim>\<open>alt2.c\<close> does). The functions
  \<^verbatim>\<open>sleeper\<close> of some programs are never called.
\<close>

subsection \<open>Variables in memory\<close>

definition set_int :: "addr \<Rightarrow> uint32 \<Rightarrow> cxp \<Rightarrow> cxp" where
  "set_int a v c = c\<lparr>heap := put_int a v (heap c)\<rparr>"

text \<open>The value of an \<^verbatim>\<open>int\<close> divides by a number without remainder.\<close>

definition divides_int :: "addr \<Rightarrow> int \<Rightarrow> cxp \<Rightarrow> bool" where
  "divides_int a n c \<longleftrightarrow> sint (get_int a (heap c)) smod n = 0"

definition the_time :: "pun \<Rightarrow> cxp \<Rightarrow> Time run" where
  "the_time cpu = of_res (GetCurrentTime cpu)"

subsection \<open>Processes that do nothing (process.c, process-mp.c)\<close>

definition process_child :: "cxp \<Rightarrow> unit run" where
  "process_child c = Done () c"

definition process_main where
  "process_main malloc thread fn1 fn2 barr c =
     run_bind (initialize malloc thread 0x40000000 8192 c) (\<lambda>_ c.
     par 0 barr ((!) [fn1, fn2]) ((!) [NULL, NULL]) ((!) [2000, 2000]) 2 c)"

definition process_mp_main where
  "process_mp_main malloc thread fn1 fn2 barr c =
     run_bind (initialize malloc thread 0x40000000 8192 c) (\<lambda>_ c.
     placed_par 0 barr ((!) [fn1, fn2]) ((!) [NULL, NULL]) ((!) [2000, 2000]) ((!) [1, 0]) 2 c)"

text \<open>\<^verbatim>\<open>commun-mp.c\<close>: the receiver on processor 1.\<close>

definition commun_mp_main where
  "commun_mp_main malloc thread fn1 fn2 chan barr c =
     run_bind (initialize malloc thread 0x40000000 8192 c) (\<lambda>_ c.
     placed_par 0 barr ((!) [fn1, fn2]) ((!) [chan, chan]) ((!) [2000, 2000]) ((!) [1, 0]) 2
       (init_channel chan c))"

subsection \<open>Sleeping (after.c, after-mp.c, proc1arg.c, procargs.c)\<close>

text \<open>The value of \<^verbatim>\<open>main\<close> is the list of the times that it prints.\<close>

definition after_main where
  "after_main malloc thread desc c =
     run_bind (initialize malloc thread 0x40000000 1024 c) (\<lambda>_ c.
     run_bind (of_res (Now 0) c) (\<lambda>t0 c.
     run_bind (After 0 desc 2000000000 c) (\<lambda>_ c.
     run_bind (of_res (Now 0) c) (\<lambda>t1 c.
     run_bind (After 0 desc 3000000000 c) (\<lambda>_ c.
     run_bind (of_res (Now 0) c) (\<lambda>t2 c.
     run_bind (After 0 desc 4000000000 c) (\<lambda>_ c.
     run_bind (of_res (Now 0) c) (\<lambda>t3 c.
     Done [t0, t1, t2, t3] c))))))))"

definition after_mp_child where
  "after_mp_child cpu desc c =
     run_bind (of_res (Now cpu) c) (\<lambda>t0 c.
     run_bind (After cpu desc 2000000000 c) (\<lambda>_ c.
     run_bind (of_res (Now cpu) c) (\<lambda>t1 c.
     run_bind (After cpu desc 3000000000 c) (\<lambda>_ c.
     run_bind (of_res (Now cpu) c) (\<lambda>t2 c.
     run_bind (After cpu desc 4000000000 c) (\<lambda>_ c.
     run_bind (of_res (Now cpu) c) (\<lambda>t3 c.
     Done [t0, t1, t2, t3] c)))))))"

definition after_mp_main where
  "after_mp_main malloc thread fn1 barr c =
     run_bind (initialize malloc thread 0x40000000 1024 c) (\<lambda>_ c.
     placed_par 0 barr ((!) [fn1]) ((!) [NULL]) ((!) [8192]) ((!) [1]) 1 c)"

definition proc1arg_child1 :: "pun \<Rightarrow> addr \<Rightarrow> addr \<Rightarrow> cxp \<Rightarrow> Time run" where
  "proc1arg_child1 cpu desc arg c =
     run_bind (After cpu desc 5000000000 c) (\<lambda>_ c. the_time cpu c)"

definition proc1arg_child2 :: "pun \<Rightarrow> addr \<Rightarrow> cxp \<Rightarrow> Time run" where
  "proc1arg_child2 cpu desc c =
     run_bind (After cpu desc 2000000000 c) (\<lambda>_ c. the_time cpu c)"

definition proc1arg_main where
  "proc1arg_main malloc thread fn1 fn2 msg barr c =
     run_bind (initialize malloc thread 0x40000000 8192 c) (\<lambda>_ c.
     par 0 barr ((!) [fn1, fn2]) ((!) [msg, NULL]) ((!) [2000, 2000]) 2 c)"

definition proc1arg_mp_main where
  "proc1arg_mp_main malloc thread fn1 fn2 msg barr c =
     run_bind (initialize malloc thread 0x40000000 8192 c) (\<lambda>_ c.
     placed_par 0 barr ((!) [fn1, fn2]) ((!) [msg, NULL]) ((!) [8192, 8192]) ((!) [1, 0]) 2 c)"

definition procargs_main where
  "procargs_main malloc thread fn1 fn2 args1 barr c =
     run_bind (initialize malloc thread 0x40000000 8192 c) (\<lambda>_ c.
     par 0 barr ((!) [fn1, fn2]) ((!) [args1, NULL]) ((!) [8192, 8192]) 2 c)"

subsection \<open>Yielding (yield.c)\<close>

primrec yields :: "pun \<Rightarrow> nat \<Rightarrow> cxp \<Rightarrow> unit run" where
  "yields cpu 0 c = Done () c"
| "yields cpu (Suc n) c = run_bind (switching cpu (yield cpu) c) (\<lambda>_ c. yields cpu n c)"

definition yield_child1 :: "pun \<Rightarrow> cxp \<Rightarrow> unit run" where "yield_child1 cpu c = yields cpu 10 c"
definition yield_child2 :: "pun \<Rightarrow> cxp \<Rightarrow> unit run" where "yield_child2 cpu c = yields cpu 20 c"

definition yield_main where
  "yield_main malloc thread fn1 fn2 barr c =
     run_bind (initialize malloc thread 0x40000000 8192 c) (\<lambda>_ c.
     par 0 barr ((!) [fn1, fn2]) ((!) [NULL, NULL]) ((!) [2000, 2000]) 2 c)"

subsection \<open>Two processes in a ring (ring0arg2.c, ring0arg2-mp.c)\<close>

definition ring2_round1 :: "pun \<Rightarrow> addr \<Rightarrow> addr \<Rightarrow> addr \<Rightarrow> unit \<Rightarrow> cxp \<Rightarrow> unit run" where
  "ring2_round1 cpu chan1 chan2 x _ c =
     run_bind (chan_in cpu chan2 x sizeof_int c) (\<lambda>_ c.
     let c = set_int x (get_int x (heap c) + 1) c
     in chan_out cpu chan1 x sizeof_int c)"

definition ring2_child1 :: "pun \<Rightarrow> addr \<Rightarrow> addr \<Rightarrow> addr \<Rightarrow> cxp \<Rightarrow> unit run" where
  "ring2_child1 cpu chan1 chan2 x c =
     (let c = set_int x 0 c
      in run_bind (chan_out cpu chan1 x sizeof_int c) (\<lambda>_ c. forever (ring2_round1 cpu chan1 chan2 x) () c))"

definition ring2_round2 :: "pun \<Rightarrow> addr \<Rightarrow> addr \<Rightarrow> addr \<Rightarrow> unit \<Rightarrow> cxp \<Rightarrow> unit run" where
  "ring2_round2 cpu chan1 chan2 x _ c =
     run_bind (chan_in cpu chan1 x sizeof_int c) (\<lambda>_ c.
     let c = set_int x (get_int x (heap c) + 1) c
     in chan_out cpu chan2 x sizeof_int c)"

definition ring2_child2 :: "pun \<Rightarrow> addr \<Rightarrow> addr \<Rightarrow> addr \<Rightarrow> cxp \<Rightarrow> unit run" where
  "ring2_child2 cpu chan1 chan2 x c = forever (ring2_round2 cpu chan1 chan2 x) () c"

definition ring2_main where
  "ring2_main malloc thread fn1 fn2 chan1 chan2 barr c =
     run_bind (initialize malloc thread 0x40000000 8192 c) (\<lambda>_ c.
     let c = init_channel chan1 c;
         c = init_channel chan2 c
     in par 0 barr ((!) [fn1, fn2]) ((!) [NULL, NULL]) ((!) [2000, 2000]) 2 c)"

definition ring2_mp_main where
  "ring2_mp_main malloc thread fn1 fn2 chan1 chan2 barr c =
     run_bind (initialize malloc thread 0x40000000 8192 c) (\<lambda>_ c.
     let c = init_channel chan1 c;
         c = init_channel chan2 c
     in placed_par 0 barr ((!) [fn1, fn2]) ((!) [NULL, NULL]) ((!) [3000, 3000]) ((!) [1, 0]) 2 c)"

subsection \<open>A hundred processes in a ring (ring.c, ring-mp.c, ring1arg.c, ring1arg-mp.c)\<close>

definition RING_SIZE :: nat where "RING_SIZE = 100"

text \<open>The index of the channel before the \<open>i\<close>th one; the channels are an array.\<close>

definition ring_input :: "int \<Rightarrow> int" where
  "ring_input i = (i - 1 + int RING_SIZE) smod int RING_SIZE"

lemma ring_closed: "i < RING_SIZE \<Longrightarrow> ring_input (int ((i + 1) mod RING_SIZE)) = int i"
  by (cases "i + 1 = RING_SIZE") (simp_all add: ring_input_def RING_SIZE_def smod_int_alt_def sgn_if)

definition init_channels :: "(int \<Rightarrow> addr) \<Rightarrow> cxp \<Rightarrow> cxp" where
  "init_channels chan c = fold (\<lambda>i. init_channel (chan (int i))) [0 ..< RING_SIZE] c"

text \<open>The fields of \<^verbatim>\<open>ElementArgs\<close> are at the offsets 0, 4 and 8.\<close>

definition element_round :: "pun \<Rightarrow> addr \<Rightarrow> addr \<Rightarrow> addr \<Rightarrow> unit \<Rightarrow> cxp \<Rightarrow> unit run" where
  "element_round cpu x input output _ c =
     run_bind (chan_in cpu input x sizeof_int c) (\<lambda>_ c.
     run_bind (if divides_int x 100000 c then run_bind (the_time cpu c) (\<lambda>t c. Done () c) else Done () c) (\<lambda>_ c.
     let c = set_int x (get_int x (heap c) + 1) c
     in chan_out cpu output x sizeof_int c))"

definition element :: "pun \<Rightarrow> addr \<Rightarrow> addr \<Rightarrow> cxp \<Rightarrow> unit run" where
  "element cpu x eargs c =
     (let nr = get_int eargs (heap c); input = get_int (eargs + 4) (heap c); output = get_int (eargs + 8) (heap c)
      in run_bind
           (if nr = 0 then
              let c = set_int x 1 c in chan_out cpu output x sizeof_int c
            else Done () c) (\<lambda>_ c.
         run_bind (the_time cpu c) (\<lambda>t0 c.
         forever (element_round cpu x input output) () c)))"

definition set_element_args :: "(int \<Rightarrow> addr) \<Rightarrow> (nat \<Rightarrow> addr) \<Rightarrow> nat \<Rightarrow> cxp \<Rightarrow> cxp" where
  "set_element_args chan elemArgs i c =
     (let c = set_int (elemArgs i) (of_nat i) c;
          c = set_int (elemArgs i + 4) (chan (ring_input (int i))) c
      in set_int (elemArgs i + 8) (chan (int i)) c)"

definition ring_main where
  "ring_main malloc thread fn chan elemArgs barr c =
     run_bind (initialize malloc thread 0x40000000 8192 c) (\<lambda>_ c.
     let c = init_channels chan c;
         c = fold (set_element_args chan elemArgs) [0 ..< RING_SIZE] c
     in par 0 barr (\<lambda>i. fn) elemArgs (\<lambda>i. 2000) (of_nat RING_SIZE) c)"

text \<open>\<^verbatim>\<open>ring-mp.c\<close> fills an array of places and does not use it.\<close>

definition ring_mp_main where
  "ring_mp_main malloc thread fn chan elemArgs barr c =
     run_bind (initialize malloc thread 0x40000000 8192 c) (\<lambda>_ c.
     let c = init_channels chan c;
         c = fold (set_element_args chan elemArgs) [0 ..< RING_SIZE] c;
         place = (\<lambda>i. word_of_int (int i mod 2) :: pun)
     in par 0 barr (\<lambda>i. fn) elemArgs (\<lambda>i. 2000) (of_nat RING_SIZE) c)"

definition ring1arg_child :: "pun \<Rightarrow> (int \<Rightarrow> addr) \<Rightarrow> addr \<Rightarrow> addr \<Rightarrow> cxp \<Rightarrow> unit run" where
  "ring1arg_child cpu chan x arg c =
     (let i = sint arg; output = chan i; input = chan (ring_input i);
          c = set_int x 0 c
      in run_bind (if i = 0 then chan_out cpu output x sizeof_int c else Done () c) (\<lambda>_ c.
         forever (\<lambda>_ c.
           run_bind (chan_in cpu input x sizeof_int c) (\<lambda>_ c.
           let c = set_int x (get_int x (heap c) + 1) c
           in chan_out cpu output x sizeof_int c)) () c))"

definition ring1arg_main where
  "ring1arg_main malloc thread fn chan barr c =
     run_bind (initialize malloc thread 0x40000000 8192 c) (\<lambda>_ c.
     par 0 barr (\<lambda>i. fn) (\<lambda>i. of_nat i) (\<lambda>i. 2000) (of_nat RING_SIZE) (init_channels chan c))"

definition ring1arg_mp_main where
  "ring1arg_mp_main malloc thread fn chan barr c =
     run_bind (initialize malloc thread 0x40000000 8192 c) (\<lambda>_ c.
     placed_par 0 barr (\<lambda>i. fn) (\<lambda>i. of_nat i) (\<lambda>i. 3000) (\<lambda>i. word_of_int (int i mod 2)) (of_nat RING_SIZE)
       (init_channels chan c))"

subsection \<open>A producer and a consumer (timing.c, timing-mp.c)\<close>

definition timing_child1 :: "pun \<Rightarrow> addr \<Rightarrow> addr \<Rightarrow> cxp \<Rightarrow> unit run" where
  "timing_child1 cpu chan2 x c =
     run_bind (the_time cpu c) (\<lambda>t0 c.
     forever (\<lambda>_ c.
       run_bind (chan_in cpu chan2 x sizeof_int c) (\<lambda>_ c.
       if divides_int x 100000 c then run_bind (the_time cpu c) (\<lambda>t c. Done () c) else Done () c)) () c)"

text \<open>The variable of the producer is not initialized: it starts with what its place on the stack holds.\<close>

definition timing_child2 :: "pun \<Rightarrow> addr \<Rightarrow> addr \<Rightarrow> cxp \<Rightarrow> unit run" where
  "timing_child2 cpu chan2 x c =
     forever (\<lambda>_ c.
       let c = set_int x (get_int x (heap c) + 1) c
       in chan_out cpu chan2 x sizeof_int c) () c"

definition timing_main where
  "timing_main malloc thread fn1 fn2 chan1 chan2 barr c =
     run_bind (initialize malloc thread 0x40000000 8192 c) (\<lambda>_ c.
     let c = init_channel chan1 c;
         c = init_channel chan2 c
     in par 0 barr ((!) [fn1, fn2]) ((!) [NULL, NULL]) ((!) [2000, 2000]) 2 c)"

definition timing_mp_main where
  "timing_mp_main malloc thread fn1 fn2 chan1 chan2 barr c =
     run_bind (initialize malloc thread 0x40000000 8192 c) (\<lambda>_ c.
     let c = init_channel chan1 c;
         c = init_channel chan2 c
     in placed_par 0 barr ((!) [fn1, fn2]) ((!) [NULL, NULL]) ((!) [4000, 3000]) ((!) [1, 0]) 2 c)"

subsection \<open>Alternation over channels (alt2.c, alt2-mp.c, alt3.c, alt3-mp.c)\<close>

text \<open>
  The variable of the endless loop is the alternation, whose favorite changes. \<open>gs\<close> is what the
  array of guards holds before it is filled.
\<close>

definition consume :: "pun \<Rightarrow> addr \<Rightarrow> addr \<Rightarrow> addr \<Rightarrow> addr \<Rightarrow> int \<Rightarrow> cxp \<Rightarrow> unit run" where
  "consume cpu chan1 chan2 x y selection c =
     (if selection = 0 then chan_in cpu chan1 x sizeof_int c
      else if selection = 1 then chan_in cpu chan2 y sizeof_int c
      else Done () c)"

definition two_channels :: "addr \<Rightarrow> addr \<Rightarrow> (nat \<Rightarrow> guard) \<Rightarrow> alternation" where
  "two_channels chan1 chan2 gs =
     init_alt (gs(0 := init_channel_guard chan1, 1 := init_channel_guard chan2)) 2"

definition alt2_child1 :: "pun \<Rightarrow> addr \<Rightarrow> addr \<Rightarrow> addr \<Rightarrow> addr \<Rightarrow> (nat \<Rightarrow> guard) \<Rightarrow> cxp \<Rightarrow> unit run" where
  "alt2_child1 cpu chan1 chan2 x y gs c =
     forever (\<lambda>alt c.
       run_bind (fairSelect cpu alt c) (\<lambda>(selection, alt) c.
       run_bind (consume cpu chan1 chan2 x y selection c) (\<lambda>_ c. Done alt c)))
     (two_channels chan1 chan2 gs) c"

definition alt2_child2 :: "pun \<Rightarrow> addr \<Rightarrow> addr \<Rightarrow> addr \<Rightarrow> cxp \<Rightarrow> unit run" where
  "alt2_child2 cpu chan1 chan2 expr c =
     forever (\<lambda>x c.
       let c = set_int expr (2 * x) c
       in run_bind (chan_out cpu chan1 expr sizeof_int c) (\<lambda>_ c.
          let c = set_int expr (2 * x + 1) c
          in run_bind (chan_out cpu chan2 expr sizeof_int c) (\<lambda>_ c. Done (x + 1) c))) (0 :: uint32) c"

definition alt2_main where
  "alt2_main malloc thread fn1 fn2 chan1 chan2 barr c =
     run_bind (initialize malloc thread 0x40000000 8192 c) (\<lambda>_ c.
     let c = init_channel chan1 c;
         c = init_channel chan2 c
     in par 0 barr ((!) [fn1, fn2]) ((!) [NULL, NULL]) ((!) [3000, 2000]) 2 c)"

definition alt2_mp_main where
  "alt2_mp_main malloc thread fn1 fn2 chan1 chan2 barr c =
     run_bind (initialize malloc thread 0x40000000 8192 c) (\<lambda>_ c.
     let c = init_channel chan1 c;
         c = init_channel chan2 c
     in placed_par 0 barr ((!) [fn1, fn2]) ((!) [NULL, NULL]) ((!) [3000, 2000]) ((!) [0, 1]) 2 c)"

definition alt3_child1 :: "pun \<Rightarrow> addr \<Rightarrow> addr \<Rightarrow> addr \<Rightarrow> addr \<Rightarrow> (nat \<Rightarrow> guard) \<Rightarrow> cxp \<Rightarrow> unit run" where
  "alt3_child1 cpu chan1 chan2 x y gs c =
     forever (\<lambda>alt c.
       run_bind (priSelect cpu alt c) (\<lambda>(selection, alt) c.
       run_bind (consume cpu chan1 chan2 x y selection c) (\<lambda>_ c. Done alt c)))
     (two_channels chan1 chan2 gs) c"

definition alt3_child2 :: "pun \<Rightarrow> addr \<Rightarrow> addr \<Rightarrow> cxp \<Rightarrow> unit run" where
  "alt3_child2 cpu chan1 expr c =
     forever (\<lambda>x c.
       let c = set_int expr (2 * x) c
       in run_bind (chan_out cpu chan1 expr sizeof_int c) (\<lambda>_ c. Done (x + 1) c)) (0 :: uint32) c"

definition alt3_child3 :: "pun \<Rightarrow> addr \<Rightarrow> addr \<Rightarrow> cxp \<Rightarrow> unit run" where
  "alt3_child3 cpu chan2 expr c =
     forever (\<lambda>x c.
       let c = set_int expr (2 * x + 1) c
       in run_bind (chan_out cpu chan2 expr sizeof_int c) (\<lambda>_ c. Done (x + 1) c)) (0 :: uint32) c"

definition alt3_main where
  "alt3_main malloc thread fn1 fn2 fn3 chan1 chan2 barr c =
     run_bind (initialize malloc thread 0x40000000 8192 c) (\<lambda>_ c.
     let c = init_channel chan1 c;
         c = init_channel chan2 c
     in par 0 barr ((!) [fn1, fn2, fn3]) ((!) [NULL, NULL, NULL]) ((!) [3000, 2000, 2000]) 3 c)"

definition alt3_mp_main where
  "alt3_mp_main malloc thread fn1 fn2 fn3 chan1 chan2 barr c =
     run_bind (initialize malloc thread 0x40000000 8192 c) (\<lambda>_ c.
     let c = init_channel chan1 c;
         c = init_channel chan2 c
     in placed_par 0 barr ((!) [fn1, fn2, fn3]) ((!) [NULL, NULL, NULL]) ((!) [3000, 2000, 2000])
          ((!) [0, 1, 0]) 3 c)"

subsection \<open>Alternation with timeouts (alttime.c, alttime-mp.c, alttime0.c, alttime0-mp.c)\<close>

definition ONESEC :: Time where "ONESEC = 1000000000"

definition set_timer_guard :: "nat \<Rightarrow> Time \<Rightarrow> alternation \<Rightarrow> alternation" where
  "set_timer_guard i t alt = alt\<lparr>guards := (guards alt)(i := init_timer_guard t)\<rparr>"

definition alttime_child1 :: "pun \<Rightarrow> addr \<Rightarrow> addr \<Rightarrow> addr \<Rightarrow> (nat \<Rightarrow> guard) \<Rightarrow> cxp \<Rightarrow> unit run" where
  "alttime_child1 cpu chan1 chan2 x gs c =
     forever (\<lambda>alt c.
       run_bind (of_res (Now cpu) c) (\<lambda>now c.
       run_bind (fairSelect cpu (set_timer_guard 1 (now + ONESEC) alt) c) (\<lambda>(selection, alt) c.
       run_bind
         (if selection = 0 then chan_in cpu chan1 x sizeof_int c
          else if selection = 1 then
            run_bind (of_res (Now cpu) c) (\<lambda>now c. chan_out cpu chan2 x 0 c)
          else Done () c) (\<lambda>_ c. Done alt c))))
     (init_alt (gs(0 := init_channel_guard chan1)) 2) c"

definition alttime_child2 :: "pun \<Rightarrow> addr \<Rightarrow> addr \<Rightarrow> addr \<Rightarrow> cxp \<Rightarrow> unit run" where
  "alttime_child2 cpu chan1 chan2 x c =
     (let c = set_int x 0 c
      in forever (\<lambda>_ c.
           run_bind (chan_out cpu chan1 x sizeof_int c) (\<lambda>_ c.
           run_bind (chan_in cpu chan2 x 0 c) (\<lambda>_ c.
           Done () (set_int x (get_int x (heap c) + 1) c)))) () c)"

definition alttime_main where
  "alttime_main malloc thread fn1 fn2 chan1 chan2 barr c =
     run_bind (initialize malloc thread 0x40000000 8192 c) (\<lambda>_ c.
     let c = init_channel chan1 c;
         c = init_channel chan2 c
     in par 0 barr ((!) [fn1, fn2]) ((!) [NULL, NULL]) ((!) [2000, 2000]) 2 c)"

definition alttime_mp_main where
  "alttime_mp_main malloc thread fn1 fn2 chan1 chan2 barr c =
     run_bind (initialize malloc thread 0x40000000 8192 c) (\<lambda>_ c.
     let c = init_channel chan1 c;
         c = init_channel chan2 c
     in placed_par 0 barr ((!) [fn1, fn2]) ((!) [NULL, NULL]) ((!) [2000, 2000]) ((!) [0, 1]) 2 c)"

definition alttime0_child1 :: "pun \<Rightarrow> (nat \<Rightarrow> guard) \<Rightarrow> cxp \<Rightarrow> unit run" where
  "alttime0_child1 cpu gs c =
     forever (\<lambda>alt c.
       run_bind (of_res (Now cpu) c) (\<lambda>now c.
       run_bind (fairSelect cpu (set_timer_guard 0 (now + ONESEC) alt) c) (\<lambda>(selection, alt) c.
       run_bind
         (if selection = 0 then run_bind (of_res (Now cpu) c) (\<lambda>now c. Done () c) else Done () c) (\<lambda>_ c.
       Done alt c))))
     (init_alt gs 1) c"

definition alttime0_main where
  "alttime0_main malloc thread fn1 barr c =
     run_bind (initialize malloc thread 0x40000000 8192 c) (\<lambda>_ c.
     par 0 barr ((!) [fn1]) ((!) [NULL]) ((!) [2000]) 1 c)"

definition alttime0_mp_main where
  "alttime0_mp_main malloc thread fn1 barr c =
     run_bind (initialize malloc thread 0x40000000 8192 c) (\<lambda>_ c.
     placed_par 0 barr ((!) [fn1]) ((!) [NULL]) ((!) [2000]) ((!) [1]) 1 c)"

subsection \<open>Interrupts (intr.c, intr_pri.c)\<close>

text \<open>
  The signal that \<^verbatim>\<open>send_interrupt\<close> sends is handled by \<^verbatim>\<open>handle_signal\<close>. The second child of
  \<^verbatim>\<open>intr_pri.c\<close> polls the clock until half a second has passed; it never gives up
  the processor by an operation of its own, so only its polling loop is given here.
\<close>

definition intr_child1 :: "pun \<Rightarrow> cxp \<Rightarrow> unit run" where
  "intr_child1 cpu c = forever (\<lambda>_ c. receive cpu 0 c) () c"

definition intr_child2 :: "pun \<Rightarrow> addr \<Rightarrow> cxp \<Rightarrow> unit run" where
  "intr_child2 cpu desc c =
     forever (\<lambda>_ c.
       run_bind (of_res (Now cpu) c) (\<lambda>now c.
       run_bind (After cpu desc (now + ONESEC) c) (\<lambda>_ c.
       on_sched (\<lambda>s. res_bind (send_interrupt cpu INTR_USER0 (hw s)) (\<lambda>h. Inr (s\<lparr>hw := h\<rparr>))) c))) () c"

definition intr_main where
  "intr_main malloc thread fn1 fn2 barr c =
     run_bind (initialize malloc thread 0x40000000 8192 c) (\<lambda>_ c.
     par 0 barr ((!) [fn1, fn2]) ((!) [NULL, NULL]) ((!) [3000, 3000]) 2 c)"

partial_function (option) poll_half_second :: "pun \<Rightarrow> Time \<Rightarrow> Time \<Rightarrow> cxp \<Rightarrow> (Time \<times> cxp) res option" where
  "poll_half_second cpu t0 t c =
     (if time_lt (t - t0) 500000000 then
        (case Now cpu c of Inl e \<Rightarrow> Some (Inl e) | Inr (t, c) \<Rightarrow> poll_half_second cpu t0 t c)
      else Some (Inr (t, c)))"

definition intr_pri_main where
  "intr_pri_main malloc thread fn1 fn2 barr c =
     run_bind (initialize malloc thread 0x40000000 8192 c) (\<lambda>_ c.
     par_pri 0 barr ((!) [fn1, fn2]) ((!) [NULL, NULL]) ((!) [3000, 3000]) 2 c)"

end
