(* ===== verification/Ping_Pong.thy ===== *)
theory Ping_Pong
  imports Samples
begin

text \<open>
  Two processes that hand a number to and fro for ever (\<^verbatim>\<open>examples/ring0arg2.c\<close>), from the
  initialization on. At each moment one of them runs and the other one waits in a channel; a turn
  of the running process ends with the roles exchanged.
\<close>

subsection \<open>A turn\<close>

text \<open>
  \<open>p\<close> runs, its partner \<open>q\<close> waits in the channel \<open>ch\<close> with the buffer \<open>b\<close>, the channel \<open>ch'\<close> is
  free; the other processes of the processor are of lower priority.
\<close>

definition facing :: "nat \<Rightarrow> pun \<Rightarrow> cxp \<Rightarrow> (pun \<Rightarrow> addr list) \<Rightarrow> (nat \<Rightarrow> addr list) \<Rightarrow> (addr \<times> nat) set \<Rightarrow>
    addr \<Rightarrow> addr \<Rightarrow> addr \<Rightarrow> addr \<Rightarrow> addr \<Rightarrow> bool" where
  "facing lo cpu c Q F L p q ch b ch' \<longleftrightarrow>
     at_ease lo cpu c Q F L \<and> current (sch c) cpu = p \<and> idle_on (sch c) Q cpu q \<and>
     (q, unat (p_index (proc_of c q))) \<in> L \<and> key_of (sch c) q = key_of (sch c) p \<and>
     (\<forall>y \<in> set (Q cpu). key_of (sch c) p < key_of (sch c) y) \<and> p_sched_state (proc_of c q) = PROC_WAITING \<and>
     chans c ch = \<lparr>waiting = q, io_ptr = b\<rparr> \<and> waiting (chans c ch') = NULL \<and>
     \<not> claimed c (Mutex_chan ch) \<and> \<not> claimed c (Mutex_chan ch') \<and>
     uc_point (ctxs (sch c) (proc_stack q)) = In_relinquish"

lemma facing_heap [simp]: "facing lo cpu (c\<lparr>heap := h\<rparr>) Q F L p q ch b ch' = facing lo cpu c Q F L p q ch b ch'"
  by (simp add: facing_def heap_fields)

lemma turn:
  assumes f: "facing lo cpu c Q F L p q ch b ch'" and cpu: "cpu < NPUN" and ne: "ch \<noteq> ch'"
    and op: "op = chan_in \<and> dest = d \<and> src = b \<or> op = chan_out \<and> dest = b \<and> src = d" and ptr: "dest \<noteq> NULL" "src \<noteq> NULL"
    and op': "op' \<in> {chan_in, chan_out}"
  shows "\<exists>c1. op cpu ch d len c = Done () c1 \<and> heap c1 = copy_bytes dest src len (heap c) \<and>
    (\<forall>h. \<exists>c'. op' cpu ch' d' len' (c1\<lparr>heap := h\<rparr>) = Paused c' (Done ()) \<and> heap c' = h \<and>
      facing lo cpu c' Q F L q p ch' d' ch \<and> uc_point (ctxs (sch c') (proc_stack q)) = In_relinquish)"
proof -
  note P = f [unfolded facing_def]
  have ease: "at_ease lo cpu c Q F L" and idle: "idle_on (sch c) Q cpu q" and qL: "(q, unat (p_index (proc_of c q))) \<in> L"
    and k: "key_of (sch c) q = key_of (sch c) (current (sch c) cpu)" and low: "\<forall>y \<in> set (Q cpu). key_of (sch c) q < key_of (sch c) y"
    and st: "p_sched_state (proc_of c q) = PROC_WAITING" and ch: "chans c ch = \<lparr>waiting = q, io_ptr = b\<rparr>" "\<not> claimed c (Mutex_chan ch)"
    using P by simp_all
  have pL: "(p, unat (p_index (proc_of c p))) \<in> L"
    using live_current [OF _ cpu, of c Q L p] P by (simp add: at_ease_def)
  obtain c1 where c1: "op cpu ch d len c = Done () c1" "at_ease lo cpu c1 (Q(cpu := q # Q cpu)) F L"
    "current (sch c1) = current (sch c)" "ctxs (sch c1) = ctxs (sch c)" "same_but {q} (sch c) (sch c1)"
    "key_of (sch c1) = key_of (sch c)" "p_index (proc_of c1 q) = p_index (proc_of c q)"
    "waiting (chans c1 ch) = NULL" "heap c1 = copy_bytes dest src len (heap c)"
    "claimed c1 = (claimed c)(Mutex_chan ch := False)" "\<forall>z. z \<noteq> ch \<longrightarrow> chans c1 z = chans c z"
    using meet_step [where len = len, OF ease cpu idle qL k low st ch op ptr] by (elim exE conjE) (rule that)
  have pq: "p \<noteq> q" using P by (auto simp: idle_on_def members_def)
  have "\<exists>c'. op' cpu ch' d' len' (c1\<lparr>heap := h\<rparr>) = Paused c' (Done ()) \<and> heap c' = h \<and>
      facing lo cpu c' Q F L q p ch' d' ch \<and> uc_point (ctxs (sch c') (proc_stack q)) = In_relinquish" for h
  proof -
    let ?c = "c1\<lparr>heap := h\<rparr>" and ?Q = "Q(cpu := q # Q cpu)"
    have cur: "current (sch ?c) cpu = p" using c1(3) P by simp
    have pre: "at_ease lo cpu ?c ?Q F L" "?Q cpu = q # Q cpu" "waiting (chans ?c ch') = NULL" "\<not> claimed ?c (Mutex_chan ch')"
      using c1(2,10,11) P ne by simp_all
    obtain c' where c': "op' cpu ch' d' len' ?c = Paused c' (Done ())" "at_ease lo cpu c' (?Q(cpu := Q cpu)) F L"
      "current (sch c') cpu = q" "chans c' = (chans ?c)(ch' := \<lparr>waiting = p, io_ptr = d'\<rparr>)" "heap c' = heap ?c"
      "claimed c' = (claimed ?c)(Mutex_chan ch' := False)" "same_but {p} (sch ?c) (sch c')"
      "key_of (sch c') = key_of (sch ?c)" "p_index (proc_of c' p) = p_index (proc_of ?c p)"
      "idle_on (sch c') (?Q(cpu := Q cpu)) cpu p" "p_sched_state (proc_of c' p) = PROC_WAITING"
      "uc_point (ctxs (sch c') (proc_stack p)) = In_relinquish"
      using wait_step [where len = len' and b = d', OF pre(1) cpu pre(2-4) op', unfolded cur]
      by (elim exE conjE) (rule that)
    have pi: "p_index (proc_of ?c p) = p_index (proc_of c p)"
      using same_butD(4) [OF c1(5), of p] pq by (simp add: proc_of_def)
    have "facing lo cpu c' Q F L q p ch' d' ch"
      unfolding facing_def using c' c1 P pq pL pi ne by simp
    moreover have "ctxs (sch c') (proc_stack q) = ctxs (sch c) (proc_stack q)"
      using same_butD(1) [OF c'(7), of q] c1(4) pq by simp
    ultimately show ?thesis using c'(1,5) P by auto
  qed
  then show ?thesis using c1(1,9) by blast
qed

text \<open>A round of the ring: the number is received, increased and offered.\<close>

lemma ring2_round_turn:
  assumes f: "facing lo cpu c Q F L p q ch b ch'" and cpu: "cpu < NPUN" and ne: "ch \<noteq> ch'" and ptr: "x \<noteq> NULL" "b \<noteq> NULL"
  shows "\<exists>c'. ring2_round2 cpu ch ch' x () c = Paused c' (Done ()) \<and> facing lo cpu c' Q F L q p ch' x ch \<and>
    uc_point (ctxs (sch c') (proc_stack q)) = In_relinquish \<and> get_int x (heap c') = get_int b (heap c) + 1"
proof -
  obtain c1 where c1: "chan_in cpu ch x sizeof_int c = Done () c1" "heap c1 = copy_bytes x b sizeof_int (heap c)"
    "\<forall>h. \<exists>c'. chan_out cpu ch' x sizeof_int (c1\<lparr>heap := h\<rparr>) = Paused c' (Done ()) \<and> heap c' = h \<and>
      facing lo cpu c' Q F L q p ch' x ch \<and> uc_point (ctxs (sch c') (proc_stack q)) = In_relinquish"
    using turn [OF f cpu ne, of chan_in x x b chan_out sizeof_int x sizeof_int] ptr by auto
  let ?h = "put_int x (get_int x (heap c1) + 1) (heap c1)"
  obtain c' where c': "chan_out cpu ch' x sizeof_int (c1\<lparr>heap := ?h\<rparr>) = Paused c' (Done ())" "heap c' = ?h"
    "facing lo cpu c' Q F L q p ch' x ch" "uc_point (ctxs (sch c') (proc_stack q)) = In_relinquish" using c1(3) by blast
  then show ?thesis using c1(1,2)
    by (simp add: ring2_round2_def set_int_def get_put_int get_copied)
qed

lemma ring2_round1_eq: "ring2_round1 cpu chan1 chan2 x = ring2_round2 cpu chan2 chan1 x"
  by (simp add: fun_eq_iff ring2_round1_def ring2_round2_def)


subsection \<open>The game\<close>

text \<open>What is left of the code of a player that has come to the head of its loop.\<close>

definition player :: "pun \<Rightarrow> addr \<Rightarrow> addr \<Rightarrow> addr \<Rightarrow> addr \<Rightarrow> addr \<Rightarrow> cxp \<Rightarrow> unit run" where
  "player cpu base barr cin cout x c =
     run_bind (forever (ring2_round2 cpu cin cout x) () c :: unit run) (\<lambda>_ c.
     run_bind (par_barr_sync cpu barr c) (\<lambda>_ c. terminate base cpu c))"

text \<open>\<open>p\<close> runs, \<open>q\<close> offers the number \<open>v\<close>; both are at the heads of their loops.\<close>

definition playing :: "nat \<Rightarrow> pun \<Rightarrow> addr \<Rightarrow> addr \<Rightarrow> (pun \<Rightarrow> addr list) \<Rightarrow> (nat \<Rightarrow> addr list) \<Rightarrow> (addr \<times> nat) set \<Rightarrow>
    addr \<Rightarrow> addr \<Rightarrow> addr \<Rightarrow> addr \<Rightarrow> addr \<Rightarrow> addr \<Rightarrow> uint32 \<Rightarrow> machine \<Rightarrow> bool" where
  "playing lo cpu base barr Q F L p q cin cout x y v m \<longleftrightarrow>
     (\<exists>c sv. m = \<lparr>m_proc = p, m_run = player cpu base barr cin cout x c, m_saved = sv\<rparr> \<and>
       sv q = player cpu base barr cout cin y \<and> facing lo cpu c Q F L p q cin y cout \<and> get_int y (heap c) = v)"

lemma player_turn:
  assumes "facing lo cpu c Q F L p q cin y cout" and "cpu < NPUN" and "cin \<noteq> cout" and "x \<noteq> NULL" and "y \<noteq> NULL"
  shows "\<exists>c'. player cpu base barr cin cout x c = Paused c' (player cpu base barr cin cout x) \<and>
    facing lo cpu c' Q F L q p cout x cin \<and> uc_point (ctxs (sch c') (proc_stack q)) = In_relinquish \<and>
    get_int x (heap c') = get_int y (heap c) + 1"
proof -
  obtain c' where c': "ring2_round2 cpu cin cout x () c = Paused c' (Done ())" "facing lo cpu c' Q F L q p cout x cin"
    "uc_point (ctxs (sch c') (proc_stack q)) = In_relinquish" "get_int x (heap c') = get_int y (heap c) + 1"
    using ring2_round_turn [OF assms] by blast
  have "player cpu base barr cin cout x c = Paused c' (player cpu base barr cin cout x)"
    unfolding player_def fun_eq_iff by (subst forever_unfold) (simp add: c'(1) player_def fun_eq_iff)
  with c' show ?thesis by blast
qed

lemma playing_next:
  assumes "playing lo cpu base barr Q F L p q cin cout x y v m" and cpu: "cpu < NPUN" and "cin \<noteq> cout"
    and "x \<noteq> NULL" and "y \<noteq> NULL"
  shows "\<exists>m'. m_next user base cpu m = Some m' \<and> playing lo cpu base barr Q F L q p cout cin y x (v + 1) m'"
proof -
  obtain c sv where m: "m = \<lparr>m_proc = p, m_run = player cpu base barr cin cout x c, m_saved = sv\<rparr>"
    "sv q = player cpu base barr cout cin y" "facing lo cpu c Q F L p q cin y cout" "get_int y (heap c) = v"
    using assms(1) unfolding playing_def by blast
  obtain c' where c': "player cpu base barr cin cout x c = Paused c' (player cpu base barr cin cout x)"
    "facing lo cpu c' Q F L q p cout x cin" "uc_point (ctxs (sch c') (proc_stack q)) = In_relinquish"
    "get_int x (heap c') = v + 1"
    using player_turn [OF m(3) assms(2-5)] m(4) by blast
  have s: "sched_inv (sch c') Q" "current (sch c') cpu = q" using c'(2) by (simp_all add: facing_def at_ease_def)
  have "p \<noteq> q" using m(3) by (auto simp: facing_def idle_on_def members_def)
  then have "m_next user base cpu m =
      Some \<lparr>m_proc = q, m_run = player cpu base barr cout cin y c', m_saved = sv(p := player cpu base barr cin cout x)\<rparr>"
    using enter_back [OF s(1) cpu, unfolded s(2), OF c'(3)] m(2) by (simp add: m_next_def m(1) c'(1))
  then show ?thesis using c'(2,4) by (auto simp: playing_def)
qed

lemma playing_after:
  assumes "playing lo cpu base barr Q F L p q cin cout x y v m" and "cpu < NPUN" and "cin \<noteq> cout"
    and "x \<noteq> NULL" and "y \<noteq> NULL"
  shows "\<exists>m'. m_after user base cpu k m = Some m' \<and>
    (if even k then playing lo cpu base barr Q F L p q cin cout x y (v + of_nat k) m'
     else playing lo cpu base barr Q F L q p cout cin y x (v + of_nat k) m')"
  using assms
proof (induction k arbitrary: p q cin cout x y v m)
  case (Suc k)
  obtain m' where m': "m_next user base cpu m = Some m'" "playing lo cpu base barr Q F L q p cout cin y x (v + 1) m'"
    using playing_next [OF Suc.prems] by blast
  show ?case using Suc.IH [OF m'(2) Suc.prems(2) Suc.prems(3) [symmetric] Suc.prems(5,4)] m'(1)
    by (auto simp: algebra_simps split: if_splits)
qed simp

lemma m_after_more:
  "m_after user base cpu n m0 = Some m \<Longrightarrow> m_after user base cpu (n + k) m0 = m_after user base cpu k m"
  by (induction n arbitrary: m0) (auto split: bind_splits)

subsection \<open>The start\<close>

text \<open>The parent waits, the first child runs and offers zero, and the second child begins.\<close>

lemma ring2_starts:
  assumes inv: "sched_inv (sch c) Q" and mem: "mem_ok lo c F L" and live: "live c Q L" and cpu: "cpu < NPUN"
    and room: "room_for [cls 0, cls 1] c" and free: "\<not> claimed c Mutex_mem" "\<not> claimed c (Mutex_term cpu)"
      "\<not> claimed c (Mutex_chan chan1)" "\<not> claimed c (Mutex_chan chan2)"
    and f: "\<forall>i < 2. find_mem_index (stacksize i + sizeof_Process) = Inr (cls i)" and work: "Q cpu \<noteq> []"
    and low: "\<forall>x \<in> set (merged (sch c) cpu (Q cpu)). pri_gt (p_pri (proc_of c p)) (p_pri (proc_of c x))"
    and p: "current (sch c) cpu = p"
    and ch: "waiting (chans c chan1) = NULL" "waiting (chans c chan2) = NULL" "chan1 \<noteq> chan2"
    and user: "\<And>c. user (code 0) (userArgs 0) c = ring2_child1 cpu chan1 chan2 x1 c"
      "\<And>c. user (code 1) (userArgs 1) c = ring2_child2 cpu chan1 chan2 x2 c"
  shows "\<exists>F' L' b d m. m_after user base cpu (Suc (Suc 0))
      \<lparr>m_proc = p, m_run = par cpu barr code userArgs stacksize 2 c, m_saved = sv\<rparr> = Some m \<and>
    playing lo cpu base barr (Q(cpu := merged (sch c) cpu (Q cpu))) F' L' d b chan1 chan2 x2 x1 0 m"
proof -
  define R where "R = merged (sch c) cpu (Q cpu)"
  obtain c1 F1 b d where s1: "par cpu barr code userArgs stacksize 2 c = Paused c1 (Done ())"
    "barriers c1 barr = \<lparr>children = 2, parent = p\<rparr>" "b \<noteq> d" "b \<notin> fst ` L" "d \<notin> fst ` L"
    "uc_point (ctxs (sch c1) (proc_stack b)) = At_entry Run_in_par (code 0) barr (userArgs 0)"
    "uc_point (ctxs (sch c1) (proc_stack d)) = At_entry Run_in_par (code 1) barr (userArgs 1)"
    "uc_point (ctxs (sch c1) (proc_stack p)) = In_relinquish" "p_index (proc_of c1 p) = p_index (proc_of c p)"
    "current (sch c1) cpu = b" "at_ease lo cpu c1 (Q(cpu := d # R)) F1 (L \<union> {(b, cls 0), (d, cls 1)})"
    "idle_on (sch c1) (Q(cpu := d # R)) cpu p" "key_of (sch c1) b = key_of (sch c1) p"
    "key_of (sch c1) d = key_of (sch c1) p" "\<forall>y \<in> set R. key_of (sch c1) p < key_of (sch c1) y"
    "claimed c1 = (claimed c)(Mutex_mem := False)" "chans c1 = chans c" "heap c1 = heap c"
    using par_start [OF inv mem live cpu room free(1,2) f work p low, folded R_def, of barr code userArgs]
    by (elim exE conjE) (rule that)
  let ?L = "L \<union> {(b, cls 0), (d, cls 1)}" and ?c = "set_int x1 0 c1"
  have Q1: "(Q(cpu := d # R)) cpu = d # R" by simp
  have h: "sch ?c = sch c1" "chans ?c = chans c1" "claimed ?c = claimed c1" "heap ?c = put_int x1 0 (heap c1)"
    by (simp_all add: set_int_def)
  have pre: "at_ease lo cpu ?c (Q(cpu := d # R)) F1 ?L" "waiting (chans ?c chan1) = NULL" "\<not> claimed ?c (Mutex_chan chan1)"
    using s1(11,16,17) ch(1) free(3) h by (simp_all add: set_int_def)
  have op: "chan_out \<in> {chan_in, chan_out}" by simp
  obtain c2 where s2: "chan_out cpu chan1 x1 sizeof_int ?c = Paused c2 (Done ())"
    "at_ease lo cpu c2 ((Q(cpu := d # R))(cpu := R)) F1 ?L"
    "current (sch c2) cpu = d" "chans c2 = (chans c)(chan1 := \<lparr>waiting = b, io_ptr = x1\<rparr>)" "heap c2 = heap ?c"
    "claimed c2 = (claimed ?c)(Mutex_chan chan1 := False)" "same_but {b} (sch c1) (sch c2)"
    "key_of (sch c2) = key_of (sch c1)" "p_index (proc_of c2 b) = p_index (proc_of ?c b)"
    "idle_on (sch c2) ((Q(cpu := d # R))(cpu := R)) cpu b" "p_sched_state (proc_of c2 b) = PROC_WAITING"
    "uc_point (ctxs (sch c2) (proc_stack b)) = In_relinquish"
    using wait_step [where len = sizeof_int and b = x1, OF pre(1) cpu Q1 pre(2,3) op, unfolded h(1,2) s1(10,17)]
    by (elim exE conjE) (rule that)
  have lv: "live ?c (Q(cpu := d # R)) ?L" using pre(1) by (simp only: at_ease_def)
  have bL: "(b, unat (p_index (proc_of c2 b))) \<in> ?L"
    using live_current [OF lv cpu, unfolded h(1), OF s1(10) [symmetric]] unfolding s2(9) .
  have face: "facing lo cpu c2 (Q(cpu := R)) F1 ?L d b chan1 x1 chan2"
    unfolding facing_def using s2 bL s1(13-16) ch free(3,4) h(3) by simp
  have val: "get_int x1 (heap c2) = 0" using s2(5) h(4) by (simp add: get_put_int)
  let ?b = "player cpu base barr chan2 chan1 x1" and ?d = "player cpu base barr chan1 chan2 x2"
  have r1: "run_in_par user base cpu (code 0) barr (userArgs 0) c1 = Paused c2 ?b"
    by (simp add: run_in_par_def user ring2_child1_def s2(1) ring2_round1_eq player_def fun_eq_iff)
  have r2: "run_in_par user base cpu (code 1) barr (userArgs 1) c = ?d c" for c
    by (simp only: run_in_par_def user ring2_child2_def player_def)
  have E1: "sched_inv (sch c1) (Q(cpu := d # R))" using s1(11) by (simp add: at_ease_def)
  have E2: "sched_inv (sch c2) (Q(cpu := R))" using s2(2) by (simp add: at_ease_def)
  have u2: "uc_point (ctxs (sch c2) (proc_stack d)) = At_entry Run_in_par (code 1) barr (userArgs 1)"
    using same_butD(1) [OF s2(7), of d] s1(3,7) by simp
  let ?m = "\<lparr>m_proc = d, m_run = ?d c2, m_saved = (sv(p := Done ()))(b := ?b)\<rparr>"
  have "m_after user base cpu (Suc (Suc 0)) \<lparr>m_proc = p, m_run = par cpu barr code userArgs stacksize 2 c, m_saved = sv\<rparr> = Some ?m"
    unfolding s1(1) m_after_Paused enter_child [OF E1 cpu, unfolded s1(10), OF s1(6)] r1 bind.simps
      enter_child [OF E2 cpu, unfolded s2(3), OF u2] r2 by simp
  moreover have "playing lo cpu base barr (Q(cpu := R)) F1 ?L d b chan1 chan2 x2 x1 0 ?m"
    unfolding playing_def using face val by auto
  ultimately show ?thesis unfolding R_def by blast
qed

text \<open>The function at a code address.\<close>

definition ring2_code :: "addr \<Rightarrow> addr \<Rightarrow> addr \<Rightarrow> addr \<Rightarrow> addr \<Rightarrow> pun \<Rightarrow> addr \<Rightarrow> addr \<Rightarrow> cxp \<Rightarrow> unit run" where
  "ring2_code fn1 chan1 chan2 x1 x2 cpu code arg c =
     (if code = fn1 then ring2_child1 cpu chan1 chan2 x1 c else ring2_child2 cpu chan1 chan2 x2 c)"

text \<open>
  C3. The program \<^verbatim>\<open>examples/ring0arg2.c\<close> plays for ever: if the operating system grants
  what the initialization asks for, then after \<open>k + 2\<close> changes of the process, whatever \<open>k\<close> is, one
  of the two children runs at the head of its loop, the other one waits in the channel between them
  and offers it the number \<open>k\<close> (of 32 bits); no change of the process fails, the children alternate,
  and the invariants of all components hold.
\<close>

theorem ring2_for_ever:
  assumes zero: "static_zero (hw (sch c))" "barrier (hw (sch c)) = 2" "\<forall>m. \<not> claimed c m"
    and timers: "os_new_timer (hw (sch c)) 0 = Some t" "os_new_timer (hw (sch c)) 1 = Some u"
      "os_new_timer (hw (sch c)) 2 = Some v" "distinct [t, u, v]"
    and thread: "thread 1" and memory: "malloc (0x40000000 - 8192) = T0" "T0 \<noteq> NULL" "unat T0 + unat (0x40000000 - 8192 :: uint32) \<le> 2 ^ 32"
    and fns: "fn1 \<noteq> fn2" and chs: "chan1 \<noteq> chan2" and vars: "x1 \<noteq> NULL" "x2 \<noteq> NULL"
  shows "\<exists>p b d Q F L. \<forall>k. \<exists>m. m_after (ring2_code fn1 chan1 chan2 x1 x2 0) base 0 (Suc (Suc k))
      \<lparr>m_proc = p, m_run = ring2_main malloc thread fn1 fn2 chan1 chan2 barr c, m_saved = sv\<rparr> = Some m \<and>
    (if even k then playing (unat T0) 0 base barr Q F L d b chan1 chan2 x2 x1 (of_nat k) m
     else playing (unat T0) 0 base barr Q F L b d chan2 chan1 x1 x2 (of_nat k) m)"
proof -
  obtain c1 F b0 b1 L where c1: "initialize malloc thread 0x40000000 8192 c = Done () c1" "sched_inv (sch c1) (first_queues b1)"
    "mem_ok (unat T0) c1 F L" "live c1 (first_queues b1) L" "room_for [12, 12] c1" "\<forall>m. \<not> claimed c1 m" "current (sch c1) 0 = b0"
    "first_queues b1 0 = [b1]" "merged (sch c1) 0 [b1] = [b1]" "pri_gt (p_pri (proc_of c1 b0)) (p_pri (proc_of c1 b1))"
    using program_starts [where thread = thread and malloc = malloc, OF zero timers thread memory] by (elim exE conjE) (rule that)
  let ?c = "init_channel chan2 (init_channel chan1 c1)" and ?user = "ring2_code fn1 chan1 chan2 x1 x2 0" and ?Q = "first_queues b1"
  note fr = init_channel_frame
  have st: "sched_inv (sch ?c) ?Q" "mem_ok (unat T0) ?c F L" "live ?c ?Q L" "(0 :: pun) < NPUN" "room_for [12, 12] ?c"
    "?Q 0 \<noteq> []" "current (sch ?c) 0 = b0" "waiting (chans ?c chan1) = NULL" "waiting (chans ?c chan2) = NULL"
    "\<forall>x \<in> set (merged (sch ?c) 0 (?Q 0)). pri_gt (p_pri (proc_of ?c b0)) (p_pri (proc_of ?c x))"
    using c1 by (simp_all add: fr NPUN_def)
  have cl: "\<not> claimed ?c m" for m using c1(6) fr(8) by blast
  have cls: "\<forall>i < 2. find_mem_index ([2000, 2000] ! i + sizeof_Process) = Inr ((\<lambda>_. 12) i)"
    using commun_class(1) by (auto simp: less_2_cases_iff)
  have user: "?user ([fn1, fn2] ! 0) ([NULL, NULL] ! 0) c = ring2_child1 0 chan1 chan2 x1 c"
    "?user ([fn1, fn2] ! 1) ([NULL, NULL] ! 1) c = ring2_child2 0 chan1 chan2 x2 c" for c
    using fns by (simp_all add: ring2_code_def)
  obtain F' L' b d m where m: "m_after ?user base 0 (Suc (Suc 0))
      \<lparr>m_proc = b0, m_run = par 0 barr ((!) [fn1, fn2]) ((!) [NULL, NULL]) ((!) [2000, 2000]) 2 ?c, m_saved = sv\<rparr> = Some m"
    "playing (unat T0) 0 base barr (?Q(0 := merged (sch ?c) 0 (?Q 0))) F' L' d b chan1 chan2 x2 x1 0 m"
    using ring2_starts [where user = ?user and code = "(!) [fn1, fn2]" and userArgs = "(!) [NULL, NULL]" and
        stacksize = "(!) [2000, 2000]" and cls = "\<lambda>_. 12" and base = base and barr = barr and sv = sv,
        OF st(1-5) cl cl cl cl cls st(6,10,7,8,9) chs user] by (elim exE conjE) (rule that)
  have main: "ring2_main malloc thread fn1 fn2 chan1 chan2 barr c =
      par 0 barr ((!) [fn1, fn2]) ((!) [NULL, NULL]) ((!) [2000, 2000]) 2 ?c"
    using c1(1) by (simp add: ring2_main_def)
  have "\<exists>m'. m_after ?user base 0 (Suc (Suc k))
      \<lparr>m_proc = b0, m_run = ring2_main malloc thread fn1 fn2 chan1 chan2 barr c, m_saved = sv\<rparr> = Some m' \<and>
    (if even k then playing (unat T0) 0 base barr (?Q(0 := merged (sch ?c) 0 (?Q 0))) F' L' d b chan1 chan2 x2 x1 (of_nat k) m'
     else playing (unat T0) 0 base barr (?Q(0 := merged (sch ?c) 0 (?Q 0))) F' L' b d chan2 chan1 x1 x2 (of_nat k) m')" for k
    using playing_after [OF m(2) st(4) chs vars(2,1), of ?user k]
    unfolding main m_after_more [OF m(1), of k, unfolded add_Suc add_0] add_0 .
  then show ?thesis
    by - (rule exI [of _ b0], rule exI [of _ b], rule exI [of _ d], rule exI, rule exI, rule exI, rule allI)
qed

theorem ring2_for_ever_witness:
  "\<exists>p b d Q F L m. m_after (ring2_code 0x8000 0x3000 0x3100 0x7000 0x7100 0) 0x9000 0 (Suc (Suc 72))
      \<lparr>m_proc = p, m_run = ring2_main (\<lambda>_. 0x100000) (\<lambda>_. True) 0x8000 0x8100 0x3000 0x3100 0x2000 sample_cxp,
        m_saved = \<lambda>_. Done ()\<rparr> = Some m \<and>
    playing 0x100000 0 0x9000 0x2000 Q F L d b 0x3000 0x3100 0x7100 0x7000 72 m"
proof -
  have a: "(0x100000 :: addr) \<noteq> NULL" "unat (0x100000 :: addr) + unat (0x40000000 - 8192 :: uint32) \<le> 2 ^ 32"
    "(0x8000 :: addr) \<noteq> 0x8100" "(0x3000 :: addr) \<noteq> 0x3100" "(0x7000 :: addr) \<noteq> NULL" "(0x7100 :: addr) \<noteq> NULL"
    by simp_all
  have e: "even (72 :: nat)" "unat (0x100000 :: addr) = 0x100000" "(of_nat 72 :: uint32) = 72" by simp_all
  show ?thesis
    using ring2_for_ever [where thread = "\<lambda>_. True" and malloc = "\<lambda>_. 0x100000" and base = "0x9000" and
        barr = "0x2000" and sv = "\<lambda>_. Done ()", OF sample_cxp_starts TrueI refl a]
    by (elim exE allE [where x = 72], unfold if_P [OF e(1)] e(2,3), elim exE) (intro exI)
qed

end
