(* ===== verification/Barrier.thy ===== *)
theory Barrier
  imports Run_Correct
begin

text \<open>
  The barrier of the parallel constructs under any interleaving: the atomic subtractions of the
  children are the steps, so exactly one child, the last, wakes the parent. Then what happens when
  that is too early: the barrier schedules the parent whatever its state is, and the ready
  queues do not survive a process that is inserted twice.
\<close>

subsection \<open>The last child, and no other, wakes the parent\<close>

datatype child_place = C_running | C_counted int | C_done

text \<open>\<open>b_woken\<close> counts the calls of \<^verbatim>\<open>schedule(barr->parent)\<close>.\<close>

record barrier_run =
  b_cxp :: cxp
  b_child :: "nat \<Rightarrow> child_place"
  b_woken :: nat

inductive barrier_step :: "addr \<Rightarrow> nat \<Rightarrow> barrier_run \<Rightarrow> barrier_run \<Rightarrow> bool" for barr n where
  counts: "i < n \<Longrightarrow> b_child r i = C_running \<Longrightarrow> fetch_sub barr (b_cxp r) = (pre, c) \<Longrightarrow>
    barrier_step barr n r (r\<lparr>b_cxp := c, b_child := (b_child r)(i := C_counted pre)\<rparr>)"
| wakes: "i < n \<Longrightarrow> b_child r i = C_counted pre \<Longrightarrow> pre = 1 \<Longrightarrow>
    barrier_step barr n r (r\<lparr>b_child := (b_child r)(i := C_done), b_woken := b_woken r + 1\<rparr>)"
| leaves: "i < n \<Longrightarrow> b_child r i = C_counted pre \<Longrightarrow> pre \<noteq> 1 \<Longrightarrow>
    barrier_step barr n r (r\<lparr>b_child := (b_child r)(i := C_done)\<rparr>)"
| kernel: "barriers c = barriers (b_cxp r) \<Longrightarrow> barrier_step barr n r (r\<lparr>b_cxp := c\<rparr>)"

definition barrier_start :: "addr \<Rightarrow> addr \<Rightarrow> uint32 \<Rightarrow> cxp \<Rightarrow> barrier_run" where
  "barrier_start barr p nc c = \<lparr>b_cxp = par_barr_init barr p nc c, b_child = (\<lambda>_. C_running), b_woken = 0\<rparr>"

definition at_child :: "nat \<Rightarrow> barrier_run \<Rightarrow> child_place \<Rightarrow> nat set" where
  "at_child n r z = {i. i < n \<and> b_child r i = z}"

lemma at_child_simps [simp]:
  "finite (at_child n r z)" "at_child n (r\<lparr>b_cxp := c\<rparr>) z = at_child n r z"
  "at_child n (r\<lparr>b_cxp := c, b_child := f\<rparr>) z = at_child n (r\<lparr>b_child := f\<rparr>) z"
  "at_child n (r\<lparr>b_child := f, b_woken := w\<rparr>) z = at_child n (r\<lparr>b_child := f\<rparr>) z"
  by (simp_all add: at_child_def)

lemma at_child_move:
  assumes "i < n" and "b_child r i = y" and "y \<noteq> z"
  shows "at_child n (r\<lparr>b_child := (b_child r)(i := z)\<rparr>) x =
    (if x = y then at_child n r y - {i} else if x = z then insert i (at_child n r z) else at_child n r x)"
    and "i \<in> at_child n r y" and "i \<notin> at_child n r z"
  using assms by (auto simp: at_child_def)

text \<open>The count is the number of children still to come; the parent's wake-up follows the last one.\<close>

definition barrier_inv :: "addr \<Rightarrow> nat \<Rightarrow> barrier_run \<Rightarrow> bool" where
  "barrier_inv barr n r \<longleftrightarrow>
     children (barriers (b_cxp r) barr) = int (card (at_child n r C_running)) \<and>
     b_woken r + card (at_child n r (C_counted 1)) = (if at_child n r C_running = {} then 1 else 0)"

lemma sint_small: "k < 2 ^ 31 \<Longrightarrow> sint (word_of_int (int k) :: uint32) = int k"
  by (transfer fixing: k) (simp add: signed_take_bit_int_eq_self_iff)

lemma fetch_sub_ok:
  assumes "children (barriers c barr) = int (Suc k)" and "Suc k < 2 ^ 31"
  shows "\<exists>c'. fetch_sub barr c = (int (Suc k), c') \<and> children (barriers c' barr) = int k \<and>
    parent (barriers c' barr) = parent (barriers c barr)"
  using sint_small [of k] assms by (simp add: fetch_sub_def Let_def)

lemma barrier_inv_counts:
  assumes inv: "barrier_inv barr n r" and i: "i < n" "b_child r i = C_running"
    and f: "fetch_sub barr (b_cxp r) = (pre, c)" and n: "n < 2 ^ 31"
  shows "barrier_inv barr n (r\<lparr>b_cxp := c, b_child := (b_child r)(i := C_counted pre)\<rparr>)"
proof -
  let ?r = "r\<lparr>b_child := (b_child r)(i := C_counted pre)\<rparr>"
  note m = at_child_move [OF i, of "C_counted pre", simplified]
  obtain k where k: "card (at_child n r C_running) = Suc k" using m(2) by (cases "card (at_child n r C_running)") auto
  have "at_child n r C_running \<subseteq> {..< n}" by (auto simp: at_child_def)
  then have "card (at_child n r C_running) \<le> n" by (metis card_lessThan card_mono finite_lessThan)
  then have "Suc k < 2 ^ 31" using k n by simp
  then obtain c' where c': "fetch_sub barr (b_cxp r) = (int (Suc k), c')" "children (barriers c' barr) = int k"
    using fetch_sub_ok [of "b_cxp r" barr k] inv k by (auto simp: barrier_inv_def)
  then have c: "pre = int (Suc k)" "c = c'" using f by simp_all
  have left: "card (at_child n ?r C_running) = k" using k m(1,2) by simp
  have one: "at_child n ?r (C_counted 1) = (if k = 0 then insert i (at_child n r (C_counted 1)) else at_child n r (C_counted 1))"
    using m(1) c(1) by auto
  have "at_child n ?r C_running = {} \<longleftrightarrow> k = 0" using left by (metis at_child_simps(1) card_eq_0_iff)
  moreover have "at_child n r C_running \<noteq> {}" using m(2) by auto
  moreover have "k = 0 \<Longrightarrow> i \<notin> at_child n r (C_counted 1)" using m(3) c(1) by simp
  ultimately show ?thesis using inv left one c c'(2) by (simp add: barrier_inv_def split: if_splits)
qed

lemma barrier_inv_step:
  assumes "barrier_step barr n r r'" and "barrier_inv barr n r" and "n < 2 ^ 31"
  shows "barrier_inv barr n r'"
  using assms
proof (cases rule: barrier_step.cases)
  case (counts i pre c)
  then show ?thesis using barrier_inv_counts assms by blast
next
  case (wakes i pre)
  note m = at_child_move [OF wakes(2,3), of C_done, simplified]
  have "card (at_child n r (C_counted 1)) = Suc (card (at_child n r (C_counted 1) - {i}))"
    using m(2) wakes(4) by (metis at_child_simps(1) card.remove)
  then show ?thesis using assms(2) m(1) wakes by (simp add: barrier_inv_def)
next
  case (leaves i pre)
  then show ?thesis using assms(2) at_child_move(1) [OF leaves(2,3), of C_done] by (simp add: barrier_inv_def)
qed (simp add: barrier_inv_def)

lemma barrier_inv_reachable:
  assumes "(barrier_step barr n)\<^sup>*\<^sup>* r r'" and "barrier_inv barr n r" and "n < 2 ^ 31"
  shows "barrier_inv barr n r'"
  using assms by (induction rule: rtranclp_induct) (auto intro: barrier_inv_step)

lemma barrier_inv_start:
  assumes "0 < unat nc" and "unat nc < 2 ^ 31"
  shows "barrier_inv barr (unat nc) (barrier_start barr p nc c)"
proof -
  have "at_child (unat nc) (barrier_start barr p nc c) C_running = {..< unat nc}"
    "at_child (unat nc) (barrier_start barr p nc c) (C_counted 1) = {}"
    by (auto simp: at_child_def barrier_start_def)
  moreover have "sint nc = int (unat nc)"
    using sint_small [OF assms(2)] by simp
  ultimately show ?thesis using assms(1)
    by (simp add: barrier_inv_def lessThan_empty_iff) (simp add: barrier_start_def par_barr_init_def)
qed

text \<open>
  C22. The barrier of a construct with at least one child, under any interleaving of the children's
  steps with each other and with the rest of the kernel: the parent is made ready at most once;
  when it is, every child has announced its end; and when all children have left the barrier, the
  parent has been made ready exactly once.
\<close>

theorem last_child_wakes_parent:
  assumes "0 < unat nc" and "unat nc < 2 ^ 31"
    and "(barrier_step barr (unat nc))\<^sup>*\<^sup>* (barrier_start barr p nc c) r"
  shows "b_woken r \<le> 1 \<and> (b_woken r = 1 \<longrightarrow> (\<forall>i < unat nc. b_child r i \<noteq> C_running)) \<and>
    ((\<forall>i < unat nc. b_child r i = C_done) \<longrightarrow> b_woken r = 1) \<and>
    children (barriers (b_cxp r) barr) = int (card {i. i < unat nc \<and> b_child r i = C_running})"
proof -
  have inv: "barrier_inv barr (unat nc) r"
    using barrier_inv_reachable [OF assms(3) barrier_inv_start [OF assms(1,2)] assms(2)] .
  have "at_child (unat nc) r C_running = {}" "at_child (unat nc) r (C_counted 1) = {}"
    if "\<forall>i < unat nc. b_child r i = C_done" using that by (auto simp: at_child_def)
  moreover have "at_child (unat nc) r C_running = {} \<longleftrightarrow> (\<forall>i < unat nc. b_child r i \<noteq> C_running)"
    by (auto simp: at_child_def)
  ultimately show ?thesis using inv by (auto simp: barrier_inv_def at_child_def [symmetric] split: if_splits)
qed

text \<open>Two children: the first to come counts down, the second wakes the parent.\<close>

theorem last_child_wakes_parent_witness:
  "\<exists>r. (barrier_step 0x2000 2)\<^sup>*\<^sup>* (barrier_start 0x2000 0x300 2 sample_cxp) r \<and> b_woken r = 1 \<and>
    children (barriers (b_cxp r) 0x2000) = 0"
proof -
  let ?r0 = "barrier_start 0x2000 0x300 2 sample_cxp"
  have s: "sint (2 :: uint32) = 2" "sint (word_of_int 1 :: uint32) = 1" "sint (word_of_int 0 :: uint32) = 0"
    using sint_small [of 2] sint_small [of 1] by simp_all
  have "children (barriers (b_cxp ?r0) 0x2000) = int (Suc 1)"
    using s by (simp add: barrier_start_def par_barr_init_def)
  then obtain c1 where c1: "fetch_sub 0x2000 (b_cxp ?r0) = (2, c1)" "children (barriers c1 0x2000) = 1"
    using fetch_sub_ok [of "b_cxp ?r0" "0x2000" 1] by auto
  obtain c2 where c2: "fetch_sub 0x2000 c1 = (1, c2)" "children (barriers c2 0x2000) = 0"
    using fetch_sub_ok [of c1 "0x2000" 0] c1(2) by auto
  let ?r1 = "?r0\<lparr>b_cxp := c1, b_child := (b_child ?r0)(0 := C_counted 2)\<rparr>"
  let ?r2 = "?r1\<lparr>b_cxp := c2, b_child := (b_child ?r1)(1 := C_counted 1)\<rparr>"
  let ?r3 = "?r2\<lparr>b_child := (b_child ?r2)(0 := C_done)\<rparr>"
  let ?r4 = "?r3\<lparr>b_child := (b_child ?r3)(1 := C_done), b_woken := b_woken ?r3 + 1\<rparr>"
  have b0: "b_child ?r0 i = C_running" for i by (simp add: barrier_start_def)
  have "barrier_step 0x2000 2 ?r0 ?r1" using b0 c1(1) by (intro barrier_step.counts) simp_all
  moreover have "barrier_step 0x2000 2 ?r1 ?r2" using b0 c2(1) by (intro barrier_step.counts) simp_all
  moreover have "barrier_step 0x2000 2 ?r2 ?r3" by (rule barrier_step.leaves [where pre = 2]) simp_all
  moreover have "barrier_step 0x2000 2 ?r3 ?r4" by (rule barrier_step.wakes [where pre = 1]) simp_all
  ultimately have run: "(barrier_step 0x2000 2)\<^sup>*\<^sup>* ?r0 ?r4" by (meson converse_rtranclp_into_rtranclp rtranclp.rtrancl_refl)
  have "\<forall>i < unat (2 :: uint32). b_child ?r4 i = C_done" by (auto simp: less_2_cases_iff)
  then have "b_woken ?r4 = 1"
    using last_child_wakes_parent [of 2 "0x2000" "0x300" sample_cxp ?r4] run by simp
  moreover have "children (barriers (b_cxp ?r4) 0x2000) = 0" using c2(2) by simp
  ultimately show ?thesis using run by blast
qed

subsection \<open>A process inserted twice\<close>

text \<open>
  Inserting a process that is in the ready queue already drops every process of its
  priority that stands behind it: the search stops behind the last of them, whose link is set to
  the process, and the process is linked to what follows.
\<close>

theorem double_enqueue_drops:
  assumes ok: "ready_ok s Q" and pun: "pun < NPUN" and Q: "Q pun = us @ x # ys @ zs" and ys: "ys \<noteq> []"
    and eq: "\<forall>y \<in> set ys. pri_eq (p_pri (procs s y)) (p_pri (procs s x))"
    and gt: "\<forall>z \<in> set zs. pri_gt (p_pri (procs s x)) (p_pri (procs s z))"
  shows "\<exists>s'. enqueue0 x s = Inr s' \<and> ready_chain s' pun (us @ x # zs) \<and> set ys \<inter> set (us @ x # zs) = {}"
proof -
  let ?go = "\<lambda>c. key_of s c \<le> key_of s x" and ?nx = "next_of s"
  have "chain ?nx (rdyQues s pun) (Q pun)" "sorted (map (key_of s) (Q pun))" "\<forall>x \<in> set (Q pun). p_pun (procs s x) = pun"
    using ok pun by (simp_all add: ready_ok_def ready_chain_def)
  then have ch: "chain ?nx (rdyQues s pun) (us @ x # ys @ zs)" and srt: "sorted (map (key_of s) (us @ x # ys @ zs))"
    and xp: "p_pun (procs s x) = pun" unfolding Q by simp_all
  have d: "distinct (us @ x # ys @ zs)" using ch by (rule chain_distinct)
  have go: "\<forall>c \<in> set (us @ x # ys). ?go c" "\<forall>z \<in> set zs. \<not> ?go z"
    using srt eq gt by (auto simp: sorted_append pri_iffs key_of_def)
  have tw: "takeWhile ?go (us @ x # ys @ zs) = us @ x # ys" "dropWhile ?go (us @ x # ys @ zs) = zs"
    using go takeWhile_append2 [of "us @ x # ys" ?go zs] dropWhile_append2 [of "us @ x # ys" ?go zs]
    by (cases zs; simp)+
  let ?v = "last ys" and ?cur = "case zs of [] \<Rightarrow> NULL | z # zs' \<Rightarrow> z"
  have v: "?v \<in> set ys" using ys by simp
  then have vn: "?v \<noteq> NULL" "x \<noteq> NULL" using chain_nonnull_set [OF ch] by auto
  have "walk (\<lambda>c. pri_le (p_pri (procs s x)) (p_pri (procs s c))) (\<lambda>c. p_next (procs s c)) NULL (rdyQues s pun) =
      Some (?v, ?cur)"
    using walk_chain [OF ch, of ?go NULL] ys unfolding tw by (simp add: pri_iffs key_of_def next_of_def [abs_def])
  then have run: "enqueue0 x s = Inr (set_next x ?cur (set_next ?v x s))"
    using vn xp pun by (simp add: enqueue0_def Let_def)
  obtain r q where seg: "segment ?nx (rdyQues s pun) us r" "r = x" "segment ?nx (?nx x) ys q" "chain ?nx q zs"
    using ch by (auto simp: chain_append)
  have "q = ?cur" using seg(4) by (cases zs) auto
  moreover have "?v \<notin> set us" "?v \<noteq> x" "?v \<notin> set zs" using d v by auto
  ultimately have "chain (?nx(?v := x, x := ?cur)) (rdyQues s pun) (us @ x # zs)"
    using seg d vn by (auto simp: chain_append)
  moreover have "set ys \<inter> set (us @ x # zs) = {}" using d by auto
  ultimately show ?thesis using run by (simp add: ready_chain_def)
qed

theorem double_enqueue_drops_witness:
  "\<exists>s s'. ready_ok s (\<lambda>p. if p = 0 then [0x300, 0x400, 0x100] else []) \<and> enqueue0 0x300 s = Inr s' \<and>
    ready_chain s' 0 [0x300, 0x100]"
proof -
  let ?s = "set_next 0x300 0x400 (sample_sched\<lparr>rdyQues := \<lambda>p. if p = 0 then 0x300 else NULL\<rparr>)"
  let ?Q = "\<lambda>p :: pun. if p = 0 then [0x300, 0x400, 0x100 :: addr] else []"
  have k: "key_of ?s a = key_of sample_sched a" for a by (simp add: key_of_def)
  have ok: "ready_ok ?s ?Q"
    by (simp add: ready_ok_def less_NPUN ready_chain_def k sample_key)
      (simp add: next_of_def sample_sched_def sample_process_def)
  have "pri_eq (p_pri (procs ?s 0x400)) (p_pri (procs ?s 0x300))" "pri_gt (p_pri (procs ?s 0x300)) (p_pri (procs ?s 0x100))"
    by (simp_all add: sample_sched_def sample_process_def pri_eq_def pri_gt_def PRI_VAL_MASK_def IDLE_PRI_def PRI_LOW_def)
  then show ?thesis
    using double_enqueue_drops [OF ok, of 0 "[]" "0x300" "[0x400]" "[0x100]"] ok by (auto simp: NPUN_def)
qed

subsection \<open>A barrier that opens before its parent waits\<close>

text \<open>The last child, on another processor: the parent is sent to its own processor.\<close>

lemma sync_sends_parent:
  assumes inv: "sched_inv (sch c) Q" and cpu: "cpu < NPUN" "other \<noteq> cpu"
    and b: "barriers c barr = \<lparr>children = 1, parent = p\<rparr>" and p: "current (sch c) cpu = p"
    and t: "thread_id (hw (sch c)) cpu = Some target" and e: "in_ipq (sch c) cpu = []"
  shows "\<exists>c' q. par_barr_sync other barr c = Done () c' \<and> ipq_wf q \<and> ipq_contents q = [p] \<and>
    sch c' = (sch c)\<lparr>ipQues := (ipQues (sch c))(cpu := q), hw := hw (sch c')\<rparr>"
proof -
  let ?s = "sch c" and ?c = "snd (fetch_sub barr c)"
  note D = sched_invD [OF inv cpu(1)]
  have pn: "p \<noteq> NULL" "p_pun (procs ?s p) = cpu" using D(2,3) p by auto
  have wf: "ipq_wf (ipQues ?s cpu)" using D(1) cpu(1) by (simp add: queues_ok_def)
  obtain q where q: "ipq_put p (ipQues ?s cpu) = Some q" "ipq_wf q" "ipq_contents q = [p]"
    using ring.put_room [OF wf pn(1)] e by (auto simp: in_ipq_def QSIZE_def)
  have f: "fst (fetch_sub barr c) = 1" "sch ?c = ?s" "parent (barriers ?c barr) = p"
    using b by (simp_all add: fetch_sub_def Let_def)
  obtain h where sc: "schedule other p ?s = Inr (?s\<lparr>ipQues := (ipQues ?s)(cpu := q), hw := h\<rparr>)"
    using pn q(1) t cpu
    by (auto simp: schedule_def schedule0_def ipq_add_def on_hw_eq send_interprocessor_interrupt_def disable_def)
  let ?c' = "?c\<lparr>sch := ?s\<lparr>ipQues := (ipQues ?s)(cpu := q), hw := h\<rparr>\<rparr>"
  have "par_barr_sync other barr c = Done () ?c'"
    using f sc by (simp add: par_barr_sync_def case_prod_beta switching_simps)
  then show ?thesis using q(2,3) by - (rule exI [of _ ?c'], rule exI [of _ q], simp)
qed

text \<open>The interprocessor interrupt with the running process in the queue.\<close>

lemma interrupt_enqueues_current:
  assumes ok: "ready_ok s Q" and cpu: "cpu < NPUN" and q: "ipq_wf (ipQues s cpu)" "in_ipq s cpu = [p]"
    and p: "current s cpu = p" "p \<noteq> NULL" "p_pun (procs s p) = cpu" "p \<notin> set (Q cpu)"
    and top: "\<forall>x \<in> set (Q cpu). key_of s p \<le> key_of s x"
  shows "\<exists>s'. handle_interprocessor_interrupt cpu s = Inr (False, s') \<and> current s' cpu = p \<and>
    p_sched_state (procs s' p) = p_sched_state (procs s p) \<and>
    ready_ok s' (Q(cpu := enq_list s p (Q cpu)))"
proof -
  obtain r where r: "ipq_get (ipQues s cpu) = (p, r)" "ipq_wf r" "ipq_contents r = []"
    using ring.get_first [OF q(1)] q(2) by (metis in_ipq_def)
  let ?s1 = "s\<lparr>ipQues := (ipQues s)(cpu := r)\<rparr>"
  have rem: "ipq_remove cpu s = (p, ?s1)" using r(1) by (simp add: ipq_remove_def)
  have "ready_ok ?s1 Q" using ok ready_ok_cong [of ?s1 s Q] by simp
  from enqueue0_ready_ok [OF this p(2)] p(3,4) cpu
  obtain s2 where s2: "enqueue0 p ?s1 = Inr s2" "links_only ?s1 s2" "ready_ok s2 (Q(cpu := enq_list ?s1 p (Q cpu)))" by auto
  note l = links_onlyD [OF s2(2)]
  have "schedule0 In_interproc cpu p ?s1 = Inr (False, s2)"
    using p s2(1) by (simp add: schedule0_def get_current_def pri_iffs)
  moreover have "ipq_remove cpu s2 = (NULL, s2)"
    using ring.get_empty [OF r(2,3)] l(6) by (simp add: ipq_remove_def)
  ultimately have loop: "interproc_loop cpu s = Some (Inr (False, s2))"
    using interproc_loop_go [OF rem p(2)] interproc_loop_stop by auto
  have Q: "enq_list ?s1 p (Q cpu) = enq_list s p (Q cpu)" by (simp add: enq_list_def)
  have chain: "chain (next_of s2) (rdyQues s2 cpu) (enq_list s p (Q cpu))"
    using s2(3) cpu Q by (auto simp: ready_ok_def ready_chain_def)
  have ne: "enq_list s p (Q cpu) \<noteq> []" by (metis set_enq_list insert_not_empty set_empty)
  have "rdyQues s2 cpu \<in> set (enq_list s p (Q cpu))" using chain_head [OF chain] ne hd_in_set [OF ne] by simp
  then have "key_of s p \<le> key_of s (rdyQues s2 cpu)" using top by auto
  then have "schedule_from_interrupt cpu s2 = Inr (False, s2)"
    using p l by (simp add: schedule_from_interrupt_def get_current_def pri_iffs key_of_def Let_def)
  then have "handle_interprocessor_interrupt cpu s = Inr (False, s2)"
    using loop by (simp add: handle_interprocessor_interrupt_def)
  then show ?thesis using l p(1) s2(3) Q by - (rule exI [of _ s2], simp)
qed

text \<open>
  C33. The barrier asks nobody whether the parent waits yet. If the last child ends on another
  processor while the parent is still on its way to \<^verbatim>\<open>relinquish\<close>, the interrupt that follows
  puts the running parent into its own ready queue: it is then in two places, its state still is
  preparing to wait, and it will be inserted again if it is preempted before it relinquishes.
\<close>

theorem barrier_overtakes_parent:
  assumes inv: "sched_inv (sch c) Q" and cpu: "cpu < NPUN" "other \<noteq> cpu"
    and b: "barriers c barr = \<lparr>children = 1, parent = p\<rparr>" and p: "current (sch c) cpu = p"
    and st: "p_sched_state (proc_of c p) = PROC_PREPARING_TO_WAIT" and top: "top_running (sch c) Q cpu"
    and t: "thread_id (hw (sch c)) cpu = Some target" and e: "in_ipq (sch c) cpu = []"
  shows "\<exists>c' s'. par_barr_sync other barr c = Done () c' \<and>
    handle_interprocessor_interrupt cpu (sch c') = Inr (False, s') \<and> current s' cpu = p \<and>
    ready_ok s' (Q(cpu := enq_list (sch c) p (Q cpu))) \<and> p \<in> set (enq_list (sch c) p (Q cpu)) \<and>
    p_sched_state (procs s' p) = PROC_PREPARING_TO_WAIT"
proof -
  obtain c' q where c': "par_barr_sync other barr c = Done () c'" "ipq_wf q" "ipq_contents q = [p]"
    "sch c' = (sch c)\<lparr>ipQues := (ipQues (sch c))(cpu := q), hw := hw (sch c')\<rparr>"
    using sync_sends_parent [OF inv cpu b p t e] by blast
  note D = sched_invD [OF inv cpu(1)]
  have f: "rdyQues (sch c') = rdyQues (sch c)" "procs (sch c') = procs (sch c)" "current (sch c') cpu = p"
    "ipQues (sch c') cpu = q" using p by (subst c'(4), simp)+
  have k: "key_of (sch c') = key_of (sch c)" by (simp add: key_of_def f fun_eq_iff)
  have "ready_ok (sch c') Q" using ready_ok_cong [OF f(1,2)] D(9) by simp
  then obtain s' where s': "handle_interprocessor_interrupt cpu (sch c') = Inr (False, s')" "current s' cpu = p"
    "p_sched_state (procs s' p) = p_sched_state (procs (sch c') p)"
    "ready_ok s' (Q(cpu := enq_list (sch c') p (Q cpu)))"
    using interrupt_enqueues_current [of "sch c'" Q cpu p] cpu(1) c'(2,3) D(2,3,4) p top f
    by (auto simp: in_ipq_def top_running_def k)
  have "enq_list (sch c') p (Q cpu) = enq_list (sch c) p (Q cpu)" by (simp add: enq_list_def k)
  then show ?thesis using c'(1) s' st f by (auto simp: proc_of_def)
qed

theorem barrier_overtakes_parent_witness:
  "\<exists>c c' s'. sched_inv (sch c) sample_queues \<and> par_barr_sync 0 0x2000 c = Done () c' \<and>
    handle_interprocessor_interrupt 1 (sch c') = Inr (False, s') \<and> current s' 1 = 0x200 \<and>
    ready_ok s' (sample_queues(1 := [0x200]))"
proof -
  let ?c = "PREPARE_TO_WAIT 0x200 (sample_placed\<lparr>barriers := \<lambda>_. \<lparr>children = 1, parent = 0x200\<rparr>\<rparr>)"
  have h: "sched_inv (sch ?c) sample_queues" "(1 :: pun) < NPUN" "(0 :: pun) \<noteq> 1"
    "barriers ?c 0x2000 = \<lparr>children = 1, parent = 0x200\<rparr>"
    "p_sched_state (proc_of ?c 0x200) = PROC_PREPARING_TO_WAIT" "top_running (sch ?c) sample_queues 1"
    using sample_placed_ok(1) by (simp_all add: NPUN_def top_running_def sample_queues_def proc_of_def)
  have cur: "current (sch ?c) 1 = 0x200" and t: "thread_id (hw (sch ?c)) 1 = Some 8" and e: "in_ipq (sch ?c) 1 = []"
    using sample_in_ipq [of 1]
    by (simp_all add: sample_placed_def put_sched_def sample_roomy_def sample_cxp_def on_hw_def)
      (simp add: sample_sched_def)
  have q: "enq_list (sch ?c) 0x200 (sample_queues 1) = [0x200]" by (simp add: enq_list_def sample_queues_def)
  show ?thesis
    using barrier_overtakes_parent [OF h(1-4) cur h(5,6) t e] h(1) unfolding q by blast
qed

end
