(* ===== verification/Alt_Correct.thy ===== *)
theory Alt_Correct
  imports Alt
begin

text \<open>
  Correctness of alternation: what a selection returns whatever happens while it waits, the order
  in which the two selections prefer their guards, the selection of a guard that is ready at
  once, and the wait for a partner.
\<close>

subsection \<open>The order of the visits\<close>

lemma fair_forward_asc: "i + k \<le> n \<Longrightarrow> fair_forward n k i = [i ..< i + k]"
proof (induction k arbitrary: i)
  case (Suc k)
  show ?case
  proof (cases "k = 0")
    case False
    then have "(i + 1) mod n = i + 1" using Suc.prems by simp
    moreover have "fair_forward n k (i + 1) = [i + 1 ..< i + 1 + k]" using Suc by (intro Suc.IH) simp
    ultimately show ?thesis by (simp add: upt_rec)
  qed simp
qed simp

lemma fair_back_desc: "k \<le> Suc i \<Longrightarrow> i < n \<Longrightarrow> fair_back n k i = rev [Suc i - k ..< Suc i]"
proof (induction k arbitrary: i)
  case (Suc k)
  show ?case
  proof (cases i)
    case (Suc j)
    then have "(i + n - 1) mod n = j" using Suc.prems by simp
    then show ?thesis using Suc.IH [of j] Suc.prems Suc by (simp add: Suc_diff_le)
  qed (use Suc.prems in simp)
qed simp

lemma fair_forward_nth: "i < n \<Longrightarrow> j < k \<Longrightarrow> fair_forward n k i ! j = (i + j) mod n"
proof (induction k arbitrary: i j)
  case (Suc k)
  then show ?case
    by (cases j) (auto simp: mod_add_left_eq)
qed simp

lemma length_fair [simp]: "length (fair_forward n k i) = k" "length (fair_back n k i) = k"
  by (induction k arbitrary: i) simp_all

lemma set_fair: "i < n \<Longrightarrow> set (fair_forward n k i) \<subseteq> {..< n}" "i < n \<Longrightarrow> set (fair_back n k i) \<subseteq> {..< n}"
  by (induction k arbitrary: i) auto

lemma fair_forward_snoc: "i < n \<Longrightarrow> fair_forward n (Suc k) i = fair_forward n k i @ [(i + k) mod n]"
proof (induction k arbitrary: i)
  case (Suc k)
  then have "fair_forward n (Suc k) ((i + 1) mod n) = fair_forward n k ((i + 1) mod n) @ [((i + 1) mod n + k) mod n]"
    by simp
  then show ?case by (simp add: mod_add_left_eq)
qed simp

text \<open>The second loop visits backwards what the first one has visited.\<close>

lemma fair_back_rev: "i < n \<Longrightarrow> fair_back n (Suc k) ((i + k) mod n) = rev (fair_forward n (Suc k) i)"
proof (induction k)
  case (Suc k)
  have "((i + Suc k) mod n + n - 1) mod n = (i + k) mod n"
  proof -
    have "((i + Suc k) mod n + n - 1) mod n = ((i + Suc k) mod n + (n - 1)) mod n" using Suc.prems by simp
    also have "\<dots> = (i + Suc k + (n - 1)) mod n" by (simp only: mod_add_left_eq)
    also have "\<dots> = (i + k + n) mod n" using Suc.prems by simp
    finally show ?thesis by simp
  qed
  then have "fair_back n (Suc (Suc k)) ((i + Suc k) mod n) = (i + Suc k) mod n # fair_back n (Suc k) ((i + k) mod n)"
    by simp
  then show ?case using Suc fair_forward_snoc [OF Suc.prems, of "Suc k"] by simp
qed simp

subsection \<open>What a selection returns\<close>

lemma enable_guards_found:
  "results (\<lambda>(found, e). \<forall>j. found = Some j \<longrightarrow> k \<le> j \<and> j < k + length is) (enable_guards cpu p gs is k e c)"
proof (induction "is" arbitrary: k e c)
  case (Cons i "is")
  have "results (\<lambda>(found, e). \<forall>j. found = Some j \<longrightarrow> k \<le> j \<and> j < k + length (i # is)) (enable_guards cpu p gs is (k + 1) e c)" for e c
    using Cons.IH [of "k + 1" e c] by (rule results_mono) auto
  then show ?case by (auto intro!: results_bind [OF results_any])
qed simp

lemma disable_guards_selects: "results (\<lambda>s. s = sel \<or> s \<in> int ` set is) (disable_guards cpu p gs is sel c)"
proof (induction "is" arbitrary: sel c)
  case (Cons i "is")
  have "results (\<lambda>s. s = sel \<or> s \<in> int ` set (i # is)) (disable_guards cpu p gs is (if r then int i else sel) c)" for r c
    using Cons.IH [of "if r then int i else sel" c] by (rule results_mono) (auto split: if_splits)
  then show ?case by (auto intro!: results_bind [OF results_any])
qed simp

lemma unat_next_favorite:
  assumes "-1 \<le> s" and "s < int (unat n)"
  shows "unat (next_favorite s n) = (if s + 1 = int (unat n) then 0 else nat (s + 1))"
proof -
  let ?k = "nat (s + 1)"
  have k: "word_of_int (s + 1) = (of_nat ?k :: uint16)" using assms by (simp add: word_of_int_nat)
  have l: "?k \<le> unat n" using assms(2) by (simp only: nat_le_iff)
  have "unat (of_nat ?k :: uint16) = ?k"
    using l unsigned_less [of n, where 'a = nat] by (simp add: unat_of_nat)
  note u = this
  have e: "s + 1 = int (unat n) \<longleftrightarrow> ?k = unat n" using assms by linarith
  show ?thesis
  proof (cases "?k = unat n")
    case True
    then have "of_nat ?k = n" by simp
    then show ?thesis unfolding e next_favorite_def k Let_def using True by simp
  next
    case False
    then have "\<not> n \<le> of_nat ?k" using u l by (simp add: word_le_nat_alt)
    then show ?thesis using False u unfolding e next_favorite_def k Let_def by simp
  qed
qed

definition selection_ok :: "alternation \<Rightarrow> int \<times> alternation \<Rightarrow> bool" where
  "selection_ok alt r \<longleftrightarrow> (case r of (s, alt') \<Rightarrow>
     - 1 \<le> s \<and> s < int (unat (nrGuards alt)) \<and> alt' = alt\<lparr>favorite := favorite alt'\<rparr> \<and>
     unat (favorite alt') = (if s + 1 = int (unat (nrGuards alt)) then 0 else nat (s + 1)))"

lemma alt_end_ok:
  assumes "set is \<subseteq> {..< unat (nrGuards alt)}"
  shows "results (selection_ok alt) (alt_end cpu p alt is c)"
  unfolding alt_end_def
proof (rule results_bind [OF disable_guards_selects])
  fix s c assume "s = -1 \<or> s \<in> int ` set is"
  moreover have "- 1 < int (unat (nrGuards alt))" by linarith
  ultimately have "-1 \<le> s" "s < int (unat (nrGuards alt))" using assms by (auto simp del: of_nat_unat)
  then show "results (selection_ok alt)
      (Done (s, alt\<lparr>favorite := next_favorite s (nrGuards alt)\<rparr>) (put_sched (altFinish p) c))"
    using unat_next_favorite [of s "nrGuards alt"] by (simp add: selection_ok_def del: of_nat_unat)
qed

lemma priSelect_results: "results (selection_ok alt) (priSelect cpu alt c)"
  unfolding priSelect_def Let_def
proof (rule results_bind [OF results_any], rule results_bind [OF enable_guards_found [where k = 0]], clarify)
  fix p c' found e c
  let ?n = "unat (nrGuards alt)"
  assume f: "\<forall>j. found = Some j \<longrightarrow> 0 \<le> j \<and> j < 0 + length [0 ..< ?n]"
  show "results (selection_ok alt) (run_bind (await_guard cpu p found e c)
      (\<lambda>_. alt_end cpu p alt (rev [0 ..< case found of None \<Rightarrow> ?n | Some k \<Rightarrow> k + 1])))"
    using f by (intro results_bind [OF results_any] alt_end_ok) (auto split: option.splits)
qed

lemma fairSelect_results:
  assumes "favorite alt < nrGuards alt"
  shows "results (selection_ok alt) (fairSelect cpu alt c)"
  unfolding fairSelect_def Let_def
proof (rule results_bind [OF results_any], rule results_bind [OF enable_guards_found [where k = 0]], clarify)
  fix p c' found e c
  let ?n = "unat (nrGuards alt)" and ?i = "unat (favorite alt)"
  let ?is = "fair_forward ?n ?n ?i"
  assume f: "\<forall>j. found = Some j \<longrightarrow> 0 \<le> j \<and> j < 0 + length ?is"
  have i: "?i < ?n" using assms by (simp add: word_less_nat_alt)
  have m: "((last ?is + 1) mod ?n + ?n - 1) mod ?n < ?n" using i by simp
  have k: "?is ! k < ?n" if "found = Some k" for k
    using f that fair_forward_nth [OF i, of k ?n] i by simp
  show "results (selection_ok alt) (case found of
      None \<Rightarrow> if ?n = 0 then Fail DivByZero
        else run_bind (await_guard cpu p found e c)
          (\<lambda>_. alt_end cpu p alt (fair_back ?n ?n (((last ?is + 1) mod ?n + ?n - 1) mod ?n)))
    | Some k \<Rightarrow> alt_end cpu p alt (fair_back ?n (k + 1) (?is ! k)) c)"
  proof (cases found)
    case None
    then show ?thesis
      using alt_end_ok [OF set_fair(2) [OF m]] i by (auto intro!: results_bind [OF results_any])
  next
    case (Some j)
    show ?thesis unfolding Some option.case by (rule alt_end_ok [OF set_fair(2) [OF k [OF Some]]])
  qed
qed

text \<open>
  C26. Whatever happens while an alternation waits, and however often it waits, a selection that
  returns gives the index of a guard or minus one, changes only the favorite of the alternation,
  and sets that to the index after the selected one, cyclically.
\<close>

theorem selection_in_range:
  "results (selection_ok alt) (priSelect cpu alt c) \<and>
   (favorite alt < nrGuards alt \<longrightarrow> results (selection_ok alt) (fairSelect cpu alt c))"
  using priSelect_results fairSelect_results by blast

theorem selection_in_range_witness:
  "results (selection_ok (init_alt (\<lambda>_. Guard_skip) 2)) (fairSelect 0 (init_alt (\<lambda>_. Guard_skip) 2) sample_cxp)"
  using selection_in_range [of "init_alt (\<lambda>_. Guard_skip) 2" 0 sample_cxp] by (simp add: init_alt_def)

subsection \<open>The two selections agree\<close>

lemma fair_is_pri:
  assumes "favorite alt = 0" and "nrGuards alt \<noteq> 0"
  shows "fairSelect cpu alt c = priSelect cpu alt c"
proof -
  let ?n = "unat (nrGuards alt)"
  have n: "0 < ?n" using assms(2) by (simp add: unat_gt_0)
  have fwd: "fair_forward ?n ?n (unat (favorite alt)) = [0 ..< ?n]"
    using fair_forward_asc [of 0 ?n ?n] assms(1) by simp
  have fb: "fair_back ?n (Suc k) k = rev [0 ..< Suc k]" if "k < ?n" for k
    using fair_back_desc [of "Suc k" k ?n] that by simp
  have last: "((last [0 ..< ?n] + 1) mod ?n + ?n - 1) mod ?n = ?n - 1" using n by simp
  have all: "fair_back ?n ?n (?n - 1) = rev [0 ..< ?n]" using fair_back_desc [of ?n "?n - 1" ?n] n by simp
  show ?thesis
    unfolding fairSelect_def priSelect_def Let_def fwd last all
    by (rule run_bind_cong_results [OF results_any], rule run_bind_cong_results [OF enable_guards_found [where k = 0]])
      (use n in \<open>auto simp: fb await_guard_def simp del: fair_back.simps split: option.splits\<close>)
qed

text \<open>
  C27. With the favorite at the first guard, as \<^verbatim>\<open>init_alt\<close> sets it, the fair selection is the
  prioritized one, in every state and whatever happens while it waits.
\<close>

theorem fair_select_starts_as_pri:
  assumes "0 < n" and "n < 2 ^ 16"
  shows "fairSelect cpu (init_alt gs n) c = priSelect cpu (init_alt gs n) c"
proof -
  have "(word_of_int n :: uint16) \<noteq> 0"
    using assms by (simp add: word_of_int_eq_0_iff zdvd_not_zless)
  then show ?thesis by (intro fair_is_pri) (simp_all add: init_alt_def)
qed

theorem fair_select_starts_as_pri_witness:
  "fairSelect 0 (init_alt (\<lambda>_. Guard_skip) 2) sample_cxp = priSelect 0 (init_alt (\<lambda>_. Guard_skip) 2) sample_cxp"
  by (rule fair_select_starts_as_pri) simp_all

subsection \<open>The earliest timeout\<close>

text \<open>
  The bound that the earliest timeout starts from is meant to be the last time there is, but as
  a signed time it is minus one: no timer guard of a time that is not before it ever lowers it, so
  the timeout between the loops is never set for one.
\<close>

theorem earliest_never_set:
  assumes "\<forall>i \<in> set is. \<forall>t. gs i = Guard_timer t \<longrightarrow> - 1 \<le> sint t"
  shows "results (\<lambda>(found, earliest). earliest = NO_TIME) (enable_guards cpu p gs is k NO_TIME c)"
  using assms
proof (induction "is" arbitrary: k c)
  case (Cons i "is")
  have m: "sint NO_TIME = - 1" by (simp add: NO_TIME_def MAX_TIME_def)
  have "results (\<lambda>(ready, e). e = NO_TIME) (enable_guard cpu p (gs i) NO_TIME c)"
  proof (cases "gs i")
    case (Guard_timer t)
    then have "\<not> time_lt t NO_TIME" using Cons.prems m by (simp add: time_lt_def)
    then show ?thesis using Guard_timer by (auto simp: enable_guard_def intro!: results_bind [OF results_any])
  qed (auto simp: enable_guard_def intro!: results_bind [OF results_any])
  then show ?case using Cons by (auto intro!: results_bind)
qed simp

theorem earliest_never_set_witness:
  "results (\<lambda>(found, earliest). earliest = NO_TIME) (enable_guards 0 0x300 (\<lambda>_. Guard_timer 5) [0, 1] 0 NO_TIME sample_cxp)"
  by (rule earliest_never_set) simp

end
