(* ===== verification/Alt_Ready.thy ===== *)
theory Alt_Ready
  imports Alt_Correct
begin

text \<open>
  Alternations over channels: the announcements, the selection of a guard that is ready at once,
  the wait for a partner, the partner that makes the alternation ready, and the selection after it.
  Timer guards are left out here; without them the two loops of a selection do not pause as long as
  the channels are not locked.
\<close>

subsection \<open>Announcing and taking back\<close>

definition ready_guard :: "addr \<Rightarrow> (addr \<Rightarrow> channel) \<Rightarrow> guard \<Rightarrow> bool" where
  "ready_guard p h g = (case g of
     Guard_chan ch \<Rightarrow> waiting (h ch) \<noteq> NULL \<and> waiting (h ch) \<noteq> p
   | Guard_skip \<Rightarrow> True
   | Guard_timer time \<Rightarrow> False
   | Guard_interrupt i \<Rightarrow> False)"

text \<open>No timers, and no lock of a channel held.\<close>

definition plain :: "(nat \<Rightarrow> guard) \<Rightarrow> nat set \<Rightarrow> cxp \<Rightarrow> bool" where
  "plain gs I c \<longleftrightarrow> (\<forall>i \<in> I. case gs i of
     Guard_chan ch \<Rightarrow> \<not> claimed c (Mutex_chan ch) | Guard_skip \<Rightarrow> True
   | Guard_timer time \<Rightarrow> False | Guard_interrupt i \<Rightarrow> True)"

definition chans_of :: "(nat \<Rightarrow> guard) \<Rightarrow> nat set \<Rightarrow> addr set" where
  "chans_of gs I = {ch. \<exists>i \<in> I. gs i = Guard_chan ch}"

definition announced :: "addr \<Rightarrow> addr set \<Rightarrow> (addr \<Rightarrow> channel) \<Rightarrow> addr \<Rightarrow> channel" where
  "announced p C h = (\<lambda>ch. if ch \<in> C \<and> waiting (h ch) = NULL then \<lparr>waiting = p, io_ptr = NULL\<rparr> else h ch)"

definition withdrawn :: "addr \<Rightarrow> addr set \<Rightarrow> (addr \<Rightarrow> channel) \<Rightarrow> addr \<Rightarrow> channel" where
  "withdrawn p C h = (\<lambda>ch. if ch \<in> C \<and> (waiting (h ch) = NULL \<or> waiting (h ch) = p)
     then (h ch)\<lparr>waiting := NULL\<rparr> else h ch)"

lemma chans_of_simps [simp]:
  "chans_of gs {} = {}" "chans_of gs (insert i I) = (case gs i of Guard_chan ch \<Rightarrow> insert ch (chans_of gs I) | _ \<Rightarrow> chans_of gs I)"
  by (auto simp: chans_of_def split: guard.splits)

lemma announced_empty [simp]: "announced p {} h = h" and withdrawn_empty [simp]: "withdrawn p {} h = h"
  by (simp_all add: announced_def withdrawn_def)

lemma announced_twice: "announced p C (announced p D h) = announced p (C \<union> D) h"
  by (auto simp: announced_def)

lemma withdrawn_twice: "withdrawn p C (withdrawn p D h) = withdrawn p (C \<union> D) h"
  by (auto simp: withdrawn_def)

lemma ready_announced [simp]: "ready_guard p (announced p C h) g = ready_guard p h g"
  by (auto simp: ready_guard_def announced_def split: guard.splits)

lemma ready_withdrawn [simp]: "ready_guard p (withdrawn p C h) g = ready_guard p h g"
  by (auto simp: ready_guard_def withdrawn_def split: guard.splits)

lemma plain_chans [simp]: "plain gs I (c\<lparr>chans := h\<rparr>) = plain gs I c"
  by (simp add: plain_def cong: guard.case_cong)

lemma plain_sch [simp]: "plain gs I (c\<lparr>sch := s\<rparr>) = plain gs I c" "plain gs I (put_sched f c) = plain gs I c"
  by (simp_all add: plain_def put_sched_def cong: guard.case_cong)

lemma enable_guard_plain:
  assumes "plain gs {i} c"
  shows "enable_guard cpu p (gs i) e c = Done (ready_guard p (chans c) (gs i), e)
    (if ready_guard p (chans c) (gs i) then c else c\<lparr>chans := announced p (chans_of gs {i}) (chans c)\<rparr>)"
proof (cases "gs i")
  case (Guard_chan ch)
  then have free: "\<not> claimed c (Mutex_chan ch)" using assms by (simp add: plain_def)
  then have id: "(claimed c)(Mutex_chan ch := False) = claimed c" by (simp add: fun_upd_idem)
  show ?thesis
  proof (cases "waiting (chans c ch) = NULL")
    case True
    have "announced p {ch} (chans c) = (chans c)(ch := \<lparr>waiting = p, io_ptr = NULL\<rparr>)"
      using True by (auto simp: announced_def)
    then show ?thesis using True free id Guard_chan
      by (simp add: enable_guard_def enable_channel_def release_mutex_def set_chan_def ready_guard_def)
  next
    case False
    then have "announced p {ch} (chans c) = chans c" by (auto simp: announced_def)
    then show ?thesis using False free id Guard_chan
      by (simp add: enable_guard_def enable_channel_def release_mutex_def ready_guard_def)
  qed
qed (use assms in \<open>simp_all add: enable_guard_def ready_guard_def plain_def\<close>)

lemma disable_guard_plain:
  assumes "plain gs {i} c"
  shows "disable_guard cpu p (gs i) c = Done (ready_guard p (chans c) (gs i))
    (c\<lparr>chans := withdrawn p (chans_of gs {i}) (chans c)\<rparr>)"
proof (cases "gs i")
  case (Guard_chan ch)
  then have free: "\<not> claimed c (Mutex_chan ch)" using assms by (simp add: plain_def)
  then have id: "(claimed c)(Mutex_chan ch := False) = claimed c" by (simp add: fun_upd_idem)
  show ?thesis
  proof (cases "ready_guard p (chans c) (gs i)")
    case True
    then have "withdrawn p {ch} (chans c) = chans c" using Guard_chan by (auto simp: withdrawn_def ready_guard_def)
    then show ?thesis using True free id Guard_chan
      by (simp add: disable_guard_def disable_channel_def release_mutex_def ready_guard_def)
  next
    case False
    then have "withdrawn p {ch} (chans c) = (chans c)(ch := (chans c ch)\<lparr>waiting := NULL\<rparr>)"
      using Guard_chan by (auto simp: withdrawn_def ready_guard_def)
    then show ?thesis using False free id Guard_chan
      by (auto simp: disable_guard_def disable_channel_def release_mutex_def set_chan_def ready_guard_def)
  qed
qed (use assms in \<open>simp_all add: disable_guard_def ready_guard_def plain_def\<close>)

lemma chans_of_insert: "chans_of gs (insert i I) = chans_of gs I \<union> chans_of gs {i}"
  by (auto simp: chans_of_def)

lemma plain_insert: "plain gs (insert i I) c \<longleftrightarrow> plain gs {i} c \<and> plain gs I c"
  by (auto simp: plain_def)

lemma enable_none:
  assumes "plain gs (set is) c" and "\<forall>i \<in> set is. \<not> ready_guard p (chans c) (gs i)"
  shows "enable_guards cpu p gs is k e c =
    Done (None, e) (c\<lparr>chans := announced p (chans_of gs (set is)) (chans c)\<rparr>)"
  using assms
proof (induction "is" arbitrary: k c)
  case (Cons i "is")
  let ?c = "c\<lparr>chans := announced p (chans_of gs {i}) (chans c)\<rparr>"
  have "enable_guard cpu p (gs i) e c = Done (False, e) ?c"
    using enable_guard_plain [of gs i c cpu p e] Cons.prems plain_insert [of gs i "set is"] by simp
  moreover have "enable_guards cpu p gs is (k + 1) e ?c =
      Done (None, e) (?c\<lparr>chans := announced p (chans_of gs (set is)) (chans ?c)\<rparr>)"
    using Cons.prems plain_insert [of gs i "set is"] by (intro Cons.IH) simp_all
  ultimately show ?case
    by (simp add: announced_twice chans_of_insert [symmetric] del: chans_of_simps)
qed simp

lemma enable_first:
  assumes "plain gs (set (us @ [i])) c" and "\<forall>j \<in> set us. \<not> ready_guard p (chans c) (gs j)"
    and "ready_guard p (chans c) (gs i)"
  shows "enable_guards cpu p gs (us @ i # vs) k e c =
    Done (Some (k + length us), e) (c\<lparr>chans := announced p (chans_of gs (set us)) (chans c)\<rparr>)"
  using assms
proof (induction us arbitrary: k c)
  case Nil
  then show ?case using enable_guard_plain [of gs i c cpu p e] by simp
next
  case (Cons j us)
  let ?c = "c\<lparr>chans := announced p (chans_of gs {j}) (chans c)\<rparr>"
  have "enable_guard cpu p (gs j) e c = Done (False, e) ?c"
    using enable_guard_plain [of gs j c cpu p e] Cons.prems plain_insert [of gs j "set (us @ [i])"] by simp
  moreover have "enable_guards cpu p gs (us @ i # vs) (k + 1) e ?c =
      Done (Some (k + 1 + length us), e) (?c\<lparr>chans := announced p (chans_of gs (set us)) (chans ?c)\<rparr>)"
    using Cons.prems plain_insert [of gs j "set (us @ [i])"] by (intro Cons.IH) simp_all
  ultimately show ?case
    by (simp add: announced_twice chans_of_insert [symmetric] del: chans_of_simps)
qed

lemma disable_all:
  assumes "plain gs (set is) c"
  shows "disable_guards cpu p gs is sel c =
    Done (last (sel # map int (filter (\<lambda>i. ready_guard p (chans c) (gs i)) is)))
      (c\<lparr>chans := withdrawn p (chans_of gs (set is)) (chans c)\<rparr>)"
  using assms
proof (induction "is" arbitrary: sel c)
  case (Cons i "is")
  let ?c = "c\<lparr>chans := withdrawn p (chans_of gs {i}) (chans c)\<rparr>" and ?r = "ready_guard p (chans c) (gs i)"
  have "disable_guard cpu p (gs i) c = Done ?r ?c"
    using disable_guard_plain [of gs i c cpu p] Cons.prems plain_insert [of gs i "set is"] by simp
  moreover have "disable_guards cpu p gs is (if ?r then int i else sel) ?c =
      Done (last ((if ?r then int i else sel) # map int (filter (\<lambda>i. ready_guard p (chans ?c) (gs i)) is)))
        (?c\<lparr>chans := withdrawn p (chans_of gs (set is)) (chans ?c)\<rparr>)"
    using Cons.prems plain_insert [of gs i "set is"] by (intro Cons.IH) simp
  ultimately show ?case
    by (auto simp: withdrawn_twice chans_of_insert [symmetric] simp del: chans_of_simps)
qed simp

text \<open>The end of a selection whose only ready guard among those visited is \<open>i\<close>, or the last such.\<close>

lemma alt_end_plain:
  assumes "plain (guards alt) (set is) c" and "filter (\<lambda>i. ready_guard p (chans c) (guards alt i)) is = rs @ [i]"
  shows "alt_end cpu p alt is c = Done (int i, alt\<lparr>favorite := next_favorite (int i) (nrGuards alt)\<rparr>)
    (put_sched (altFinish p) (c\<lparr>chans := withdrawn p (chans_of (guards alt) (set is)) (chans c)\<rparr>))"
  using disable_all [OF assms(1), of cpu p "-1"] assms(2) by (simp add: alt_end_def)

subsection \<open>A guard that is ready at once\<close>

lemma set_alt_state_twice [simp]: "set_alt_state p a (set_alt_state p b s) = set_alt_state p a s"
  by (simp add: set_alt_state_def)

text \<open>The channels after all announcements have been taken back.\<close>

definition same_partners :: "(addr \<Rightarrow> channel) \<Rightarrow> (addr \<Rightarrow> channel) \<Rightarrow> bool" where
  "same_partners h h' \<longleftrightarrow> (\<forall>ch. waiting (h' ch) = waiting (h ch) \<and> (waiting (h ch) \<noteq> NULL \<longrightarrow> h' ch = h ch))"

lemma withdrawn_announced:
  assumes "p \<noteq> NULL" and "C \<subseteq> D" and "\<forall>ch \<in> D. waiting (h ch) \<noteq> p"
  shows "same_partners h (withdrawn p D (announced p C h))"
  using assms by (auto simp: same_partners_def withdrawn_def announced_def)

lemma chans_of_mono: "I \<subseteq> J \<Longrightarrow> chans_of gs I \<subseteq> chans_of gs J"
  by (auto simp: chans_of_def)

lemma plain_mono: "plain gs J c \<Longrightarrow> I \<subseteq> J \<Longrightarrow> plain gs I c"
  by (auto simp: plain_def)

text \<open>One visit of the guards \<open>us\<close>, which are not ready, and of \<open>i\<close>, which is.\<close>

lemma select_at_once:
  assumes pl: "plain (guards alt) J c" and J: "insert i (set us) \<subseteq> J" and p: "p \<noteq> NULL"
    and clean: "\<forall>ch \<in> chans_of (guards alt) J. waiting (chans c ch) \<noteq> p"
    and us: "\<forall>j \<in> set us. \<not> ready_guard p (chans c) (guards alt j)" and i: "ready_guard p (chans c) (guards alt i)"
  shows "\<exists>c1 c'. enable_guards cpu p (guards alt) (us @ i # vs) 0 e c = Done (Some (length us), e) c1 \<and>
    alt_end cpu p alt (rev (us @ [i])) c1 =
      Done (int i, alt\<lparr>favorite := next_favorite (int i) (nrGuards alt)\<rparr>) c' \<and>
    same_partners (chans c) (chans c') \<and> c' = put_sched (set_alt_state p ALT_NONE) (c\<lparr>chans := chans c'\<rparr>)"
proof -
  let ?g = "guards alt"
  let ?h = "announced p (chans_of ?g (set us)) (chans c)"
  let ?h' = "withdrawn p (chans_of ?g (set (us @ [i]))) ?h"
  have pl1: "plain ?g (set (us @ [i])) c" using plain_mono [OF pl] J by simp
  have "filter (\<lambda>j. ready_guard p (chans c) (?g j)) (rev (us @ [i])) = [i]"
    using us i by (simp add: filter_empty_conv)
  then have f: "filter (\<lambda>j. ready_guard p (chans (c\<lparr>chans := ?h\<rparr>)) (?g j)) (rev (us @ [i])) = [] @ [i]" by simp
  have "alt_end cpu p alt (rev (us @ [i])) (c\<lparr>chans := ?h\<rparr>) =
      Done (int i, alt\<lparr>favorite := next_favorite (int i) (nrGuards alt)\<rparr>)
        (put_sched (altFinish p) (c\<lparr>chans := ?h'\<rparr>))"
    using alt_end_plain [OF _ f, of cpu] pl1 by simp
  moreover have "same_partners (chans c) ?h'"
    using J clean chans_of_mono [of "set us" "set (us @ [i])" ?g] chans_of_mono [of "set (us @ [i])" J ?g]
    by (intro withdrawn_announced [OF p]) auto
  ultimately show ?thesis
    using enable_first [OF pl1 us i, of cpu vs 0 e]
    by - (rule exI [of _ "c\<lparr>chans := ?h\<rparr>"], rule exI [of _ "put_sched (altFinish p) (c\<lparr>chans := ?h'\<rparr>)"],
      simp add: put_sched_def altFinish_def fun_eq_iff)
qed

text \<open>
  C24. A prioritized selection over channels, skips and interrupts, with no channel locked and
  the process announced nowhere, returns the first ready guard without waiting; it leaves every
  waiting process and its buffer where it was, and nothing of itself behind.
\<close>

theorem pri_select_first_ready:
  assumes "current (sch c) cpu = p" and "p \<noteq> NULL" and "plain (guards alt) {..< unat (nrGuards alt)} c"
    and "\<forall>ch \<in> chans_of (guards alt) {..< unat (nrGuards alt)}. waiting (chans c ch) \<noteq> p"
    and "i < unat (nrGuards alt)" and "ready_guard p (chans c) (guards alt i)"
    and "\<forall>j < i. \<not> ready_guard p (chans c) (guards alt j)"
  shows "\<exists>c'. priSelect cpu alt c = Done (int i, alt\<lparr>favorite := next_favorite (int i) (nrGuards alt)\<rparr>) c' \<and>
    same_partners (chans c) (chans c') \<and> c' = put_sched (set_alt_state p ALT_NONE) (c\<lparr>chans := chans c'\<rparr>)"
proof -
  let ?c = "put_sched (altEnabling p) c" and ?n = "unat (nrGuards alt)"
  have c: "chans ?c = chans c" by (simp add: put_sched_def)
  have split: "[0 ..< ?n] = [0 ..< i] @ i # [i + 1 ..< ?n]"
    using assms(5) by (metis Suc_eq_plus1 le_add1 add_0 less_imp_le_nat upt_add_eq_append upt_conv_Cons le_add_diff_inverse)
  have sub: "insert i (set [0 ..< i]) \<subseteq> {..< ?n}" using assms(5) by auto
  obtain c1 c' where r: "enable_guards cpu p (guards alt) ([0 ..< i] @ i # [i + 1 ..< ?n]) 0 NO_TIME ?c =
      Done (Some (length [0 ..< i]), NO_TIME) c1"
    "alt_end cpu p alt (rev ([0 ..< i] @ [i])) c1 =
      Done (int i, alt\<lparr>favorite := next_favorite (int i) (nrGuards alt)\<rparr>) c'"
    "same_partners (chans ?c) (chans c')" "c' = put_sched (set_alt_state p ALT_NONE) (?c\<lparr>chans := chans c'\<rparr>)"
    using select_at_once [where c = ?c and alt = alt and us = "[0 ..< i]" and i = i and vs = "[i + 1 ..< ?n]" and
        e = NO_TIME and cpu = cpu, OF _ sub assms(2)] assms(3,4,6,7) c by auto
  have "priSelect cpu alt c = Done (int i, alt\<lparr>favorite := next_favorite (int i) (nrGuards alt)\<rparr>) c'"
    using r(1,2) assms(1,2) by (simp add: priSelect_def Let_def split await_guard_def)
  then show ?thesis using r(3,4) c by (auto simp: put_sched_def altEnabling_def)
qed

text \<open>
  C25. A fair selection under the same conditions returns the first ready guard at or after the
  favorite, cyclically.
\<close>

theorem fair_select_next_ready:
  assumes "current (sch c) cpu = p" and "p \<noteq> NULL" and "plain (guards alt) {..< unat (nrGuards alt)} c"
    and "\<forall>ch \<in> chans_of (guards alt) {..< unat (nrGuards alt)}. waiting (chans c ch) \<noteq> p"
    and fav: "favorite alt < nrGuards alt" and k: "k < unat (nrGuards alt)"
  defines "visit \<equiv> \<lambda>j. (unat (favorite alt) + j) mod unat (nrGuards alt)"
  assumes "ready_guard p (chans c) (guards alt (visit k))"
    and "\<forall>j < k. \<not> ready_guard p (chans c) (guards alt (visit j))"
  shows "\<exists>c'. fairSelect cpu alt c =
      Done (int (visit k), alt\<lparr>favorite := next_favorite (int (visit k)) (nrGuards alt)\<rparr>) c' \<and>
    same_partners (chans c) (chans c') \<and> c' = put_sched (set_alt_state p ALT_NONE) (c\<lparr>chans := chans c'\<rparr>)"
proof -
  let ?c = "put_sched (altEnabling p) c" and ?n = "unat (nrGuards alt)" and ?f = "unat (favorite alt)"
  let ?is = "fair_forward ?n ?n ?f"
  have c: "chans ?c = chans c" by (simp add: put_sched_def)
  have f: "?f < ?n" using fav by (simp add: word_less_nat_alt)
  have nth: "?is ! j = visit j" if "j < ?n" for j using fair_forward_nth [OF f that] by (simp add: visit_def)
  have split: "?is = take k ?is @ visit k # drop (k + 1) ?is"
    using id_take_nth_drop [of k ?is] k nth by simp
  have us: "\<forall>j \<in> set (take k ?is). \<not> ready_guard p (chans c) (guards alt j)"
    using assms(9) k nth by (auto simp: in_set_conv_nth)
  have sub: "insert (visit k) (set (take k ?is)) \<subseteq> {..< ?n}"
    using f k set_fair(1) [OF f, of ?n] set_take_subset [of k ?is] by (auto simp: visit_def)
  have fb: "fair_back ?n (k + 1) (visit k) = rev (take k ?is @ [visit k])"
  proof -
    have "take k ?is @ [visit k] = fair_forward ?n (Suc k) ?f"
      using k f nth fair_forward_nth [OF f] by (intro nth_equalityI) (auto simp: nth_append visit_def less_Suc_eq simp del: fair_forward.simps)
    then show ?thesis using fair_back_rev [OF f, of k] by (simp add: visit_def)
  qed
  obtain c1 c' where r: "enable_guards cpu p (guards alt) (take k ?is @ visit k # drop (k + 1) ?is) 0 NO_TIME ?c =
      Done (Some (length (take k ?is)), NO_TIME) c1"
    "alt_end cpu p alt (rev (take k ?is @ [visit k])) c1 =
      Done (int (visit k), alt\<lparr>favorite := next_favorite (int (visit k)) (nrGuards alt)\<rparr>) c'"
    "same_partners (chans ?c) (chans c')" "c' = put_sched (set_alt_state p ALT_NONE) (?c\<lparr>chans := chans c'\<rparr>)"
    using select_at_once [where c = ?c and alt = alt and us = "take k ?is" and i = "visit k" and vs = "drop (k + 1) ?is" and
        e = NO_TIME and cpu = cpu, OF _ sub assms(2)] assms(3,4,8) us c by auto
  have en: "enable_guards cpu p (guards alt) ?is 0 NO_TIME ?c = Done (Some k, NO_TIME) c1"
    using r(1) [folded split] k by simp
  have "fairSelect cpu alt c = Done (int (visit k), alt\<lparr>favorite := next_favorite (int (visit k)) (nrGuards alt)\<rparr>) c'"
    using r(2) [folded fb] assms(1,2) nth [OF k] by (simp add: fairSelect_def Let_def en del: fair_back.simps)
  then show ?thesis using r(3,4) c by (auto simp: put_sched_def altEnabling_def)
qed

text \<open>Two channels, a sender at the second.\<close>

definition sample_alt :: alternation where
  "sample_alt = init_alt (\<lambda>i. Guard_chan (if i = 0 then 0x2000 else 0x3000)) 2"

definition sample_partner :: cxp where
  "sample_partner = sample_cxp\<lparr>chans := (chans sample_cxp)(0x3000 := \<lparr>waiting = 0x400, io_ptr = 0x5000\<rparr>)\<rparr>"

lemma sample_alt_facts:
  "unat (nrGuards sample_alt) = 2" "favorite sample_alt = 0" "nrGuards sample_alt = 2"
  "guards sample_alt i = Guard_chan (if i = 0 then 0x2000 else 0x3000)"
  "plain (guards sample_alt) I sample_partner" "plain (guards sample_alt) I sample_cxp"
  "current (sch sample_partner) 0 = 0x300" "waiting (chans sample_partner ch) \<noteq> 0x300"
  "ready_guard 0x300 (chans sample_partner) (Guard_chan ch) \<longleftrightarrow> ch = 0x3000"
  by (auto simp: sample_alt_def init_alt_def plain_def sample_partner_def sample_cxp_def sample_sched_def ready_guard_def)

theorem pri_select_first_ready_witness:
  "\<exists>c'. priSelect 0 sample_alt sample_partner = Done (1, sample_alt\<lparr>favorite := 0\<rparr>) c'"
proof -
  have "next_favorite 1 2 = 0" by (simp add: next_favorite_def)
  then show ?thesis
    using pri_select_first_ready [where c = sample_partner and cpu = 0 and alt = sample_alt and i = 1]
    by (auto simp: sample_alt_facts)
qed

theorem fair_select_next_ready_witness:
  "\<exists>c'. fairSelect 0 sample_alt sample_partner = Done (1, sample_alt\<lparr>favorite := 0\<rparr>) c'"
proof -
  have "next_favorite 1 2 = 0" by (simp add: next_favorite_def)
  then show ?thesis
    using fair_select_next_ready [where c = sample_partner and cpu = 0 and alt = sample_alt and k = 1]
    by (auto simp: sample_alt_facts)
qed

subsection \<open>Waiting for a partner\<close>

lemma switching_unconditional:
  assumes inv: "sched_inv (sch c) Q" and cpu: "cpu < NPUN" and m: "merged (sch c) cpu (Q cpu) = x # xs"
  shows "\<exists>s'. switching cpu (relinquish_unconditional cpu) c = Paused (c\<lparr>sch := s'\<rparr>) (Done ()) \<and>
    switched_to cpu x (sch c) s' \<and> sched_inv s' (Q(cpu := xs)) \<and> top_running s' (Q(cpu := xs)) cpu \<and>
    idle_on s' (Q(cpu := xs)) cpu (current (sch c) cpu) \<and> in_ipq s' cpu = []"
proof -
  note D = sched_invD [OF inv cpu] and M = merged_props [OF inv cpu]
  let ?s0 = "(sch c)\<lparr>hw := disable cpu (hw (sch c))\<rparr>" and ?p = "current (sch c) cpu"
  have inv0: "sched_inv ?s0 Q" and m0: "merged ?s0 cpu (Q cpu) = x # xs" using inv m by simp_all
  obtain s' where s': "hand_over In_relinquish_unconditional cpu ?s0 = Inr s'" "switched_to cpu x ?s0 s'"
    "sched_inv s' (Q(cpu := xs))" "top_running s' (Q(cpu := xs)) cpu" "in_ipq s' cpu = []"
    using give_up [where site = In_relinquish_unconditional, OF inv0 cpu m0] by blast
  have run: "relinquish_unconditional cpu (sch c) = Inr s'"
    using s'(1) D(2,3) by (simp add: relinquish_unconditional_def get_current_eq hand_over_def on_hw_eq Let_def)
  have out: "?p \<notin> set (x # xs)" using M(3) m by simp
  have cur: "current s' cpu = x" using s'(2) by (simp add: switched_to_def)
  then have ne: "current s' cpu \<noteq> ?p" using out by auto
  have "?p \<notin> members s' (Q(cpu := xs)) cpu" using cur out s'(5) by (simp add: members_def)
  moreover have "p_stackptr (procs (sch c) ?p) = proc_stack ?p" using D(6) by (simp add: members_def)
  ultimately have "idle_on s' (Q(cpu := xs)) cpu ?p"
    using s'(2) D(2,3) by (simp add: idle_on_def switched_to_def)
  moreover have "switching cpu (relinquish_unconditional cpu) c = Paused (c\<lparr>sch := s'\<rparr>) (Done ())"
    using run ne by (simp add: switching_simps)
  ultimately show ?thesis using s' by auto
qed

text \<open>The rest of a prioritized selection that has waited.\<close>

lemma alt_end_first:
  assumes pl: "plain (guards alt) {..< n} c" and i: "i < n" "ready_guard p (chans c) (guards alt i)"
    and no: "\<forall>j < i. \<not> ready_guard p (chans c) (guards alt j)"
  shows "alt_end cpu p alt (rev [0 ..< n]) c = Done (int i, alt\<lparr>favorite := next_favorite (int i) (nrGuards alt)\<rparr>)
    (put_sched (set_alt_state p ALT_NONE) (c\<lparr>chans := withdrawn p (chans_of (guards alt) {..< n}) (chans c)\<rparr>))"
proof -
  let ?r = "\<lambda>j. ready_guard p (chans c) (guards alt j)"
  have "[0 ..< n] = [0 ..< i] @ i # [i + 1 ..< n]"
    using i(1) by (metis Suc_eq_plus1 le_add1 add_0 less_imp_le_nat upt_add_eq_append upt_conv_Cons le_add_diff_inverse)
  then have "filter ?r (rev [0 ..< n]) = filter ?r (rev [i + 1 ..< n]) @ [i]"
    using i(2) no by (simp add: filter_empty_conv)
  moreover have "plain (guards alt) (set (rev [0 ..< n])) c" using pl by (simp add: atLeast0LessThan)
  ultimately show ?thesis
    using alt_end_plain [of alt "rev [0 ..< n]" c p _ i cpu] by (simp add: altFinish_def [abs_def] atLeast0LessThan)
qed

lemma pri_select_waits_ok:
  assumes inv: "sched_inv (sch c) Q" and cpu: "cpu < NPUN" and m: "merged (sch c) cpu (Q cpu) = x # xs"
    and pl: "plain (guards alt) {..< unat (nrGuards alt)} c"
  defines "p \<equiv> current (sch c) cpu" and "C \<equiv> chans_of (guards alt) {..< unat (nrGuards alt)}"
  assumes no: "\<forall>i < unat (nrGuards alt). \<not> ready_guard p (chans c) (guards alt i)"
  shows "\<exists>c1 k. priSelect cpu alt c = Paused c1 k \<and> chans c1 = announced p C (chans c) \<and>
    claimed c1 = claimed c \<and> heap c1 = heap c \<and> key_of (sch c1) = key_of (sch c) \<and>
    p_alt_state (proc_of c1 p) = ALT_WAITING \<and>
    current (sch c1) cpu = x \<and> sched_inv (sch c1) (Q(cpu := xs)) \<and> top_running (sch c1) (Q(cpu := xs)) cpu \<and>
    idle_on (sch c1) (Q(cpu := xs)) cpu p \<and> in_ipq (sch c1) cpu = [] \<and>
    (\<forall>c2 i. plain (guards alt) {..< unat (nrGuards alt)} c2 \<and> i < unat (nrGuards alt) \<and>
        ready_guard p (chans c2) (guards alt i) \<and> (\<forall>j < i. \<not> ready_guard p (chans c2) (guards alt j)) \<longrightarrow>
      (\<exists>c3. k c2 = Done (int i, alt\<lparr>favorite := next_favorite (int i) (nrGuards alt)\<rparr>) c3 \<and>
        chans c3 = withdrawn p C (chans c2) \<and> c3 = put_sched (set_alt_state p ALT_NONE) (c2\<lparr>chans := chans c3\<rparr>)))"
proof -
  let ?n = "unat (nrGuards alt)" and ?g = "guards alt"
  let ?c0 = "put_sched (altEnabling p) c"
  let ?c1 = "?c0\<lparr>chans := announced p C (chans c)\<rparr>"
  have c0: "chans ?c0 = chans c" by (simp add: put_sched_def)
  have "enable_guards cpu p ?g [0 ..< ?n] 0 NO_TIME ?c0 =
      Done (None, NO_TIME) (?c0\<lparr>chans := announced p (chans_of ?g (set [0 ..< ?n])) (chans ?c0)\<rparr>)"
    using pl no c0 by (intro enable_none) (simp_all add: atLeast0LessThan)
  then have en: "enable_guards cpu p ?g [0 ..< ?n] 0 NO_TIME ?c0 = Done (None, NO_TIME) ?c1"
    by (simp add: c0 C_def atLeast0LessThan)
  let ?s2 = "set_alt_state p ALT_WAITING (sch c)"
  let ?c2 = "?c1\<lparr>sch := ?s2\<rparr>"
  have "altShouldWait p (sch ?c1) = (True, ?s2)"
    by (simp add: altShouldWait_def cas_alt_def altEnabling_def put_sched_def)
  then have aw: "await_guard cpu p None NO_TIME ?c1 = switching cpu (relinquish_unconditional cpu) ?c2"
    by (simp add: await_guard_def alt_wait_def)
  have s2: "sched_inv (sch ?c2) Q" "merged (sch ?c2) cpu (Q cpu) = x # xs" "current (sch ?c2) cpu = p"
    using inv m by (simp_all add: p_def)
  obtain s' where s': "switching cpu (relinquish_unconditional cpu) ?c2 = Paused (?c2\<lparr>sch := s'\<rparr>) (Done ())"
    "switched_to cpu x (sch ?c2) s'" "sched_inv s' (Q(cpu := xs))" "top_running s' (Q(cpu := xs)) cpu"
    "idle_on s' (Q(cpu := xs)) cpu p" "in_ipq s' cpu = []"
    using switching_unconditional [OF s2(1) cpu s2(2)] s2(3) by auto
  let ?k = "\<lambda>c2. alt_end cpu p alt (rev [0 ..< ?n]) c2"
  have run: "priSelect cpu alt c = Paused (?c2\<lparr>sch := s'\<rparr>) ?k"
    using sched_invD(2) [OF inv cpu] by (simp add: priSelect_def Let_def p_def [symmetric] en aw s'(1))
  have cont: "\<exists>c3. ?k c2 = Done (int i, alt\<lparr>favorite := next_favorite (int i) (nrGuards alt)\<rparr>) c3 \<and>
        chans c3 = withdrawn p C (chans c2) \<and> c3 = put_sched (set_alt_state p ALT_NONE) (c2\<lparr>chans := chans c3\<rparr>)"
    if "plain ?g {..< ?n} c2" "i < ?n" "ready_guard p (chans c2) (?g i)" "\<forall>j < i. \<not> ready_guard p (chans c2) (?g j)" for c2 i
    using alt_end_first [OF that, of cpu] by (simp add: C_def put_sched_def)
  have w: "p_alt_state (procs s' p) = ALT_WAITING" "current s' cpu = x" "key_of s' = key_of (sch c)"
    using s'(2) by (simp_all add: switched_to_def key_of_def fun_eq_iff)
  show ?thesis
    by (rule exI [of _ "?c2\<lparr>sch := s'\<rparr>"], rule exI [of _ ?k], intro conjI run)
      (use s' w cont in \<open>simp_all add: proc_of_def put_sched_def\<close>)
qed

text \<open>
  A prioritized selection over channels and interrupts none of which is ready: the process
  is announced at every channel where nobody waits, in no queue, and in the state that tells
  its wakers to schedule it; the best ready process runs. When it runs again, in whatever state of
  the kernel, it returns the first guard that is ready then, is announced nowhere, and has left every
  other waiting process alone.
\<close>

theorem pri_select_waits:
  assumes inv: "sched_inv (sch c) Q" and cpu: "cpu < NPUN" and m: "merged (sch c) cpu (Q cpu) = x # xs"
    and pl: "plain (guards alt) {..< unat (nrGuards alt)} c"
  defines "p \<equiv> current (sch c) cpu" and "C \<equiv> chans_of (guards alt) {..< unat (nrGuards alt)}"
  assumes no: "\<forall>i < unat (nrGuards alt). \<not> ready_guard p (chans c) (guards alt i)"
  shows "\<exists>c1 k. priSelect cpu alt c = Paused c1 k \<and> chans c1 = announced p C (chans c) \<and>
    claimed c1 = claimed c \<and> heap c1 = heap c \<and> key_of (sch c1) = key_of (sch c) \<and>
    p_alt_state (proc_of c1 p) = ALT_WAITING \<and>
    current (sch c1) cpu = x \<and> sched_inv (sch c1) (Q(cpu := xs)) \<and> top_running (sch c1) (Q(cpu := xs)) cpu \<and>
    idle_on (sch c1) (Q(cpu := xs)) cpu p \<and> in_ipq (sch c1) cpu = [] \<and>
    (\<forall>c2 i. plain (guards alt) {..< unat (nrGuards alt)} c2 \<and> i < unat (nrGuards alt) \<and>
        ready_guard p (chans c2) (guards alt i) \<and> (\<forall>j < i. \<not> ready_guard p (chans c2) (guards alt j)) \<longrightarrow>
      (\<exists>c3. k c2 = Done (int i, alt\<lparr>favorite := next_favorite (int i) (nrGuards alt)\<rparr>) c3 \<and>
        chans c3 = withdrawn p C (chans c2) \<and> c3 = put_sched (set_alt_state p ALT_NONE) (c2\<lparr>chans := chans c3\<rparr>)))"
  unfolding p_def C_def by (rule pri_select_waits_ok [OF inv cpu m pl no [unfolded p_def]])

theorem pri_select_waits_witness:
  "\<exists>c1 k. priSelect 0 sample_alt sample_cxp = Paused c1 k \<and> current (sch c1) 0 = 0x400 \<and>
    p_alt_state (proc_of c1 0x300) = ALT_WAITING"
proof -
  have h: "sched_inv (sch sample_cxp) sample_queues" "(0 :: pun) < NPUN" "current (sch sample_cxp) 0 = 0x300"
    "merged (sch sample_cxp) 0 (sample_queues 0) = 0x400 # [0x500, 0x100]"
    using sample_sched_inv sample_merged by (simp_all add: sample_cxp_def NPUN_def) (simp add: sample_sched_def)
  have no: "\<forall>i < unat (nrGuards sample_alt). \<not> ready_guard 0x300 (chans sample_cxp) (guards sample_alt i)"
    by (simp add: sample_alt_facts ready_guard_def) (simp add: sample_cxp_def)
  show ?thesis
    using pri_select_waits [OF h(1,2,4), of sample_alt] no unfolding h(3) by (auto simp: sample_alt_facts(6))
qed

subsection \<open>The partner comes\<close>

lemma schedule_alting:
  assumes inv: "sched_inv (sch c) Q" and cpu: "cpu < NPUN" and x: "idle_on (sch c) Q cpu p"
    and top: "top_running (sch c) Q cpu" and st: "p_alt_state (proc_of c p) = ALT_WAITING"
  shows "\<exists>b s'. freeProcessMaybe cpu p c = (if b then Paused (c\<lparr>sch := s'\<rparr>) (Done ()) else Done () (c\<lparr>sch := s'\<rparr>)) \<and>
    (b \<longleftrightarrow> key_of (sch c) p < key_of (sch c) (current (sch c) cpu)) \<and>
    switched_to cpu (if b then p else current (sch c) cpu) (set_alt_state p ALT_READY (sch c)) s' \<and>
    in_ipq s' = in_ipq (sch c) \<and>
    sched_inv s' (Q(cpu := enq_list (sch c) (if b then current (sch c) cpu else p) (Q cpu))) \<and>
    top_running s' (Q(cpu := enq_list (sch c) (if b then current (sch c) cpu else p) (Q cpu))) cpu"
proof -
  let ?s = "set_alt_state p ALT_READY (sch c)" and ?q = "current (sch c) cpu"
  have i: "in_ipq ?s = in_ipq (sch c)" by (simp add: in_ipq_def set_alt_state_def fun_eq_iff)
  have inv': "sched_inv ?s Q" and x': "idle_on ?s Q cpu p" using inv x by simp_all
  obtain b s' where s': "schedule cpu p ?s = Inr s'" "b \<longleftrightarrow> key_of ?s p < key_of ?s (current ?s cpu)"
    "switched_to cpu (if b then p else current ?s cpu) ?s s'" "in_ipq s' = in_ipq ?s"
    "sched_inv s' (Q(cpu := enq_list ?s (if b then current ?s cpu else p) (Q cpu)))"
    using schedule_ok [OF inv' cpu x'] by blast
  have "p \<noteq> ?q" using x by (auto simp: idle_on_def members_def)
  then have cur: "current s' cpu = ?q \<longleftrightarrow> \<not> b" using s'(3) by (simp add: switched_to_def)
  have "freeProcessMaybe cpu p c = switching cpu (schedule cpu p) (c\<lparr>sch := ?s\<rparr>)"
    using st by (simp add: freeProcessMaybe_def cas_alt_def proc_of_def Let_def)
  also have "\<dots> = (if b then Paused (c\<lparr>sch := s'\<rparr>) (Done ()) else Done () (c\<lparr>sch := s'\<rparr>))"
    using s'(1) cur by (simp add: switching_def)
  finally have run: "freeProcessMaybe cpu p c = (if b then Paused (c\<lparr>sch := s'\<rparr>) (Done ()) else Done () (c\<lparr>sch := s'\<rparr>))" .
  have "top_running s' (Q(cpu := enq_list ?s (if b then ?q else p) (Q cpu))) cpu"
    using top s'(2) s'(3) by (intro top_running_change [OF s'(3)]) (auto simp: top_running_def)
  then show ?thesis using run s' i by - (rule exI [of _ b], rule exI [of _ s'], simp cong: if_cong)
qed

lemma out_wakes_ok:
  assumes inv: "sched_inv (sch c) Q" and cpu: "cpu < NPUN" and top: "top_running (sch c) Q cpu"
    and ch: "chans c ch = \<lparr>waiting = p, io_ptr = NULL\<rparr>" "\<not> claimed c (Mutex_chan ch)"
    and p: "idle_on (sch c) Q cpu p" and st: "p_alt_state (proc_of c p) = ALT_WAITING"
  defines "q \<equiv> current (sch c) cpu"
  defines "wins \<equiv> pri_gt (p_pri (proc_of c p)) (p_pri (proc_of c q))"
  shows "\<exists>c' ys. reaches (chan_out cpu ch src len c) c' \<and> chans c' = (chans c)(ch := \<lparr>waiting = q, io_ptr = src\<rparr>) \<and>
    heap c' = heap c \<and> claimed c' = claimed c \<and> sched_inv (sch c') (Q(cpu := ys)) \<and>
    top_running (sch c') (Q(cpu := ys)) cpu \<and> p \<in> members (sch c') (Q(cpu := ys)) cpu \<and>
    p_alt_state (proc_of c' p) = ALT_READY \<and>
    (if wins then current (sch c') cpu = p \<and> p_sched_state (proc_of c' q) = PROC_PREPARING_TO_WAIT
     else p_sched_state (proc_of c' q) = PROC_WAITING)"
proof -
  let ?c = "c\<lparr>sch := set_sched_state q PROC_PREPARING_TO_WAIT (sch c), chans := (chans c)(ch := \<lparr>waiting = q, io_ptr = src\<rparr>)\<rparr>"
  have pn: "p \<noteq> NULL" and qn: "q \<noteq> NULL" and pq: "p \<noteq> q"
    using p sched_invD(2) [OF inv cpu] by (auto simp: idle_on_def q_def members_def)
  have id: "(claimed c)(Mutex_chan ch := False) = claimed c" using ch(2) by (simp add: fun_upd_idem)
  have out: "chan_out cpu ch src len c =
      run_bind (freeProcessMaybe cpu p ?c) (\<lambda>_ c. switching cpu (relinquish cpu) c)"
    using ch pn qn id
    by (simp add: chan_out_def q_def Let_def set_chan_def PREPARE_TO_WAIT_def put_sched_def release_mutex_def fun_upd_idem)
  have h: "sched_inv (sch ?c) Q" "idle_on (sch ?c) Q cpu p" "top_running (sch ?c) Q cpu"
    "p_alt_state (proc_of ?c p) = ALT_WAITING"
    using inv p top st by (simp_all add: proc_of_def)
  obtain b s' where f: "freeProcessMaybe cpu p ?c = (if b then Paused (?c\<lparr>sch := s'\<rparr>) (Done ()) else Done () (?c\<lparr>sch := s'\<rparr>))"
    "b \<longleftrightarrow> key_of (sch ?c) p < key_of (sch ?c) (current (sch ?c) cpu)"
    "switched_to cpu (if b then p else current (sch ?c) cpu) (set_alt_state p ALT_READY (sch ?c)) s'"
    "in_ipq s' = in_ipq (sch ?c)"
    "sched_inv s' (Q(cpu := enq_list (sch ?c) (if b then current (sch ?c) cpu else p) (Q cpu)))"
    "top_running s' (Q(cpu := enq_list (sch ?c) (if b then current (sch ?c) cpu else p) (Q cpu))) cpu"
    using schedule_alting [OF h(1) cpu h(2,3,4)] by (elim exE conjE) (rule that)
  have wins: "b = wins" using f(2) by (simp add: wins_def pri_iffs key_of_def proc_of_def q_def)
  have cur: "current s' cpu = (if b then p else q)" "p_alt_state (procs s' p) = ALT_READY"
    "p_sched_state (procs s' q) = PROC_PREPARING_TO_WAIT"
    using f(3) pq by (simp_all add: switched_to_def q_def)
  show ?thesis
  proof (cases b)
    case True
    let ?ys = "enq_list (sch ?c) (current (sch ?c) cpu) (Q cpu)"
    show ?thesis
      by (rule exI [of _ "?c\<lparr>sch := s'\<rparr>"], rule exI [of _ ?ys])
        (use True f cur wins out in \<open>simp add: members_def proc_of_def\<close>)
  next
    case False
    let ?c1 = "?c\<lparr>sch := s'\<rparr>" and ?Q = "Q(cpu := enq_list (sch ?c) p (Q cpu))"
    have i1: "sched_inv (sch ?c1) ?Q" using f(5) False by simp
    have "p \<in> set (merged (sch ?c1) cpu (?Q cpu))" by simp
    then have "merged (sch ?c1) cpu (?Q cpu) \<noteq> []" by (intro notI) (simp only: list.set empty_iff)
    then obtain x xs where m: "merged (sch ?c1) cpu (?Q cpu) = x # xs" by (meson neq_Nil_conv)
    have c1: "current (sch ?c1) cpu = q" "p_sched_state (proc_of ?c1 (current (sch ?c1) cpu)) = PROC_PREPARING_TO_WAIT"
      using cur False by (simp_all add: proc_of_def)
    obtain s2 where s2: "switching cpu (relinquish cpu) ?c1 = Paused (?c1\<lparr>sch := s2\<rparr>) (Done ())"
      "switched_to cpu x (set_sched_state (current (sch ?c1) cpu) PROC_WAITING (sch ?c1)) s2"
      "sched_inv s2 (?Q(cpu := xs))" "top_running s2 (?Q(cpu := xs)) cpu" "in_ipq s2 cpu = []"
      using switching_relinquish [OF i1 cpu m c1(2)] by (elim exE conjE) (rule that)
    have "p \<in> set (x # xs)" unfolding m [symmetric] by simp
    then have "p \<in> members s2 (Q(cpu := xs)) cpu" using s2(2) by (auto simp: members_def switched_to_def)
    moreover have "p_alt_state (procs s2 p) = ALT_READY" "p_sched_state (procs s2 q) = PROC_WAITING"
      using s2(2) cur c1 by (simp_all add: switched_to_def)
    moreover have "reaches (chan_out cpu ch src len c) (?c1\<lparr>sch := s2\<rparr>)" using out f(1) False s2(1) by simp
    ultimately show ?thesis using s2(3,4) wins False
      by - (rule exI [of _ "?c1\<lparr>sch := s2\<rparr>"], rule exI [of _ xs], simp add: proc_of_def)
  qed
qed

text \<open>
  A sender that finds an alternation announced at its channel, on the same processor: it takes
  the alternation's place in the channel, with its buffer, and the alternation is made ready,
  exactly once, and runs at once if it outranks the sender; otherwise the sender waits and the best
  ready process runs.
\<close>

theorem out_wakes_alternation:
  assumes inv: "sched_inv (sch c) Q" and cpu: "cpu < NPUN" and top: "top_running (sch c) Q cpu"
    and ch: "chans c ch = \<lparr>waiting = p, io_ptr = NULL\<rparr>" "\<not> claimed c (Mutex_chan ch)"
    and p: "idle_on (sch c) Q cpu p" and st: "p_alt_state (proc_of c p) = ALT_WAITING"
  defines "q \<equiv> current (sch c) cpu"
  defines "wins \<equiv> pri_gt (p_pri (proc_of c p)) (p_pri (proc_of c q))"
  shows "\<exists>c' ys. reaches (chan_out cpu ch src len c) c' \<and> chans c' = (chans c)(ch := \<lparr>waiting = q, io_ptr = src\<rparr>) \<and>
    heap c' = heap c \<and> claimed c' = claimed c \<and> sched_inv (sch c') (Q(cpu := ys)) \<and>
    top_running (sch c') (Q(cpu := ys)) cpu \<and> p \<in> members (sch c') (Q(cpu := ys)) cpu \<and>
    p_alt_state (proc_of c' p) = ALT_READY \<and>
    (if wins then current (sch c') cpu = p else p_sched_state (proc_of c' q) = PROC_WAITING)"
  using out_wakes_ok [OF inv cpu top ch p st, of src len] unfolding q_def wins_def
  by (elim exE conjE) (intro exI conjI, assumption+, simp split: if_splits)

theorem out_wakes_alternation_witness:
  "\<exists>c c' ys. reaches (chan_out 0 0x2000 0x5000 8 c) c' \<and> waiting (chans c 0x2000) = 0x600 \<and>
    waiting (chans c' 0x2000) = 0x300 \<and> 0x600 \<in> members (sch c') (sample_queues(0 := ys)) 0"
proof -
  let ?c = "sample_cxp\<lparr>sch := set_alt_state 0x600 ALT_WAITING sample_sched,
    chans := (chans sample_cxp)(0x2000 := \<lparr>waiting = 0x600, io_ptr = NULL\<rparr>)\<rparr>"
  have h: "sched_inv (sch ?c) sample_queues" "(0 :: pun) < NPUN" "top_running (sch ?c) sample_queues 0"
    "chans ?c 0x2000 = \<lparr>waiting = 0x600, io_ptr = NULL\<rparr>" "\<not> claimed ?c (Mutex_chan 0x2000)"
    "idle_on (sch ?c) sample_queues 0 0x600" "p_alt_state (proc_of ?c 0x600) = ALT_WAITING" "current (sch ?c) 0 = 0x300"
    using sample_sched_inv sample_top sample_idle_on
    by (simp_all add: NPUN_def proc_of_def) (simp_all add: sample_cxp_def sample_sched_def)
  from out_wakes_alternation [OF h(1-7), of "0x5000" 8, unfolded h(8)]
  obtain c' ys where "reaches (chan_out 0 0x2000 0x5000 8 ?c) c'"
    "chans c' = (chans ?c)(0x2000 := \<lparr>waiting = 0x300, io_ptr = 0x5000\<rparr>)"
    "0x600 \<in> members (sch c') (sample_queues(0 := ys)) 0" by (elim exE conjE) (rule that)
  then show ?thesis using h(4)
    by - (rule exI [of _ ?c], rule exI [of _ c'], rule exI [of _ ys], simp)
qed

end
