(* ===== verification/Trace.thy ===== *)
theory Trace
  imports Cxp_Prelude "HOL-Library.Sublist"
begin

text \<open>
  The debug trace (\<^verbatim>\<open>dbg.c\<close>): messages go one after the other into a buffer, each
  over the terminating null of the one before; when the buffer is nearly full the trace starts over
  at its beginning. The display prints what is left of the previous round and then the current
  one. The buffer is shown to refine a log that keeps the two newest rounds. The text that
  \<^verbatim>\<open>vsprintf\<close> makes of the arguments is a parameter, like the results of
  \<^verbatim>\<open>malloc\<close> and \<^verbatim>\<open>fopen\<close>; the lock makes a report atomic.
\<close>

subsection \<open>State\<close>

definition TRACEMAX :: nat where "TRACEMAX = 0x40000000"
definition MARGIN :: nat where "MARGIN = 1024"

abbreviation NUL :: char where "NUL \<equiv> CHR 0x00"

text \<open>The positions are non-negative and at most \<^const>\<open>TRACEMAX\<close>.\<close>

record trace =
  add_time :: bool
  initial :: bool
  buf :: "nat \<Rightarrow> char"
  allocated :: bool  \<comment> \<open>the pointer \<^verbatim>\<open>trace\<close> is not null\<close>
  tr_end :: nat
  tr_pos :: nat
  wrapped :: bool

definition start_timed_trace :: "trace \<Rightarrow> trace" where
  "start_timed_trace t = t\<lparr>add_time := True\<rparr>"

subsection \<open>Reporting\<close>

primrec write_text :: "nat \<Rightarrow> string \<Rightarrow> (nat \<Rightarrow> char) \<Rightarrow> nat \<Rightarrow> char" where
  "write_text i [] b = b(i := NUL)"
| "write_text i (ch # s) b = write_text (i + 1) s (b(i := ch))"

text \<open>\<^verbatim>\<open>pos += sprintf(&trace[pos], ...)\<close>, which writes the text and a null.\<close>

definition put_text :: "string \<Rightarrow> trace \<Rightarrow> trace res" where
  "put_text s t =
     (if \<not> allocated t then Inl NullDeref
      else if TRACEMAX \<le> tr_pos t + length s then Inl (OutOfBounds ''trace'')
      else Inr (t\<lparr>buf := write_text (tr_pos t) s (buf t), tr_pos := tr_pos t + length s\<rparr>))"

fun decimal :: "nat \<Rightarrow> string" where
  "decimal n = (if n < 10 then [char_of (48 + n)] else decimal (n div 10) @ [char_of (48 + n mod 10)])"

declare decimal.simps [simp del]

text \<open>
  The comparison \<^verbatim>\<open>pos >= end - MARGIN\<close> of signed numbers is written without the
  subtraction. \<open>now\<close> is the value of \<^verbatim>\<open>Now()\<close>, printed as an unsigned number.
\<close>

definition report_init :: "bool \<Rightarrow> trace \<Rightarrow> trace" where
  "report_init alloc t =
     (if initial t then t\<lparr>initial := False, allocated := alloc, tr_end := TRACEMAX\<rparr> else t)"

definition wrap_around :: "trace \<Rightarrow> trace" where
  "wrap_around t =
     (if tr_end t \<le> tr_pos t + MARGIN then t\<lparr>tr_end := tr_pos t, tr_pos := 0, wrapped := True\<rparr> else t)"

definition report :: "bool \<Rightarrow> Time \<Rightarrow> string \<Rightarrow> trace \<Rightarrow> trace res" where
  "report alloc now text t =
     (let t = wrap_around (report_init alloc t)
      in res_bind (if add_time t then put_text (decimal (unat now) @ '' '') t else Inr t) (put_text text))"

subsection \<open>Displaying\<close>

text \<open>The text that \<^verbatim>\<open>%s\<close> prints: from an index up to the next null.\<close>

function read_text :: "nat \<Rightarrow> (nat \<Rightarrow> char) \<Rightarrow> string res" where
  "read_text i b =
     (if TRACEMAX \<le> i then Inl (OutOfBounds ''trace'')
      else if b i = NUL then Inr []
      else res_bind (read_text (i + 1) b) (\<lambda>s. Inr (b i # s)))"
  by pat_completeness auto
termination
  by (relation "measure (\<lambda>(i, b). TRACEMAX - i)") auto

declare read_text.simps [simp del]

text \<open>Each of the two loops; at a null it prints nothing and does not get any further.\<close>

partial_function (option) dump :: "nat \<Rightarrow> nat \<Rightarrow> nat \<Rightarrow> (nat \<Rightarrow> char) \<Rightarrow> string \<Rightarrow> string \<Rightarrow>
    (string \<times> string) res option" where
  "dump lim p q b out f =
     (if p < lim then
        case read_text p b of
          Inl e \<Rightarrow> Some (Inl e)
        | Inr s \<Rightarrow>
            (case read_text q b of
               Inl e \<Rightarrow> Some (Inl e)
             | Inr u \<Rightarrow> dump lim (p + length s) (q + length u) b (out @ s) (f @ u))
      else Some (Inr (out, f)))"

definition dump_res :: "nat \<Rightarrow> nat \<Rightarrow> (nat \<Rightarrow> char) \<Rightarrow> string \<times> string \<Rightarrow> (string \<times> string) res" where
  "dump_res lim p b = (\<lambda>(out, f). res_bind (of_loop ''display'' (dump lim p p b out f)) (\<lambda>r. r))"

text \<open>
  The value is what has been printed and what has been written to the file. Without the file,
  writing to it or closing it fails.
\<close>

definition display :: "bool \<Rightarrow> trace \<Rightarrow> ((string \<times> string) \<times> trace) res" where
  "display opened t =
     (if \<not> opened then Inl NullDeref
      else
        res_bind (if wrapped t then dump_res (tr_end t) (tr_pos t + 1) (buf t) ([], []) else Inr ([], [])) (\<lambda>printed.
        res_bind (dump_res (tr_pos t) 0 (buf t) printed) (\<lambda>printed.
        Inr (printed, t\<lparr>tr_pos := 0, tr_end := TRACEMAX, wrapped := False\<rparr>))))"

subsection \<open>The log that the buffer implements\<close>

text \<open>
  The previous round, if there is one, the current round, and the capacity of the current round:
  it starts as the size of the buffer and becomes the length of the round that has ended.
\<close>

type_synonym log = "string option \<times> string \<times> nat"

fun log_add :: "string \<Rightarrow> log \<Rightarrow> log" where
  "log_add s (old, cur, cap) =
     (if cap \<le> length cur + MARGIN then (Some cur, s, length cur) else (old, cur @ s, cap))"

fun log_shown :: "log \<Rightarrow> string" where
  "log_shown (old, cur, cap) = (case old of None \<Rightarrow> [] | Some u \<Rightarrow> drop (length cur + 1) u) @ cur"

definition fresh_log :: log where "fresh_log = (None, [], TRACEMAX)"

text \<open>One entry of a report, and the entries of many.\<close>

definition entry :: "bool \<Rightarrow> Time \<times> string \<Rightarrow> string" where
  "entry timed = (\<lambda>(now, text). (if timed then decimal (unat now) @ '' '' else []) @ text)"

primrec report_all :: "bool \<Rightarrow> (Time \<times> string) list \<Rightarrow> trace \<Rightarrow> trace res" where
  "report_all alloc [] t = Inr t"
| "report_all alloc (m # ms) t = res_bind (report alloc (fst m) (snd m) t) (report_all alloc ms)"

definition log_of :: "bool \<Rightarrow> (Time \<times> string) list \<Rightarrow> log \<Rightarrow> log" where
  "log_of timed ms l = foldl (\<lambda>l m. log_add (entry timed m) l) l ms"

definition fits :: "bool \<Rightarrow> Time \<times> string \<Rightarrow> bool" where
  "fits timed m \<longleftrightarrow> length (entry timed m) \<le> MARGIN \<and> NUL \<notin> set (snd m)"

text \<open>How the buffer holds the log.\<close>

definition holds :: "trace \<Rightarrow> log \<Rightarrow> bool" where
  "holds t = (\<lambda>(old, cur, cap).
     allocated t \<and> \<not> initial t \<and> tr_pos t = length cur \<and> tr_end t = cap \<and> cap \<le> TRACEMAX \<and>
     length cur < TRACEMAX \<and> NUL \<notin> set cur \<and> (\<forall>i < length cur. buf t i = cur ! i) \<and>
     (cur \<noteq> [] \<longrightarrow> buf t (length cur) = NUL) \<and> (wrapped t \<longleftrightarrow> old \<noteq> None) \<and>
     (case old of None \<Rightarrow> True
      | Some u \<Rightarrow> length u = cap \<and> cap < TRACEMAX \<and> NUL \<notin> set u \<and>
          (length cur < cap \<longrightarrow> buf t cap = NUL \<and> (\<forall>i. length cur < i \<and> i < cap \<longrightarrow> buf t i = u ! i))))"

subsection \<open>Writing and reading a text\<close>

lemma write_text_at: "write_text i s b j =
    (if i \<le> j \<and> j < i + length s then s ! (j - i) else if j = i + length s then NUL else b j)"
  by (induction s arbitrary: i b) (auto simp: nth_Cons')

lemma write_text_twice:
  "write_text (i + length s) u (write_text i s b) = write_text i (s @ u) b"
  by (auto simp: fun_eq_iff write_text_at nth_append)

lemma read_text_ok:
  assumes "\<forall>j < length s. b (i + j) = s ! j" and "b (i + length s) = NUL" and "NUL \<notin> set s"
    and "i + length s < TRACEMAX"
  shows "read_text i b = Inr s"
  using assms
proof (induction s arbitrary: i)
  case Nil
  then show ?case by (simp add: read_text.simps)
next
  case (Cons ch s)
  have "read_text (i + 1) b = Inr s"
  proof (rule Cons.IH)
    show "\<forall>j < length s. b (i + 1 + j) = s ! j" using Cons.prems(1) by (fastforce dest: spec [of _ "Suc _"])
  qed (use Cons.prems in auto)
  moreover have "b i = ch" using Cons.prems(1) by (auto dest: spec [of _ 0])
  ultimately show ?case using Cons.prems by (subst read_text.simps) auto
qed

lemma decimal_no_NUL: "NUL \<notin> set (decimal n)"
proof (induction n rule: decimal.induct)
  case (1 n)
  have d: "char_of (48 + k) \<noteq> NUL" if "k < 10" for k :: nat
  proof
    assume "char_of (48 + k) = NUL"
    then have "of_char (char_of (48 + k) :: char) = (of_char NUL :: nat)" by simp
    then show False using that by simp
  qed
  show ?case
    using 1 d [of n] d [of "n mod 10"] by (subst decimal.simps) auto
qed

lemma fits_entry: "fits timed m \<Longrightarrow> NUL \<notin> set (entry timed m)"
  by (auto simp: fits_def entry_def decimal_no_NUL split: prod.splits)

text \<open>A dump from the start of a text to its end prints the text, by one round of the loop.\<close>

lemma dump_res_text:
  assumes "\<forall>i. p \<le> i \<and> i < lim \<longrightarrow> b i = s ! (i - p)" and "length s = lim - p" and "p < lim \<Longrightarrow> b lim = NUL"
    and "NUL \<notin> set s" and "lim < TRACEMAX"
  shows "dump_res lim p b (out, f) = Inr (out @ s, f @ s)"
proof (cases "p < lim")
  case True
  then have r: "read_text p b = Inr s" using assms by (intro read_text_ok) auto
  have e: "dump lim lim lim b x y = Some (Inr (x, y))" for x y by (simp add: dump.simps)
  show ?thesis using True r assms(2) by (simp add: dump_res_def dump.simps [of lim p] e)
next
  case False
  then show ?thesis using assms(2) by (simp add: dump_res_def dump.simps)
qed

subsection \<open>Refinement\<close>

lemma holds_put:
  assumes t: "allocated t" "tr_pos t + length s + length u < TRACEMAX"
  shows "res_bind (put_text s t) (put_text u) =
    Inr (t\<lparr>buf := write_text (tr_pos t) (s @ u) (buf t), tr_pos := tr_pos t + length (s @ u)\<rparr>)"
  using t by (simp add: put_text_def write_text_twice add.assoc)

lemma put_entry:
  assumes "allocated t" "tr_pos t + length (entry (add_time t) (now, text)) < TRACEMAX"
  shows "res_bind (if add_time t then put_text (decimal (unat now) @ '' '') t else Inr t) (put_text text) =
    Inr (t\<lparr>buf := write_text (tr_pos t) (entry (add_time t) (now, text)) (buf t),
      tr_pos := tr_pos t + length (entry (add_time t) (now, text))\<rparr>)"
proof (cases "add_time t")
  case True
  then show ?thesis using assms holds_put [of t "decimal (unat now) @ '' ''" "text"] by (simp add: entry_def)
next
  case False
  then show ?thesis using assms by (simp add: entry_def put_text_def)
qed

lemma holds_room:
  assumes "holds t (old, cur, cap)" and "\<not> cap \<le> length cur + MARGIN" and "length s \<le> MARGIN" and "NUL \<notin> set s"
  shows "holds (t\<lparr>buf := write_text (length cur) s (buf t), tr_pos := length cur + length s\<rparr>) (old, cur @ s, cap)"
  using assms by (auto simp: holds_def write_text_at nth_append split: option.splits)

lemma holds_wrap:
  assumes "holds t (old, cur, cap)" and "length s \<le> MARGIN" and "NUL \<notin> set s"
  shows "holds (t\<lparr>tr_end := length cur, wrapped := True, buf := write_text 0 s (buf t), tr_pos := length s\<rparr>)
    (Some cur, s, length cur)"
  using assms by (auto simp: holds_def write_text_at MARGIN_def TRACEMAX_def)

lemma report_holds:
  assumes t: "holds t (old, cur, cap)" and m: "fits (add_time t) m"
  shows "\<exists>t'. report alloc (fst m) (snd m) t = Inr t' \<and> add_time t' = add_time t \<and>
    holds t' (log_add (entry (add_time t) m) (old, cur, cap))"
proof -
  let ?s = "entry (add_time t) m"
  have t0: "report_init alloc t = t" "allocated t" "tr_pos t = length cur" "tr_end t = cap" "cap \<le> TRACEMAX"
    using t by (simp_all add: holds_def report_init_def)
  have s: "length ?s \<le> MARGIN" "NUL \<notin> set ?s" using m fits_entry [OF m] by (simp_all add: fits_def)
  show ?thesis
  proof (cases "cap \<le> length cur + MARGIN")
    case True
    let ?t = "t\<lparr>tr_end := length cur, tr_pos := 0, wrapped := True\<rparr>"
    have w: "wrap_around t = ?t" using True t0 by (simp add: wrap_around_def)
    have "report alloc (fst m) (snd m) t = Inr (?t\<lparr>buf := write_text 0 ?s (buf t), tr_pos := length ?s\<rparr>)"
      using put_entry [of ?t "fst m" "snd m"] t0(1,2) s(1) by (simp add: report_def w MARGIN_def TRACEMAX_def)
    moreover have "holds (?t\<lparr>buf := write_text 0 ?s (buf t), tr_pos := length ?s\<rparr>) (Some cur, ?s, length cur)"
      using holds_wrap [OF t s] by simp
    ultimately show ?thesis using True by simp
  next
    case False
    have w: "wrap_around t = t" using False t0 by (simp add: wrap_around_def)
    have "report alloc (fst m) (snd m) t =
        Inr (t\<lparr>buf := write_text (length cur) ?s (buf t), tr_pos := length cur + length ?s\<rparr>)"
      using put_entry [of t "fst m" "snd m"] t0 False s(1) by (simp add: report_def w)
    then show ?thesis using False holds_room [OF t False s] by simp
  qed
qed

lemma report_all_holds:
  assumes "holds t l" and "\<forall>m \<in> set ms. fits (add_time t) m"
  shows "\<exists>t'. report_all alloc ms t = Inr t' \<and> holds t' (log_of (add_time t) ms l)"
  using assms
proof (induction ms arbitrary: t l)
  case Nil
  then show ?case by (simp add: log_of_def)
next
  case (Cons m ms)
  obtain old cur cap where l: "l = (old, cur, cap)" by (cases l)
  obtain t' where t': "report alloc (fst m) (snd m) t = Inr t'" "add_time t' = add_time t"
    "holds t' (log_add (entry (add_time t) m) l)"
    using report_holds Cons.prems unfolding l by (metis list.set_intros(1))
  then show ?case using Cons.IH [OF t'(3)] Cons.prems(2) by (simp add: log_of_def)
qed

lemma display_holds:
  assumes "holds t l"
  shows "display True t = Inr ((log_shown l, log_shown l), t\<lparr>tr_pos := 0, tr_end := TRACEMAX, wrapped := False\<rparr>)"
proof -
  obtain old cur cap where l: "l = (old, cur, cap)" by (cases l)
  have cur: "dump_res (tr_pos t) 0 (buf t) (x, y) = Inr (x @ cur, y @ cur)" for x y
    using assms by (intro dump_res_text) (auto simp: holds_def l)
  show ?thesis
  proof (cases old)
    case None
    then show ?thesis using assms cur [of "[]" "[]"] by (simp add: display_def holds_def l)
  next
    case (Some u)
    have "dump_res (tr_end t) (tr_pos t + 1) (buf t) ([], []) = Inr ([] @ drop (length cur + 1) u, [] @ drop (length cur + 1) u)"
      using assms Some by (intro dump_res_text) (auto simp: holds_def l dest: in_set_dropD)
    then show ?thesis using assms Some cur by (simp add: display_def holds_def l)
  qed
qed

text \<open>What the log shows is the newest part of everything reported.\<close>

definition log_ok :: "string \<Rightarrow> log \<Rightarrow> bool" where
  "log_ok all = (\<lambda>(old, cur, cap). case old of None \<Rightarrow> all = cur
     | Some u \<Rightarrow> length u = cap \<and> suffix (u @ cur) all)"

lemma log_add_ok: "log_ok all l \<Longrightarrow> log_ok (all @ s) (log_add s l)"
  by (cases l) (auto simp: log_ok_def suffix_def split: option.splits)

lemma log_of_ok: "log_ok all l \<Longrightarrow> log_ok (all @ concat (map (entry timed) ms)) (log_of timed ms l)"
proof (induction ms arbitrary: all l)
  case (Cons m ms)
  then show ?case using Cons.IH [OF log_add_ok [OF Cons.prems, of "entry timed m"]] by (simp add: log_of_def)
qed (simp add: log_of_def)

lemma log_shown_ok:
  assumes "log_ok all (old, cur, cap)"
  shows "suffix (log_shown (old, cur, cap)) all" and "old = None \<Longrightarrow> log_shown (old, cur, cap) = all"
    and "old \<noteq> None \<Longrightarrow> cap - 1 \<le> length (log_shown (old, cur, cap))"
proof -
  show "suffix (log_shown (old, cur, cap)) all"
  proof (cases old)
    case (Some u)
    have "suffix (drop (length cur + 1) u @ cur) (u @ cur)" by (simp add: suffix_drop)
    then show ?thesis using assms Some suffix_order.trans by (fastforce simp: log_ok_def)
  qed (use assms in \<open>simp add: log_ok_def\<close>)
qed (use assms in \<open>auto simp: log_ok_def\<close>)

lemma report_first:
  assumes "initial t" and "tr_pos t = 0" and "\<not> wrapped t"
  shows "holds (report_init True t) fresh_log" and "report True now s (report_init True t) = report True now s t"
    and "add_time (report_init True t) = add_time t"
  using assms by (simp_all add: report_init_def report_def holds_def fresh_log_def TRACEMAX_def)

text \<open>
  C36. Any number of messages, none longer than the margin, and then a display: no report writes
  outside the buffer, the display ends, and it prints, to the screen and to the file alike, the
  newest part of all that was reported; it prints everything if the trace has not wrapped around,
  and otherwise at least the size of the current round but one. It leaves an empty trace.
\<close>

theorem display_newest:
  assumes "initial t" and "tr_pos t = 0" and "\<not> wrapped t" and "ms \<noteq> []"
    and "\<forall>m \<in> set ms. fits (add_time t) m"
  shows "\<exists>t' out t''. report_all True ms t = Inr t' \<and> display True t' = Inr ((out, out), t'') \<and>
    out = log_shown (log_of (add_time t) ms fresh_log) \<and>
    suffix out (concat (map (entry (add_time t)) ms)) \<and>
    (if wrapped t' then tr_end t' - 1 \<le> length out else out = concat (map (entry (add_time t)) ms)) \<and>
    display True t'' = Inr (([], []), t'')"
proof -
  let ?l = "log_of (add_time t) ms fresh_log"
  note t1 = report_first [OF assms(1-3)]
  have "report_all True ms t = report_all True ms (report_init True t)"
    using assms(4) t1(2) by (cases ms) simp_all
  then obtain t' where t': "report_all True ms t = Inr t'" "holds t' ?l"
    using report_all_holds [OF t1(1), of ms True] assms(5) t1(3) by auto
  obtain old cur cap where l: "?l = (old, cur, cap)" by (cases ?l)
  have ok: "log_ok (concat (map (entry (add_time t)) ms)) (old, cur, cap)"
    using log_of_ok [of "[]" fresh_log "add_time t" ms] l by (simp add: fresh_log_def log_ok_def)
  have w: "wrapped t' \<longleftrightarrow> old \<noteq> None" "tr_end t' = cap" using t'(2) by (simp_all add: l holds_def)
  let ?t = "t'\<lparr>tr_pos := 0, tr_end := TRACEMAX, wrapped := False\<rparr>"
  have "display True ?t = Inr (([], []), ?t)" by (simp add: display_def dump_res_def dump.simps)
  then show ?thesis
    using t'(1) display_holds [OF t'(2)] log_shown_ok [OF ok] w unfolding l by auto
qed

definition sample_trace :: trace where
  "sample_trace = \<lparr>add_time = True, initial = True, buf = (\<lambda>i. CHR ''?''), allocated = False, tr_end = 0,
     tr_pos = 0, wrapped = False\<rparr>"

theorem display_newest_witness:
  "\<exists>t'. report_all True [(7, ''in''), (12, ''out'')] sample_trace = Inr t' \<and>
    (\<exists>out t''. display True t' = Inr ((out, out), t'') \<and> suffix out ''7 in12 out'')"
proof -
  have d: "decimal 7 = ''7''" "decimal 12 = ''12''" by (simp_all add: decimal.simps char_of_def bit_0)
  have "\<forall>m \<in> set [(7 :: Time, ''in''), (12, ''out'')]. fits (add_time sample_trace) m"
    by (simp add: fits_def entry_def d sample_trace_def MARGIN_def)
  then show ?thesis
    using display_newest [of sample_trace "[(7, ''in''), (12, ''out'')]"]
    by (auto simp: sample_trace_def entry_def d)
qed

text \<open>
  C37. The margin is exactly what protects the memory behind the buffer: with the trace filled up
  to just before the point at which it starts over, a message is written within the buffer if and
  only if it is no longer than the margin.
\<close>

theorem margin_is_exact:
  assumes "holds t l" and "tr_end t = TRACEMAX" and "tr_pos t + MARGIN + 1 = TRACEMAX" and "\<not> add_time t"
  shows "report alloc now s t =
    (if length s \<le> MARGIN
     then Inr (t\<lparr>buf := write_text (tr_pos t) s (buf t), tr_pos := tr_pos t + length s\<rparr>)
     else Inl (OutOfBounds ''trace''))"
proof -
  have a: "allocated t" "\<not> initial t" using assms(1) by (auto simp: holds_def split: prod.splits)
  then have "report alloc now s t = put_text s t"
    using assms(2-4) by (simp add: report_def report_init_def wrap_around_def)
  then show ?thesis using assms(3) a(1) by (auto simp: put_text_def)
qed

definition nearly_full :: trace where
  "nearly_full = \<lparr>add_time = False, initial = False, buf = (\<lambda>i. if i < TRACEMAX - MARGIN - 1 then CHR ''x'' else NUL),
     allocated = True, tr_end = TRACEMAX, tr_pos = TRACEMAX - MARGIN - 1, wrapped = False\<rparr>"

theorem margin_is_exact_witness:
  "report True 0 (replicate 1025 CHR ''y'') nearly_full = Inl (OutOfBounds ''trace'')"
proof -
  have "holds nearly_full (None, replicate (TRACEMAX - MARGIN - 1) CHR ''x'', TRACEMAX)"
    by (simp add: holds_def nearly_full_def TRACEMAX_def MARGIN_def)
  then show ?thesis
    using margin_is_exact [of nearly_full _ True 0 "replicate 1025 CHR ''y''"]
    by (simp add: nearly_full_def TRACEMAX_def MARGIN_def)
qed

text \<open>
  A round ends before its capacity is used up, and its length is the capacity of the next one, so
  the buffer shrinks with each round; only the display restores it.
\<close>

lemma rounds_shrink:
  assumes "holds t (old, cur, cap)" and "length cur < cap" and "fits (add_time t) m"
  shows "\<exists>t'. report alloc (fst m) (snd m) t = Inr t' \<and>
    tr_end t' = (if cap \<le> length cur + MARGIN then length cur else cap) \<and> tr_end t' \<le> tr_end t"
  using report_holds [OF assms(1,3)] assms by (fastforce simp: holds_def split: if_splits)

end
