(* ===== verification/Timer_Queue.thy ===== *)
theory Timer_Queue
  imports Timeout_Interrupt
begin

text \<open>
  The timeout queues as queues ordered by time, and the timers of alternations: an entry that
  \<^verbatim>\<open>enable_timeout\<close> makes and \<^verbatim>\<open>disable_timeout\<close> takes back.
\<close>

subsection \<open>An ordered queue\<close>

text \<open>The time that the \<open>n\<close>-th reading of the elapsed-time timer gives.\<close>

definition now_at :: "cxp \<Rightarrow> nat \<Rightarrow> Time" where
  "now_at c n = (Tick - ts_time (os_readings (hw (sch c)) n)) + currentTime c"

lemma now_of_at: "now_of c = now_at c (n_readings (hw (sch c)))"
  by (simp add: now_of_def now_at_def)

text \<open>\<open>T\<close> are the queues of the other processors.\<close>

definition timeouts_hold :: "(pun \<Rightarrow> addr list) \<Rightarrow> pun \<Rightarrow> pun \<Rightarrow> cxp \<Rightarrow> addr list \<Rightarrow> bool" where
  "timeouts_hold T cpu q c xs \<longleftrightarrow> q < NPUN \<and> tmo_ok c (T(q := xs)) \<and> clock_ok cpu c \<and> timeout_timer cpu c \<noteq> None"

definition may_insert :: "(pun \<Rightarrow> addr list) \<Rightarrow> pun \<Rightarrow> cxp \<Rightarrow> addr \<Rightarrow> bool" where
  "may_insert T q c d \<longleftrightarrow> d \<noteq> NULL \<and> (\<forall>r < NPUN. r \<noteq> q \<longrightarrow> d \<notin> set (T r)) \<and>
     (\<forall>n. sint (t_time (tmos c d) - now_at c n) < 2 ^ 31 * NS_PER_SEC)"

lemma hw_only_now:
  assumes "hw_only c c'"
  shows "now_at c' = now_at c"
  using assms by (auto simp: hw_only_def now_at_def fun_eq_iff)

lemma now_at_link [simp]: "now_at (link_tmo q d prev cur c) = now_at c"
  by (simp add: now_at_def fun_eq_iff)

lemma insert_timeout_law:
  assumes h: "timeouts_hold T cpu q c xs" and d: "may_insert T q c d" "d \<notin> set xs"
  shows "\<exists>c'. insertInQueue cpu q d c = Inr c' \<and> timeouts_hold T cpu q c' (sort_key (tkey c) (xs @ [d])) \<and>
    tkey c' = tkey c \<and> may_insert T q c' = may_insert T q c"
proof -
  have H: "q < NPUN" "tmo_ok c (T(q := xs))" "clock_ok cpu c" "timeout_timer cpu c \<noteq> None"
    using h by (simp_all add: timeouts_hold_def)
  have D: "d \<noteq> NULL" "\<forall>r < NPUN. r \<noteq> q \<longrightarrow> d \<notin> set (T r)" "\<forall>n. sint (t_time (tmos c d) - now_at c n) < 2 ^ 31 * NS_PER_SEC"
    using d(1) by (simp_all add: may_insert_def)
  have new: "\<forall>r < NPUN. d \<notin> set ((T(q := xs)) r)" using D d(2) by simp
  have lim: "sint (left_until c (t_time (tmos c d))) < 2 ^ 31 * NS_PER_SEC"
    using D by (simp add: left_until_def now_of_at)
  obtain tm where tm: "timeout_timer cpu c = Some tm" using H by blast
  obtain c' prev cur tm' where c': "insertInQueue cpu q d c = Inr c'" "hw_only (link_tmo q d prev cur c) c'"
    "tmo_ok c' (T(q := xs, q := sort_key (tkey c) ((T(q := xs)) q @ [d])))" "timeout_timer cpu c' = Some tm'"
    using insertInQueue_ok [OF H(2,1) D(1) new H(3) tm lim] by (elim exE conjE) (rule that)
  note K = hw_onlyD [OF c'(2)]
  have "timeouts_hold T cpu q c' (sort_key (tkey c) (xs @ [d]))"
    using H c'(3,4) K(11) by (simp add: timeouts_hold_def)
  moreover have "may_insert T q c' = may_insert T q c"
    using K(1) hw_only_now [OF c'(2)] by (simp add: may_insert_def fun_eq_iff)
  ultimately show ?thesis using c'(1) K(4) by simp
qed

interpretation timeouts: ordered_queue "insertInQueue cpu q" "timeouts_hold T cpu q" tkey "may_insert T q" for cpu q T
proof unfold_locales
  show "sorted (map (tkey c) xs)" if "timeouts_hold T cpu q c xs" for c xs
    using that by (auto simp: timeouts_hold_def tmo_ok_def)
qed (rule insert_timeout_law)

text \<open>
  Timeouts entered one after the other are in the queue in the order of their times, those of
  the same time in the order in which they were entered.
\<close>

theorem timeouts_in_order:
  assumes "timeouts_hold T cpu q c []" and "distinct ds" and "\<forall>d \<in> set ds. may_insert T q c d"
  shows "\<exists>c'. foldl (\<lambda>r d. res_bind r (insertInQueue cpu q d)) (Inr c) ds = Inr c' \<and>
    chain (tnext c') (timeQue c' q) (sort_key (tkey c) ds)"
proof -
  obtain c' where c': "timeouts.insert_all cpu q ds c = Inr c'" "timeouts_hold T cpu q c' (sort_key (tkey c) ([] @ ds))"
    using timeouts.insert_all_sorts [OF assms(1), of ds] assms(2,3) by auto
  have "chain (tnext c') (timeQue c' q) (sort_key (tkey c) ds)"
    using c'(2) by (auto simp: timeouts_hold_def tmo_ok_def)
  then show ?thesis using c'(1) by (auto simp: timeouts.insert_all_def)
qed

theorem timeouts_in_order_witness:
  "\<exists>c'. foldl (\<lambda>r d. res_bind r (insertInQueue 0 0 d)) (Inr sample_timer) [0x800, 0x900] = Inr c' \<and>
    chain (tnext c') (timeQue c' 0) [0x900, 0x800]"
proof -
  have k: "tkey sample_timer 0x800 = 5000000000" "tkey sample_timer 0x900 = 0"
    by (simp_all add: tkey_def sample_timer_def)
  have n: "now_at sample_timer n = 600000000" for n
    by (simp add: now_at_def sample_timer_def sample_cxp_def sample_clock_hw_def sample_hw_def ts_time_def Tick_def NS_PER_SEC_def)
  have "timeouts_hold (\<lambda>_. []) 0 0 sample_timer []"
    using sample_timer_facts by (simp add: timeouts_hold_def NPUN_def fun_upd_idem)
  moreover have "may_insert (\<lambda>_. []) 0 sample_timer d" if "d \<in> set [0x800, 0x900]" for d
    using that by (auto simp: may_insert_def n NS_PER_SEC_def) (simp_all add: sample_timer_def)
  ultimately show ?thesis
    using timeouts_in_order [of "\<lambda>_. []" 0 0 sample_timer "[0x800, 0x900]"] by (simp add: k)
qed

subsection \<open>Removing an entry\<close>

text \<open>The entries of a process for a time.\<close>

definition entry_of :: "cxp \<Rightarrow> Time \<Rightarrow> addr \<Rightarrow> addr \<Rightarrow> bool" where
  "entry_of c time p y \<longleftrightarrow> t_time (tmos c y) = time \<and> t_proc (tmos c y) = p"

definition unlink_tmo :: "pun \<Rightarrow> addr \<Rightarrow> addr \<Rightarrow> cxp \<Rightarrow> cxp" where
  "unlink_tmo q prev cur c =
     (if prev = NULL then c\<lparr>timeQue := (timeQue c)(q := tnext c cur)\<rparr> else set_tmo_next prev (tnext c cur) c)"

lemma unlink_tmo_simps [simp]:
  "tkey (unlink_tmo q prev cur c) = tkey c" "sch (unlink_tmo q prev cur c) = sch c"
  "t_time (tmos (unlink_tmo q prev cur c) d) = t_time (tmos c d)"
  "t_proc (tmos (unlink_tmo q prev cur c) d) = t_proc (tmos c d)"
  "t_type (tmos (unlink_tmo q prev cur c) d) = t_type (tmos c d)"
  "claimed (unlink_tmo q prev cur c) = claimed c" "mem_ok lo (unlink_tmo q prev cur c) F L = mem_ok lo c F L"
  "procmemlist (unlink_tmo q prev cur c) = procmemlist c"
  by (simp_all add: unlink_tmo_def set_tmo_next_def tkey_def fun_eq_iff mem_ok_def)

lemma tmo_ok_remove:
  assumes ok: "tmo_ok c T" and q: "q < NPUN" and T: "T q = us @ x # vs" and prev: "prev = last (NULL # us)"
  shows "tmo_ok (unlink_tmo q prev x c) (T(q := us @ vs))"
proof -
  have ch: "chain (tnext c) (timeQue c q) (us @ x # vs)" and srt: "sorted (map (tkey c) (us @ x # vs))"
    using ok q T by (auto simp: tmo_ok_def)
  have dis: "set (T r) \<inter> set (T s) = {}" if "r < NPUN" "s < NPUN" "r \<noteq> s" for r s
    using ok that by (simp add: tmo_ok_def)
  have null: "NULL \<notin> set us" using chain_nonnull_set [OF ch] by simp
  let ?c = "unlink_tmo q prev x c" and ?T = "T(q := us @ vs)"
  have "chain (tnext ?c) (timeQue ?c q) (us @ vs) \<and> (\<forall>r < NPUN. r \<noteq> q \<longrightarrow> chain (tnext ?c) (timeQue ?c r) (T r))"
  proof (cases us rule: rev_cases)
    case Nil
    then show ?thesis using ch prev ok by (auto simp: unlink_tmo_def tnext_def [abs_def] tmo_ok_def)
  next
    case (snoc ws w)
    then have pw: "prev = w" "prev \<noteq> NULL" using prev null by auto
    then have nx: "tnext ?c = (tnext c)(w := tnext c x)" "timeQue ?c = timeQue c"
      by (auto simp: unlink_tmo_def set_tmo_next_def tnext_def fun_eq_iff)
    have "w \<notin> set (T r)" if "r < NPUN" "r \<noteq> q" for r using dis [OF q that(1)] that(2) T snoc by auto
    then show ?thesis using chain_unlink [of "tnext c" "timeQue c q" ws w x vs] ch snoc ok
      by (simp add: nx tmo_ok_def)
  qed
  moreover have "sorted (map (tkey c) (us @ vs))" using srt by (auto simp: sorted_append)
  moreover have "set (?T r) \<inter> set (?T s) = {}" if "r < NPUN" "s < NPUN" "r \<noteq> s" for r s
    using dis [OF that] T by (auto split: if_splits)
  ultimately show ?thesis using ok unfolding tmo_ok_def unlink_tmo_simps by (metis fun_upd_apply)
qed

text \<open>Where the two searches of \<^verbatim>\<open>removeFromQueue\<close> end.\<close>

lemma removeFromQueue_search:
  fixes c time p
  defines "go \<equiv> \<lambda>y. tkey c y < sint time" and "go' \<equiv> \<lambda>y. t_time (tmos c y) = time \<and> t_proc (tmos c y) \<noteq> p"
  assumes ch: "chain (tnext c) (timeQue c q) xs"
  defines "us \<equiv> takeWhile go xs @ takeWhile go' (dropWhile go xs)" and "vs \<equiv> dropWhile go' (dropWhile go xs)"
  shows "removeFromQueue cpu q time p c =
    (let c1 = put_sched (on_hw (disable cpu)) c; prev = last (NULL # us); cur = (case vs of [] \<Rightarrow> NULL | y # ys \<Rightarrow> y);
         c2 = (if cur \<noteq> NULL \<and> entry_of c time p cur then unlink_tmo q prev cur c1 else c1)
     in Inr (cur, put_sched (on_hw (enable cpu)) c2))" and "xs = us @ vs"
proof -
  show split: "xs = us @ vs" by (simp add: us_def vs_def)
  let ?mid = "last (NULL # takeWhile go xs)" and ?ys = "dropWhile go xs"
  let ?cur = "case vs of [] \<Rightarrow> NULL | y # ys \<Rightarrow> y"
  have "chain (tnext c) (case ?ys of [] \<Rightarrow> NULL | y # ys \<Rightarrow> y) ?ys"
    using ch chain_append [of "tnext c" "timeQue c q" "takeWhile go xs" ?ys] by (auto split: list.splits)
  from walk_chain [OF this, of go' ?mid]
  have w2: "walk go' (tnext c) ?mid (case ?ys of [] \<Rightarrow> NULL | y # ys \<Rightarrow> y) = Some (last (NULL # us), ?cur)"
    by (simp add: us_def vs_def)
  have w1: "walk go (tnext c) NULL (timeQue c q) = Some (?mid, case ?ys of [] \<Rightarrow> NULL | y # ys \<Rightarrow> y)"
    by (rule walk_chain [OF ch])
  have nx: "(\<lambda>cur. t_next (tmos c cur)) = tnext c" by (simp add: tnext_def [abs_def])
  have g: "(\<lambda>cur. time_lt (t_time (tmos c cur)) time) = go" by (simp add: go_def time_lt_def tkey_def)
  have null: "NULL \<notin> set us" and d: "distinct xs" and hd: "xs \<noteq> [] \<Longrightarrow> timeQue c q = hd xs"
    using chain_nonnull_set [OF ch] chain_distinct [OF ch] chain_head [OF ch] split by auto
  have head: "(?cur = timeQue c q) = (last (NULL # us) = NULL)" if "?cur \<noteq> NULL"
  proof (cases us)
    case Nil
    then show ?thesis using that hd split by (auto split: list.splits)
  next
    case (Cons u us')
    have "last (u # us') \<in> set us" unfolding Cons by (rule last_in_set) simp
    then show ?thesis using that hd split Cons null d by (auto split: list.splits)
  qed
  show "removeFromQueue cpu q time p c =
    (let c1 = put_sched (on_hw (disable cpu)) c; prev = last (NULL # us); cur = (case vs of [] \<Rightarrow> NULL | y # ys \<Rightarrow> y);
         c2 = (if cur \<noteq> NULL \<and> entry_of c time p cur then unlink_tmo q prev cur c1 else c1)
     in Inr (cur, put_sched (on_hw (enable cpu)) c2))"
    using head w1 w2
    by (auto simp: removeFromQueue_def Let_def nx g go'_def entry_of_def unlink_tmo_def tnext_def put_sched_def set_tmo_next_def
        simp del: last.simps)
qed

lemma search_ends:
  fixes c time p
  assumes srt: "sorted (map (tkey c) xs)"
  defines "ys \<equiv> dropWhile (\<lambda>y. tkey c y < sint time) xs"
    and "go' \<equiv> \<lambda>y. t_time (tmos c y) = time \<and> t_proc (tmos c y) \<noteq> p"
  shows "filter (entry_of c time p) xs = filter (entry_of c time p) (dropWhile go' ys)"
    and "filter (\<lambda>y. sint time < tkey c y) xs = filter (\<lambda>y. sint time < tkey c y) (dropWhile go' ys)"
    and "dropWhile go' ys = z # zs \<Longrightarrow> entry_of c time p z \<or> (\<forall>y \<in> set (z # zs). sint time < tkey c y)"
proof -
  have t: "t_time (tmos c y) = time \<longleftrightarrow> tkey c y = sint time" for y
    by (simp add: tkey_def word_eq_iff_signed)
  have split: "filter P xs = filter P (takeWhile (\<lambda>y. tkey c y < sint time) xs) @ filter P (takeWhile go' ys) @
      filter P (dropWhile go' ys)" for P
    unfolding filter_append [symmetric] by (simp add: ys_def)
  have us: "y \<in> set (takeWhile (\<lambda>y. tkey c y < sint time) xs) \<Longrightarrow> tkey c y < sint time" for y
    by (auto dest: set_takeWhileD)
  have ws: "y \<in> set (takeWhile go' ys) \<Longrightarrow> go' y" for y
    by (auto dest: set_takeWhileD)
  show "filter (entry_of c time p) xs = filter (entry_of c time p) (dropWhile go' ys)"
  proof -
    have "\<not> entry_of c time p y" if "y \<in> set (takeWhile (\<lambda>y. tkey c y < sint time) xs)" for y
      using us [OF that] t [of y] by (simp add: entry_of_def)
    moreover have "\<not> entry_of c time p y" if "y \<in> set (takeWhile go' ys)" for y
      using ws [OF that] by (simp add: entry_of_def go'_def)
    ultimately show ?thesis unfolding split by (simp add: filter_empty_conv)
  qed
  show "filter (\<lambda>y. sint time < tkey c y) xs = filter (\<lambda>y. sint time < tkey c y) (dropWhile go' ys)"
  proof -
    have "\<not> sint time < tkey c y" if "y \<in> set (takeWhile (\<lambda>y. tkey c y < sint time) xs)" for y
      using us [OF that] by simp
    moreover have "\<not> sint time < tkey c y" if "y \<in> set (takeWhile go' ys)" for y
      using ws [OF that] t [of y] by (simp add: go'_def)
    ultimately show ?thesis unfolding split by (simp add: filter_empty_conv)
  qed
  assume z: "dropWhile go' ys = z # zs"
  have "sorted (map (tkey c) (dropWhile go' ys))"
    using srt unfolding ys_def by (metis sorted_append map_append takeWhile_dropWhile_id)
  moreover have "\<not> go' z" using z by (metis hd_dropWhile list.distinct(1) list.sel(1))
  moreover have "sint time \<le> tkey c z"
  proof -
    have "z \<in> set ys" using set_dropWhileD [of z go' ys] z by simp
    moreover have "\<forall>y \<in> set ys. sint time \<le> tkey c y"
    proof (cases ys)
      case (Cons a as)
      then have "\<not> tkey c a < sint time" unfolding ys_def by (metis hd_dropWhile list.distinct(1) list.sel(1))
      moreover have "sorted (map (tkey c) ys)"
        using srt unfolding ys_def by (metis sorted_append map_append takeWhile_dropWhile_id)
      ultimately show ?thesis using Cons by auto
    qed simp
    ultimately show ?thesis by blast
  qed
  ultimately show "entry_of c time p z \<or> (\<forall>y \<in> set (z # zs). sint time < tkey c y)"
    using z t by (fastforce simp: entry_of_def go'_def)
qed

lemma remove_found:
  assumes ok: "tmo_ok c T" and q: "q < NPUN" and d: "filter (entry_of c time p) (T q) = d # ds"
  shows "\<exists>c' prev us vs. removeFromQueue cpu q time p c = Inr (d, c') \<and> T q = us @ d # vs \<and>
    c' = put_sched (on_hw (enable cpu)) (unlink_tmo q prev d (put_sched (on_hw (disable cpu)) c)) \<and>
    tmo_ok c' (T(q := remove1 d (T q)))"
proof -
  have ch: "chain (tnext c) (timeQue c q) (T q)" and srt: "sorted (map (tkey c) (T q))"
    using ok q by (auto simp: tmo_ok_def)
  let ?go' = "\<lambda>y. t_time (tmos c y) = time \<and> t_proc (tmos c y) \<noteq> p"
  let ?ys = "dropWhile (\<lambda>y. tkey c y < sint time) (T q)"
  define us zs where "us = takeWhile (\<lambda>y. tkey c y < sint time) (T q) @ takeWhile ?go' ?ys" and "zs = dropWhile ?go' ?ys"
  note S = removeFromQueue_search(1) [OF ch, where cpu = cpu and time = time and p = p, folded us_def zs_def]
  have split: "T q = us @ zs"
    using removeFromQueue_search(2) [OF ch, where time = time and p = p] by (simp add: us_def zs_def)
  note E = search_ends [OF srt, of time p, folded zs_def]
  obtain z vs where z: "zs = z # vs" using d E(1) by (cases zs) auto
  have "\<not> (\<forall>y \<in> set zs. sint time < tkey c y)"
  proof -
    have "d \<in> set (filter (entry_of c time p) zs)" using d E(1) by simp
    then have "d \<in> set zs" "tkey c d = sint time" by (simp_all add: entry_of_def tkey_def)
    then show ?thesis by force
  qed
  then have e: "entry_of c time p z" using E(3) [OF z] z by blast
  then have zd: "z = d" using d E(1) z by simp
  have T: "T q = us @ d # vs" using split z zd by simp
  have nd: "d \<noteq> NULL" "d \<notin> set us" using chain_nonnull_set [OF ch] chain_distinct [OF ch] unfolding T by auto
  let ?c1 = "put_sched (on_hw (disable cpu)) c" and ?prev = "last (NULL # us)"
  have "removeFromQueue cpu q time p c = Inr (d, put_sched (on_hw (enable cpu)) (unlink_tmo q ?prev d ?c1))"
    unfolding S using z zd e nd by (simp add: Let_def)
  moreover have "tmo_ok (unlink_tmo q ?prev d ?c1) (T(q := us @ vs))"
    by (rule tmo_ok_remove [where T = T, OF _ q T refl]) (simp add: ok)
  moreover have "remove1 d (T q) = us @ vs" using nd(2) T by (simp add: remove1_append)
  ultimately show ?thesis using T
    by - (rule exI [of _ "put_sched (on_hw (enable cpu)) (unlink_tmo q ?prev d ?c1)"], rule exI [of _ ?prev],
      rule exI [of _ us], rule exI [of _ vs], simp del: last.simps)
qed

text \<open>With no such entry the first one of a later time is returned, and stays in the queue.\<close>

lemma remove_absent:
  assumes ok: "tmo_ok c T" and q: "q < NPUN" and none: "filter (entry_of c time p) (T q) = []"
  shows "removeFromQueue cpu q time p c =
    Inr (case filter (\<lambda>y. sint time < tkey c y) (T q) of [] \<Rightarrow> NULL | y # ys \<Rightarrow> y,
      put_sched (on_hw (enable cpu)) (put_sched (on_hw (disable cpu)) c))"
proof -
  have ch: "chain (tnext c) (timeQue c q) (T q)" and srt: "sorted (map (tkey c) (T q))"
    using ok q by (auto simp: tmo_ok_def)
  let ?go' = "\<lambda>y. t_time (tmos c y) = time \<and> t_proc (tmos c y) \<noteq> p"
  let ?ys = "dropWhile (\<lambda>y. tkey c y < sint time) (T q)"
  define zs where "zs = dropWhile ?go' ?ys"
  note S = removeFromQueue_search(1) [OF ch, where cpu = cpu and time = time and p = p, folded zs_def]
  note E = search_ends [OF srt, of time p, folded zs_def]
  show ?thesis
  proof (cases zs)
    case Nil
    then show ?thesis unfolding S E(2) by (simp add: Let_def)
  next
    case (Cons z vs)
    then have "\<not> entry_of c time p z" using none E(1) by auto
    moreover from this have "filter (\<lambda>y. sint time < tkey c y) zs = zs"
      using E(3) Cons by (simp add: filter_id_conv)
    ultimately show ?thesis using Cons unfolding S E(2) by (simp add: Let_def)
  qed
qed

subsection \<open>The timers of an alternation\<close>

lemma release_block:
  assumes "\<not> claimed c Mutex_mem" and "b \<noteq> NULL"
  shows "release_mem cpu TMO_INDEX b c = Done () (c\<lparr>claimed := (claimed c)(Mutex_mem := False),
    blk_next := (blk_next c)(b := procmemlist c TMO_INDEX), procmemlist := (procmemlist c)(TMO_INDEX := b)\<rparr>)"
  using assms by (simp add: release_mem_def release_mutex_def Let_def TMO_INDEX_def NALLOC_def)

lemma tmo_ok_memory [simp]:
  "tmo_ok (c\<lparr>claimed := m\<rparr>) T = tmo_ok c T" "tmo_ok (c\<lparr>blk_next := n\<rparr>) T = tmo_ok c T"
  "tmo_ok (c\<lparr>procmemlist := l\<rparr>) T = tmo_ok c T" "tmo_ok (c\<lparr>tail := t\<rparr>) T = tmo_ok c T"
  by (rule tmo_ok_cong; simp add: tnext_def [abs_def] tkey_def [abs_def])+

lemma mem_ok_put_sched [simp]: "mem_ok lo (put_sched f c) F L = mem_ok lo c F L"
  by (simp add: put_sched_def mem_ok_def)

lemma mem_ok_tmos [simp]:
  "mem_ok lo (c\<lparr>tmos := t\<rparr>) F L = mem_ok lo c F L" "mem_ok lo (link_tmo q d prev cur c) F L = mem_ok lo c F L"
  by (simp_all add: link_tmo_def set_tmo_next_def mem_ok_def)

lemma hw_only_mem:
  assumes "hw_only c c'"
  shows "mem_ok lo c' F L = mem_ok lo c F L"
proof -
  obtain h where "c' = c\<lparr>sch := h\<rparr>" using assms unfolding hw_only_def by blast
  then show ?thesis by (simp add: mem_ok_def)
qed

lemma read_once_fields [simp]:
  "tmo_ok (read_once c) T = tmo_ok c T" "mem_ok lo (read_once c) F L = mem_ok lo c F L" "claimed (read_once c) = claimed c"
  "entry_of (read_once c) = entry_of c" "tkey (read_once c) = tkey c" "proc_of (read_once c) = proc_of c"
  "procmemlist (read_once c) = procmemlist c" "room_for is (read_once c) = room_for is c"
  by (simp_all add: read_once_def entry_of_def [abs_def] proc_of_def [abs_def] on_hw_def)
    (simp_all add: put_sched_def room_for_def)

text \<open>The entry of the own process is taken out and its record released.\<close>

lemma disable_own:
  assumes ok: "tmo_ok c T" and q: "p_pun (proc_of c p) = q" "q < NPUN" and clk: "clock_ok cpu c"
    and mem: "mem_ok lo c F L" "\<not> claimed c Mutex_mem" and d: "filter (entry_of c time p) (T q) = d # ds"
    and L: "(d, TMO_INDEX) \<in> L"
  shows "\<exists>c'. disable_timeout cpu time p c = Done (time_le time (now_of c)) c' \<and>
    tmo_ok c' (T(q := remove1 d (T q))) \<and> mem_ok lo c' (F(TMO_INDEX := d # F TMO_INDEX)) (L - {(d, TMO_INDEX)}) \<and>
    procmemlist c' TMO_INDEX = d"
proof -
  let ?c = "read_once c"
  have pre: "tmo_ok ?c T" "filter (entry_of ?c time p) (T q) = d # ds" using ok d by simp_all
  obtain c1 prev us vs where c1: "removeFromQueue cpu q time p ?c = Inr (d, c1)" "T q = us @ d # vs"
    "c1 = put_sched (on_hw (enable cpu)) (unlink_tmo q prev d (put_sched (on_hw (disable cpu)) ?c))"
    "tmo_ok c1 (T(q := remove1 d (T q)))"
    using remove_found [where cpu = cpu, OF pre(1) q(2) pre(2)] by (elim exE conjE) (rule that)
  have m1: "mem_ok lo c1 F L" "\<not> claimed c1 Mutex_mem" using mem c1(3) by simp_all
  obtain c2 where c2: "release_mem cpu TMO_INDEX d c1 = Done () c2"
    "mem_ok lo c2 (F(TMO_INDEX := d # F TMO_INDEX)) (L - {(d, TMO_INDEX)})" "procmemlist c2 TMO_INDEX = d"
    using release_mem_ok [OF m1(1) L m1(2)] by blast
  have dn: "d \<noteq> NULL" using chain_nonnull_set [of "tnext c" "timeQue c q" "T q"] ok q(2) c1(2) by (auto simp: tmo_ok_def)
  have "tmo_ok c2 (T(q := remove1 d (T q)))" using c2(1) release_block [OF m1(2) dn] c1(4) by auto
  then show ?thesis using c1(1) c2 dn q(1) GetCurrentTime_eq [OF clk]
    by (intro exI [of _ c2]) (simp add: disable_timeout_def of_res_def)
qed

text \<open>
  C38. An alternation that takes back a timer whose entry is gone, because it has expired meanwhile,
  releases the record of the next timeout in the queue, which belongs to another process and stays
  in the queue: the next timeout that is entered gets the same record.
\<close>

theorem disable_releases_foreign:
  assumes "tmo_ok c T" and "p_pun (proc_of c p) = q" and "q < NPUN" and "clock_ok cpu c" and "\<not> claimed c Mutex_mem"
    and "filter (entry_of c time p) (T q) = []" and "filter (\<lambda>y. sint time < tkey c y) (T q) = y # ys"
  shows "\<exists>c1 c2. disable_timeout cpu time p c = Done (time_le time (now_of c)) c1 \<and> tmo_ok c1 T \<and>
    allocate_mem cpu TMO_INDEX c1 = Done y c2 \<and> tmo_ok c2 T"
proof -
  let ?c = "put_sched (on_hw (enable cpu)) (put_sched (on_hw (disable cpu)) (read_once c))"
  have yT: "y \<in> set (T q)" using assms(7) by (metis filter_eq_ConsD in_set_conv_decomp)
  then have y: "y \<noteq> NULL"
    using chain_nonnull_set [of "tnext c" "timeQue c q" "T q"] assms(1,3) by (auto simp: tmo_ok_def)
  have "removeFromQueue cpu q time p (read_once c) = Inr (y, ?c)"
    using remove_absent [of "read_once c" T q time p cpu] assms(1,3,6,7) by simp
  moreover have free: "\<not> claimed ?c Mutex_mem" using assms(5) by simp
  moreover have "tmo_ok ?c T" using assms(1) by simp
  ultimately show ?thesis
    using release_block [OF free y, of cpu] y assms(2) GetCurrentTime_eq [OF assms(4)]
    by (auto simp: disable_timeout_def of_res_def allocate_mem_def release_mutex_def Let_def TMO_INDEX_def NALLOC_def)
qed

theorem disable_releases_foreign_witness:
  "\<exists>c1 c2. disable_timeout 0 500000000 0x300 sample_due = Done True c1 \<and>
    allocate_mem 0 TMO_INDEX c1 = Done 0x810 c2 \<and> tmo_ok c2 sample_times"
proof -
  have t: "tmos sample_due 0x800 = \<lparr>t_time = 500000000, t_proc = 0x600, t_next = 0x810, t_type = TMO_AFTER\<rparr>"
    "t_time (tmos sample_due 0x810) = 5000000000" by (simp_all add: sample_due_def)
  have f: "filter (entry_of sample_due 500000000 0x300) (sample_times 0) = []"
    "filter (\<lambda>y. sint (500000000 :: Time) < tkey sample_due y) (sample_times 0) = 0x810 # []"
    by (simp_all add: sample_times_def entry_of_def t sample_due_facts)
  have q: "p_pun (proc_of sample_due 0x300) = 0" "(0 :: pun) < NPUN" "\<not> claimed sample_due Mutex_mem"
    by (simp_all add: proc_of_def sample_due_def NPUN_def sample_cxp_def sample_sched_def sample_process_def)
  have "time_le 500000000 (now_of sample_due)" by (simp add: time_le_def sample_due_facts)
  then show ?thesis
    using disable_releases_foreign [where cpu = 0, OF sample_due_facts(1) q(1,2) sample_due_facts(2) q(3) f] by auto
qed

text \<open>A new entry.\<close>

lemma tmo_ok_fill:
  assumes "tmo_ok c T" and "\<forall>r < NPUN. b \<notin> set (T r)"
  shows "tmo_ok (c\<lparr>tmos := (tmos c)(b := e)\<rparr>) T"
proof -
  let ?c = "c\<lparr>tmos := (tmos c)(b := e)\<rparr>"
  have "chain (tnext ?c) (timeQue c q) (T q) = chain (tnext c) (timeQue c q) (T q)" if "q < NPUN" for q
    using assms(2) that by (intro chain_cong) (auto simp: tnext_def)
  moreover have "map (tkey ?c) (T q) = map (tkey c) (T q)" if "q < NPUN" for q
    using assms(2) that by (auto simp: tkey_def)
  ultimately show ?thesis using assms(1) unfolding tmo_ok_def by (simp del: map_eq_conv)
qed

lemma sort_one:
  assumes "sorted (map k xs)" and "b \<notin> set xs"
  shows "remove1 b (sort_key k (xs @ [b])) = xs"
proof -
  let ?go = "\<lambda>y. k y \<le> k b"
  have "b \<notin> set (takeWhile ?go xs)" using assms(2) by (auto dest: set_takeWhileD)
  then have "remove1 b (insert_at ?go b xs) = takeWhile ?go xs @ dropWhile ?go xs"
    by (simp add: insert_at_def remove1_append)
  then show ?thesis unfolding insert_at_sorted [OF assms(1)] by simp
qed

text \<open>
  The addresses in the queues lie in live blocks: the descriptors of alternations are blocks of
  their own, and those of \<^verbatim>\<open>After\<close> lie on the stacks of their processes.
\<close>

definition tmos_live :: "(pun \<Rightarrow> addr list) \<Rightarrow> (addr \<times> nat) set \<Rightarrow> bool" where
  "tmos_live T L \<longleftrightarrow> (\<forall>r < NPUN. \<forall>y \<in> set (T r). \<exists>x \<in> L. unat y \<in> span x)"

lemma enable_enters:
  assumes ok: "tmo_ok c T" and q: "p_pun (proc_of c p) = q" "q < NPUN" and clk: "clock_ok cpu c"
    and tm: "timeout_timer cpu c = Some tm" and mem: "mem_ok lo c F L" "\<not> claimed c Mutex_mem" "room_for [TMO_INDEX] c"
    and L: "tmos_live T L" and later: "sint (now_of c) < sint time"
    and lim: "\<forall>n. sint (time - now_at c n) < 2 ^ 31 * NS_PER_SEC"
    and none: "filter (entry_of c time p) (T q) = []"
  shows "\<exists>b c' F'. enable_timeout cpu time p c = Done False c' \<and> b \<notin> set (T q) \<and> (b, TMO_INDEX) \<notin> L \<and>
    tmo_ok c' (T(q := sort_key (tkey c') (T q @ [b]))) \<and> mem_ok lo c' F' (insert (b, TMO_INDEX) L) \<and>
    \<not> claimed c' Mutex_mem \<and> clock_ok cpu c' \<and> p_pun (proc_of c' p) = q \<and>
    filter (entry_of c' time p) (sort_key (tkey c') (T q @ [b])) = [b] \<and> sorted (map (tkey c') (T q))"
proof -
  let ?c = "read_once c"
  have pre: "mem_ok lo ?c F L" "room_for [TMO_INDEX] ?c" "\<not> claimed ?c Mutex_mem" using mem by simp_all
  obtain b c1 F' pl tl where a: "allocate_mem cpu TMO_INDEX ?c = Done b c1"
    "c1 = ?c\<lparr>claimed := (claimed ?c)(Mutex_mem := False), procmemlist := pl, tail := tl\<rparr>"
    "b \<noteq> NULL" "(b, TMO_INDEX) \<notin> L" "mem_ok lo c1 F' (insert (b, TMO_INDEX) L)"
    "\<forall>x \<in> L. fst x \<noteq> b \<and> span x \<inter> span (b, TMO_INDEX) = {}"
    using allocate_ok [OF pre, of cpu] by (elim exE conjE) (rule that)
  have new: "\<forall>r < NPUN. b \<notin> set (T r)"
  proof (intro allI impI notI)
    fix r assume "r < NPUN" "b \<in> set (T r)"
    then obtain x where "x \<in> L" "unat b \<in> span x" using L unfolding tmos_live_def by blast
    then show False using a(6) span_nonempty [of TMO_INDEX b] by (auto simp: TMO_INDEX_def NCLASS_def)
  qed
  let ?e = "(tmos c1 b)\<lparr>t_time := time, t_proc := p, t_type := TMO_ALTING\<rparr>"
  let ?c2 = "c1\<lparr>tmos := (tmos c1)(b := ?e)\<rparr>"
  have t1: "tmos c1 = tmos c" using a(2) by (simp add: read_once_def)
  have "tmo_ok c1 T" using a(2) ok by simp
  then have ok2: "tmo_ok ?c2 T" by (rule tmo_ok_fill [OF _ new])
  have s2: "sch ?c2 = sch ?c" "currentTime ?c2 = currentTime c" using a(2) by (simp_all add: read_once_def)
  have n2: "now_at ?c2 = now_at c" using s2 by (simp add: now_at_def read_once_def on_hw_def fun_eq_iff)
  have clk2: "clock_ok cpu ?c2" and tm2: "timeout_timer cpu ?c2 = Some tm"
    using clk tm s2 by (simp_all add: clock_ok_def timeout_timer_def read_once_def on_hw_def)
  have lim2: "sint (left_until ?c2 (t_time (tmos ?c2 b))) < 2 ^ 31 * NS_PER_SEC"
    using lim unfolding left_until_def now_of_at n2 by simp
  obtain c3 prev cur tm' where c3: "insertInQueue cpu q b ?c2 = Inr c3" "hw_only (link_tmo q b prev cur ?c2) c3"
    "tmo_ok c3 (T(q := sort_key (tkey ?c2) (T q @ [b])))" "timeout_timer cpu c3 = Some tm'"
    using insertInQueue_ok [OF ok2 q(2) a(3) new clk2 tm2 lim2] by (elim exE conjE) (rule that)
  note K = hw_onlyD [OF c3(2)]
  have k3: "tkey c3 = tkey ?c2" using K(4) by simp
  have e3: "entry_of c3 time p y \<longleftrightarrow> y = b \<or> entry_of c time p y" if "y \<in> set (T q @ [b])" for y
    using K(1) t1 new q(2) that by (auto simp: entry_of_def)
  have "filter (entry_of c3 time p) (T q @ [b]) = [b]"
    using e3 none new q(2) by (auto simp: filter_empty_conv)
  then have f3: "filter (entry_of c3 time p) (sort_key (tkey c3) (T q @ [b])) = [b]"
    by (simp only: filter_sort) simp
  have "mem_ok lo c3 F' (insert (b, TMO_INDEX) L)"
    using hw_only_mem [OF c3(2)] a(5) by simp
  moreover have "\<not> claimed c3 Mutex_mem" using K(8) a(2) by (simp add: link_tmo_def set_tmo_next_def)
  moreover have "clock_ok cpu c3" using K(11) clk2 by simp
  moreover have "p_pun (proc_of c3 p) = q" using K(6) s2 q(1) by (simp add: proc_of_def read_once_def)
  moreover have "enable_timeout cpu time p c = Done False c3"
  proof -
    have "p_pun (proc_of ?c2 p) = q" using s2 q(1) by (simp add: proc_of_def read_once_def)
    then show ?thesis using a(1) c3(1) later GetCurrentTime_eq [OF clk]
      by (simp add: enable_timeout_def of_res_def of_step_def time_le_def proc_of_def Let_def)
  qed
  moreover have "sorted (map (tkey c3) (T q))" using ok2 q(2) unfolding tmo_ok_def k3 by blast
  ultimately show ?thesis using c3(3) k3 f3 new q(2) a(4)
    by - (rule exI [of _ b], rule exI [of _ c3], rule exI [of _ F'], simp)
qed

text \<open>
  C21. A round trip: an alternation that enters a timer and takes it back leaves the timeout queue as
  it was; the record of the timer, which no live block overlapped, is free again.
\<close>

theorem enable_then_disable:
  assumes "tmo_ok c T" and "p_pun (proc_of c p) = q" and "q < NPUN" and "clock_ok cpu c"
    and "timeout_timer cpu c = Some tm" and "mem_ok lo c F L" and "\<not> claimed c Mutex_mem" and "room_for [TMO_INDEX] c"
    and "tmos_live T L" and "sint (now_of c) < sint time"
    and "\<forall>n. sint (time - now_at c n) < 2 ^ 31 * NS_PER_SEC"
    and "filter (entry_of c time p) (T q) = []"
  shows "\<exists>b c1 c2 F'. enable_timeout cpu time p c = Done False c1 \<and>
    tmo_ok c1 (T(q := sort_key (tkey c1) (T q @ [b]))) \<and>
    disable_timeout cpu time p c1 = Done (time_le time (now_of c1)) c2 \<and> tmo_ok c2 T \<and>
    mem_ok lo c2 F' L \<and> procmemlist c2 TMO_INDEX = b"
proof -
  obtain b c1 F' where b: "enable_timeout cpu time p c = Done False c1" "b \<notin> set (T q)" "(b, TMO_INDEX) \<notin> L"
    "tmo_ok c1 (T(q := sort_key (tkey c1) (T q @ [b])))" "mem_ok lo c1 F' (insert (b, TMO_INDEX) L)"
    "\<not> claimed c1 Mutex_mem" "clock_ok cpu c1" "p_pun (proc_of c1 p) = q"
    "filter (entry_of c1 time p) (sort_key (tkey c1) (T q @ [b])) = [b]" "sorted (map (tkey c1) (T q))"
    using enable_enters [OF assms] by (elim exE conjE) (rule that)
  let ?T = "T(q := sort_key (tkey c1) (T q @ [b]))"
  have f: "filter (entry_of c1 time p) (?T q) = b # []" and L: "(b, TMO_INDEX) \<in> insert (b, TMO_INDEX) L"
    using b(9) by simp_all
  obtain c2 where c2: "disable_timeout cpu time p c1 = Done (time_le time (now_of c1)) c2"
    "tmo_ok c2 (?T(q := remove1 b (?T q)))"
    "mem_ok lo c2 (F'(TMO_INDEX := b # F' TMO_INDEX)) (insert (b, TMO_INDEX) L - {(b, TMO_INDEX)})"
    "procmemlist c2 TMO_INDEX = b"
    using disable_own [OF b(4,8) assms(3) b(7,5,6) f L] by (elim exE conjE) (rule that)
  have "?T(q := remove1 b (?T q)) = T" using sort_one [OF b(10,2)] by simp
  then show ?thesis using b c2 by auto
qed

theorem enable_then_disable_witness:
  "\<exists>b c1 c2. enable_timeout 0 5000000000 0x300 sample_timer = Done False c1 \<and>
    tmo_ok c1 ((\<lambda>_. [])(0 := [b])) \<and> disable_timeout 0 5000000000 0x300 c1 = Done (time_le 5000000000 (now_of c1)) c2 \<and>
    tmo_ok c2 (\<lambda>_. [])"
proof -
  have m: "mem_ok 65536 sample_timer (\<lambda>_. []) {}" "\<not> claimed sample_timer Mutex_mem" "room_for [TMO_INDEX] sample_timer"
    using sample_mem_ok by (simp_all add: sample_timer_def mem_ok_def)
      (simp_all add: sample_cxp_def room_for_def TMO_INDEX_def NCLASS_def class_size_def procmemlen_def)
  have n: "now_at sample_timer n = 600000000" for n
    by (simp add: now_at_def sample_timer_def sample_cxp_def sample_clock_hw_def sample_hw_def ts_time_def Tick_def NS_PER_SEC_def)
  have q: "p_pun (proc_of sample_timer 0x300) = 0" "(0 :: pun) < NPUN"
    by (simp_all add: proc_of_def sample_timer_def NPUN_def sample_sched_def sample_process_def)
  have t: "tmos_live (\<lambda>_. []) {}" "sint (now_of sample_timer) < sint (5000000000 :: Time)"
    "\<forall>k. sint (5000000000 - now_at sample_timer k) < 2 ^ 31 * NS_PER_SEC"
    by (simp_all add: tmos_live_def sample_timer_facts n NS_PER_SEC_def)
  show ?thesis
    using enable_then_disable [where cpu = 0, OF sample_timer_facts(1) q sample_timer_facts(2,3) m t] by auto
qed

end
