(* ===== verification/Ipq_Concurrent.thy ===== *)
theory Ipq_Concurrent
  imports Ipq
begin

text \<open>
  The interprocessor queue under interleaving: every atomic access of \<^verbatim>\<open>ipq_add\<close> and of
  \<^verbatim>\<open>ipq_remove\<close> is a step of its own. Any number of processors may add; one removes. With
  one adder, as on the two processors of the source, nothing is lost and the order is kept, and
  whenever both are between two operations the ring is one of the states of \<open>Ipq\<close>, where the
  operations are treated as indivisible. With two adders an entry can be added to a full ring.
\<close>

subsection \<open>The accesses\<close>

text \<open>
  Where an adder is: it has loaded \<^verbatim>\<open>nextAdd\<close>; it has also loaded \<^verbatim>\<open>nextRem\<close> and seen
  room; it has moved \<^verbatim>\<open>nextAdd\<close> and has still to fill the slot. Where the remover is: it
  has loaded \<^verbatim>\<open>nextRem\<close>; it has also loaded \<^verbatim>\<open>nextAdd\<close> and seen an entry; it
  has taken the entry and has still to move \<^verbatim>\<open>nextRem\<close>.
\<close>

datatype adder_at = Add_start | Add_loaded nat | Add_room nat | Add_store nat

datatype remover_at = Rem_start | Rem_loaded nat | Rem_entry nat | Rem_taken nat addr

record ring_run =
  r_ring :: ipqueue
  r_adder :: "nat \<Rightarrow> adder_at"
  r_todo :: "nat \<Rightarrow> addr list"  \<comment> \<open>what an adder still has to add\<close>
  r_remover :: remover_at
  r_taken :: "addr list"

inductive ring_step :: "ring_run \<Rightarrow> ring_run \<Rightarrow> bool" where
  load_add: "r_adder h i = Add_start \<Longrightarrow> r_todo h i \<noteq> [] \<Longrightarrow>
    ring_step h (h\<lparr>r_adder := (r_adder h)(i := Add_loaded (nextAdd (r_ring h)))\<rparr>)"
| load_rem: "r_adder h i = Add_loaded a \<Longrightarrow>
    ring_step h (h\<lparr>r_adder := (r_adder h)(i := (if nextRem (r_ring h) = ipq_next a then Add_start else Add_room a))\<rparr>)"
| exchange_add: "r_adder h i = Add_room a \<Longrightarrow>
    ring_step h (if nextAdd (r_ring h) = a
      then h\<lparr>r_ring := (r_ring h)\<lparr>nextAdd := ipq_next a\<rparr>, r_adder := (r_adder h)(i := Add_store a)\<rparr>
      else h\<lparr>r_adder := (r_adder h)(i := Add_start)\<rparr>)"
| store: "r_adder h i = Add_store a \<Longrightarrow>
    ring_step h (h\<lparr>r_ring := (r_ring h)\<lparr>que := (que (r_ring h))[a := hd (r_todo h i)]\<rparr>,
      r_adder := (r_adder h)(i := Add_start), r_todo := (r_todo h)(i := tl (r_todo h i))\<rparr>)"
| rem_load: "r_remover h = Rem_start \<Longrightarrow> ring_step h (h\<lparr>r_remover := Rem_loaded (nextRem (r_ring h))\<rparr>)"
| rem_compare: "r_remover h = Rem_loaded r \<Longrightarrow>
    ring_step h (h\<lparr>r_remover := (if nextAdd (r_ring h) = r then Rem_start else Rem_entry r)\<rparr>)"
| rem_exchange: "r_remover h = Rem_entry r \<Longrightarrow> p = que (r_ring h) ! r \<Longrightarrow>
    ring_step h (h\<lparr>r_ring := (r_ring h)\<lparr>que := (que (r_ring h))[r := NULL]\<rparr>,
      r_remover := (if p = NULL then Rem_start else Rem_taken r p)\<rparr>)"
| rem_release: "r_remover h = Rem_taken r p \<Longrightarrow>
    ring_step h (h\<lparr>r_ring := (r_ring h)\<lparr>nextRem := ipq_next r\<rparr>, r_remover := Rem_start,
      r_taken := r_taken h @ [p]\<rparr>)"

definition ring_start :: "(nat \<Rightarrow> addr list) \<Rightarrow> ring_run" where
  "ring_start todo = \<lparr>r_ring = ipq_init, r_adder = (\<lambda>_. Add_start), r_todo = todo,
     r_remover = Rem_start, r_taken = []\<rparr>"

definition at_rest :: "ring_run \<Rightarrow> bool" where
  "at_rest h \<longleftrightarrow> (\<forall>i. r_adder h i = Add_start) \<and> r_remover h = Rem_start"

subsection \<open>The slots in the order of removal\<close>

definition slots :: "ipqueue \<Rightarrow> addr list" where
  "slots q = rotate (nextRem q) (que q)"

definition ring_ok :: "ipqueue \<Rightarrow> bool" where
  "ring_ok q \<longleftrightarrow> length (que q) = QSIZE \<and> nextAdd q < QSIZE \<and> nextRem q < QSIZE"

lemma length_slots: "ring_ok q \<Longrightarrow> length (slots q) = QSIZE"
  by (simp add: slots_def ring_ok_def)

lemma nth_slots: "ring_ok q \<Longrightarrow> i < QSIZE \<Longrightarrow> slots q ! i = que q ! ((nextRem q + i) mod QSIZE)"
  by (simp add: slots_def ring_ok_def nth_rotate add.commute)

lemma contents_slots: "ring_ok q \<Longrightarrow> ipq_contents q = take (ipq_count q) (slots q)"
proof -
  assume ok: "ring_ok q"
  have c: "ipq_count q < QSIZE" by simp
  show ?thesis
  proof (rule nth_equalityI)
    show "length (ipq_contents q) = length (take (ipq_count q) (slots q))"
      using c length_slots [OF ok] by (simp add: length_ipq_contents)
    fix i assume "i < length (ipq_contents q)"
    then have i: "i < ipq_count q" by (simp add: length_ipq_contents)
    then have "slots q ! i = que q ! ((nextRem q + i) mod QSIZE)" using c by (intro nth_slots [OF ok]) linarith
    then show "ipq_contents q ! i = take (ipq_count q) (slots q) ! i" using i by (simp add: ipq_contents_def)
  qed
qed

lemma slots_release:
  assumes "ring_ok q"
  shows "slots (q\<lparr>nextRem := ipq_next (nextRem q)\<rparr>) = rotate1 (slots q)"
proof -
  have "rotate (ipq_next (nextRem q)) (que q) = rotate (Suc (nextRem q)) (que q)"
    using assms by (simp only: ring_ok_def ipq_next_mod) (metis rotate_conv_mod)
  then show ?thesis by (simp add: slots_def)
qed

lemma slots_write:
  assumes "ring_ok q" and "j < QSIZE"
  shows "slots (q\<lparr>que := (que q)[(nextRem q + j) mod QSIZE := x]\<rparr>) = (slots q)[j := x]"
proof (rule nth_equalityI)
  let ?q = "q\<lparr>que := (que q)[(nextRem q + j) mod QSIZE := x]\<rparr>"
  have ok: "ring_ok ?q" using assms(1) by (simp add: ring_ok_def)
  show "length (slots ?q) = length ((slots q)[j := x])" using length_slots [OF ok] length_slots [OF assms(1)] by simp
  fix i assume "i < length (slots ?q)"
  then have i: "i < QSIZE" using length_slots [OF ok] by simp
  have "(nextRem q + i) mod QSIZE = (nextRem q + j) mod QSIZE \<longleftrightarrow> i = j"
  proof -
    have m: "(nextRem q + k) mod 5 = (if nextRem q + k < 5 then nextRem q + k else nextRem q + k - 5)" if "k < 5" for k
      using that assms(1) by (auto simp: ring_ok_def QSIZE_def le_mod_geq intro!: mod_less)
    have "i < 5" "j < 5" "nextRem q < 5" using i assms by (simp_all add: ring_ok_def QSIZE_def)
    then show ?thesis unfolding QSIZE_def m [OF \<open>i < 5\<close>] m [OF \<open>j < 5\<close>] by auto
  qed
  moreover have "(nextRem q + i) mod QSIZE < length (que q)" using assms(1) by (simp add: ring_ok_def QSIZE_def)
  ultimately show "slots ?q ! i = (slots q)[j := x] ! i"
    using i assms(2) length_slots [OF assms(1)] by (auto simp: nth_slots [OF ok] nth_slots [OF assms(1)] nth_list_update)
qed

subsection \<open>One adder\<close>

text \<open>
  The entries between the two pointers, \<open>vs\<close>, are in the slots, but for the last one while it has
  still to be stored and the first one while it is being taken; all other slots are empty.
\<close>

definition shown :: "bool \<Rightarrow> bool \<Rightarrow> addr list \<Rightarrow> addr list" where
  "shown storing taking vs =
     (let ws = (if storing then vs[length vs - 1 := NULL] else vs) in if taking then ws[0 := NULL] else ws)"

abbreviation storing :: "ring_run \<Rightarrow> bool" where
  "storing h \<equiv> (\<exists>a. r_adder h 0 = Add_store a)"

abbreviation taking :: "ring_run \<Rightarrow> bool" where
  "taking h \<equiv> (\<exists>r p. r_remover h = Rem_taken r p)"

definition adder_ok :: "ring_run \<Rightarrow> addr list \<Rightarrow> bool" where
  "adder_ok h vs \<longleftrightarrow> (let q = r_ring h in case r_adder h 0 of
       Add_start \<Rightarrow> True
     | Add_loaded a \<Rightarrow> a = nextAdd q \<and> r_todo h 0 \<noteq> []
     | Add_room a \<Rightarrow> a = nextAdd q \<and> r_todo h 0 \<noteq> [] \<and> length vs < QSIZE - 1
     | Add_store a \<Rightarrow> r_todo h 0 \<noteq> [] \<and> vs \<noteq> [] \<and> last vs = hd (r_todo h 0) \<and>
         a = (nextRem q + (length vs - 1)) mod QSIZE)"

definition remover_ok :: "ring_run \<Rightarrow> addr list \<Rightarrow> bool" where
  "remover_ok h vs \<longleftrightarrow> (let q = r_ring h in case r_remover h of
       Rem_start \<Rightarrow> True
     | Rem_loaded r \<Rightarrow> r = nextRem q
     | Rem_entry r \<Rightarrow> r = nextRem q \<and> vs \<noteq> []
     | Rem_taken r p \<Rightarrow> r = nextRem q \<and> vs \<noteq> [] \<and> p = hd vs \<and> (storing h \<longrightarrow> 2 \<le> length vs))"

definition ring_inv :: "addr list \<Rightarrow> ring_run \<Rightarrow> bool" where
  "ring_inv xs h \<longleftrightarrow> ring_ok (r_ring h) \<and> (\<forall>i. i \<noteq> 0 \<longrightarrow> r_adder h i = Add_start \<and> r_todo h i = []) \<and>
     (\<exists>vs. length vs = ipq_count (r_ring h) \<and>
        slots (r_ring h) = shown (storing h) (taking h) vs @ replicate (QSIZE - length vs) NULL \<and>
        xs = r_taken h @ vs @ (if storing h then tl (r_todo h 0) else r_todo h 0) \<and>
        adder_ok h vs \<and> remover_ok h vs)"

lemma length_shown [simp]: "length (shown s t vs) = length vs"
  by (simp add: shown_def Let_def)

lemma ipq_count_moves:
  assumes "ring_ok q"
  shows "ipq_count q < QSIZE - 1 \<Longrightarrow> ipq_count (q\<lparr>nextAdd := ipq_next (nextAdd q)\<rparr>) = Suc (ipq_count q)"
    and "nextAdd q \<noteq> nextRem q \<Longrightarrow> ipq_count (q\<lparr>nextRem := ipq_next (nextRem q)\<rparr>) = ipq_count q - 1"
    and "nextAdd q = nextRem q \<longleftrightarrow> ipq_count q = 0"
    and "nextRem q = ipq_next (nextAdd q) \<longleftrightarrow> ipq_count q = QSIZE - 1"
    and "nextAdd q = (nextRem q + ipq_count q) mod QSIZE"
  using assms ring_index(1,3-6) [of "nextAdd q" "nextRem q"]
  by (simp_all add: ring_ok_def ipq_count_def QSIZE_def ipq_next_mod [unfolded QSIZE_def])

lemma shown_grow: "(t \<longrightarrow> vs \<noteq> []) \<Longrightarrow> shown True t (vs @ [x]) = shown False t vs @ [NULL]"
  by (auto simp: shown_def Let_def list_update_append)

lemma shown_store:
  assumes "vs \<noteq> []" and "t \<longrightarrow> 2 \<le> length vs"
  shows "(shown True t vs)[length vs - 1 := last vs] = shown False t vs"
proof -
  obtain us x where vs: "vs = us @ [x]" using assms(1) by (cases vs rule: rev_cases) auto
  then show ?thesis using assms(2) by (cases us) (auto simp: shown_def Let_def list_update_append)
qed

lemma shown_take:
  assumes "vs \<noteq> []" and "s \<longrightarrow> 2 \<le> length vs"
  shows "(shown s False vs)[0 := NULL] = shown s True vs" and "shown s False vs ! 0 = hd vs"
  using assms by (cases vs; cases "tl vs"; auto simp: shown_def Let_def)+

lemma shown_release: "(s \<longrightarrow> ws \<noteq> []) \<Longrightarrow> shown s True (v # ws) = NULL # shown s False ws"
  by (cases ws) (auto simp: shown_def Let_def)

lemma ring_inv_start: "NULL \<notin> set xs \<Longrightarrow> ring_inv xs (ring_start ((\<lambda>_. [])(0 := xs)))"
  by (auto simp: ring_inv_def ring_start_def ring_ok_def ipq_init_def ipq_count_def slots_def shown_def adder_ok_def
      remover_ok_def QSIZE_def Let_def intro!: exI [of _ "[]"])

lemma ring_invE:
  assumes "ring_inv xs h"
  obtains vs where "ring_ok (r_ring h)" "\<forall>i. i \<noteq> 0 \<longrightarrow> r_adder h i = Add_start \<and> r_todo h i = []"
    "length vs = ipq_count (r_ring h)" "length vs < QSIZE"
    "slots (r_ring h) = shown (storing h) (taking h) vs @ replicate (QSIZE - length vs) NULL"
    "xs = r_taken h @ vs @ (if storing h then tl (r_todo h 0) else r_todo h 0)" "adder_ok h vs" "remover_ok h vs"
proof -
  have c: "ipq_count (r_ring h) < QSIZE" by simp
  obtain vs where v: "length vs = ipq_count (r_ring h)"
    "slots (r_ring h) = shown (storing h) (taking h) vs @ replicate (QSIZE - length vs) NULL"
    "xs = r_taken h @ vs @ (if storing h then tl (r_todo h 0) else r_todo h 0)" "adder_ok h vs" "remover_ok h vs"
    using assms unfolding ring_inv_def by (elim conjE exE) (rule that)
  have "length vs < QSIZE" unfolding v(1) by (rule c)
  moreover have "ring_ok (r_ring h)" "\<forall>i. i \<noteq> 0 \<longrightarrow> r_adder h i = Add_start \<and> r_todo h i = []"
    using assms unfolding ring_inv_def by blast+
  ultimately show ?thesis using v by - (rule that)
qed

text \<open>The steps of the adder.\<close>

lemma inv_exchange_add:
  assumes inv: "ring_inv xs h" and a: "r_adder h 0 = Add_room a"
  shows "ring_inv xs (h\<lparr>r_ring := (r_ring h)\<lparr>nextAdd := ipq_next a\<rparr>, r_adder := (r_adder h)(0 := Add_store a)\<rparr>)"
proof -
  obtain vs where v: "ring_ok (r_ring h)" "\<forall>i. i \<noteq> 0 \<longrightarrow> r_adder h i = Add_start \<and> r_todo h i = []"
    "length vs = ipq_count (r_ring h)" "length vs < QSIZE"
    "slots (r_ring h) = shown (storing h) (taking h) vs @ replicate (QSIZE - length vs) NULL"
    "xs = r_taken h @ vs @ (if storing h then tl (r_todo h 0) else r_todo h 0)" "adder_ok h vs" "remover_ok h vs"
    using inv by (rule ring_invE)
  let ?q = "(r_ring h)\<lparr>nextAdd := ipq_next a\<rparr>" and ?x = "hd (r_todo h 0)"
  let ?h = "h\<lparr>r_ring := ?q, r_adder := (r_adder h)(0 := Add_store a)\<rparr>"
  have ad: "a = nextAdd (r_ring h)" "r_todo h 0 \<noteq> []" "length vs < QSIZE - 1" "\<not> storing h"
    using v(7) a by (simp_all add: adder_ok_def Let_def)
  have cnt: "ipq_count ?q = Suc (length vs)" using ipq_count_moves(1) [OF v(1)] ad v(3) by simp
  have tk: "taking h \<longrightarrow> vs \<noteq> []" using v(8) by (auto simp: remover_ok_def Let_def)
  have "slots ?q = shown False (taking h) vs @ replicate (QSIZE - length vs) NULL"
    using v(5) ad(4) by (simp add: slots_def)
  also have "replicate (QSIZE - length vs) NULL = NULL # replicate (QSIZE - Suc (length vs)) (NULL :: addr)"
    using v(4) by (simp add: Suc_diff_Suc [symmetric])
  finally have "slots ?q = shown True (taking h) (vs @ [?x]) @ replicate (QSIZE - length (vs @ [?x])) NULL"
    using shown_grow [OF tk] by simp
  moreover have "ring_ok ?q" using v(1) ad(1) by (simp add: ring_ok_def)
  moreover have "adder_ok ?h (vs @ [?x])"
    using ad v(3) ipq_count_moves(5) [OF v(1)] by (simp add: adder_ok_def)
  moreover have "remover_ok ?h (vs @ [?x])"
    using v(8) by (auto simp: remover_ok_def Let_def Suc_le_eq split: remover_at.splits)
  moreover have "xs = r_taken h @ (vs @ [?x]) @ tl (r_todo h 0)" using v(6) ad(2,4) by simp
  ultimately show ?thesis using v(2) cnt unfolding ring_inv_def
    by (intro conjI exI [of _ "vs @ [?x]"]) simp_all
qed

lemma inv_store:
  assumes inv: "ring_inv xs h" and a: "r_adder h 0 = Add_store a"
  shows "ring_inv xs (h\<lparr>r_ring := (r_ring h)\<lparr>que := (que (r_ring h))[a := hd (r_todo h 0)]\<rparr>,
      r_adder := (r_adder h)(0 := Add_start), r_todo := (r_todo h)(0 := tl (r_todo h 0))\<rparr>)"
proof -
  obtain vs where v: "ring_ok (r_ring h)" "\<forall>i. i \<noteq> 0 \<longrightarrow> r_adder h i = Add_start \<and> r_todo h i = []"
    "length vs = ipq_count (r_ring h)" "length vs < QSIZE"
    "slots (r_ring h) = shown (storing h) (taking h) vs @ replicate (QSIZE - length vs) NULL"
    "xs = r_taken h @ vs @ (if storing h then tl (r_todo h 0) else r_todo h 0)" "adder_ok h vs" "remover_ok h vs"
    using inv by (rule ring_invE)
  let ?q = "(r_ring h)\<lparr>que := (que (r_ring h))[a := hd (r_todo h 0)]\<rparr>"
  let ?h = "h\<lparr>r_ring := ?q, r_adder := (r_adder h)(0 := Add_start), r_todo := (r_todo h)(0 := tl (r_todo h 0))\<rparr>"
  have ad: "r_todo h 0 \<noteq> []" "vs \<noteq> []" "last vs = hd (r_todo h 0)" "a = (nextRem (r_ring h) + (length vs - 1)) mod QSIZE"
    "storing h" using v(7) a by (simp_all add: adder_ok_def Let_def)
  have tk: "taking h \<longrightarrow> 2 \<le> length vs" using v(8) ad(5) by (auto simp: remover_ok_def Let_def)
  have "slots ?q = (slots (r_ring h))[length vs - 1 := last vs]"
    unfolding ad(3,4) using slots_write [OF v(1), of "length vs - 1"] v(4) by simp
  also have "\<dots> = shown False (taking h) vs @ replicate (QSIZE - length vs) NULL"
    using v(5) ad(2,5) shown_store [OF ad(2) tk] by (simp add: list_update_append)
  finally have "slots ?q = shown False (taking h) vs @ replicate (QSIZE - length vs) NULL" .
  moreover have "ring_ok ?q" using v(1) by (simp add: ring_ok_def)
  moreover have "ipq_count ?q = ipq_count (r_ring h)" by (simp add: ipq_count_def)
  moreover have "adder_ok ?h vs" by (simp add: adder_ok_def)
  moreover have "remover_ok ?h vs" using v(8) by (auto simp: remover_ok_def Let_def split: remover_at.splits)
  ultimately show ?thesis using v(2,3,6) ad(5) unfolding ring_inv_def by (intro conjI exI [of _ vs]) simp_all
qed

text \<open>The steps of the remover.\<close>

lemma inv_rem_exchange:
  assumes inv: "ring_inv xs h" and nn: "NULL \<notin> set xs" and r: "r_remover h = Rem_entry r" and p: "p = que (r_ring h) ! r"
  shows "ring_inv xs (h\<lparr>r_ring := (r_ring h)\<lparr>que := (que (r_ring h))[r := NULL]\<rparr>,
      r_remover := (if p = NULL then Rem_start else Rem_taken r p)\<rparr>)"
proof -
  obtain vs where v: "ring_ok (r_ring h)" "\<forall>i. i \<noteq> 0 \<longrightarrow> r_adder h i = Add_start \<and> r_todo h i = []"
    "length vs = ipq_count (r_ring h)" "length vs < QSIZE"
    "slots (r_ring h) = shown (storing h) (taking h) vs @ replicate (QSIZE - length vs) NULL"
    "xs = r_taken h @ vs @ (if storing h then tl (r_todo h 0) else r_todo h 0)" "adder_ok h vs" "remover_ok h vs"
    using inv by (rule ring_invE)
  let ?q = "(r_ring h)\<lparr>que := (que (r_ring h))[r := NULL]\<rparr>"
  let ?h = "h\<lparr>r_ring := ?q, r_remover := (if p = NULL then Rem_start else Rem_taken r p)\<rparr>"
  have re: "r = nextRem (r_ring h)" "vs \<noteq> []" "\<not> taking h" using v(8) r by (simp_all add: remover_ok_def Let_def)
  have r0: "r = (nextRem (r_ring h) + 0) mod QSIZE" and Q: "0 < QSIZE" using v(1) re(1) by (simp_all add: ring_ok_def QSIZE_def)
  have q: "slots ?q = (slots (r_ring h))[0 := NULL]" unfolding r0 using slots_write [OF v(1) Q] by simp
  have ps: "p = shown (storing h) False vs ! 0"
    using nth_slots [OF v(1) Q] v(5) re p r0 by (simp add: nth_append)
  have base: "ring_ok ?q" "ipq_count ?q = ipq_count (r_ring h)" "adder_ok ?h vs"
    using v(1,7) by (simp_all add: ring_ok_def ipq_count_def adder_ok_def Let_def split: adder_at.splits)
  show ?thesis
  proof (cases "storing h \<and> length vs < 2")
    case True
    then have pN: "p = NULL" and "(shown (storing h) False vs)[0 := NULL] = shown (storing h) False vs"
      using ps re(2) by (cases vs; auto simp: shown_def Let_def)+
    then have "slots ?q = shown (storing h) False vs @ replicate (QSIZE - length vs) NULL"
      using q v(5) re(2,3) by (simp add: list_update_append)
    then show ?thesis using v(2,3,6) base pN re(3) unfolding ring_inv_def
      by (intro conjI exI [of _ vs]) (simp_all add: remover_ok_def)
  next
    case False
    then have two: "storing h \<longrightarrow> 2 \<le> length vs" by auto
    have pv: "p = hd vs" using ps shown_take(2) [OF re(2) two] by simp
    have "hd vs \<in> set xs" using v(6) re(2) by simp
    then have pN: "p \<noteq> NULL" using pv nn by auto
    have "slots ?q = shown (storing h) True vs @ replicate (QSIZE - length vs) NULL"
      using q v(5) re(2,3) shown_take(1) [OF re(2) two] by (simp add: list_update_append)
    moreover have "remover_ok ?h vs" using re two pv pN by (simp add: remover_ok_def)
    ultimately show ?thesis using v(2,3,6) base pN re(3) unfolding ring_inv_def
      by (intro conjI exI [of _ vs]) simp_all
  qed
qed

lemma inv_rem_release:
  assumes inv: "ring_inv xs h" and r: "r_remover h = Rem_taken r p"
  shows "ring_inv xs (h\<lparr>r_ring := (r_ring h)\<lparr>nextRem := ipq_next r\<rparr>, r_remover := Rem_start, r_taken := r_taken h @ [p]\<rparr>)"
proof -
  obtain vs where v: "ring_ok (r_ring h)" "\<forall>i. i \<noteq> 0 \<longrightarrow> r_adder h i = Add_start \<and> r_todo h i = []"
    "length vs = ipq_count (r_ring h)" "length vs < QSIZE"
    "slots (r_ring h) = shown (storing h) (taking h) vs @ replicate (QSIZE - length vs) NULL"
    "xs = r_taken h @ vs @ (if storing h then tl (r_todo h 0) else r_todo h 0)" "adder_ok h vs" "remover_ok h vs"
    using inv by (rule ring_invE)
  let ?q = "(r_ring h)\<lparr>nextRem := ipq_next r\<rparr>"
  let ?h = "h\<lparr>r_ring := ?q, r_remover := Rem_start, r_taken := r_taken h @ [p]\<rparr>"
  have re: "r = nextRem (r_ring h)" "vs \<noteq> []" "p = hd vs" "storing h \<longrightarrow> 2 \<le> length vs" "taking h"
    using v(8) r by (simp_all add: remover_ok_def Let_def)
  obtain ws where vs: "vs = p # ws" using re(2,3) by (cases vs) auto
  have st: "storing h \<longrightarrow> ws \<noteq> []" using re(4) vs by auto
  have ne: "nextAdd (r_ring h) \<noteq> nextRem (r_ring h)" using ipq_count_moves(3) [OF v(1)] v(3) vs by simp
  have cnt: "ipq_count ?q = length ws" using ipq_count_moves(2) [OF v(1) ne] v(3) vs re(1) by simp
  have "slots ?q = rotate1 (NULL # shown (storing h) False ws @ replicate (QSIZE - length vs) NULL)"
    using slots_release [OF v(1)] v(5) re(1,5) shown_release [OF st] vs by simp
  also have "\<dots> = shown (storing h) False ws @ replicate (QSIZE - length vs) NULL @ [NULL]" by simp
  also have "replicate (QSIZE - length vs) NULL @ [NULL] = replicate (QSIZE - length ws) (NULL :: addr)"
    using v(4) vs by (simp add: replicate_append_same Suc_diff_Suc [symmetric])
  finally have "slots ?q = shown (storing h) False ws @ replicate (QSIZE - length ws) NULL" .
  moreover have "ring_ok ?q" using v(1) re(1) by (simp add: ring_ok_def)
  moreover have "adder_ok ?h ws"
  proof (cases "r_adder h 0")
    case (Add_store a)
    then have w: "ws \<noteq> []" using st by blast
    have "(ipq_next r + (length ws - 1)) mod QSIZE = (r + length ws) mod QSIZE"
      using v(1) re(1) w by (cases ws) (simp_all add: ring_ok_def ipq_next_mod mod_add_left_eq)
    then show ?thesis using v(7) Add_store w vs re(1) by (simp add: adder_ok_def Let_def)
  qed (use v(7) vs in \<open>simp_all add: adder_ok_def Let_def\<close>)
  moreover have "remover_ok ?h ws" by (simp add: remover_ok_def)
  ultimately show ?thesis using v(2,6) cnt vs unfolding ring_inv_def
    by (intro conjI exI [of _ ws]) simp_all
qed

lemma ring_inv_step:
  assumes "ring_step h h'" and inv: "ring_inv xs h" and nn: "NULL \<notin> set xs"
  shows "ring_inv xs h'"
proof -
  obtain vs where v: "ring_ok (r_ring h)" "\<forall>i. i \<noteq> 0 \<longrightarrow> r_adder h i = Add_start \<and> r_todo h i = []"
    "length vs = ipq_count (r_ring h)" "length vs < QSIZE"
    "slots (r_ring h) = shown (storing h) (taking h) vs @ replicate (QSIZE - length vs) NULL"
    "xs = r_taken h @ vs @ (if storing h then tl (r_todo h 0) else r_todo h 0)" "adder_ok h vs" "remover_ok h vs"
    using inv by (rule ring_invE)
  have only: "i = 0" if "r_adder h i \<noteq> Add_start \<or> r_todo h i \<noteq> []" for i using v(2) that by auto
  from assms(1) show ?thesis
  proof cases
    case (load_add i)
    then have "i = 0" using only by blast
    then show ?thesis using load_add v unfolding ring_inv_def
      by (simp add: adder_ok_def remover_ok_def Let_def) ((rule exI [of _ vs])?, auto split: remover_at.splits)
  next
    case (load_rem i a)
    then have i: "i = 0" using only by simp
    then have a: "a = nextAdd (r_ring h)" "r_todo h 0 \<noteq> []" using v(7) load_rem by (simp_all add: adder_ok_def Let_def)
    have "nextRem (r_ring h) \<noteq> ipq_next a \<Longrightarrow> length vs < QSIZE - 1"
      using ipq_count_moves(4) [OF v(1)] v(4) unfolding v(3) [symmetric] a(1) by linarith
    then show ?thesis using load_rem i a v unfolding ring_inv_def
      by (simp add: adder_ok_def remover_ok_def Let_def) ((rule exI [of _ vs])?, auto split: remover_at.splits)
  next
    case (exchange_add i a)
    then have "i = 0" using only by simp
    moreover from this have "a = nextAdd (r_ring h)" using v(7) exchange_add by (simp add: adder_ok_def Let_def)
    ultimately show ?thesis using exchange_add inv_exchange_add [OF inv] by simp
  next
    case (store i a)
    then have "i = 0" using only by simp
    then show ?thesis using store inv_store [OF inv] by simp
  next
    case rem_load
    then show ?thesis using v unfolding ring_inv_def
      by (simp add: adder_ok_def remover_ok_def Let_def) ((rule exI [of _ vs])?, auto split: adder_at.splits)
  next
    case (rem_compare r)
    then have r: "r = nextRem (r_ring h)" using v(8) by (simp add: remover_ok_def Let_def)
    have "nextAdd (r_ring h) \<noteq> r \<Longrightarrow> vs \<noteq> []" using ipq_count_moves(3) [OF v(1)] v(3) r by auto
    then show ?thesis using rem_compare r v unfolding ring_inv_def
      by (simp add: adder_ok_def remover_ok_def Let_def) ((rule exI [of _ vs])?, auto split: adder_at.splits)
  next
    case (rem_exchange r p)
    then show ?thesis using inv_rem_exchange [OF inv nn] by simp
  next
    case (rem_release r p)
    then show ?thesis using inv_rem_release [OF inv] by simp
  qed
qed

lemma ring_inv_reachable:
  "ring_step\<^sup>*\<^sup>* (ring_start ((\<lambda>_. [])(0 := xs))) h \<Longrightarrow> NULL \<notin> set xs \<Longrightarrow> ring_inv xs h"
  by (induction rule: rtranclp_induct) (auto intro: ring_inv_start ring_inv_step)

text \<open>
  C16. One adder and the remover, with their accesses interleaved in any way: at every moment the
  processes taken from the queue are the first ones of those that were to be added, in their order,
  and no more than four have been added and not yet taken; whenever neither is in the middle of an
  operation the ring is well formed and its contents are just the processes between those taken and
  those still to be added, as if the operations had been indivisible.
\<close>

theorem ring_interleaved:
  assumes "ring_step\<^sup>*\<^sup>* (ring_start ((\<lambda>_. [])(0 := xs))) h" and "NULL \<notin> set xs"
  shows "(\<exists>vs. length vs \<le> QSIZE - 1 \<and> xs = r_taken h @ vs @ (if storing h then tl (r_todo h 0) else r_todo h 0)) \<and>
    (at_rest h \<longrightarrow> ipq_wf (r_ring h) \<and> xs = r_taken h @ ipq_contents (r_ring h) @ r_todo h 0)"
proof -
  have inv: "ring_inv xs h" by (rule ring_inv_reachable [OF assms])
  obtain vs where v: "ring_ok (r_ring h)" "\<forall>i. i \<noteq> 0 \<longrightarrow> r_adder h i = Add_start \<and> r_todo h i = []"
    "length vs = ipq_count (r_ring h)" "length vs < QSIZE"
    "slots (r_ring h) = shown (storing h) (taking h) vs @ replicate (QSIZE - length vs) NULL"
    "xs = r_taken h @ vs @ (if storing h then tl (r_todo h 0) else r_todo h 0)" "adder_ok h vs" "remover_ok h vs"
    using inv by (rule ring_invE)
  have "ipq_wf (r_ring h) \<and> xs = r_taken h @ ipq_contents (r_ring h) @ r_todo h 0" if rest: "at_rest h"
  proof -
    have n: "\<not> storing h" "\<not> taking h" using rest by (auto simp: at_rest_def)
    then have "ipq_contents (r_ring h) = vs"
      using contents_slots [OF v(1)] v(3,5) by (simp add: shown_def)
    then show ?thesis using v(1,6) n assms(2) by (auto simp: ipq_wf_def ring_ok_def)
  qed
  moreover have "length vs \<le> QSIZE - 1" using v(4) by simp
  ultimately show ?thesis using v(6) by (intro conjI impI exI [of _ vs]) blast+
qed

subsection \<open>An operation alone\<close>

text \<open>Without interference the accesses amount to the indivisible operations.\<close>

lemma adder_alone:
  assumes at: "r_adder h i = Add_start" and todo: "r_todo h i = x # ys" and put: "ipq_put x (r_ring h) = Some q"
  shows "ring_step\<^sup>*\<^sup>* h (h\<lparr>r_ring := q, r_todo := (r_todo h)(i := ys)\<rparr>)"
proof -
  let ?a = "nextAdd (r_ring h)"
  have q: "nextRem (r_ring h) \<noteq> ipq_next ?a" "q = (r_ring h)\<lparr>nextAdd := ipq_next ?a, que := (que (r_ring h))[?a := x]\<rparr>"
    using put by (auto simp: ipq_put_def Let_def split: if_splits)
  let ?h1 = "h\<lparr>r_adder := (r_adder h)(i := Add_loaded ?a)\<rparr>" and ?h2 = "h\<lparr>r_adder := (r_adder h)(i := Add_room ?a)\<rparr>"
  let ?h3 = "h\<lparr>r_ring := (r_ring h)\<lparr>nextAdd := ipq_next ?a\<rparr>, r_adder := (r_adder h)(i := Add_store ?a)\<rparr>"
  have "ring_step h ?h1" using ring_step.load_add [of h i] at todo by simp
  moreover have "ring_step ?h1 ?h2" using ring_step.load_rem [of ?h1 i ?a] q(1) by simp
  moreover have "ring_step ?h2 ?h3" using ring_step.exchange_add [of ?h2 i ?a] by simp
  moreover have "ring_step ?h3 (h\<lparr>r_ring := q, r_todo := (r_todo h)(i := ys)\<rparr>)"
    using ring_step.store [of ?h3 i ?a] todo at by (simp add: q(2) fun_upd_idem)
  ultimately show ?thesis by (meson r_into_rtranclp rtranclp_trans)
qed

lemma remover_alone:
  assumes at: "r_remover h = Rem_start" and get: "ipq_get (r_ring h) = (p, q)"
  shows "ring_step\<^sup>*\<^sup>* h (h\<lparr>r_ring := q, r_taken := r_taken h @ (if p = NULL then [] else [p])\<rparr>)"
proof -
  let ?r = "nextRem (r_ring h)"
  let ?h1 = "h\<lparr>r_remover := Rem_loaded ?r\<rparr>"
  have s1: "ring_step h ?h1" by (rule ring_step.rem_load [OF at])
  show ?thesis
  proof (cases "nextAdd (r_ring h) = ?r")
    case True
    then have pq: "p = NULL" "q = r_ring h" using get by (simp_all add: ipq_get_def Let_def)
    have "h\<lparr>r_remover := Rem_start\<rparr> = h" using at by (cases h) simp
    then have "ring_step ?h1 h" using ring_step.rem_compare [of ?h1 ?r] True by simp
    with s1 have "ring_step\<^sup>*\<^sup>* h h" by blast
    moreover have "h\<lparr>r_ring := q, r_taken := r_taken h @ (if p = NULL then [] else [p])\<rparr> = h" using pq by (cases h) simp
    ultimately show ?thesis by simp
  next
    case False
    let ?h2 = "h\<lparr>r_remover := Rem_entry ?r\<rparr>" and ?p = "que (r_ring h) ! ?r"
    let ?h3 = "h\<lparr>r_ring := (r_ring h)\<lparr>que := (que (r_ring h))[?r := NULL]\<rparr>,
      r_remover := (if ?p = NULL then Rem_start else Rem_taken ?r ?p)\<rparr>"
    have p: "p = ?p" and q: "q = (if ?p = NULL then (r_ring h)\<lparr>que := (que (r_ring h))[?r := NULL]\<rparr>
        else (r_ring h)\<lparr>que := (que (r_ring h))[?r := NULL], nextRem := ipq_next ?r\<rparr>)"
      using get False by (auto simp: ipq_get_def Let_def split: if_splits)
    have s2: "ring_step ?h1 ?h2" using ring_step.rem_compare [of ?h1 ?r] False by simp
    have s3: "ring_step ?h2 ?h3" using ring_step.rem_exchange [of ?h2 ?r ?p] by simp
    have idle: "h\<lparr>r_ring := A, r_remover := Rem_start, r_taken := B\<rparr> = h\<lparr>r_ring := A, r_taken := B\<rparr>" for A B
      using at by (cases h) simp
    have "ring_step\<^sup>*\<^sup>* ?h3 (h\<lparr>r_ring := q, r_taken := r_taken h @ (if p = NULL then [] else [p])\<rparr>)"
    proof (cases "?p = NULL")
      case True
      then show ?thesis using p q idle [where A = q and B = "r_taken h"] by simp
    next
      case False
      then have "ring_step ?h3 (h\<lparr>r_ring := q, r_taken := r_taken h @ (if p = NULL then [] else [p])\<rparr>)"
        using ring_step.rem_release [of ?h3 ?r ?p] p q idle [where A = q and B = "r_taken h @ [p]"] by simp
      then show ?thesis by blast
    qed
    with s1 s2 s3 show ?thesis by (meson converse_rtranclp_into_rtranclp)
  qed
qed

text \<open>
  Whenever the queue is between two operations the remover, if it runs alone, takes exactly what
  has been added and not yet taken, so nothing that one adder has added is lost.
\<close>

lemma remover_drains:
  assumes "r_remover h = Rem_start" and "ipq_wf (r_ring h)" and "ipq_contents (r_ring h) = ys"
  shows "\<exists>q. ring_step\<^sup>*\<^sup>* h (h\<lparr>r_ring := q, r_taken := r_taken h @ ys\<rparr>) \<and> ipq_contents q = []"
  using assms
proof (induction ys arbitrary: h)
  case Nil
  have "h\<lparr>r_ring := r_ring h, r_taken := r_taken h @ []\<rparr> = h" by (cases h) simp
  then show ?case using Nil by (intro exI [of _ "r_ring h"]) simp
next
  case (Cons y ys)
  obtain q where q: "ipq_get (r_ring h) = (y, q)" "ipq_wf q" "ipq_contents q = ys"
    using ring.get_first [OF Cons.prems(2,3)] by blast
  have y: "y \<noteq> NULL" using ipq_wf_nonnull [OF Cons.prems(2)] Cons.prems(3) by auto
  let ?h = "h\<lparr>r_ring := q, r_taken := r_taken h @ [y]\<rparr>"
  have "ring_step\<^sup>*\<^sup>* h ?h" using remover_alone [OF Cons.prems(1) q(1)] y by simp
  moreover obtain q' where "ring_step\<^sup>*\<^sup>* ?h (h\<lparr>r_ring := q', r_taken := r_taken h @ y # ys\<rparr>)" "ipq_contents q' = []"
    using Cons.IH [of ?h] Cons.prems(1) q(2,3) by auto
  ultimately show ?case by (blast intro: rtranclp_trans)
qed

theorem ring_interleaved_witness:
  "\<exists>h. ring_step\<^sup>*\<^sup>* (ring_start ((\<lambda>_. [])(0 := [16, 32]))) h \<and> at_rest h \<and>
    ipq_wf (r_ring h) \<and> [16, 32] = r_taken h @ ipq_contents (r_ring h) @ r_todo h 0 \<and> r_todo h 0 = [32]"
proof -
  let ?s = "ring_start ((\<lambda>_. [])(0 := [16, 32]))"
  let ?q = "\<lparr>nextAdd = 1, nextRem = 0, que = [16, NULL, NULL, NULL, NULL]\<rparr>"
  let ?h = "?s\<lparr>r_ring := ?q, r_todo := (r_todo ?s)(0 := [32])\<rparr>"
  have "ring_step\<^sup>*\<^sup>* ?s ?h"
    by (rule adder_alone) (simp_all add: ring_start_def ipq_init_def ipq_put_def ipq_next_def QSIZE_def numeral_eq_Suc)
  moreover have "at_rest ?h" by (simp add: at_rest_def ring_start_def)
  ultimately show ?thesis using ring_interleaved [of "[16, 32]" ?h] by (intro exI [of _ ?h]) simp
qed

subsection \<open>Two adders\<close>

text \<open>
  C39. With two adders entries can be lost. The compare-and-exchange notices another addition by the
  value of \<^verbatim>\<open>nextAdd\<close>, but after five additions \<^verbatim>\<open>nextAdd\<close> has its old value again,
  and an adder that has seen room before adds to a queue that is full by now; then the queue looks
  empty. On the two processors of the source there is one adder for each queue.
\<close>

theorem two_adders_overrun:
  assumes "NULL \<notin> set [a, b1, b2, b3, b4, b5]"
  shows "\<exists>h. ring_step\<^sup>*\<^sup>* (ring_start ((\<lambda>_. [])(0 := [a], 1 := [b1, b2, b3, b4, b5]))) h \<and> at_rest h \<and>
    (\<forall>i. r_todo h i = []) \<and> r_taken h = [b1] \<and> ipq_contents (r_ring h) = []"
proof -
  let ?st = "\<lambda>n m es at0 rest taken. \<lparr>r_ring = \<lparr>nextAdd = n, nextRem = m, que = es\<rparr>,
    r_adder = (\<lambda>_. Add_start)(0 := at0), r_todo = (\<lambda>_. [])(0 := [a], 1 := rest), r_remover = Rem_start, r_taken = taken\<rparr>"
  have nn: "a \<noteq> NULL" "b1 \<noteq> NULL" using assms by auto
  have s0: "ring_start ((\<lambda>_. [])(0 := [a], 1 := [b1, b2, b3, b4, b5])) =
      ?st 0 0 [NULL, NULL, NULL, NULL, NULL] Add_start [b1, b2, b3, b4, b5] []"
    by (simp add: ring_start_def ipq_init_def QSIZE_def fun_eq_iff numeral_eq_Suc)
  have s1: "ring_step\<^sup>*\<^sup>* (?st 0 0 es Add_start rest []) (?st 0 0 es (Add_room 0) rest [])" for es rest
  proof -
    let ?h = "?st 0 0 es Add_start rest []" and ?h1 = "?st 0 0 es (Add_loaded 0) rest []"
    have "ring_step ?h ?h1" using ring_step.load_add [of ?h 0] by simp
    moreover have "ring_step ?h1 (?st 0 0 es (Add_room 0) rest [])"
      using ring_step.load_rem [of ?h1 0 0] by (simp add: ipq_next_def QSIZE_def)
    ultimately show ?thesis by (meson r_into_rtranclp rtranclp_trans)
  qed
  have add: "ring_step\<^sup>*\<^sup>* (?st n m es (Add_room 0) (x # rest) taken)
      (?st (ipq_next n) m (es[n := x]) (Add_room 0) rest taken)" if "m \<noteq> ipq_next n" for n m es x rest taken
    using adder_alone [of "?st n m es (Add_room 0) (x # rest) taken" 1 x rest] that
    by (simp add: ipq_put_def Let_def fun_upd_twist)
  have t1: "ring_step\<^sup>*\<^sup>* (?st 0 0 [NULL, NULL, NULL, NULL, NULL] (Add_room 0) [b1, b2, b3, b4, b5] []) (?st 1 0 [b1, NULL, NULL, NULL, NULL] (Add_room 0) [b2, b3, b4, b5] [])"
    using add [of 0 0 "[NULL, NULL, NULL, NULL, NULL]" b1 "[b2, b3, b4, b5]" "[]"] by (simp add: ipq_next_def QSIZE_def eval_nat_numeral)
  have t2: "ring_step\<^sup>*\<^sup>* (?st 1 0 [b1, NULL, NULL, NULL, NULL] (Add_room 0) [b2, b3, b4, b5] []) (?st 2 0 [b1, b2, NULL, NULL, NULL] (Add_room 0) [b3, b4, b5] [])"
    using add [of 0 1 "[b1, NULL, NULL, NULL, NULL]" b2 "[b3, b4, b5]" "[]"] by (simp add: ipq_next_def QSIZE_def eval_nat_numeral)
  have t3: "ring_step\<^sup>*\<^sup>* (?st 2 0 [b1, b2, NULL, NULL, NULL] (Add_room 0) [b3, b4, b5] []) (?st 3 0 [b1, b2, b3, NULL, NULL] (Add_room 0) [b4, b5] [])"
    using add [of 0 2 "[b1, b2, NULL, NULL, NULL]" b3 "[b4, b5]" "[]"] by (simp add: ipq_next_def QSIZE_def eval_nat_numeral)
  have t4: "ring_step\<^sup>*\<^sup>* (?st 3 0 [b1, b2, b3, NULL, NULL] (Add_room 0) [b4, b5] []) (?st 4 0 [b1, b2, b3, b4, NULL] (Add_room 0) [b5] [])"
    using add [of 0 3 "[b1, b2, b3, NULL, NULL]" b4 "[b5]" "[]"] by (simp add: ipq_next_def QSIZE_def eval_nat_numeral)
  note rtranclp_trans [OF s1 rtranclp_trans [OF t1 rtranclp_trans [OF t2 rtranclp_trans [OF t3 t4]]]]
  then have s2: "ring_step\<^sup>*\<^sup>* (ring_start ((\<lambda>_. [])(0 := [a], 1 := [b1, b2, b3, b4, b5])))
      (?st 4 0 [b1, b2, b3, b4, NULL] (Add_room 0) [b5] [])"
    unfolding s0 .
  have s3: "ring_step\<^sup>*\<^sup>* (?st 4 0 [b1, b2, b3, b4, NULL] (Add_room 0) [b5] [])
      (?st 4 1 [NULL, b2, b3, b4, NULL] (Add_room 0) [b5] [b1])"
    using remover_alone [of "?st 4 0 [b1, b2, b3, b4, NULL] (Add_room 0) [b5] []" b1] nn
    by (simp add: ipq_get_def Let_def ipq_next_def QSIZE_def)
  have s4: "ring_step\<^sup>*\<^sup>* (?st 4 1 [NULL, b2, b3, b4, NULL] (Add_room 0) [b5] [b1])
      (?st 0 1 [NULL, b2, b3, b4, b5] (Add_room 0) [] [b1])"
    using add [of 1 4 "[NULL, b2, b3, b4, NULL]" b5 "[]" "[b1]"] by (simp add: ipq_next_def QSIZE_def eval_nat_numeral)
  let ?h = "?st 0 1 [NULL, b2, b3, b4, b5] (Add_room 0) [] [b1]" and ?h1 = "?st 1 1 [NULL, b2, b3, b4, b5] (Add_store 0) [] [b1]"
  let ?h2 = "\<lparr>r_ring = \<lparr>nextAdd = 1, nextRem = 1, que = [a, b2, b3, b4, b5]\<rparr>, r_adder = \<lambda>_. Add_start,
    r_todo = \<lambda>_. [], r_remover = Rem_start, r_taken = [b1]\<rparr>"
  have s5: "ring_step ?h ?h1"
    using ring_step.exchange_add [of ?h 0 0] by (simp add: ipq_next_def QSIZE_def)
  have s6: "ring_step ?h1 ?h2"
  proof -
    have "(\<lambda>_ :: nat. Add_start)(0 := Add_store 0, 0 := Add_start) = (\<lambda>_. Add_start)"
      and "(\<lambda>_ :: nat. [])(0 := [a], 1 := [], 0 := tl [a]) = (\<lambda>_. [])" by auto
    then show ?thesis using ring_step.store [of ?h1 0 0] by simp
  qed
  have "ring_step\<^sup>*\<^sup>* (ring_start ((\<lambda>_. [])(0 := [a], 1 := [b1, b2, b3, b4, b5]))) ?h2"
    using s2 s3 s4 s5 s6 by (meson rtranclp.rtrancl_into_rtrancl rtranclp_trans)
  moreover have "at_rest ?h2" "ipq_contents (r_ring ?h2) = []"
    by (simp_all add: at_rest_def ipq_contents_def ipq_count_def QSIZE_def)
  ultimately show ?thesis by (intro exI [of _ ?h2]) simp
qed

theorem two_adders_overrun_witness:
  "\<exists>h. ring_step\<^sup>*\<^sup>* (ring_start ((\<lambda>_. [])(0 := [8], 1 := [16, 32, 48, 64, 80]))) h \<and>
    r_taken h = [16] \<and> ipq_contents (r_ring h) = []"
  using two_adders_overrun [of 8 16 32 48 64 80] by auto

end
