(* ===== verification/Sleep.thy ===== *)
theory Sleep
  imports Interrupts
begin

text \<open>
  Sleeping until a time (\<^verbatim>\<open>After\<close> in \<^verbatim>\<open>timer.c\<close>). The clock is read twice: once to see
  whether the time has come already, and once more, with the descriptor in the queue, to set the
  timer. What happens depends on both readings.
\<close>

subsection \<open>The second reading\<close>

definition later :: "cxp \<Rightarrow> Time" where "later c = now_of (read_once c)"

text \<open>The descriptor that \<^verbatim>\<open>After\<close> lays out on the stack of its caller.\<close>

definition after_desc :: "addr \<Rightarrow> Time \<Rightarrow> addr \<Rightarrow> cxp \<Rightarrow> cxp" where
  "after_desc desc time p c = PREPARE_TO_WAIT p (c\<lparr>tmos := (tmos c)(desc :=
     \<lparr>t_time = time, t_proc = p, t_next = NULL, t_type = TMO_AFTER\<rparr>)\<rparr>)"

lemma after_desc_simps [simp]:
  "sch (after_desc d w p c) = set_sched_state p PROC_PREPARING_TO_WAIT (sch c)"
  "timeQue (after_desc d w p c) = timeQue c" "currentTime (after_desc d w p c) = currentTime c"
  "interrupts (after_desc d w p c) = interrupts c" "now_of (after_desc d w p c) = now_of c"
  "clock_ok cpu (after_desc d w p c) = clock_ok cpu c" "timeout_timer cpu (after_desc d w p c) = timeout_timer cpu c"
  "tmos (after_desc d w p c) =
     (tmos c)(d := \<lparr>t_time = w, t_proc = p, t_next = NULL, t_type = TMO_AFTER\<rparr>)"
  by (simp_all add: after_desc_def PREPARE_TO_WAIT_def put_sched_def set_sched_state_def now_of_def clock_ok_def
      timeout_timer_def)

lemma tmo_ok_after_desc:
  assumes "tmo_ok c T" and "\<forall>q < NPUN. desc \<notin> set (T q)"
  shows "tmo_ok (after_desc desc w p c) T"
proof -
  have "tnext (after_desc desc w p c) = (tnext c)(desc := NULL)" "tkey (after_desc desc w p c) = (tkey c)(desc := sint w)"
    by (auto simp: tnext_def tkey_def)
  with assms show ?thesis by (simp add: tmo_ok_def)
qed

subsection \<open>What After does\<close>

lemma after_over:
  assumes "clock_ok cpu c" and "\<not> time_lt (now_of c) time"
  shows "After cpu desc time c = Done () (read_once c)"
  using assms GetCurrentTime_eq by (simp add: After_def of_res_def)

text \<open>The part before the processor is given up.\<close>

lemma after_inserts:
  assumes tok: "tmo_ok c T" and cpu: "cpu < NPUN" and d: "desc \<noteq> NULL" "\<forall>q < NPUN. desc \<notin> set (T q)"
    and clk: "clock_ok cpu c" and tm: "timeout_timer cpu c = Some tm" and p: "current (sch c) cpu = p" "p \<noteq> NULL"
    and lt: "time_lt (now_of c) time" and lim: "sint (time - later c) < 2 ^ 31 * NS_PER_SEC"
  shows "\<exists>c' prev cur tm'. After cpu desc time c = switching cpu (relinquish cpu) c' \<and>
    hw_only (link_tmo cpu desc prev cur (after_desc desc time p (read_once c))) c' \<and>
    tmo_ok c' (T(cpu := sort_key (tkey c') (T cpu @ [desc]))) \<and> timeout_timer cpu c' = Some tm' \<and>
    (if \<forall>y \<in> set (T cpu). sint time < tkey c y
     then nanos (it_value tm') = max 0 (sint (time - later c)) \<and> (armed tm' \<longleftrightarrow> 0 < sint (time - later c))
     else tm' = tm)"
proof -
  let ?c = "after_desc desc time p (read_once c)"
  have tok0: "tmo_ok (read_once c) T" using tok by (simp add: read_once_def)
  have k: "tkey ?c desc = sint time" "\<forall>y \<in> set (T cpu). tkey ?c y = tkey c y" "t_time (tmos ?c desc) = time"
    using d(2) cpu by (auto simp: tkey_def read_once_def)
  have clk0: "clock_ok cpu ?c" and tm0: "timeout_timer cpu ?c = Some tm"
    using clk hw_onlyD(11) [OF hw_only_mask(3), of cpu c] tm by simp_all
  have lim0: "sint (left_until ?c (t_time (tmos ?c desc))) < 2 ^ 31 * NS_PER_SEC"
    using lim by (simp add: left_until_def later_def k(3))
  obtain c' prev cur tm' where c': "insertInQueue cpu cpu desc ?c = Inr c'" "hw_only (link_tmo cpu desc prev cur ?c) c'"
    "tmo_ok c' (T(cpu := sort_key (tkey ?c) (T cpu @ [desc])))" "timeout_timer cpu c' = Some tm'"
    "if \<forall>y \<in> set (T cpu). tkey ?c desc < tkey ?c y
     then nanos (it_value tm') = max 0 (sint (left_until ?c (t_time (tmos ?c desc)))) \<and>
       (armed tm' \<longleftrightarrow> 0 < sint (left_until ?c (t_time (tmos ?c desc)))) else tm' = tm"
    using insertInQueue_ok [OF tmo_ok_after_desc [OF tok0 d(2)] cpu d clk0 tm0 lim0] by (elim exE conjE) (rule that)
  have "current (sch (read_once c)) cpu = p" using p by (simp add: read_once_def)
  then have run: "After cpu desc time c = switching cpu (relinquish cpu) c'"
    using GetCurrentTime_eq [OF clk] lt c'(1) p
    by (simp add: After_def of_res_def of_step_def Let_def after_desc_def)
  have "tkey c' = tkey ?c" using hw_onlyD(4) [OF c'(2)] by simp
  with run c' k show ?thesis
    by - (rule exI [of _ c'], rule exI [of _ prev], rule exI [of _ cur], rule exI [of _ tm'],
      simp add: left_until_def later_def cong: if_cong)
qed

text \<open>Giving up the processor, seen from the places of the processes.\<close>

lemma relinquish_moves:
  assumes inv: "sched_inv (sch c) Q" and cpu: "cpu < NPUN" and m: "merged (sch c) cpu (Q cpu) = x # xs"
    and p: "current (sch c) cpu = p" and st: "p_sched_state (proc_of c p) = PROC_PREPARING_TO_WAIT"
  shows "\<exists>s'. switching cpu (relinquish cpu) c = Paused (c\<lparr>sch := s'\<rparr>) (Done ()) \<and> current s' cpu = x \<and>
    sched_inv s' (Q(cpu := xs)) \<and> top_running s' (Q(cpu := xs)) cpu \<and> p \<notin> members s' (Q(cpu := xs)) cpu \<and>
    members (sch c) Q cpu = insert p (members s' (Q(cpu := xs)) cpu) \<and>
    core s' = core (set_sched_state p PROC_WAITING (sch c))"
proof -
  obtain s' where s': "switching cpu (relinquish cpu) c = Paused (c\<lparr>sch := s'\<rparr>) (Done ())"
    "switched_to cpu x (set_sched_state p PROC_WAITING (sch c)) s'" "sched_inv s' (Q(cpu := xs))"
    "top_running s' (Q(cpu := xs)) cpu" "idle_on s' (Q(cpu := xs)) cpu p" "in_ipq s' cpu = []"
    using switching_relinquish [OF inv cpu m] st p by auto
  have x: "current s' cpu = x" using s'(2) by (simp add: switched_to_def)
  have "relinquish cpu (sch c) = Inr s'"
    using s'(1) by (auto simp: switching_def split: sum.splits if_splits dest: arg_cong [where f = sch])
  then have core: "core s' = core (set_sched_state p PROC_WAITING (sch c))"
    using relinquish_core [of cpu "sch c" s'] st p by (simp add: proc_of_def)
  have "set (x # xs) = set (Q cpu) \<union> set (in_ipq (sch c) cpu)" unfolding m [symmetric] by simp
  then have "members (sch c) Q cpu = insert p (members s' (Q(cpu := xs)) cpu)"
    using s'(6) x p by (auto simp: members_def)
  with s' x core show ?thesis by (auto simp: idle_on_def)
qed

lemma steady_state:
  "core (sch c') = core (set_sched_state p st (sch c)) \<Longrightarrow> currentTime c' = currentTime c \<Longrightarrow> p \<in> X \<Longrightarrow> steady X c c'"
  using core_eqD [of "sch c'" "set_sched_state p st (sch c)"] core_eq_hwD [of "sch c'" "set_sched_state p st (sch c)"]
  by (auto simp: steady_def same_signals_def same_timers_def proc_of_def set_sched_state_def)

lemma steady_after_desc: "steady {p} c (after_desc d w p c)"
  by (rule steady_state) simp_all

lemma after_ok:
  assumes inv: "sched_inv (sch c) Q" and cpu: "cpu < NPUN" and m: "merged (sch c) cpu (Q cpu) = x # xs"
    and tok: "tmo_ok c T" and d: "desc \<noteq> NULL" "\<forall>q < NPUN. desc \<notin> set (T q)"
    and clk: "clock_ok cpu c" and tm: "timeout_timer cpu c = Some tm" and p: "current (sch c) cpu = p"
    and lt: "time_lt (now_of c) time" and lim: "sint (time - later c) < 2 ^ 31 * NS_PER_SEC"
  shows "\<exists>c' tm'. After cpu desc time c = Paused c' (Done ()) \<and> current (sch c') cpu = x \<and>
    sched_inv (sch c') (Q(cpu := xs)) \<and> top_running (sch c') (Q(cpu := xs)) cpu \<and>
    p \<notin> members (sch c') (Q(cpu := xs)) cpu \<and> members (sch c) Q cpu = insert p (members (sch c') (Q(cpu := xs)) cpu) \<and>
    p_sched_state (proc_of c' p) = PROC_WAITING \<and>
    tmo_ok c' (T(cpu := sort_key (tkey c') (T cpu @ [desc]))) \<and> timeout_timer cpu c' = Some tm' \<and>
    (if \<forall>y \<in> set (T cpu). sint time < tkey c y
     then nanos (it_value tm') = max 0 (sint (time - later c)) \<and> (armed tm' \<longleftrightarrow> 0 < sint (time - later c))
     else tm' = tm) \<and>
    steady {p} c c' \<and> interrupts c' = interrupts c \<and>
    (\<forall>e. t_time (tmos c' e) = (if e = desc then time else t_time (tmos c e)) \<and>
       t_proc (tmos c' e) = (if e = desc then p else t_proc (tmos c e)) \<and>
       t_type (tmos c' e) = (if e = desc then TMO_AFTER else t_type (tmos c e)))"
proof -
  have pn: "p \<noteq> NULL" using sched_invD(2) [OF inv cpu] p by simp
  let ?r = "read_once c" and ?a = "after_desc desc time p (read_once c)"
  obtain c1 prev cur tm' where c1: "After cpu desc time c = switching cpu (relinquish cpu) c1"
    "hw_only (link_tmo cpu desc prev cur ?a) c1" "tmo_ok c1 (T(cpu := sort_key (tkey c1) (T cpu @ [desc])))"
    "timeout_timer cpu c1 = Some tm'" "if \<forall>y \<in> set (T cpu). sint time < tkey c y
     then nanos (it_value tm') = max 0 (sint (time - later c)) \<and> (armed tm' \<longleftrightarrow> 0 < sint (time - later c))
     else tm' = tm"
    using after_inserts [OF tok cpu d clk tm p pn lt lim] by (elim exE conjE) (rule that)
  note K = hw_onlyD [OF c1(2)] and R = hw_onlyD [OF hw_only_mask(3) [of c]]
  have s1: "sched_inv (sch c1) Q" "merged (sch c1) cpu (Q cpu) = x # xs" "current (sch c1) cpu = p"
    "p_sched_state (proc_of c1 p) = PROC_PREPARING_TO_WAIT" "members (sch c1) Q cpu = members (sch c) Q cpu"
    using inv m p K R by (simp_all add: proc_of_def)
  obtain s' where s': "switching cpu (relinquish cpu) c1 = Paused (c1\<lparr>sch := s'\<rparr>) (Done ())" "current s' cpu = x"
    "sched_inv s' (Q(cpu := xs))" "top_running s' (Q(cpu := xs)) cpu" "p \<notin> members s' (Q(cpu := xs)) cpu"
    "members (sch c1) Q cpu = insert p (members s' (Q(cpu := xs)) cpu)"
    "core s' = core (set_sched_state p PROC_WAITING (sch c1))"
    using relinquish_moves [OF s1(1) cpu s1(2,3,4)] by (elim exE conjE) (rule that)
  let ?c' = "c1\<lparr>sch := s'\<rparr>"
  have t: "tmo_ok ?c' (T(cpu := sort_key (tkey ?c') (T cpu @ [desc])))"
    using c1(3) tmo_ok_cong [of ?c' c1] by (simp add: tnext_def [abs_def] tkey_def [abs_def])
  have tm2: "timeout_timer cpu ?c' = Some tm'"
    using c1(4) core_eq_hwD [OF s'(7)] by (simp add: timeout_timer_def set_sched_state_def)
  have "steady {p} c ?r" using hw_only_calm [OF hw_only_mask(3)] by (simp add: calm_def)
  from steady_trans [OF this steady_after_desc] have "steady {p} c ?a" by simp
  then have "steady {p} c (link_tmo cpu desc prev cur ?a)" by (simp add: steady_def proc_of_def)
  from steady_trans [OF this] hw_only_calm [OF c1(2)] have "steady {p} c c1" by (auto simp: calm_def)
  moreover have "steady {p} c1 ?c'" by (rule steady_state [where st = PROC_WAITING]) (use s'(7) in simp_all)
  ultimately have st: "steady {p} c ?c'" using steady_trans by blast
  have "p_sched_state (proc_of ?c' p) = PROC_WAITING" using core_eqD(4) [OF s'(7)] by (simp add: proc_of_def)
  moreover have "interrupts ?c' = interrupts c"
    using hw_only_calm [OF c1(2)] by (auto simp: calm_def link_tmo_def set_tmo_next_def read_once_def put_sched_def)
  ultimately show ?thesis
    using c1(1,5) s'(1-6) t tm2 st s1(5) K(1) R(1)
    by - (rule exI [of _ ?c'], rule exI [of _ tm'], simp cong: if_cong)
qed

subsection \<open>Sleeping too long\<close>

text \<open>
  C40. If the time arrives between the two readings of the clock and no earlier timeout is pending,
  the process still goes to sleep, but the timer is set to an interval that is not positive, which
  disarms it: the descriptor stands first in the queue and no interrupt is on its way to take it out.
\<close>

theorem after_oversleeps:
  assumes "sched_inv (sch c) Q" and "cpu < NPUN" and "merged (sch c) cpu (Q cpu) = x # xs"
    and "tmo_ok c T" and "desc \<noteq> NULL" and "\<forall>q < NPUN. desc \<notin> set (T q)"
    and "clock_ok cpu c" and "timeout_timer cpu c = Some tm"
    and early: "time_lt (now_of c) time" and late: "sint (time - now_of (read_once c)) \<le> 0"
    and first: "\<forall>y \<in> set (T cpu). sint time < tkey c y"
  defines "p \<equiv> current (sch c) cpu"
  shows "\<exists>c' tm'. After cpu desc time c = Paused c' (Done ()) \<and> current (sch c') cpu = x \<and>
    p_sched_state (proc_of c' p) = PROC_WAITING \<and> p \<notin> members (sch c') (Q(cpu := xs)) cpu \<and>
    tmo_ok c' (T(cpu := desc # T cpu)) \<and> t_proc (tmos c' desc) = p \<and>
    timeout_timer cpu c' = Some tm' \<and> \<not> armed tm'"
proof -
  have lim: "sint (time - later c) < 2 ^ 31 * NS_PER_SEC" using late by (simp add: later_def NS_PER_SEC_def)
  obtain c' tm' where c': "After cpu desc time c = Paused c' (Done ())" "current (sch c') cpu = x"
    "p \<notin> members (sch c') (Q(cpu := xs)) cpu" "p_sched_state (proc_of c' p) = PROC_WAITING"
    "tmo_ok c' (T(cpu := sort_key (tkey c') (T cpu @ [desc])))" "timeout_timer cpu c' = Some tm'"
    "if \<forall>y \<in> set (T cpu). sint time < tkey c y
     then nanos (it_value tm') = max 0 (sint (time - later c)) \<and> (armed tm' \<longleftrightarrow> 0 < sint (time - later c))
     else tm' = tm"
    "\<forall>e. t_time (tmos c' e) = (if e = desc then time else t_time (tmos c e)) \<and>
       t_proc (tmos c' e) = (if e = desc then p else t_proc (tmos c e)) \<and>
       t_type (tmos c' e) = (if e = desc then TMO_AFTER else t_type (tmos c e))"
    using after_ok [OF assms(1-8) p_def [THEN meta_eq_to_obj_eq, symmetric] early lim] by (elim exE conjE) (rule that)
  have k: "tkey c' desc = sint time" "\<forall>y \<in> set (T cpu). tkey c' y = tkey c y"
    using c'(8) assms(2,6) by (auto simp: tkey_def)
  have "map (tkey c') (T cpu) = map (tkey c) (T cpu)" using k(2) by simp
  then have "sorted (map (tkey c') (T cpu))" using assms(2,4) unfolding tmo_ok_def by metis
  from insert_at_sorted [OF this, of desc] have "sort_key (tkey c') (T cpu @ [desc]) = desc # T cpu"
    using first k by (cases "T cpu") (auto simp: insert_at_def)
  moreover have "\<not> armed tm'" using c'(7) first late unfolding if_P [OF first] by (simp add: later_def)
  ultimately show ?thesis using c' by (intro exI [of _ c'] exI [of _ tm']) simp
qed

definition sample_sleepy :: cxp where
  "sample_sleepy = sample_timer\<lparr>sch := sample_sched\<lparr>hw := sample_clock_hw\<lparr>os_readings :=
     (\<lambda>n. \<lparr>tv_sec = 0, tv_nsec = if n = 0 then 400000000 else 300000000\<rparr>)\<rparr>\<rparr>\<rparr>"

theorem after_oversleeps_witness:
  "\<exists>c' tm'. After 0 0x900 650000000 sample_sleepy = Paused c' (Done ()) \<and>
    p_sched_state (proc_of c' 0x300) = PROC_WAITING \<and> timeout_timer 0 c' = Some tm' \<and> \<not> armed tm'"
proof -
  have s: "sched_inv (sch sample_sleepy) sample_queues" "merged (sch sample_sleepy) 0 (sample_queues 0) = [0x400, 0x500, 0x100]"
    "current (sch sample_sleepy) 0 = 0x300"
    using sample_sched_inv sample_merged by (simp_all add: sample_sleepy_def) (simp add: sample_sched_def)
  have t: "tmo_ok sample_sleepy (\<lambda>_. [])" "clock_ok 0 sample_sleepy"
    "timeout_timer 0 sample_sleepy = Some \<lparr>tm_signo = 42, it_value = tick_ts, it_interval = tick_ts\<rparr>"
    "now_of sample_sleepy = 600000000" "now_of (read_once sample_sleepy) = 700000000"
    by (simp_all add: tmo_ok_def sample_sleepy_def sample_timer_def sample_cxp_def clock_ok_def timeout_timer_def
      sample_clock_hw_def now_of_def sample_hw_def ts_time_def Tick_def NS_PER_SEC_def read_once_def put_sched_def on_hw_def)
  show ?thesis
    using after_oversleeps [OF s(1) _ s(2) t(1) _ _ t(2,3), where desc = "0x900" and time = 650000000] s(3) t(4,5)
    by (auto simp: NPUN_def time_lt_def)
qed

end
