(* ===== verification/Places.thy ===== *)
theory Places
  imports Sleep
begin

text \<open>
  Where the processes of one processor are: running or ready, asleep until a time, waiting for an
  interrupt, or waiting for another process. The invariant \<open>placed\<close> says that every process is in exactly
  one of these places and what holds there; the handlers of all interrupts are shown to keep it. The
  steps of the processes follow in \<open>Processor\<close>.
\<close>

subsection \<open>The places of the processes\<close>

definition timed :: "cxp \<Rightarrow> addr list \<Rightarrow> addr set" where
  "timed c ds = (\<lambda>d. t_proc (tmos c d)) ` set ds"

definition receivers :: "pun \<Rightarrow> cxp \<Rightarrow> addr set" where
  "receivers cpu c = interrupts c cpu ` {..< NINTR} - {NULL}"

text \<open>
  \<open>P\<close> are the processes of the processor, \<open>W\<close> those that wait for another process; the descriptor of a
  sleeping process is the local variable \<open>frame\<close> on its stack. The idle process never waits.
\<close>

definition places :: "addr set \<Rightarrow> addr set \<Rightarrow> addr set \<Rightarrow> addr set \<Rightarrow> addr set \<Rightarrow> bool" where
  "places P M S R W \<longleftrightarrow> P = M \<union> S \<union> R \<union> W \<and> M \<inter> (S \<union> R \<union> W) = {} \<and> S \<inter> (R \<union> W) = {} \<and> R \<inter> W = {}"

definition placed :: "pun \<Rightarrow> addr \<Rightarrow> (addr \<Rightarrow> addr) \<Rightarrow> addr set \<Rightarrow> (pun \<Rightarrow> addr list) \<Rightarrow> (pun \<Rightarrow> addr list) \<Rightarrow> cxp \<Rightarrow> addr set \<Rightarrow> bool" where
  "placed cpu idle frame P Q T c W \<longleftrightarrow>
     sched_inv (sch c) Q \<and> top_running (sch c) Q cpu \<and> tmo_ok c T \<and> idle \<in> members (sch c) Q cpu \<and>
     places P (members (sch c) Q cpu) (timed c (T cpu)) (receivers cpu c) W \<and>
     (\<forall>p \<in> P. p \<noteq> NULL \<and> proc_stack p \<noteq> NULL \<and> p_pun (proc_of c p) = cpu \<and> p_stackptr (proc_of c p) = proc_stack p \<and>
       (p \<notin> members (sch c) Q cpu \<longrightarrow> p_sched_state (proc_of c p) = PROC_WAITING)) \<and>
     inj_on (interrupts c cpu) {i. i < NINTR \<and> interrupts c cpu i \<noteq> NULL} \<and>
     (\<forall>d \<in> set (T cpu). d = frame (t_proc (tmos c d)) \<and> t_type (tmos c d) = TMO_AFTER \<and>
       0 \<le> tkey c d \<and> tkey c d - sint (currentTime c) < 2 ^ 31 * NS_PER_SEC)"

text \<open>What the stacks promise: the descriptors of different processes are different.\<close>

definition frames_ok :: "pun \<Rightarrow> (addr \<Rightarrow> addr) \<Rightarrow> addr set \<Rightarrow> (pun \<Rightarrow> addr list) \<Rightarrow> bool" where
  "frames_ok cpu frame P T \<longleftrightarrow> inj_on frame P \<and>
     (\<forall>p \<in> P. frame p \<noteq> NULL \<and> (\<forall>q < NPUN. q \<noteq> cpu \<longrightarrow> frame p \<notin> set (T q)))"

text \<open>The hardware: timers exist, the signals of the processor are routed, the clock is in range.\<close>

definition year_146 :: int where "year_146 = 2 ^ 62"

definition serves :: "pun \<Rightarrow> cxp \<Rightarrow> bool" where
  "serves cpu c \<longleftrightarrow> clock_ok cpu c \<and> timeout_timer cpu c \<noteq> None \<and>
     (\<exists>n PS A. n \<le> 10 \<and> routing n (hw (sch c)) PS A \<and> {cpu} \<times> intrs_of cpu \<subseteq> A) \<and>
     (\<forall>k. 0 \<le> sint (ts_time (os_readings (hw (sch c)) k)) \<and> sint (ts_time (os_readings (hw (sch c)) k)) \<le> sint Tick) \<and>
     0 \<le> sint (currentTime c) \<and> sint (currentTime c) \<le> year_146 + sint Tick"

lemma sint_Tick [simp]: "sint Tick = 1000000000"
  by (simp add: Tick_def)

lemma sint_plus:
  fixes a b :: Time
  assumes "- (2 ^ 63) \<le> sint a + sint b" and "sint a + sint b < 2 ^ 63"
  shows "sint (a + b) = sint a + sint b"
  using assms by (simp add: sint_word_ariths signed_take_bit_int_eq_self)

lemma sint_minus:
  fixes a b :: Time
  assumes "- (2 ^ 63) \<le> sint a - sint b" and "sint a - sint b < 2 ^ 63"
  shows "sint (a - b) = sint a - sint b"
  using assms by (simp add: sint_word_ariths signed_take_bit_int_eq_self)

lemma serves_steady:
  assumes "steady X c c'" and "serves cpu c"
  shows "serves cpu c'"
proof -
  have f: "same_signals (hw (sch c)) (hw (sch c'))" "timer (hw (sch c')) = timer (hw (sch c))"
    "os_readings (hw (sch c')) = os_readings (hw (sch c))" "dom (os_timers (hw (sch c'))) = dom (os_timers (hw (sch c)))"
    "currentTime c' = currentTime c"
    using assms(1) by (simp_all add: steady_def same_timers_def)
  have "os_timers (hw (sch c')) t = None \<longleftrightarrow> os_timers (hw (sch c)) t = None" for t
    using f(4) by (metis domIff)
  with assms(2) f show ?thesis
    by (simp add: serves_def clock_ok_def timeout_timer_def routing_same_signals [OF f(1)] del: not_None_eq)
qed

lemma now_range:
  assumes "serves cpu c"
  shows "sint (currentTime c) \<le> sint (now_of c)" "sint (now_of c) \<le> sint (currentTime c) + 1000000000"
    "0 \<le> sint (now_of c)" "sint (now_of c) < 2 ^ 62 + 2 ^ 61"
proof -
  let ?r = "ts_time (os_readings (hw (sch c)) (n_readings (hw (sch c))))"
  have b: "0 \<le> sint ?r" "sint ?r \<le> 1000000000" "0 \<le> sint (currentTime c)" "sint (currentTime c) \<le> 2 ^ 62 + 1000000000"
    using assms by (simp_all add: serves_def year_146_def)
  have d: "sint (Tick - ?r) = 1000000000 - sint ?r" using b sint_minus [of Tick ?r] by simp
  have "sint (now_of c) = 1000000000 - sint ?r + sint (currentTime c)"
    unfolding now_of_def using b d sint_plus [of "Tick - ?r" "currentTime c"] by simp
  with b show "sint (currentTime c) \<le> sint (now_of c)" "sint (now_of c) \<le> sint (currentTime c) + 1000000000"
    "0 \<le> sint (now_of c)" "sint (now_of c) < 2 ^ 62 + 2 ^ 61" by simp_all
qed

text \<open>The time left until a deadline, without overflow and in the range of the timer.\<close>

lemma left_range:
  assumes "serves cpu c" and "0 \<le> sint t" and "sint t - sint (currentTime c) < 2 ^ 31 * NS_PER_SEC"
  shows "sint (t - now_of c) < 2 ^ 31 * NS_PER_SEC"
proof -
  note N = now_range [OF assms(1)]
  have "sint t < 2 ^ 63" using sint_lt [of t] by simp
  then have "sint (t - now_of c) = sint t - sint (now_of c)" using N assms(2) by (intro sint_minus) simp_all
  with N assms(3) show ?thesis by simp
qed

subsection \<open>The handlers\<close>

lemma placedD:
  assumes "placed cpu idle frame P Q T c W"
  shows "sched_inv (sch c) Q" "top_running (sch c) Q cpu" "tmo_ok c T"
    "places P (members (sch c) Q cpu) (timed c (T cpu)) (receivers cpu c) W"
    "p \<in> P \<Longrightarrow> p \<noteq> NULL" "p \<in> P \<Longrightarrow> p_pun (proc_of c p) = cpu" "p \<in> P \<Longrightarrow> p_stackptr (proc_of c p) = proc_stack p"
    "p \<in> P \<Longrightarrow> (p \<notin> members (sch c) Q cpu \<longrightarrow> p_sched_state (proc_of c p) = PROC_WAITING)"
    "inj_on (interrupts c cpu) {i. i < NINTR \<and> interrupts c cpu i \<noteq> NULL}"
    "d \<in> set (T cpu) \<Longrightarrow> d = frame (t_proc (tmos c d)) \<and> t_type (tmos c d) = TMO_AFTER \<and>
       0 \<le> tkey c d \<and> tkey c d - sint (currentTime c) < 2 ^ 31 * NS_PER_SEC"
    "p \<in> P \<Longrightarrow> p \<notin> members (sch c) Q cpu \<Longrightarrow> idle_on (sch c) Q cpu p" "idle \<in> members (sch c) Q cpu"
    "p \<in> P \<Longrightarrow> proc_stack p \<noteq> NULL"
proof -
  show "p \<in> P \<Longrightarrow> proc_stack p \<noteq> NULL" using assms by (simp add: placed_def)
  show g: "p \<in> P \<Longrightarrow> p \<noteq> NULL" "p \<in> P \<Longrightarrow> p_pun (proc_of c p) = cpu" "p \<in> P \<Longrightarrow> p_stackptr (proc_of c p) = proc_stack p"
    using assms by (simp_all add: placed_def)
  show "sched_inv (sch c) Q" "top_running (sch c) Q cpu" "tmo_ok c T"
    "places P (members (sch c) Q cpu) (timed c (T cpu)) (receivers cpu c) W"
    "inj_on (interrupts c cpu) {i. i < NINTR \<and> interrupts c cpu i \<noteq> NULL}" "idle \<in> members (sch c) Q cpu"
    using assms by (simp_all add: placed_def)
  show "p \<in> P \<Longrightarrow> (p \<notin> members (sch c) Q cpu \<longrightarrow> p_sched_state (proc_of c p) = PROC_WAITING)"
    "d \<in> set (T cpu) \<Longrightarrow> d = frame (t_proc (tmos c d)) \<and> t_type (tmos c d) = TMO_AFTER \<and>
       0 \<le> tkey c d \<and> tkey c d - sint (currentTime c) < 2 ^ 31 * NS_PER_SEC"
    using assms unfolding placed_def by blast+
  show "p \<in> P \<Longrightarrow> p \<notin> members (sch c) Q cpu \<Longrightarrow> idle_on (sch c) Q cpu p"
    using g by (simp add: idle_on_def proc_of_def)
qed

text \<open>A step that moves processes from waiting to ready, seen from the places.\<close>

lemma placed_step:
  assumes old: "placed cpu idle frame P Q T c W" and st: "steady X c c'"
    and inv: "sched_inv (sch c') Q'" "top_running (sch c') Q' cpu" "tmo_ok c' T'" "idle \<in> members (sch c') Q' cpu"
    and pl: "places P (members (sch c') Q' cpu) (timed c' (T' cpu)) (receivers cpu c') W'"
    and X: "\<forall>p \<in> P \<inter> X. (p \<notin> members (sch c') Q' cpu \<longrightarrow> p_sched_state (proc_of c' p) = PROC_WAITING)"
    and same: "\<forall>p \<in> P - X. p \<in> members (sch c') Q' cpu \<longleftrightarrow> p \<in> members (sch c) Q cpu"
    and inj: "inj_on (interrupts c' cpu) {i. i < NINTR \<and> interrupts c' cpu i \<noteq> NULL}"
    and ds: "\<forall>d \<in> set (T' cpu). d = frame (t_proc (tmos c' d)) \<and> t_type (tmos c' d) = TMO_AFTER \<and>
       0 \<le> tkey c' d \<and> tkey c' d - sint (currentTime c') < 2 ^ 31 * NS_PER_SEC"
  shows "placed cpu idle frame P Q' T' c' W'"
proof -
  note D = placedD [OF old]
  have "(p \<notin> members (sch c') Q' cpu \<longrightarrow> p_sched_state (proc_of c' p) = PROC_WAITING)"
    if p: "p \<in> P" for p
  proof (cases "p \<in> X")
    case False
    then have "p_sched_state (proc_of c' p) = p_sched_state (proc_of c p)" using st by (simp add: steady_def)
    with False p same D(8) show ?thesis by simp
  qed (use X p in blast)
  then have "\<forall>p \<in> P. p \<noteq> NULL \<and> proc_stack p \<noteq> NULL \<and> p_pun (proc_of c' p) = cpu \<and> p_stackptr (proc_of c' p) = proc_stack p \<and>
       (p \<notin> members (sch c') Q' cpu \<longrightarrow> p_sched_state (proc_of c' p) = PROC_WAITING)"
    using D(5,6,7,13) st by (simp add: steady_def)
  with inv pl inj ds show ?thesis unfolding placed_def by blast
qed

lemma timed_append [simp]: "timed c (xs @ ys) = timed c xs \<union> timed c ys"
  by (simp add: timed_def image_Un)

lemma timed_disjoint:
  assumes "distinct (xs @ ys)" and "\<forall>d \<in> set (xs @ ys). d = frame (t_proc (tmos c d))"
  shows "timed c xs \<inter> timed c ys = {}"
proof -
  have "d = e" if "d \<in> set (xs @ ys)" "e \<in> set (xs @ ys)" "t_proc (tmos c d) = t_proc (tmos c e)" for d e
    using assms(2) that by metis
  with assms(1) show ?thesis by (fastforce simp: timed_def)
qed

text \<open>What becomes of the processes with the descriptors \<open>ds\<close> when the timeouts are handled.\<close>

definition woken :: "pun \<Rightarrow> cxp \<Rightarrow> addr list \<Rightarrow> (pun \<Rightarrow> addr list) \<Rightarrow> cxp \<Rightarrow> bool" where
  "woken cpu c ds Q' c' \<longleftrightarrow> (\<forall>d \<in> set ds. if tkey c d \<le> sint (now_of c)
     then t_proc (tmos c d) \<in> members (sch c') Q' cpu \<and> p_sched_state (proc_of c' (t_proc (tmos c d))) = PROC_READY
     else t_proc (tmos c d) \<notin> members (sch c') Q' cpu)"

text \<open>Only the elapsed-time interrupt changes the tick count.\<close>

definition ticked :: "nat \<Rightarrow> cxp \<Rightarrow> cxp \<Rightarrow> bool" where
  "ticked i c c' \<longleftrightarrow> currentTime c' = (if i = INTR_ELAPSED then currentTime c + Tick else currentTime c)"

lemma ticked_steady: "steady X c c' \<Longrightarrow> i \<noteq> INTR_ELAPSED \<Longrightarrow> ticked i c c'"
  by (simp add: ticked_def steady_def)

text \<open>Of the entries \<open>ds\<close> those that are not due are still among the entries \<open>zs\<close>.\<close>

definition keeps_late :: "cxp \<Rightarrow> addr list \<Rightarrow> cxp \<Rightarrow> addr list \<Rightarrow> bool" where
  "keeps_late c ds c' zs \<longleftrightarrow> tmos c' = tmos c \<and> (\<forall>d \<in> set ds. sint (now_of c) < tkey c d \<longrightarrow> d \<in> set zs)"

lemma keeps_late_same [simp]: "keeps_late c ds c' ds \<longleftrightarrow> tmos c' = tmos c"
  by (simp add: keeps_late_def)

lemma woken_cong: "tmos c2 = tmos c \<Longrightarrow> now_of c2 = now_of c \<Longrightarrow> woken cpu c2 ds Q c' = woken cpu c ds Q c'"
  by (simp add: woken_def tkey_def)

lemma timed_due:
  assumes "sorted (map (tkey c) xs)" and "d \<in> set xs" and "\<forall>d \<in> set xs. d = frame (t_proc (tmos c d))"
  shows "t_proc (tmos c d) \<in> timed c (takeWhile (\<lambda>d. tkey c d \<le> k) xs) \<longleftrightarrow> tkey c d \<le> k"
proof -
  have "d = e" if "e \<in> set xs" "t_proc (tmos c d) = t_proc (tmos c e)" for e
    using assms(2,3) that by metis
  with assms(1,2) show ?thesis by (auto simp: timed_def takeWhile_le_sorted(1))
qed

lemma timeout_runs:
  assumes pl: "placed cpu idle frame P Q T c W" and s: "serves cpu c" and cpu: "cpu < NPUN"
  defines "due \<equiv> takeWhile (\<lambda>d. tkey c d \<le> sint (now_of c)) (T cpu)"
    and "rest \<equiv> dropWhile (\<lambda>d. tkey c d \<le> sint (now_of c)) (T cpu)"
  shows "\<exists>b c' ys. handle_timeout_interrupt cpu c = Inr (b, c') \<and> tmo_ok c' (T(cpu := rest)) \<and>
    sched_inv (sch c') (Q(cpu := ys)) \<and> top_running (sch c') (Q(cpu := ys)) cpu \<and>
    members (sch c') (Q(cpu := ys)) cpu = timed c due \<union> members (sch c) Q cpu \<and>
    (\<forall>d \<in> set due. freed c' d) \<and> calm (timed c due) c c'"
proof -
  note D = placedD [OF pl]
  have split: "T cpu = due @ rest" by (simp add: due_def rest_def)
  have sub: "set due \<subseteq> set (T cpu)" "set rest \<subseteq> set (T cpu)" by (simp_all add: split)
  have out: "t_proc (tmos c d) \<in> P" "t_proc (tmos c d) \<notin> members (sch c) Q cpu" if "d \<in> set (T cpu)" for d
    using D(4) that by (auto simp: places_def timed_def)
  have sl: "sleeps c d" if "d \<in> set (T cpu)" for d
    using D(8) [OF out(1) [OF that]] out(2) [OF that] D(10) [OF that] by (simp add: sleeps_def)
  have dok: "due_ok c Q cpu due"
    unfolding due_ok_def using D(10,11) out sub(1) by (metis insertI1 subsetD)
  have d: "\<forall>d \<in> set due. tkey c d \<le> sint (now_of c)" by (auto simp: due_def dest: set_takeWhileD)
  have nx: "rest = [] \<or> sint (now_of c) < tkey c (hd rest)"
    using hd_dropWhile [of "\<lambda>d. tkey c d \<le> sint (now_of c)" "T cpu"] unfolding rest_def by (meson not_le)
  have lim: "rest = [] \<or> sint (t_time (tmos c (hd rest)) - now_of c) < 2 ^ 31 * NS_PER_SEC"
    using left_range [OF s] D(10) sub(2) hd_in_set [of rest] unfolding tkey_def by blast
  have clk: "clock_ok cpu c" and "\<exists>tm. timeout_timer cpu c = Some tm" using s by (auto simp: serves_def)
  then obtain tm where tm: "timeout_timer cpu c = Some tm" by blast
  have "sleepers c due = timed c due" using sl sub(1) unfolding sleepers_def timed_def by blast
  with handle_timeout_ok [OF D(3,1) cpu clk tm split d nx dok lim] show ?thesis
    unfolding timed_def by (elim exE conjE) (intro exI conjI, assumption+, simp, assumption+)
qed

lemma placed_timeout:
  assumes pl: "placed cpu idle frame P Q T c W" and s: "serves cpu c" and cpu: "cpu < NPUN"
  shows "\<exists>b c' ys zs. handle_timeout_interrupt cpu c = Inr (b, c') \<and> steady UNIV c c' \<and>
    placed cpu idle frame P (Q(cpu := ys)) (T(cpu := zs)) c' W \<and> woken cpu c (T cpu) (Q(cpu := ys)) c' \<and>
    keeps_late c (T cpu) c' zs"
proof -
  let ?due = "takeWhile (\<lambda>d. tkey c d \<le> sint (now_of c)) (T cpu)" and ?rest = "dropWhile (\<lambda>d. tkey c d \<le> sint (now_of c)) (T cpu)"
  note D = placedD [OF pl]
  have srt: "sorted (map (tkey c) (T cpu))" and chain: "chain (tnext c) (timeQue c cpu) (T cpu)"
    using D(3) cpu by (simp_all add: tmo_ok_def)
  have sub: "set ?due \<subseteq> set (T cpu)" "set ?rest \<subseteq> set (T cpu)" by (auto dest: set_takeWhileD set_dropWhileD)
  obtain b c' ys where c': "handle_timeout_interrupt cpu c = Inr (b, c')" "tmo_ok c' (T(cpu := ?rest))"
    "sched_inv (sch c') (Q(cpu := ys))" "top_running (sch c') (Q(cpu := ys)) cpu"
    "members (sch c') (Q(cpu := ys)) cpu = timed c ?due \<union> members (sch c) Q cpu"
    "\<forall>d \<in> set ?due. freed c' d" "calm (timed c ?due) c c'"
    using timeout_runs [OF pl s cpu] by (elim exE conjE) (rule that)
  note M = c'(5)
  have st: "steady (timed c ?due) c c'" and i': "interrupts c' = interrupts c" "tmos c' = tmos c"
    using c'(7) by (simp_all add: calm_def)
  have dis: "timed c ?due \<inter> timed c ?rest = {}"
    by (rule timed_disjoint [of _ _ frame])
      (unfold takeWhile_dropWhile_id, rule chain_distinct [OF chain], use D(10) in blast)
  have un: "timed c (T cpu) = timed c ?due \<union> timed c ?rest"
    unfolding timed_append [symmetric] takeWhile_dropWhile_id ..
  have k: "tkey c' = tkey c" "timed c' = timed c" "currentTime c' = currentTime c" "receivers cpu c' = receivers cpu c"
    using i' st by (simp_all add: tkey_def [abs_def] timed_def [abs_def] steady_def receivers_def)
  have ready: "p_sched_state (proc_of c' (t_proc (tmos c d))) = PROC_READY" if "d \<in> set ?due" for d
    using c'(6) D(10) sub(1) i'(2) that by (auto simp: freed_def)
  have "placed cpu idle frame P (Q(cpu := ys)) (T(cpu := ?rest)) c' W"
  proof (rule placed_step [OF pl st c'(3,4,2)])
    show "idle \<in> members (sch c') (Q(cpu := ys)) cpu" using D(12) unfolding M by simp
    show "places P (members (sch c') (Q(cpu := ys)) cpu) (timed c' ((T(cpu := ?rest)) cpu)) (receivers cpu c') W"
      using D(4) dis un unfolding places_def M k by auto
    show "\<forall>p \<in> P \<inter> timed c ?due. (p \<notin> members (sch c') (Q(cpu := ys)) cpu \<longrightarrow>
        p_sched_state (proc_of c' p) = PROC_WAITING)" unfolding M by blast
    show "\<forall>p \<in> P - timed c ?due. p \<in> members (sch c') (Q(cpu := ys)) cpu \<longleftrightarrow> p \<in> members (sch c) Q cpu"
      unfolding M by blast
    show "\<forall>d \<in> set ((T(cpu := ?rest)) cpu). d = frame (t_proc (tmos c' d)) \<and> t_type (tmos c' d) = TMO_AFTER \<and>
       0 \<le> tkey c' d \<and> tkey c' d - sint (currentTime c') < 2 ^ 31 * NS_PER_SEC"
      using D(10) sub(2) unfolding k i' by (simp only: fun_upd_same) blast
  qed (use D(9) i' in simp)
  moreover have "t_proc (tmos c d) \<in> members (sch c') (Q(cpu := ys)) cpu \<longleftrightarrow> tkey c d \<le> sint (now_of c)"
    if "d \<in> set (T cpu)" for d
    using timed_due [OF srt that, of frame] D(4,10) that unfolding M by (auto simp: places_def timed_def)
  then have "woken cpu c (T cpu) (Q(cpu := ys)) c'"
    using ready by (simp add: woken_def takeWhile_le_sorted(1) [OF srt])
  moreover have "steady UNIV c c'" using st by (simp add: steady_def)
  moreover have "d \<in> set ?rest" if "d \<in> set (T cpu)" "sint (now_of c) < tkey c d" for d
  proof -
    have "d \<in> set ?due \<or> d \<in> set ?rest" using that(1) by (metis Un_iff set_append takeWhile_dropWhile_id)
    then show ?thesis using that(2) set_takeWhileD [of d _ "T cpu"] by fastforce
  qed
  then have "keeps_late c (T cpu) c' ?rest" using i'(2) by (simp add: keeps_late_def)
  ultimately show ?thesis using c'(1) by blast
qed

lemma user_interrupt_frame:
  assumes "handle_user_interrupt cpu i c = Inr (b, c')" and "interrupts c cpu i = r" and "r \<noteq> NULL"
    and "p_pun (proc_of c (current (sch c) cpu)) = cpu"
  shows "core (sch c') = core (set_sched_state r PROC_READY (sch c))" "tmos c' = tmos c" "timeQue c' = timeQue c"
    "currentTime c' = currentTime c" "interrupts c' = (interrupts c)(cpu := (interrupts c cpu)(i := NULL))"
  using assms
  by (auto simp: handle_user_interrupt_def transmit_def get_current_def set_interrupt_def xchg_ready_def Let_def
      split: if_splits dest!: core_ops schedule_from_interrupt_core)

lemma placed_user:
  assumes pl: "placed cpu idle frame P Q T c W" and cpu: "cpu < NPUN" and i: "i < NINTR"
  shows "\<exists>b c' ys. handle_user_interrupt cpu i c = Inr (b, c') \<and> steady UNIV c c' \<and>
    placed cpu idle frame P (Q(cpu := ys)) T c' W \<and> tmos c' = tmos c"
proof (cases "interrupts c cpu i = NULL")
  case True
  have "handle_user_interrupt cpu i c = Inr (False, c)"
    using transmit_none [OF placedD(1) [OF pl] cpu i True] by (simp add: handle_user_interrupt_def)
  with pl show ?thesis by (intro exI [of _ False] exI [of _ c] exI [of _ "Q cpu"]) simp
next
  case False
  define r where "r = interrupts c cpu i"
  note D = placedD [OF pl] and PL = placedD(4) [OF pl, unfolded places_def]
  have rn: "r \<noteq> NULL" and ri: "interrupts c cpu i = r" using False by (simp_all add: r_def)
  have rR: "r \<in> receivers cpu c" using rn i by (auto simp: receivers_def r_def)
  then have r: "r \<in> P" "r \<notin> members (sch c) Q cpu" using PL by blast+
  note x = D(11) [OF r]
  have w: "p_sched_state (proc_of c r) = PROC_WAITING" using D(8) [OF r(1)] r(2) by simp
  obtain b c' ys where u: "handle_user_interrupt cpu i c = Inr (b, c')" "sched_inv (sch c') (Q(cpu := ys))"
    "top_running (sch c') (Q(cpu := ys)) cpu"
    "members (sch c') (Q(cpu := ys)) cpu = insert r (members (sch c) Q cpu)"
    using user_interrupt_ok [OF D(1) cpu i ri rn] w x by auto
  have "p_pun (proc_of c (current (sch c) cpu)) = cpu" using sched_invD(3) [OF D(1) cpu] by (simp add: proc_of_def)
  note F = user_interrupt_frame [OF u(1) ri rn this]
  have st: "steady {r} c c'" using F(1,4) by (intro steady_state [where st = PROC_READY]) simp_all
  have R: "receivers cpu c' = receivers cpu c - {r}"
    using D(9) i rn ri F(5) by (auto simp: receivers_def inj_on_def)
  have k: "timed c' = timed c" "tkey c' = tkey c" "tnext c' = tnext c"
    using F(2) by (simp_all add: timed_def [abs_def] tkey_def [abs_def] tnext_def [abs_def])
  have "placed cpu idle frame P (Q(cpu := ys)) T c' W"
  proof (rule placed_step [OF pl st u(2,3)])
    show "tmo_ok c' T" using D(3) tmo_ok_cong [OF k(3,2) F(3)] by simp
    show "idle \<in> members (sch c') (Q(cpu := ys)) cpu" using D(12) unfolding u(4) by simp
    show "places P (members (sch c') (Q(cpu := ys)) cpu) (timed c' (T cpu)) (receivers cpu c') W"
      using PL rR unfolding places_def u(4) R k by blast
    show "\<forall>p \<in> P \<inter> {r}. (p \<notin> members (sch c') (Q(cpu := ys)) cpu \<longrightarrow>
        p_sched_state (proc_of c' p) = PROC_WAITING)"
      using core_eqD(4) [OF F(1)] unfolding u(4) by (simp add: proc_of_def)
    show "\<forall>d \<in> set (T cpu). d = frame (t_proc (tmos c' d)) \<and> t_type (tmos c' d) = TMO_AFTER \<and>
       0 \<le> tkey c' d \<and> tkey c' d - sint (currentTime c') < 2 ^ 31 * NS_PER_SEC"
      using D(10) unfolding k F by blast
  qed (use D(9) F(5) u(4) in \<open>auto simp: inj_on_def\<close>)
  moreover have "steady UNIV c c'" using st by (simp add: steady_def)
  ultimately show ?thesis using u(1) F(2) by blast
qed

text \<open>Steps after which the same processes are at the processor, and no waiting one has become ready.\<close>

lemma placed_same:
  assumes pl: "placed cpu idle frame P Q T c W" and st: "steady {} c c'"
    and inv: "sched_inv (sch c') Q'" "top_running (sch c') Q' cpu" "members (sch c') Q' cpu = members (sch c) Q cpu"
    and k: "tmos c' = tmos c" "timeQue c' = timeQue c" "interrupts c' = interrupts c"
  shows "placed cpu idle frame P Q' T c' W"
proof -
  note D = placedD [OF pl]
  have e: "timed c' = timed c" "tkey c' = tkey c" "tnext c' = tnext c" "receivers cpu c' = receivers cpu c"
    "currentTime c' = currentTime c"
    using k st by (simp_all add: timed_def [abs_def] tkey_def [abs_def] tnext_def [abs_def] receivers_def steady_def)
  show ?thesis
  proof (rule placed_step [OF pl st inv(1,2)])
    show "tmo_ok c' T" using D(3) tmo_ok_cong [OF e(3,2) k(2)] by simp
    show "\<forall>d \<in> set (T cpu). d = frame (t_proc (tmos c' d)) \<and> t_type (tmos c' d) = TMO_AFTER \<and>
       0 \<le> tkey c' d \<and> tkey c' d - sint (currentTime c') < 2 ^ 31 * NS_PER_SEC"
      using D(10) unfolding e k by blast
  qed (use D(4,9,12) e k inv(3) in simp_all)
qed

lemma placed_interproc:
  assumes pl: "placed cpu idle frame P Q T c W" and cpu: "cpu < NPUN"
  shows "\<exists>b s' ys. handle_interprocessor_interrupt cpu (sch c) = Inr (b, s') \<and> steady UNIV c (c\<lparr>sch := s'\<rparr>) \<and>
    placed cpu idle frame P (Q(cpu := ys)) T (c\<lparr>sch := s'\<rparr>) W"
proof -
  note D = placedD [OF pl]
  obtain b s' ys where s': "handle_interprocessor_interrupt cpu (sch c) = Inr (b, s')"
    "sched_inv s' (Q(cpu := ys))" "top_running s' (Q(cpu := ys)) cpu"
    "members s' (Q(cpu := ys)) cpu = members (sch c) Q cpu"
    using interproc_ok [OF D(1) cpu D(2)] by blast
  have st: "steady X c (c\<lparr>sch := s'\<rparr>)" for X by (rule steady_core) (use interproc_core [OF s'(1)] in simp_all)
  have "placed cpu idle frame P (Q(cpu := ys)) T (c\<lparr>sch := s'\<rparr>) W"
    by (rule placed_same [OF pl st]) (use s' in simp_all)
  with s'(1) st show ?thesis by blast
qed

lemma placed_elapsed:
  assumes pl: "placed cpu idle frame P Q T c W" and s: "serves cpu c" and t: "sint (currentTime c) \<le> year_146"
  defines "c' \<equiv> handle_elapsed_time_interrupt c"
  shows "placed cpu idle frame P Q T c' W" and "serves cpu c'"
proof -
  have b: "0 \<le> sint (currentTime c)" "sint (currentTime c) \<le> 2 ^ 62" using s t by (simp_all add: serves_def year_146_def)
  have ct: "sint (currentTime c') = sint (currentTime c) + 1000000000"
    using b sint_plus [of "currentTime c" Tick] by (simp add: c'_def handle_elapsed_time_interrupt_def)
  have f: "sch c' = sch c" "tmos c' = tmos c" "interrupts c' = interrupts c" "timeQue c' = timeQue c"
    by (simp_all add: c'_def handle_elapsed_time_interrupt_def)
  then have k: "proc_of c' = proc_of c" "tkey c' = tkey c" "tnext c' = tnext c" "timed c' = timed c"
    "receivers cpu c' = receivers cpu c" "tmo_ok c' T = tmo_ok c T"
    by (simp_all add: proc_of_def [abs_def] tkey_def [abs_def] tnext_def [abs_def] timed_def [abs_def] receivers_def tmo_ok_def)
  show "placed cpu idle frame P Q T c' W"
    using pl ct unfolding placed_def f k by (elim conjE) (intro conjI; (assumption | fastforce))
  show "serves cpu c'" using s t b ct f by (simp add: serves_def clock_ok_def timeout_timer_def)
qed

text \<open>Contexts and masks, which the signal handler writes, have no part in the invariant.\<close>

lemma ctxs_irrelevant [simp]:
  "sched_inv (s\<lparr>ctxs := x\<rparr>) Q = sched_inv s Q" "top_running (s\<lparr>ctxs := x\<rparr>) Q cpu = top_running s Q cpu"
  "members (s\<lparr>ctxs := x\<rparr>) Q cpu = members s Q cpu"
  by (auto simp: sched_inv_def top_running_def members_def running_ok_def)

lemma placed_hw:
  assumes pl: "placed cpu idle frame P Q T c W" and s: "serves cpu c"
    and c': "c' = c\<lparr>sch := s'\<rparr>" "core s' = core (sch c)" "sched_inv s' Q = sched_inv (sch c) Q"
      "top_running s' Q cpu = top_running (sch c) Q cpu" "members s' Q cpu = members (sch c) Q cpu"
  shows "placed cpu idle frame P Q T c' W" and "serves cpu c'"
proof -
  have st: "steady {} c c'" by (rule steady_core) (simp_all add: c')
  show "placed cpu idle frame P Q T c' W"
    by (rule placed_same [OF pl st]) (use placedD(1,2) [OF pl] c' in simp_all)
  show "serves cpu c'" by (rule serves_steady [OF st s])
qed

text \<open>The dispatch.\<close>

lemma placed_handle:
  assumes pl: "placed cpu idle frame P Q T c W" and s: "serves cpu c" and cpu: "cpu < NPUN" and i: "i < NINTR"
    and t: "i = INTR_ELAPSED \<Longrightarrow> sint (currentTime c) \<le> year_146"
  shows "\<exists>b c' ys zs. handle_interrupt cpu i c = Inr (b, c') \<and> serves cpu c' \<and>
    placed cpu idle frame P (Q(cpu := ys)) (T(cpu := zs)) c' W \<and> keeps_late c (T cpu) c' zs \<and> ticked i c c' \<and>
    (i = INTR_TIMEOUT \<longrightarrow> woken cpu c (T cpu) (Q(cpu := ys)) c') \<and> (i \<noteq> INTR_TIMEOUT \<longrightarrow> zs = T cpu)"
proof -
  consider "i = INTR_INTERPROC" | "i = INTR_TIMEOUT" | "i = INTR_ELAPSED" | "INTR_USER0 \<le> i"
    using i by (fastforce simp: intr_numbers)
  then show ?thesis
  proof cases
    case 1
    obtain b s' ys where s': "handle_interprocessor_interrupt cpu (sch c) = Inr (b, s')"
      "steady UNIV c (c\<lparr>sch := s'\<rparr>)" "placed cpu idle frame P (Q(cpu := ys)) T (c\<lparr>sch := s'\<rparr>) W"
      using placed_interproc [OF pl cpu] by blast
    then have "placed cpu idle frame P (Q(cpu := ys)) (T(cpu := T cpu)) (c\<lparr>sch := s'\<rparr>) W" by simp
    moreover have "handle_interrupt cpu i c = Inr (b, c\<lparr>sch := s'\<rparr>)" using s'(1) 1 by (simp add: handle_interrupt_def)
    moreover have "i \<noteq> INTR_TIMEOUT" "keeps_late c (T cpu) (c\<lparr>sch := s'\<rparr>) (T cpu)" "ticked i c (c\<lparr>sch := s'\<rparr>)"
      using 1 by (simp_all add: intr_numbers ticked_def)
    ultimately show ?thesis using serves_steady [OF s'(2) s] by blast
  next
    case 2
    then have h: "handle_interrupt cpu i c = handle_timeout_interrupt cpu c" by (simp add: handle_interrupt_def intr_numbers)
    obtain b c' ys zs where "handle_timeout_interrupt cpu c = Inr (b, c')" "steady UNIV c c'"
      "placed cpu idle frame P (Q(cpu := ys)) (T(cpu := zs)) c' W" "woken cpu c (T cpu) (Q(cpu := ys)) c'"
      "keeps_late c (T cpu) c' zs" using placed_timeout [OF pl s cpu] by blast
    moreover from this(2) have "ticked i c c'" using 2 by (auto intro: ticked_steady simp: intr_numbers)
    ultimately show ?thesis using h 2 serves_steady [OF _ s]
      by (intro exI [of _ b] exI [of _ c'] exI [of _ ys] exI [of _ zs]) simp
  next
    case 3
    then have "handle_interrupt cpu i c = Inr (False, handle_elapsed_time_interrupt c)"
      by (simp add: handle_interrupt_def intr_numbers)
    moreover have "placed cpu idle frame P (Q(cpu := Q cpu)) (T(cpu := T cpu)) (handle_elapsed_time_interrupt c) W"
      using placed_elapsed(1) [OF pl s t [OF 3]] by simp
    moreover have "i \<noteq> INTR_TIMEOUT" "keeps_late c (T cpu) (handle_elapsed_time_interrupt c) (T cpu)"
      "ticked i c (handle_elapsed_time_interrupt c)"
      using 3 by (simp_all add: intr_numbers handle_elapsed_time_interrupt_def ticked_def)
    ultimately show ?thesis using placed_elapsed(2) [OF pl s t [OF 3]] by blast
  next
    case 4
    then have h: "handle_interrupt cpu i c = handle_user_interrupt cpu (i - INTR_USER0) c"
      by (simp add: handle_interrupt_def intr_numbers)
    have "i - INTR_USER0 < NINTR" using i by simp
    from placed_user [OF pl cpu this] obtain b c' ys where "handle_user_interrupt cpu (i - INTR_USER0) c = Inr (b, c')"
      "steady UNIV c c'" "placed cpu idle frame P (Q(cpu := ys)) (T(cpu := T cpu)) c' W" "keeps_late c (T cpu) c' (T cpu)" by auto
    moreover have "i \<noteq> INTR_TIMEOUT" using 4 by (auto simp: intr_numbers)
    moreover have "ticked i c c'" using ticked_steady [OF calculation(2)] 4 by (auto simp: intr_numbers)
    ultimately show ?thesis using h serves_steady [OF _ s] by metis
  qed
qed

lemma intrs_NINTR: "i \<in> intrs_of cpu \<Longrightarrow> i < NINTR"
  by (auto simp: intrs_of_def NINTR_def split: if_splits)

lemma placed_signal:
  assumes pl: "placed cpu idle frame P Q T c W" and s: "serves cpu c" and cpu: "cpu < NPUN" and i: "i \<in> intrs_of cpu"
    and t: "i = INTR_ELAPSED \<Longrightarrow> sint (currentTime c) \<le> year_146"
  shows "\<exists>b c' ys zs. handle_signal cpu (signal_no (hw (sch c)) cpu i) c = Inr (b, c') \<and> serves cpu c' \<and>
    placed cpu idle frame P (Q(cpu := ys)) (T(cpu := zs)) c' W \<and> keeps_late c (T cpu) c' zs \<and> ticked i c c' \<and>
    (i = INTR_TIMEOUT \<longrightarrow> woken cpu c (T cpu) (Q(cpu := ys)) c') \<and> (i \<noteq> INTR_TIMEOUT \<longrightarrow> zs = T cpu)"
proof -
  let ?h = "hw (sch c)" and ?p = "current (sch c) cpu"
  let ?sp = "p_stackptr (procs (sch c) ?p)"
  let ?x = "(ctxs (sch c))(?sp := (ctxs (sch c) ?sp)\<lparr>uc_point := Interrupted, uc_sigmask := thr_mask ?h cpu\<rparr>)"
  let ?s0 = "on_hw (disable cpu) ((sch c)\<lparr>ctxs := ?x\<rparr>)"
  let ?c0 = "c\<lparr>sch := ?s0\<rparr>"
  have "?p \<in> P" using placedD(4) [OF pl] by (auto simp: places_def members_def)
  then have sp: "?sp \<noteq> NULL" using placedD(7,13) [OF pl] by (simp add: proc_of_def)
  have save: "save_interrupted cpu (sch c) = Inr ((sch c)\<lparr>ctxs := ?x\<rparr>)"
    using sched_invD(2) [OF placedD(1) [OF pl] cpu] sp by (simp add: save_interrupted_def get_current_eq Let_def)
  have c0: "placed cpu idle frame P Q T ?c0 W" "serves cpu ?c0"
    by (rule placed_hw [OF pl s refl], simp, simp add: on_hw_eq, simp add: on_hw_eq, simp add: on_hw_eq)+
  obtain n PS A where "routing n ?h PS A" "(cpu, i) \<in> A" "n \<le> 10" using s i by (auto simp: serves_def)
  then have intr: "signal_intr (signal_no ?h cpu i) (hw ?s0) = Inr i"
    using routing_signal_intr(1) [of n ?h PS A cpu i]
    by (simp add: signal_intr_def on_hw_eq disable_def Let_def split: if_splits)
  have w: "woken cpu ?c0 ds Q' c' = woken cpu c ds Q' c'" for ds Q' c'
    by (rule woken_cong) (simp_all add: now_of_def on_hw_eq disable_def)
  have kl: "keeps_late ?c0 ds c' zs = keeps_late c ds c' zs" for ds c' zs
    by (simp add: keeps_late_def now_of_def tkey_def on_hw_eq disable_def)
  have tk: "ticked i ?c0 c' = ticked i c c'" for c' by (simp add: ticked_def)
  obtain b c1 ys zs where c1: "handle_interrupt cpu i ?c0 = Inr (b, c1)" "serves cpu c1"
    "placed cpu idle frame P (Q(cpu := ys)) (T(cpu := zs)) c1 W" "keeps_late c (T cpu) c1 zs" "ticked i c c1"
    "i = INTR_TIMEOUT \<longrightarrow> woken cpu c (T cpu) (Q(cpu := ys)) c1" "i \<noteq> INTR_TIMEOUT \<longrightarrow> zs = T cpu"
    using placed_handle [OF c0 cpu intrs_NINTR [OF i]] t unfolding w kl tk by auto
  let ?c2 = "c1\<lparr>sch := on_hw (enable cpu) (sch c1)\<rparr>"
  have c2: "placed cpu idle frame P (Q(cpu := ys)) (T(cpu := zs)) ?c2 W" "serves cpu ?c2"
    by (rule placed_hw [OF c1(3,2) refl], simp, simp add: on_hw_eq, simp add: on_hw_eq, simp add: on_hw_eq)+
  have "handle_signal cpu (signal_no ?h cpu i) c = Inr (b, if b then c1 else ?c2)"
    using save intr c1(1) by (simp add: handle_signal_def put_sched_def)
  moreover have "woken cpu c (T cpu) (Q(cpu := ys)) ?c2 = woken cpu c (T cpu) (Q(cpu := ys)) c1"
    by (simp add: woken_def proc_of_def on_hw_eq)
  moreover have "keeps_late c (T cpu) ?c2 zs = keeps_late c (T cpu) c1 zs" by (simp add: keeps_late_def)
  moreover have "ticked i c ?c2 = ticked i c c1" by (simp add: ticked_def)
  ultimately show ?thesis using c1(2-7) c2 by (cases b) auto
qed

end
