(* ===== verification/Processor.thy ===== *)
theory Processor
  imports Places
begin

text \<open>
  What happens on one processor in the course of time: its processes sleep, wait for interrupts or
  for one another and wake one another, the other processor sends it processes, and signals arrive
  between any two of these steps. Each step is a whole operation; every process
  is at any time in exactly one place, and the operations that are steps return.
\<close>

subsection \<open>The processes\<close>

lemma next_exists:
  assumes pl: "placed cpu idle frame P Q T c W" and n: "current (sch c) cpu \<noteq> idle"
  shows "\<exists>x xs. merged (sch c) cpu (Q cpu) = x # xs"
proof -
  have "idle \<in> set (Q cpu) \<union> set (in_ipq (sch c) cpu)" using placedD(12) [OF pl] n by (auto simp: members_def)
  then have "idle \<in> set (merged (sch c) cpu (Q cpu))" by simp
  then show ?thesis by (cases "merged (sch c) cpu (Q cpu)") auto
qed

text \<open>The running process gives up the processor; \<open>c1\<close> is the state in which it is prepared.\<close>

lemma placed_gives_up:
  assumes pl: "placed cpu idle frame P Q T c W" and cpu: "cpu < NPUN" and p: "current (sch c) cpu = p" "p \<noteq> idle"
    and c1: "sch c1 = set_sched_state p PROC_PREPARING_TO_WAIT (sch c)" "tmos c1 = tmos c" "timeQue c1 = timeQue c"
      "currentTime c1 = currentTime c"
    and pl1: "places P (members (sch c) Q cpu - {p}) (timed c (T cpu)) (receivers cpu c1) W'"
    and inj: "inj_on (interrupts c1 cpu) {i. i < NINTR \<and> interrupts c1 cpu i \<noteq> NULL}"
  shows "\<exists>c' xs. switching cpu (relinquish cpu) c1 = Paused c' (Done ()) \<and> steady {p} c c' \<and>
    placed cpu idle frame P (Q(cpu := xs)) T c' W'"
proof -
  note D = placedD [OF pl]
  obtain x xs where m: "merged (sch c) cpu (Q cpu) = x # xs" using next_exists [OF pl] p by auto
  have s1: "sched_inv (sch c1) Q" "merged (sch c1) cpu (Q cpu) = x # xs" "current (sch c1) cpu = p"
    "p_sched_state (proc_of c1 p) = PROC_PREPARING_TO_WAIT" "members (sch c1) Q cpu = members (sch c) Q cpu"
    using D(1) m p(1) by (simp_all add: c1(1) proc_of_def)
  obtain s' where s': "switching cpu (relinquish cpu) c1 = Paused (c1\<lparr>sch := s'\<rparr>) (Done ())" "current s' cpu = x"
    "sched_inv s' (Q(cpu := xs))" "top_running s' (Q(cpu := xs)) cpu" "p \<notin> members s' (Q(cpu := xs)) cpu"
    "members (sch c1) Q cpu = insert p (members s' (Q(cpu := xs)) cpu)"
    "core s' = core (set_sched_state p PROC_WAITING (sch c1))"
    using relinquish_moves [OF s1(1) cpu s1(2,3,4)] by (elim exE conjE) (rule that)
  let ?c' = "c1\<lparr>sch := s'\<rparr>"
  have M: "members s' (Q(cpu := xs)) cpu = members (sch c) Q cpu - {p}" using s'(5,6) s1(5) by auto
  have "steady {p} c c1" by (rule steady_state [where st = PROC_PREPARING_TO_WAIT]) (simp_all add: c1)
  moreover have "steady {p} c1 ?c'" by (rule steady_state [where st = PROC_WAITING]) (use s'(7) in simp_all)
  ultimately have st: "steady {p} c ?c'" using steady_trans by blast
  have k: "timed ?c' = timed c" "tkey ?c' = tkey c" "tnext ?c' = tnext c" "timeQue ?c' = timeQue c"
    "receivers cpu ?c' = receivers cpu c1" "tmos ?c' = tmos c" "currentTime ?c' = currentTime c"
    using c1 by (simp_all add: timed_def [abs_def] tkey_def [abs_def] tnext_def [abs_def] receivers_def)
  have "placed cpu idle frame P (Q(cpu := xs)) T ?c' W'"
  proof (rule placed_step [OF pl st])
    show "tmo_ok ?c' T" using D(3) tmo_ok_cong [OF k(3,2,4)] by simp
    show "places P (members (sch ?c') (Q(cpu := xs)) cpu) (timed ?c' (T cpu)) (receivers cpu ?c') W'"
      using pl1 M unfolding k by simp
    show "\<forall>y \<in> P \<inter> {p}. (y \<notin> members (sch ?c') (Q(cpu := xs)) cpu \<longrightarrow>
        p_sched_state (proc_of ?c' y) = PROC_WAITING)"
      using core_eqD(4) [OF s'(7)] s'(5) by (simp add: proc_of_def)
    show "\<forall>d \<in> set (T cpu). d = frame (t_proc (tmos ?c' d)) \<and> t_type (tmos ?c' d) = TMO_AFTER \<and>
       0 \<le> tkey ?c' d \<and> tkey ?c' d - sint (currentTime ?c') < 2 ^ 31 * NS_PER_SEC"
      using D(10) unfolding k by blast
  qed (use s'(3,4) M D(12) p(2) inj in simp_all)
  with s'(1) st show ?thesis by blast
qed

text \<open>The state in which it is prepared may differ in its channels, its memory and its locks.\<close>

definition same_waits :: "cxp \<Rightarrow> cxp \<Rightarrow> bool" where
  "same_waits c c' \<longleftrightarrow> tmos c' = tmos c \<and> timeQue c' = timeQue c \<and> currentTime c' = currentTime c \<and> interrupts c' = interrupts c"

lemma placed_block_at:
  assumes pl: "placed cpu idle frame P Q T c W" and s: "serves cpu c" and cpu: "cpu < NPUN"
    and p: "current (sch c) cpu = p" "p \<noteq> idle"
    and c1: "sch c1 = set_sched_state p PROC_PREPARING_TO_WAIT (sch c)" "same_waits c c1"
  shows "\<exists>c' xs. switching cpu (relinquish cpu) c1 = Paused c' (Done ()) \<and> serves cpu c' \<and>
    placed cpu idle frame P (Q(cpu := xs)) T c' (insert p W)"
proof -
  note D = placedD [OF pl] and S = c1(2) [unfolded same_waits_def]
  have i: "interrupts c1 = interrupts c" using S by simp
  have "p \<in> members (sch c) Q cpu" using p by (simp add: members_def)
  then have "places P (members (sch c) Q cpu - {p}) (timed c (T cpu)) (receivers cpu c1) (insert p W)"
    using D(4) unfolding places_def receivers_def i by auto
  then obtain c' xs where "switching cpu (relinquish cpu) c1 = Paused c' (Done ())"
    "steady {p} c c'" "placed cpu idle frame P (Q(cpu := xs)) T c' (insert p W)"
    using placed_gives_up [OF pl cpu p c1(1), of "insert p W"] S D(9) by auto
  with serves_steady [OF _ s] show ?thesis by blast
qed

lemma placed_block:
  assumes pl: "placed cpu idle frame P Q T c W" and s: "serves cpu c" and cpu: "cpu < NPUN"
    and p: "current (sch c) cpu = p" "p \<noteq> idle"
  shows "\<exists>c' xs. switching cpu (relinquish cpu) (PREPARE_TO_WAIT p c) = Paused c' (Done ()) \<and> serves cpu c' \<and>
    placed cpu idle frame P (Q(cpu := xs)) T c' (insert p W)"
  by (rule placed_block_at [OF pl s cpu p]) (simp_all add: same_waits_def PREPARE_TO_WAIT_def put_sched_def)

lemma receive_switches:
  assumes "sched_inv (sch c) Q" and "cpu < NPUN" and "i < NINTR"
  defines "p \<equiv> current (sch c) cpu"
  shows "receive cpu i c = switching cpu (relinquish cpu) (set_interrupt cpu i p (PREPARE_TO_WAIT p c))"
  using sched_invD(2,3) [OF assms(1,2)] assms(2,3) by (simp add: receive_def p_def proc_of_def Let_def)

lemma placed_receive:
  assumes pl: "placed cpu idle frame P Q T c W" and s: "serves cpu c" and cpu: "cpu < NPUN"
    and p: "current (sch c) cpu \<noteq> idle" and i: "i < NINTR" "interrupts c cpu i = NULL"
  shows "\<exists>c' xs. receive cpu i c = Paused c' (Done ()) \<and> serves cpu c' \<and>
    placed cpu idle frame P (Q(cpu := xs)) T c' W"
proof -
  note D = placedD [OF pl]
  define p where "p = current (sch c) cpu"
  let ?c1 = "set_interrupt cpu i p (PREPARE_TO_WAIT p c)"
  note C = sched_invD(2,3) [OF D(1) cpu]
  have pn: "p \<noteq> NULL" "p \<in> members (sch c) Q cpu" using C by (simp_all add: p_def members_def)
  have R: "receivers cpu ?c1 = insert p (receivers cpu c)"
    using i pn by (auto simp: receivers_def PREPARE_TO_WAIT_def put_sched_def)
  have "places P (members (sch c) Q cpu - {p}) (timed c (T cpu)) (receivers cpu ?c1) W"
    using D(4) pn(2) unfolding places_def R by auto
  moreover have "p \<notin> receivers cpu c" using D(4) pn(2) by (auto simp: places_def)
  then have "\<forall>j < NINTR. interrupts c cpu j \<noteq> p" using pn(1) by (auto simp: receivers_def)
  then have "inj_on (interrupts ?c1 cpu) {j. j < NINTR \<and> interrupts ?c1 cpu j \<noteq> NULL}"
    using D(9) by (auto simp: inj_on_def PREPARE_TO_WAIT_def put_sched_def)
  moreover have "sch ?c1 = set_sched_state p PROC_PREPARING_TO_WAIT (sch c)" "tmos ?c1 = tmos c"
    "timeQue ?c1 = timeQue c" "currentTime ?c1 = currentTime c"
    by (simp_all add: set_interrupt_def PREPARE_TO_WAIT_def put_sched_def)
  ultimately obtain c' xs where "switching cpu (relinquish cpu) ?c1 = Paused c' (Done ())"
    "steady {p} c c'" "placed cpu idle frame P (Q(cpu := xs)) T c' W"
    using placed_gives_up [OF pl cpu p_def [symmetric], of ?c1 W] p unfolding p_def by blast
  moreover have "receive cpu i c = switching cpu (relinquish cpu) ?c1"
    unfolding p_def by (rule receive_switches [OF D(1) cpu i(1)])
  ultimately show ?thesis using serves_steady [OF _ s] by metis
qed

text \<open>Sleeping. The descriptor of the running process is in no queue, because the process sleeps in none.\<close>

lemma frame_unused:
  assumes pl: "placed cpu idle frame P Q T c W" and f: "frames_ok cpu frame P T"
    and p: "p \<in> members (sch c) Q cpu" and q: "q < NPUN"
  shows "frame p \<notin> set (T q)"
proof (cases "q = cpu")
  case True
  have PL: "P = members (sch c) Q cpu \<union> timed c (T cpu) \<union> receivers cpu c \<union> W"
    "members (sch c) Q cpu \<inter> timed c (T cpu) = {}"
    using placedD(4) [OF pl] unfolding places_def by blast+
  show ?thesis
  proof
    assume d: "frame p \<in> set (T q)"
    then have e: "frame p = frame (t_proc (tmos c (frame p)))" "t_proc (tmos c (frame p)) \<in> timed c (T cpu)"
      using placedD(10) [OF pl] True by (auto simp: timed_def)
    then have "t_proc (tmos c (frame p)) = p"
      using f PL(1) p unfolding frames_ok_def by (metis UnCI inj_onD)
    with e(2) p PL(2) show False by auto
  qed
next
  case False
  then show ?thesis using f p q placedD(4) [OF pl] by (auto simp: frames_ok_def places_def)
qed

lemma placed_sleep:
  assumes pl: "placed cpu idle frame P Q T c W" and s: "serves cpu c" and f: "frames_ok cpu frame P T" and cpu: "cpu < NPUN"
    and p: "current (sch c) cpu = p" "p \<noteq> idle" and lim: "sint t - sint (currentTime c) < 2 ^ 31 * NS_PER_SEC"
  shows "if time_lt (now_of c) t
    then \<exists>c' xs. After cpu (frame p) t c = Paused c' (Done ()) \<and> serves cpu c' \<and>
      placed cpu idle frame P (Q(cpu := xs)) (T(cpu := sort_key (tkey c') (T cpu @ [frame p]))) c' W \<and>
      (\<forall>e. t_time (tmos c' e) = (if e = frame p then t else t_time (tmos c e)) \<and>
         t_proc (tmos c' e) = (if e = frame p then p else t_proc (tmos c e))) \<and> currentTime c' = currentTime c
    else \<exists>c'. After cpu (frame p) t c = Done () c' \<and> serves cpu c' \<and> placed cpu idle frame P Q T c' W \<and> tmos c' = tmos c"
proof -
  note D = placedD [OF pl]
  have clk: "clock_ok cpu c" and "\<exists>tm. timeout_timer cpu c = Some tm" using s by (auto simp: serves_def)
  then obtain tm where tm: "timeout_timer cpu c = Some tm" by blast
  have mem: "p \<in> members (sch c) Q cpu" using p by (simp add: members_def)
  then have pP: "p \<in> P" using D(4) by (auto simp: places_def)
  show ?thesis
  proof (cases "time_lt (now_of c) t")
    case False
    have sr: "serves cpu (read_once c)"
      using serves_steady [OF _ s] hw_only_calm [OF hw_only_mask(3)] unfolding calm_def by blast
    have "placed cpu idle frame P Q T (read_once c) W"
      unfolding read_once_def put_sched_def
      by (rule placed_same [OF pl]) (use D(1,2) in \<open>simp_all add: on_hw_eq steady_def same_timers_def same_signals_def proc_of_def\<close>)
    moreover have "tmos (read_once c) = tmos c" by (simp add: read_once_def put_sched_def)
    ultimately show ?thesis using after_over [OF clk False] False sr by simp
  next
    case True
    obtain x xs where m: "merged (sch c) cpu (Q cpu) = x # xs" using next_exists [OF pl] p by auto
    have fr: "frame p \<noteq> NULL" "\<forall>q < NPUN. frame p \<notin> set (T q)"
      using f pP frame_unused [OF pl f mem] by (auto simp: frames_ok_def)
    have t0: "0 \<le> sint t" using True now_range(3) [OF s] by (simp add: time_lt_def)
    have sr: "serves cpu (read_once c)" and cr: "currentTime (read_once c) = currentTime c"
      using serves_steady [OF _ s] hw_only_calm [OF hw_only_mask(3)] unfolding calm_def steady_def by blast+
    have left: "sint (t - later c) < 2 ^ 31 * NS_PER_SEC"
      using left_range [OF sr t0] lim cr by (simp add: later_def)
    obtain c' where c': "After cpu (frame p) t c = Paused c' (Done ())" "sched_inv (sch c') (Q(cpu := xs))"
      "top_running (sch c') (Q(cpu := xs)) cpu" "p \<notin> members (sch c') (Q(cpu := xs)) cpu"
      "members (sch c) Q cpu = insert p (members (sch c') (Q(cpu := xs)) cpu)"
      "p_sched_state (proc_of c' p) = PROC_WAITING"
      "tmo_ok c' (T(cpu := sort_key (tkey c') (T cpu @ [frame p])))" "steady {p} c c'" "interrupts c' = interrupts c"
      "\<forall>e. t_time (tmos c' e) = (if e = frame p then t else t_time (tmos c e)) \<and>
         t_proc (tmos c' e) = (if e = frame p then p else t_proc (tmos c e)) \<and>
         t_type (tmos c' e) = (if e = frame p then TMO_AFTER else t_type (tmos c e))"
      using after_ok [OF D(1) cpu m D(3) fr clk tm p(1) True left] by (elim exE conjE) (rule that)
    let ?T = "T(cpu := sort_key (tkey c') (T cpu @ [frame p]))"
    have M: "members (sch c') (Q(cpu := xs)) cpu = members (sch c) Q cpu - {p}" using c'(4,5) by auto
    have new: "frame p \<notin> set (T cpu)" using fr(2) cpu by simp
    have S: "timed c' (?T cpu) = insert p (timed c (T cpu))" using c'(10) new by (force simp: timed_def)
    have R: "receivers cpu c' = receivers cpu c" using c'(9) by (simp add: receivers_def)
    have ct: "currentTime c' = currentTime c" using c'(8) by (simp add: steady_def)
    have "placed cpu idle frame P (Q(cpu := xs)) ?T c' W"
    proof (rule placed_step [OF pl c'(8,2,3,7)])
      show "idle \<in> members (sch c') (Q(cpu := xs)) cpu" using M D(12) p(2) by simp
      show "places P (members (sch c') (Q(cpu := xs)) cpu) (timed c' (?T cpu)) (receivers cpu c') W"
        using D(4) mem unfolding places_def M S R by auto
      show "\<forall>y \<in> P \<inter> {p}. (y \<notin> members (sch c') (Q(cpu := xs)) cpu \<longrightarrow>
          p_sched_state (proc_of c' y) = PROC_WAITING)"
        using c'(4,6) by simp
      show "\<forall>d \<in> set (?T cpu). d = frame (t_proc (tmos c' d)) \<and> t_type (tmos c' d) = TMO_AFTER \<and>
         0 \<le> tkey c' d \<and> tkey c' d - sint (currentTime c') < 2 ^ 31 * NS_PER_SEC"
        using D(10) c'(10) t0 lim unfolding ct by (auto simp: tkey_def)
    qed (use M D(9) c'(9) in simp_all)
    moreover have "serves cpu c'" by (rule serves_steady [OF c'(8) s])
    ultimately have "\<exists>c' xs. After cpu (frame p) t c = Paused c' (Done ()) \<and> serves cpu c' \<and>
      placed cpu idle frame P (Q(cpu := xs)) (T(cpu := sort_key (tkey c') (T cpu @ [frame p]))) c' W \<and>
      (\<forall>e. t_time (tmos c' e) = (if e = frame p then t else t_time (tmos c e)) \<and>
         t_proc (tmos c' e) = (if e = frame p then p else t_proc (tmos c e))) \<and> currentTime c' = currentTime c"
      using c'(1,10) ct by blast
    then show ?thesis unfolding if_P [OF True] .
  qed
qed

text \<open>Waking.\<close>

lemma wake_frame:
  assumes "reaches (wake cpu x c) c'"
  shows "core (sch c') = core (set_sched_state x PROC_READY (sch c))" "c' = c\<lparr>sch := sch c'\<rparr>"
  using assms
  by (auto simp: wake_def switching_def xchg_ready_def Let_def split: if_splits sum.splits dest!: schedule_core)

lemma placed_wakes:
  assumes pl: "placed cpu idle frame P Q T c W" and s: "serves cpu c" and x: "x \<in> W"
    and w: "reaches (wake cpu' x c) c'" and inv: "sched_inv (sch c') Q'" "top_running (sch c') Q' cpu"
    and m: "members (sch c') Q' cpu = insert x (members (sch c) Q cpu)"
  shows "placed cpu idle frame P Q' T c' (W - {x})" "serves cpu c'"
proof -
  note D = placedD [OF pl] and F = wake_frame [OF w]
  have f: "tmos c' = tmos c" "timeQue c' = timeQue c" "interrupts c' = interrupts c" "currentTime c' = currentTime c"
    by (subst F(2), simp)+
  have st: "steady {x} c c'" by (rule steady_state [OF F(1) f(4)]) simp
  have k: "timed c' = timed c" "tkey c' = tkey c" "tnext c' = tnext c" "receivers cpu c' = receivers cpu c"
    using f by (simp_all add: timed_def [abs_def] tkey_def [abs_def] tnext_def [abs_def] receivers_def)
  show "placed cpu idle frame P Q' T c' (W - {x})"
  proof (rule placed_step [OF pl st inv])
    show "tmo_ok c' T" using D(3) tmo_ok_cong [OF k(3,2) f(2)] by simp
    show "places P (members (sch c') Q' cpu) (timed c' (T cpu)) (receivers cpu c') (W - {x})"
      using D(4) x unfolding places_def m k by auto
    show "\<forall>p \<in> P \<inter> {x}. (p \<notin> members (sch c') Q' cpu \<longrightarrow> p_sched_state (proc_of c' p) = PROC_WAITING)"
      using core_eqD(4) [OF F(1)] unfolding m by (simp add: proc_of_def)
    show "\<forall>d \<in> set (T cpu). d = frame (t_proc (tmos c' d)) \<and> t_type (tmos c' d) = TMO_AFTER \<and>
       0 \<le> tkey c' d \<and> tkey c' d - sint (currentTime c') < 2 ^ 31 * NS_PER_SEC"
      using D(10) unfolding k f by blast
  qed (use m D(9,12) f in simp_all)
  show "serves cpu c'" by (rule serves_steady [OF st s])
qed

lemma placed_wake:
  assumes pl: "placed cpu idle frame P Q T c W" and s: "serves cpu c" and cpu: "cpu < NPUN" and x: "x \<in> W"
  shows "\<exists>c' ys. reaches (wake cpu x c) c' \<and> serves cpu c' \<and> placed cpu idle frame P (Q(cpu := ys)) T c' (W - {x})"
proof -
  note D = placedD [OF pl]
  have xP: "x \<in> P" "x \<notin> members (sch c) Q cpu" using D(4) x by (auto simp: places_def)
  have "p_sched_state (proc_of c x) = PROC_WAITING" using D(8) [OF xP(1)] xP(2) by simp
  from wake_waiting [OF D(1) cpu D(11) [OF xP] D(2) this]
  obtain s' ys where w: "reaches (wake cpu x c) (c\<lparr>sch := s'\<rparr>)" "sched_inv s' (Q(cpu := ys))"
    "top_running s' (Q(cpu := ys)) cpu" "members s' (Q(cpu := ys)) cpu = insert x (members (sch c) Q cpu)"
    by blast
  from placed_wakes [OF pl s x w(1), of "Q(cpu := ys)"] w show ?thesis by auto
qed

text \<open>Communication: a process that finds nobody at the channel, and one that finds a partner there.\<close>

lemma chan_waits:
  assumes "op = chan_in \<or> op = chan_out" and "sched_inv (sch c) Q" and "cpu < NPUN"
    and "\<not> claimed c (Mutex_chan ch)" and "waiting (chans c ch) = NULL"
  shows "\<exists>c1. op cpu ch d len c = switching cpu (relinquish cpu) c1 \<and> same_waits c c1 \<and>
    sch c1 = set_sched_state (current (sch c) cpu) PROC_PREPARING_TO_WAIT (sch c)"
proof -
  let ?p = "current (sch c) cpu"
  let ?c1 = "release_mutex (Mutex_chan ch) (PREPARE_TO_WAIT ?p (set_chan ch \<lparr>waiting = ?p, io_ptr = d\<rparr>
        (c\<lparr>claimed := (claimed c)(Mutex_chan ch := True)\<rparr>)))"
  have "op cpu ch d len c = switching cpu (relinquish cpu) ?c1"
    using in_finds_none [OF assms(2-5), of d len] assms(1) by (auto simp: Let_def)
  moreover have "same_waits c ?c1"
    by (simp add: same_waits_def PREPARE_TO_WAIT_def put_sched_def set_chan_def release_mutex_def)
  ultimately show ?thesis by (intro exI [of _ ?c1]) simp
qed

lemma chan_meets:
  assumes "op = chan_in \<or> op = chan_out" and "sched_inv (sch c) Q" and "cpu < NPUN"
    and "\<not> claimed c (Mutex_chan ch)" and "waiting (chans c ch) = x" "x \<noteq> NULL"
    and "io_ptr (chans c ch) \<noteq> NULL" and "d \<noteq> NULL"
  shows "\<exists>c1. op cpu ch d len c = wake cpu x c1 \<and> same_waits c c1 \<and> sch c1 = sch c"
proof -
  let ?b = "io_ptr (chans c ch)"
  let ?h = "if op = chan_in then copy_bytes d ?b len (heap c) else copy_bytes ?b d len (heap c)"
  let ?c1 = "release_mutex (Mutex_chan ch) (set_chan ch \<lparr>waiting = NULL, io_ptr = NULL\<rparr>
    (c\<lparr>claimed := (claimed c)(Mutex_chan ch := True), heap := ?h\<rparr>))"
  have "op cpu ch d len c = wake cpu x ?c1"
  proof (cases "op = chan_in")
    case True
    then show ?thesis using assms sched_invD(2) [OF assms(2,3)] by (simp add: chan_in_def memcpy_def Let_def)
  next
    case False
    then have "op = chan_out" using assms(1) by simp
    then show ?thesis using False assms sched_invD(2) [OF assms(2,3)]
      by (simp only: if_False) (simp add: chan_out_def memcpy_def Let_def)
  qed
  moreover have "same_waits c ?c1" by (simp add: same_waits_def set_chan_def release_mutex_def)
  ultimately show ?thesis by (intro exI [of _ ?c1]) simp
qed

lemma placed_same_waits:
  assumes pl: "placed cpu idle frame P Q T c W" and s: "serves cpu c" and c1: "same_waits c c1" "sch c1 = sch c"
  shows "placed cpu idle frame P Q T c1 W" "serves cpu c1"
proof -
  note S = c1(1) [unfolded same_waits_def]
  have st: "steady {} c c1" using S by (intro steady_core) (simp_all add: c1(2))
  show "placed cpu idle frame P Q T c1 W"
    by (rule placed_same [OF pl st]) (use placedD(1,2) [OF pl] S c1(2) in simp_all)
  show "serves cpu c1" by (rule serves_steady [OF st s])
qed

lemma placed_wake_remote:
  assumes pl: "placed cpu idle frame P Q T c W" and s: "serves cpu c" and cpu: "cpu < NPUN" and x: "x \<in> W"
    and other: "other \<noteq> cpu" and t: "thread_id (hw (sch c)) cpu = Some target"
    and room: "length (in_ipq (sch c) cpu) < QSIZE - 1"
  shows "\<exists>c'. reaches (wake other x c) c' \<and> serves cpu c' \<and> placed cpu idle frame P Q T c' (W - {x})"
proof -
  note D = placedD [OF pl]
  have xP: "x \<in> P" "x \<notin> members (sch c) Q cpu" using D(4) x by (auto simp: places_def)
  have w: "p_sched_state (proc_of c x) = PROC_WAITING" using D(8) [OF xP(1)] xP(2) by simp
  let ?s = "set_sched_state x PROC_READY (sch c)"
  have a: "sched_inv ?s Q" "idle_on ?s Q cpu x" "thread_id (hw ?s) cpu = Some target" "length (in_ipq ?s cpu) < QSIZE - 1"
    using D(1) D(11) [OF xP] t room by (simp_all add: in_ipq_def) (simp_all add: set_sched_state_def)
  obtain q h where q: "schedule other x ?s = Inr (?s\<lparr>ipQues := (ipQues ?s)(cpu := q), hw := h\<rparr>)"
    "in_ipq (?s\<lparr>ipQues := (ipQues ?s)(cpu := q)\<rparr>) = (in_ipq ?s)(cpu := in_ipq ?s cpu @ [x])"
    "sched_inv (?s\<lparr>ipQues := (ipQues ?s)(cpu := q)\<rparr>) Q"
    using schedule_remote [OF a(1) cpu other [symmetric] a(2,3,4)] by blast
  let ?s' = "?s\<lparr>ipQues := (ipQues ?s)(cpu := q)\<rparr>"
  let ?c' = "c\<lparr>sch := ?s'\<lparr>hw := h\<rparr>\<rparr>"
  have r: "reaches (wake other x c) ?c'"
    using q(1) w by (simp add: wake_def xchg_ready_def proc_of_def switching_simps Let_def)
  have "in_ipq ?s cpu = in_ipq (sch c) cpu" by (simp add: in_ipq_def set_sched_state_def)
  then have "members ?s' Q cpu = insert x (members (sch c) Q cpu)" unfolding members_def q(2) by (auto simp: members_def)
  moreover have "key_of ?s' = key_of (sch c)" "current ?s' = current (sch c)" by (simp_all add: key_of_def [abs_def])
  then have "top_running ?s' Q cpu" using D(2) by (simp add: top_running_def)
  ultimately have "placed cpu idle frame P Q T ?c' (W - {x})" "serves cpu ?c'"
    using placed_wakes [OF pl s x r, of Q] q(3) by simp_all
  with r show ?thesis by blast
qed

subsection \<open>The steps of a processor\<close>

text \<open>
  The state is that of the kernel with the processes \<open>W\<close> that have given up the processor to wait for
  another process. Each step is one whole operation: a signal is handled, or the running process
  sleeps, waits for a user interrupt, communicates over a channel at which nobody or one of the
  processes of \<open>W\<close> waits, or prepares and gives up the processor for another reason (\<open>blocks\<close>), or a
  process of \<open>W\<close> is woken, from this processor or from the other one. A process sleeps
  at most as long as the interval of a POSIX timer can express; one process at a time waits for a user
  interrupt; and the other processor sends a process only if the ring has room, which \<^verbatim>\<open>ipq_add\<close>
  spins for otherwise.

  The operations are not interrupted: signals arrive between steps only. In particular no signal arrives
  between the compare-and-exchange of \<^verbatim>\<open>relinquish\<close> and its \<^verbatim>\<open>disable\<close>
  (\<^verbatim>\<open>sched.c:416\<close>), where what is proved here does not hold: a process that is woken there is
  enqueued while it still runs (theory \<open>Wakeup\<close>). Nor are there steps for \<^verbatim>\<open>yield\<close>, which
  may leave a process of lower priority running (it is shown to return), for a locked channel, where the
  claim yields, for selections, and for making and ending processes, so that the processes \<open>P\<close> of
  the processor stay the same.
\<close>

definition partner_waits :: "cxp \<Rightarrow> addr set \<Rightarrow> addr \<Rightarrow> bool" where
  "partner_waits c W ch \<longleftrightarrow> waiting (chans c ch) \<in> W \<and> io_ptr (chans c ch) \<noteq> NULL"

inductive kernel_step :: "pun \<Rightarrow> addr \<Rightarrow> (addr \<Rightarrow> addr) \<Rightarrow> cxp \<times> addr set \<Rightarrow> cxp \<times> addr set \<Rightarrow> bool"
  for cpu idle frame where
  signal: "i \<in> intrs_of cpu \<Longrightarrow> i = INTR_ELAPSED \<longrightarrow> sint (currentTime c) \<le> year_146 \<Longrightarrow>
    handle_signal cpu (signal_no (hw (sch c)) cpu i) c = Inr (b, c') \<Longrightarrow> kernel_step cpu idle frame (c, W) (c', W)"
| sleep: "current (sch c) cpu = p \<Longrightarrow> p \<noteq> idle \<Longrightarrow> sint t - sint (currentTime c) < 2 ^ 31 * NS_PER_SEC \<Longrightarrow>
    reaches (After cpu (frame p) t c) c' \<Longrightarrow> kernel_step cpu idle frame (c, W) (c', W)"
| receives: "current (sch c) cpu \<noteq> idle \<Longrightarrow> i < NINTR \<Longrightarrow> interrupts c cpu i = NULL \<Longrightarrow>
    reaches (receive cpu i c) c' \<Longrightarrow> kernel_step cpu idle frame (c, W) (c', W)"
| blocks: "current (sch c) cpu = p \<Longrightarrow> p \<noteq> idle \<Longrightarrow>
    reaches (switching cpu (relinquish cpu) (PREPARE_TO_WAIT p c)) c' \<Longrightarrow>
    kernel_step cpu idle frame (c, W) (c', insert p W)"
| waits: "current (sch c) cpu = p \<Longrightarrow> p \<noteq> idle \<Longrightarrow> op = chan_in \<or> op = chan_out \<Longrightarrow>
    \<not> claimed c (Mutex_chan ch) \<Longrightarrow> waiting (chans c ch) = NULL \<Longrightarrow> reaches (op cpu ch d len c) c' \<Longrightarrow>
    kernel_step cpu idle frame (c, W) (c', insert p W)"
| meets: "current (sch c) cpu \<noteq> idle \<Longrightarrow> op = chan_in \<or> op = chan_out \<Longrightarrow>
    \<not> claimed c (Mutex_chan ch) \<Longrightarrow> partner_waits c W ch \<Longrightarrow> d \<noteq> NULL \<Longrightarrow> reaches (op cpu ch d len c) c' \<Longrightarrow>
    kernel_step cpu idle frame (c, W) (c', W - {waiting (chans c ch)})"
| wakes: "x \<in> W \<Longrightarrow> reaches (wake cpu x c) c' \<Longrightarrow> kernel_step cpu idle frame (c, W) (c', W - {x})"
| sent: "x \<in> W \<Longrightarrow> other \<noteq> cpu \<Longrightarrow> thread_id (hw (sch c)) cpu = Some target \<Longrightarrow>
    length (in_ipq (sch c) cpu) < QSIZE - 1 \<Longrightarrow> reaches (wake other x c) c' \<Longrightarrow>
    kernel_step cpu idle frame (c, W) (c', W - {x})"

definition kernel_ok :: "pun \<Rightarrow> addr \<Rightarrow> (addr \<Rightarrow> addr) \<Rightarrow> addr set \<Rightarrow> cxp \<Rightarrow> addr set \<Rightarrow> bool" where
  "kernel_ok cpu idle frame P c W \<longleftrightarrow>
     (\<exists>Q T. placed cpu idle frame P Q T c W \<and> frames_ok cpu frame P T) \<and> serves cpu c"

lemma kernel_okI:
  "placed cpu idle frame P Q T' c W \<Longrightarrow> frames_ok cpu frame P T \<Longrightarrow> \<forall>q. q \<noteq> cpu \<longrightarrow> T' q = T q \<Longrightarrow> serves cpu c \<Longrightarrow>
    kernel_ok cpu idle frame P c W"
  unfolding kernel_ok_def frames_ok_def by (intro conjI exI [of _ Q] exI [of _ T']) auto

lemma reaches_det: "reaches r c \<Longrightarrow> reaches r c' \<Longrightarrow> c' = c"
  by (cases r) simp_all

text \<open>Every step that may be taken can be taken, and keeps the invariant.\<close>

lemma signal_ok:
  assumes "kernel_ok cpu idle frame P c W" and "cpu < NPUN" and "i \<in> intrs_of cpu"
    and "i = INTR_ELAPSED \<longrightarrow> sint (currentTime c) \<le> year_146"
  shows "\<exists>b c'. handle_signal cpu (signal_no (hw (sch c)) cpu i) c = Inr (b, c') \<and> kernel_ok cpu idle frame P c' W"
proof -
  obtain Q T where k: "placed cpu idle frame P Q T c W" "frames_ok cpu frame P T" "serves cpu c"
    using assms(1) by (auto simp: kernel_ok_def)
  from placed_signal [OF k(1,3) assms(2,3)] assms(4) kernel_okI [OF _ k(2)] show ?thesis by fastforce
qed

lemma sleep_ok:
  assumes "kernel_ok cpu idle frame P c W" and "cpu < NPUN" and "current (sch c) cpu = p" and "p \<noteq> idle"
    and "sint t - sint (currentTime c) < 2 ^ 31 * NS_PER_SEC"
  shows "\<exists>c'. reaches (After cpu (frame p) t c) c' \<and> kernel_ok cpu idle frame P c' W"
proof -
  obtain Q T where k: "placed cpu idle frame P Q T c W" "frames_ok cpu frame P T" "serves cpu c"
    using assms(1) by (auto simp: kernel_ok_def)
  show ?thesis
    using placed_sleep [OF k(1,3,2) assms(2-5)] kernel_okI [OF _ k(2)] by (fastforce split: if_splits)
qed

lemma receive_ok:
  assumes "kernel_ok cpu idle frame P c W" and "cpu < NPUN" and "current (sch c) cpu \<noteq> idle"
    and "i < NINTR" and "interrupts c cpu i = NULL"
  shows "\<exists>c'. reaches (receive cpu i c) c' \<and> kernel_ok cpu idle frame P c' W"
proof -
  obtain Q T where k: "placed cpu idle frame P Q T c W" "frames_ok cpu frame P T" "serves cpu c"
    using assms(1) by (auto simp: kernel_ok_def)
  from placed_receive [OF k(1,3) assms(2-5)] kernel_okI [OF _ k(2)] show ?thesis by fastforce
qed

lemma block_ok:
  assumes "kernel_ok cpu idle frame P c W" and "cpu < NPUN" and "current (sch c) cpu = p" and "p \<noteq> idle"
  shows "\<exists>c'. reaches (switching cpu (relinquish cpu) (PREPARE_TO_WAIT p c)) c' \<and>
    kernel_ok cpu idle frame P c' (insert p W)"
proof -
  obtain Q T where k: "placed cpu idle frame P Q T c W" "frames_ok cpu frame P T" "serves cpu c"
    using assms(1) by (auto simp: kernel_ok_def)
  from placed_block [OF k(1,3) assms(2-4)] kernel_okI [OF _ k(2)] show ?thesis by fastforce
qed

lemma wake_ok:
  assumes "kernel_ok cpu idle frame P c W" and "cpu < NPUN" and "x \<in> W"
  shows "\<exists>c'. reaches (wake cpu x c) c' \<and> kernel_ok cpu idle frame P c' (W - {x})"
proof -
  obtain Q T where k: "placed cpu idle frame P Q T c W" "frames_ok cpu frame P T" "serves cpu c"
    using assms(1) by (auto simp: kernel_ok_def)
  from placed_wake [OF k(1,3) assms(2,3)] kernel_okI [OF _ k(2)] show ?thesis by fastforce
qed

lemma sent_ok:
  assumes "kernel_ok cpu idle frame P c W" and "cpu < NPUN" and "x \<in> W" and "other \<noteq> cpu"
    and "thread_id (hw (sch c)) cpu = Some target" and "length (in_ipq (sch c) cpu) < QSIZE - 1"
  shows "\<exists>c'. reaches (wake other x c) c' \<and> kernel_ok cpu idle frame P c' (W - {x})"
proof -
  obtain Q T where k: "placed cpu idle frame P Q T c W" "frames_ok cpu frame P T" "serves cpu c"
    using assms(1) by (auto simp: kernel_ok_def)
  from placed_wake_remote [OF k(1,3) assms(2-6)] kernel_okI [OF _ k(2)] show ?thesis by fastforce
qed

lemma waits_ok:
  assumes "kernel_ok cpu idle frame P c W" and "cpu < NPUN" and "current (sch c) cpu = p" and "p \<noteq> idle"
    and "op = chan_in \<or> op = chan_out" and "\<not> claimed c (Mutex_chan ch)" and "waiting (chans c ch) = NULL"
  shows "\<exists>c'. reaches (op cpu ch d len c) c' \<and> kernel_ok cpu idle frame P c' (insert p W)"
proof -
  obtain Q T where k: "placed cpu idle frame P Q T c W" "frames_ok cpu frame P T" "serves cpu c"
    using assms(1) by (auto simp: kernel_ok_def)
  obtain c1 where c1: "op cpu ch d len c = switching cpu (relinquish cpu) c1" "same_waits c c1"
    "sch c1 = set_sched_state p PROC_PREPARING_TO_WAIT (sch c)"
    using chan_waits [OF assms(5) placedD(1) [OF k(1)] assms(2,6,7), of d len] assms(3) by auto
  from placed_block_at [OF k(1,3) assms(2-4) c1(3,2)] kernel_okI [OF _ k(2)] show ?thesis
    unfolding c1(1) by fastforce
qed

lemma meets_ok:
  assumes "kernel_ok cpu idle frame P c W" and "cpu < NPUN" and "op = chan_in \<or> op = chan_out"
    and "\<not> claimed c (Mutex_chan ch)" and "partner_waits c W ch" and "d \<noteq> NULL"
  shows "\<exists>c'. reaches (op cpu ch d len c) c' \<and> kernel_ok cpu idle frame P c' (W - {waiting (chans c ch)})"
proof -
  obtain Q T where k: "placed cpu idle frame P Q T c W" "frames_ok cpu frame P T" "serves cpu c"
    using assms(1) by (auto simp: kernel_ok_def)
  let ?x = "waiting (chans c ch)"
  have x: "?x \<in> W" "io_ptr (chans c ch) \<noteq> NULL" using assms(5) by (simp_all add: partner_waits_def)
  have "?x \<in> P" using placedD(4) [OF k(1)] x(1) by (auto simp: places_def)
  then have "?x \<noteq> NULL" using placedD(5) [OF k(1)] by simp
  then obtain c1 where c1: "op cpu ch d len c = wake cpu ?x c1" "same_waits c c1" "sch c1 = sch c"
    using chan_meets [OF assms(3) placedD(1) [OF k(1)] assms(2,4) refl _ x(2) assms(6), of len] by blast
  from placed_wake [OF placed_same_waits [OF k(1,3) c1(2,3)] assms(2) x(1)] kernel_okI [OF _ k(2)]
  show ?thesis unfolding c1(1) by fastforce
qed

lemma kernel_step_ok:
  assumes "kernel_step cpu idle frame s s'" and "cpu < NPUN" and "kernel_ok cpu idle frame P (fst s) (snd s)"
  shows "kernel_ok cpu idle frame P (fst s') (snd s')"
  using assms
proof cases
  case (signal i c b c' W)
  with signal_ok [of cpu idle frame P c W i] assms(2,3) show ?thesis by fastforce
next
  case (sleep c p t c' W)
  with sleep_ok [of cpu idle frame P c W p t] assms(2,3) show ?thesis by (auto dest: reaches_det)
next
  case (receives c i c' W)
  with receive_ok [of cpu idle frame P c W i] assms(2,3) show ?thesis by (auto dest: reaches_det)
next
  case (blocks c p c' W)
  with block_ok [of cpu idle frame P c W p] assms(2,3) show ?thesis by (auto dest: reaches_det)
next
  case (waits c p op ch d len c' W)
  with waits_ok [of cpu idle frame P c W p op ch d len] assms(2,3) show ?thesis by (auto dest: reaches_det)
next
  case (meets c op ch W d len c')
  with meets_ok [of cpu idle frame P c W op ch d len] assms(2,3) show ?thesis by (auto dest: reaches_det)
next
  case (wakes x W c c')
  with wake_ok [of cpu idle frame P c W x] assms(2,3) show ?thesis by (auto dest: reaches_det)
next
  case (sent x W other c target c')
  with sent_ok [of cpu idle frame P c W x other target] assms(2,3) show ?thesis by (auto dest: reaches_det)
qed

lemma kernel_steps_ok:
  assumes "(kernel_step cpu idle frame)\<^sup>*\<^sup>* s s'" and "cpu < NPUN" and "kernel_ok cpu idle frame P (fst s) (snd s)"
  shows "kernel_ok cpu idle frame P (fst s') (snd s')"
  using assms(1,3) by (induction rule: rtranclp_induct) (auto intro: kernel_step_ok [OF _ assms(2)])

subsection \<open>What holds in every reachable state\<close>

text \<open>
  C4. Whatever steps the processes of a processor take, and whichever signals arrive between the steps
  (each step is a whole operation, so that signals inside an operation, as in the window of
  \<^verbatim>\<open>relinquish\<close> before its \<^verbatim>\<open>disable\<close>, are not covered): every process is at any
  time in exactly one place (running, in the ready queue or on its way from the other processor;
  sleeping until a time; waiting for an interrupt; waiting for another process), its state is waiting
  in all but the first case, so that a process made ready is never lost, the invariants of the
  scheduler and of the timeouts hold, and no ready process outranks the running one.
\<close>

theorem every_process_in_place:
  assumes "kernel_ok cpu idle frame P c0 W0" and "cpu < NPUN"
    and "(kernel_step cpu idle frame)\<^sup>*\<^sup>* (c0, W0) (c, W)"
  shows "\<exists>Q T. sched_inv (sch c) Q \<and> top_running (sch c) Q cpu \<and> tmo_ok c T \<and>
    places P (members (sch c) Q cpu) (timed c (T cpu)) (receivers cpu c) W \<and>
    (\<forall>p \<in> P. (p \<notin> members (sch c) Q cpu \<longrightarrow> p_sched_state (proc_of c p) = PROC_WAITING))"
proof -
  have "kernel_ok cpu idle frame P c W" using kernel_steps_ok [OF assms(3,2)] assms(1) by simp
  then obtain Q T where pl: "placed cpu idle frame P Q T c W" by (auto simp: kernel_ok_def)
  note D = placedD [OF pl]
  show ?thesis by (intro exI [of _ Q] exI [of _ T] conjI ballI D(1-4,8))
qed

text \<open>What can be done in a state: the operations that return there, with what each of them needs.\<close>

definition all_return :: "pun \<Rightarrow> addr \<Rightarrow> (addr \<Rightarrow> addr) \<Rightarrow> cxp \<Rightarrow> addr set \<Rightarrow> bool" where
  "all_return cpu idle frame c W \<longleftrightarrow> (let p = current (sch c) cpu in
    (\<forall>i \<in> intrs_of cpu. (i = INTR_ELAPSED \<longrightarrow> sint (currentTime c) \<le> year_146) \<longrightarrow>
      (\<exists>b c'. handle_signal cpu (signal_no (hw (sch c)) cpu i) c = Inr (b, c'))) \<and>
    (p \<noteq> idle \<longrightarrow>
      (\<forall>t. sint t - sint (currentTime c) < 2 ^ 31 * NS_PER_SEC \<longrightarrow> (\<exists>c'. reaches (After cpu (frame p) t c) c')) \<and>
      (\<forall>i < NINTR. interrupts c cpu i = NULL \<longrightarrow> (\<exists>c'. reaches (receive cpu i c) c')) \<and>
      (\<forall>ch d len. \<not> claimed c (Mutex_chan ch) \<and> (waiting (chans c ch) = NULL \<or> partner_waits c W ch \<and> d \<noteq> NULL) \<longrightarrow>
        (\<exists>c'. reaches (chan_in cpu ch d len c) c') \<and> (\<exists>c'. reaches (chan_out cpu ch d len c) c')) \<and>
      (\<exists>c'. reaches (switching cpu (relinquish cpu) (PREPARE_TO_WAIT p c)) c')) \<and>
    (\<exists>s'. yield cpu (sch c) = Inr s') \<and>
    (\<forall>x \<in> W. (\<exists>c'. reaches (wake cpu x c) c') \<and>
      (\<forall>other target. other \<noteq> cpu \<and> thread_id (hw (sch c)) cpu = Some target \<and>
        length (in_ipq (sch c) cpu) < QSIZE - 1 \<longrightarrow> (\<exists>c'. reaches (wake other x c) c'))))"

lemma kernel_ok_returns:
  assumes k: "kernel_ok cpu idle frame P c W" and cpu: "cpu < NPUN"
  shows "all_return cpu idle frame c W"
proof -
  let ?p = "current (sch c) cpu"
  have com: "\<exists>c'. reaches (op cpu ch d len c) c'"
    if "?p \<noteq> idle" "op = chan_in \<or> op = chan_out" "\<not> claimed c (Mutex_chan ch)"
      "waiting (chans c ch) = NULL \<or> partner_waits c W ch \<and> d \<noteq> NULL" for op ch d len
    using waits_ok [OF k cpu refl that(1,2,3)] meets_ok [OF k cpu that(2,3)] that(4) by blast
  obtain Q T where "placed cpu idle frame P Q T c W" using k by (auto simp: kernel_ok_def)
  then have yields: "\<exists>s'. yield cpu (sch c) = Inr s'" using yield_ok [OF placedD(1) cpu] by blast
  show ?thesis
    unfolding all_return_def Let_def
  proof (intro conjI ballI allI impI)
    show "\<exists>c'. reaches (chan_in cpu ch d len c) c'" "\<exists>c'. reaches (chan_out cpu ch d len c) c'"
      if "?p \<noteq> idle" "\<not> claimed c (Mutex_chan ch) \<and> (waiting (chans c ch) = NULL \<or> partner_waits c W ch \<and> d \<noteq> NULL)"
      for ch d len
      using com [where op = chan_in] com [where op = chan_out] that by simp_all
    show "\<exists>c'. reaches (wake other x c) c'"
      if "x \<in> W" "other \<noteq> cpu \<and> thread_id (hw (sch c)) cpu = Some target \<and> length (in_ipq (sch c) cpu) < QSIZE - 1"
      for x other target
      using sent_ok [OF k cpu that(1)] that(2) by blast
  qed (use signal_ok [OF k cpu] sleep_ok [OF k cpu refl] receive_ok [OF k cpu] block_ok [OF k cpu refl]
      wake_ok [OF k cpu] yields in blast)+
qed

text \<open>
  C5. In every state that the steps of a processor reach, each operation that is a step there, and
  \<^verbatim>\<open>yield\<close>, returns: none fails and none runs for ever. Every signal of the processor is
  handled to its end, the elapsed-time signal as long as the clock is in range; the running process,
  unless it is the idle process, can sleep for as long as a timer can express, wait for a user interrupt
  for which nobody waits, send and receive on an unlocked channel at which nobody waits or whose
  partner is one of the waiting processes, and prepare and give up the processor; and every process
  that waits for another one can be woken, from this processor, and from the other one if there is
  room in the ring. Not among the operations are selections, the claim of a locked channel, the
  hand-over to a full ring, and making and ending processes.
\<close>

theorem no_step_fails:
  assumes "kernel_ok cpu idle frame P c0 W0" and "cpu < NPUN"
    and "(kernel_step cpu idle frame)\<^sup>*\<^sup>* (c0, W0) (c, W)"
  shows "all_return cpu idle frame c W"
  by (rule kernel_ok_returns [OF _ assms(2)]) (use kernel_steps_ok [OF assms(3,2)] assms(1) in simp)

text \<open>
  C19. The timeout signal, in whatever state between two steps it arrives, wakes exactly the sleepers whose
  time has come: each of them is ready and runs or is in the ready queue afterwards, while the others
  sleep on.
\<close>

theorem due_sleepers_wake:
  assumes "kernel_ok cpu idle frame P c0 W0" and "cpu < NPUN"
    and "(kernel_step cpu idle frame)\<^sup>*\<^sup>* (c0, W0) (c, W)"
  shows "\<exists>T b c' Q'. tmo_ok c T \<and> handle_signal cpu (signal_no (hw (sch c)) cpu INTR_TIMEOUT) c = Inr (b, c') \<and>
    sched_inv (sch c') Q' \<and> top_running (sch c') Q' cpu \<and>
    (\<forall>d \<in> set (T cpu). if tkey c d \<le> sint (now_of c)
      then t_proc (tmos c d) \<in> members (sch c') Q' cpu \<and> p_sched_state (proc_of c' (t_proc (tmos c d))) = PROC_READY
      else t_proc (tmos c d) \<notin> members (sch c') Q' cpu \<and> p_sched_state (proc_of c' (t_proc (tmos c d))) = PROC_WAITING)"
proof -
  have "kernel_ok cpu idle frame P c W" using kernel_steps_ok [OF assms(3,2)] assms(1) by simp
  then obtain Q T where k: "placed cpu idle frame P Q T c W" "serves cpu c" by (auto simp: kernel_ok_def)
  have "INTR_TIMEOUT \<in> intrs_of cpu" "INTR_TIMEOUT \<noteq> INTR_ELAPSED" by (simp_all add: intrs_of_def intr_numbers)
  then obtain b c' ys zs where c': "handle_signal cpu (signal_no (hw (sch c)) cpu INTR_TIMEOUT) c = Inr (b, c')"
    "placed cpu idle frame P (Q(cpu := ys)) (T(cpu := zs)) c' W"
    "woken cpu c (T cpu) (Q(cpu := ys)) c'"
    using placed_signal [OF k assms(2), of INTR_TIMEOUT] by auto
  note D = placedD [OF c'(2)]
  have "t_proc (tmos c d) \<in> P" if "d \<in> set (T cpu)" for d
    using placedD(4) [OF k(1)] that by (auto simp: places_def timed_def)
  with D(8) c'(3) have "\<forall>d \<in> set (T cpu). if tkey c d \<le> sint (now_of c)
      then t_proc (tmos c d) \<in> members (sch c') (Q(cpu := ys)) cpu \<and> p_sched_state (proc_of c' (t_proc (tmos c d))) = PROC_READY
      else t_proc (tmos c d) \<notin> members (sch c') (Q(cpu := ys)) cpu \<and> p_sched_state (proc_of c' (t_proc (tmos c d))) = PROC_WAITING"
    by (simp add: woken_def)
  with c'(1) D(1,2) placedD(3) [OF k(1)] show ?thesis by blast
qed

subsection \<open>A sample processor\<close>

text \<open>
  Four processes of processor 0 are ready, and the process at 0x600 waits for another one. The
  descriptors of sleeping processes lie 0x8000 above their records.
\<close>

definition sample_frame :: "addr \<Rightarrow> addr" where "sample_frame p = p + 0x8000"

definition sample_kernel :: cxp where
  "sample_kernel = sample_cxp\<lparr>sch := set_sched_state 0x600 PROC_WAITING (set_sched_state 0x300 PROC_READY
     (sample_sched\<lparr>hw := sample_clock_hw\<lparr>os_SIGRTMIN := 34, os_SIGRTMAX := 64, SIGBASE := 34, next_signo := 39,
       interrupt := map (\<lambda>i. \<lparr>d_pun = 0, d_intr = i\<rparr>) [0 ..< 10], signal_no := (\<lambda>_ i. 34 + int i),
       sigmask := (\<lambda>_. {34 .. 64} - (\<lambda>i. 34 + int i) ` intrs_of 0)\<rparr>\<rparr>))\<rparr>"

lemma sample_kernel_serves: "serves 0 sample_kernel"
proof -
  have "routing 5 (hw (sch sample_kernel)) {0} ({0} \<times> intrs_of 0)"
    by (simp add: routing_def sample_kernel_def set_sched_state_def NPUN_NINTR) (auto simp: intrs_of_def)
  moreover have "clock_ok 0 sample_kernel" "timeout_timer 0 sample_kernel \<noteq> None" "currentTime sample_kernel = 0"
    "os_readings (hw (sch sample_kernel)) k = \<lparr>tv_sec = 0, tv_nsec = 400000000\<rparr>" for k
    by (simp_all add: clock_ok_def timeout_timer_def sample_kernel_def set_sched_state_def sample_cxp_def
      sample_clock_hw_def sample_hw_def)
  ultimately show ?thesis
    unfolding serves_def
    by (intro conjI exI [of _ 5] exI [of _ "{0}"] exI [of _ "{0} \<times> intrs_of 0"])
      (simp_all add: ts_time_def year_146_def NS_PER_SEC_def)
qed

lemma sample_kernel_ok: "kernel_ok 0 0x100 sample_frame {0x300, 0x400, 0x500, 0x100, 0x600} sample_kernel {0x600}"
proof -
  let ?P = "{0x300, 0x400, 0x500, 0x100, 0x600} :: addr set"
  have m: "members (sch sample_kernel) sample_queues 0 = {0x300, 0x400, 0x100, 0x500}"
    using sample_members [of 0] by (simp add: sample_kernel_def)
  have st: "\<forall>p \<in> ?P. p \<noteq> NULL \<and> proc_stack p \<noteq> NULL \<and> p_pun (proc_of sample_kernel p) = 0 \<and> p_stackptr (proc_of sample_kernel p) = proc_stack p \<and>
      (p \<notin> {0x300, 0x400, 0x100, 0x500} \<longrightarrow> p_sched_state (proc_of sample_kernel p) = PROC_WAITING)"
    by (simp add: sample_kernel_def proc_of_def set_sched_state_def) (simp add: sample_sched_def sample_process_def proc_stack_def sizeof_Process_def)
  have "placed 0 0x100 sample_frame ?P sample_queues (\<lambda>_. []) sample_kernel {0x600}"
    unfolding placed_def m
  proof (intro conjI)
    show "sched_inv (sch sample_kernel) sample_queues" "top_running (sch sample_kernel) sample_queues 0"
      using sample_sched_inv sample_top by (simp_all add: sample_kernel_def)
    show "tmo_ok sample_kernel (\<lambda>_. [])" by (simp add: tmo_ok_def sample_kernel_def sample_cxp_def)
    show "places ?P {0x300, 0x400, 0x100, 0x500} (timed sample_kernel []) (receivers 0 sample_kernel) {0x600}"
      by (auto simp: places_def timed_def receivers_def sample_kernel_def sample_cxp_def)
    show "inj_on (interrupts sample_kernel 0) {i. i < NINTR \<and> interrupts sample_kernel 0 i \<noteq> NULL}"
      by (simp add: sample_kernel_def sample_cxp_def)
  qed (use st in simp_all)
  moreover have "frames_ok 0 sample_frame ?P (\<lambda>_. [])"
    by (auto simp: frames_ok_def sample_frame_def inj_on_def)
  ultimately show ?thesis using sample_kernel_serves unfolding kernel_ok_def by blast
qed

text \<open>The running process goes to sleep at 0.6 seconds until 1 second.\<close>

lemma sample_sleeps:
  obtains c where "reaches (After 0 (sample_frame 0x300) 1000000000 sample_kernel) c"
    "(kernel_step 0 0x100 sample_frame)\<^sup>*\<^sup>* (sample_kernel, {0x600}) (c, {0x600})"
proof -
  have p: "current (sch sample_kernel) 0 = 0x300" by (simp add: sample_kernel_def) (simp add: sample_sched_def)
  have t: "sint (1000000000 :: Time) - sint (currentTime sample_kernel) < 2 ^ 31 * NS_PER_SEC"
    by (simp add: sample_kernel_def sample_cxp_def NS_PER_SEC_def)
  obtain c where c: "reaches (After 0 (sample_frame 0x300) 1000000000 sample_kernel) c"
    using sleep_ok [OF sample_kernel_ok _ p _ t] by (auto simp: NPUN_def)
  have "kernel_step 0 0x100 sample_frame (sample_kernel, {0x600}) (c, {0x600})"
    by (rule kernel_step.sleep [where p = "0x300" and frame = sample_frame, OF p _ t c]) simp
  then show thesis by (rule that [OF c r_into_rtranclp])
qed

theorem every_process_in_place_witness:
  "\<exists>c Q T. reaches (After 0 (sample_frame 0x300) 1000000000 sample_kernel) c \<and>
    places {0x300, 0x400, 0x500, 0x100, 0x600} (members (sch c) Q 0) (timed c (T 0)) (receivers 0 c) {0x600}"
proof -
  obtain c where c: "reaches (After 0 (sample_frame 0x300) 1000000000 sample_kernel) c"
    "(kernel_step 0 0x100 sample_frame)\<^sup>*\<^sup>* (sample_kernel, {0x600}) (c, {0x600})" by (rule sample_sleeps)
  have "(0 :: pun) < NPUN" by (simp add: NPUN_def)
  then show ?thesis using every_process_in_place [OF sample_kernel_ok _ c(2)] c(1)
    by (elim exE conjE meta_impE) (assumption, intro exI conjI)
qed

theorem no_step_fails_witness:
  "(\<exists>c'. reaches (chan_in 0 0x3000 0x1000 8 sample_kernel) c') \<and>
   (\<exists>c. reaches (After 0 (sample_frame 0x300) 1000000000 sample_kernel) c \<and> (\<exists>c'. reaches (wake 0 0x600 c) c') \<and>
    (\<exists>b c'. handle_signal 0 (signal_no (hw (sch c)) 0 INTR_TIMEOUT) c = Inr (b, c')))"
proof
  have z: "(0 :: pun) < NPUN" by (simp add: NPUN_def)
  have "current (sch sample_kernel) 0 \<noteq> 0x100" "\<not> claimed sample_kernel (Mutex_chan 0x3000)"
    "waiting (chans sample_kernel 0x3000) = NULL"
    by (simp_all add: sample_kernel_def) (simp_all add: sample_sched_def sample_cxp_def)
  moreover have "all_return 0 0x100 sample_frame sample_kernel {0x600}"
    by (rule no_step_fails [OF sample_kernel_ok z rtranclp.rtrancl_refl])
  ultimately show "\<exists>c'. reaches (chan_in 0 0x3000 0x1000 8 sample_kernel) c'" by (simp add: all_return_def Let_def)
  obtain c where c: "reaches (After 0 (sample_frame 0x300) 1000000000 sample_kernel) c"
    "(kernel_step 0 0x100 sample_frame)\<^sup>*\<^sup>* (sample_kernel, {0x600}) (c, {0x600})" by (rule sample_sleeps)
  have "INTR_TIMEOUT \<in> intrs_of 0" "INTR_TIMEOUT \<noteq> INTR_ELAPSED" by (simp_all add: intrs_of_def intr_numbers)
  moreover have "all_return 0 0x100 sample_frame c {0x600}" by (rule no_step_fails [OF sample_kernel_ok z c(2)])
  ultimately have "(\<exists>c'. reaches (wake 0 0x600 c) c') \<and>
      (\<exists>b c'. handle_signal 0 (signal_no (hw (sch c)) 0 INTR_TIMEOUT) c = Inr (b, c'))"
    by (simp add: all_return_def Let_def)
  with c(1) show "\<exists>c. reaches (After 0 (sample_frame 0x300) 1000000000 sample_kernel) c \<and>
      (\<exists>c'. reaches (wake 0 0x600 c) c') \<and>
      (\<exists>b c'. handle_signal 0 (signal_no (hw (sch c)) 0 INTR_TIMEOUT) c = Inr (b, c'))" by blast
qed

theorem due_sleepers_wake_witness:
  "\<exists>c b c'. reaches (After 0 (sample_frame 0x300) 1000000000 sample_kernel) c \<and>
    handle_signal 0 (signal_no (hw (sch c)) 0 INTR_TIMEOUT) c = Inr (b, c')"
proof -
  obtain c where c: "reaches (After 0 (sample_frame 0x300) 1000000000 sample_kernel) c"
    "(kernel_step 0 0x100 sample_frame)\<^sup>*\<^sup>* (sample_kernel, {0x600}) (c, {0x600})" by (rule sample_sleeps)
  have "(0 :: pun) < NPUN" by (simp add: NPUN_def)
  from due_sleepers_wake [OF sample_kernel_ok this c(2)] c(1) show ?thesis by blast
qed

end
