(* ===== verification/Punctual.thy ===== *)
theory Punctual
  imports Processor
begin

text \<open>
  Punctuality. A process that sleeps until a time stays in the timeout queue whatever happens, until
  a timeout interrupt finds that its time has come: \<^verbatim>\<open>After\<close> never returns early.
\<close>

definition asleep :: "pun \<Rightarrow> addr \<Rightarrow> addr \<Rightarrow> Time \<Rightarrow> cxp \<Rightarrow> bool" where
  "asleep cpu d p t c \<longleftrightarrow> (\<exists>T. tmo_ok c T \<and> d \<in> set (T cpu)) \<and> t_proc (tmos c d) = p \<and> t_time (tmos c d) = t"

lemma asleep_here:
  assumes "asleep cpu d p t c" and "tmo_ok c T" and "cpu < NPUN"
  shows "d \<in> set (T cpu)" "t_proc (tmos c d) = p" "tkey c d = sint t"
  using assms chain_unique unfolding asleep_def tmo_ok_def tkey_def by metis+

lemma asleep_moves:
  assumes "asleep cpu d p t c" and "tmo_ok c' T'" and "d \<in> set (T' cpu)"
    and "t_proc (tmos c' d) = t_proc (tmos c d)" and "t_time (tmos c' d) = t_time (tmos c d)"
  shows "asleep cpu d p t c'"
  using assms unfolding asleep_def by auto

text \<open>A sleeping process neither runs nor is ready.\<close>

lemma asleep_away:
  assumes "asleep cpu d p t c" and "placed cpu idle frame P Q T c W" and "cpu < NPUN"
  shows "p \<notin> members (sch c) Q cpu"
  using asleep_here [OF assms(1) placedD(3) [OF assms(2)] assms(3)] placedD(4) [OF assms(2)]
  unfolding places_def timed_def by blast

lemma switching_frame: "reaches (switching cpu f c) c' \<Longrightarrow> tmos c' = tmos c \<and> timeQue c' = timeQue c"
  by (auto simp: switching_def split: sum.splits if_splits)

lemma asleep_same:
  assumes "asleep cpu d p t c" and "tmos c' = tmos c" and "timeQue c' = timeQue c"
  shows "asleep cpu d p t c'"
proof -
  have k: "tnext c' = tnext c" "tkey c' = tkey c" using assms(2) by (simp_all add: tnext_def [abs_def] tkey_def [abs_def])
  show ?thesis using assms(1) tmo_ok_cong [OF k assms(3)] unfolding asleep_def assms(2) by simp
qed

text \<open>One step: the process sleeps on, unless its time has come.\<close>

lemma asleep_step:
  assumes k: "kernel_ok cpu idle frame P c W" and cpu: "cpu < NPUN" and st: "kernel_step cpu idle frame (c, W) (c', W')"
    and a: "asleep cpu d p t c"
  shows "asleep cpu d p t c' \<or> sint t \<le> sint (now_of c)"
  using st
proof cases
  case (signal i b)
  obtain Q T where q: "placed cpu idle frame P Q T c W" "serves cpu c" using k by (auto simp: kernel_ok_def)
  note D = asleep_here [OF a placedD(3) [OF q(1)] cpu]
  obtain b' c1 ys zs where c1: "handle_signal cpu (signal_no (hw (sch c)) cpu i) c = Inr (b', c1)"
    "placed cpu idle frame P (Q(cpu := ys)) (T(cpu := zs)) c1 W" "keeps_late c (T cpu) c1 zs"
    using placed_signal [OF q cpu signal(2)] signal(3) by blast
  have "c1 = c'" using c1(1) signal(4) by simp
  moreover have "d \<in> set ((T(cpu := zs)) cpu)" if "sint (now_of c) < sint t"
    using c1(3) D that by (simp add: keeps_late_def)
  ultimately show ?thesis using asleep_moves [OF a placedD(3) [OF c1(2)]] c1(3)
    by (cases "sint (now_of c) < sint t") (simp_all add: keeps_late_def)
next
  case (sleep q u)
  obtain Q T where pl: "placed cpu idle frame P Q T c W" "serves cpu c" "frames_ok cpu frame P T"
    using k by (auto simp: kernel_ok_def)
  note D = asleep_here [OF a placedD(3) [OF pl(1)] cpu]
  have "q \<in> members (sch c) Q cpu" using sleep(2) by (simp add: members_def)
  then have ne: "d \<noteq> frame q" using frame_unused [OF pl(1,3) _ cpu] D(1) by blast
  show ?thesis
  proof (cases "time_lt (now_of c) u")
    case True
    obtain c1 xs where c1: "After cpu (frame q) u c = Paused c1 (Done ())"
      "placed cpu idle frame P (Q(cpu := xs)) (T(cpu := sort_key (tkey c1) (T cpu @ [frame q]))) c1 W"
      "\<forall>e. t_time (tmos c1 e) = (if e = frame q then u else t_time (tmos c e)) \<and>
         t_proc (tmos c1 e) = (if e = frame q then q else t_proc (tmos c e))"
      using placed_sleep [OF pl cpu sleep(2-4)] unfolding if_P [OF True] by blast
    have "c' = c1" using sleep(5) c1(1) by simp
    moreover have "asleep cpu d p t c1"
      by (rule asleep_moves [OF a placedD(3) [OF c1(2)]]) (use D(1) c1(3) ne in simp_all)
    ultimately show ?thesis by simp
  next
    case False
    obtain c1 where c1: "After cpu (frame q) u c = Done () c1" "placed cpu idle frame P Q T c1 W" "tmos c1 = tmos c"
      using placed_sleep [OF pl cpu sleep(2-4)] unfolding if_not_P [OF False] by blast
    have "c' = c1" using sleep(5) c1(1) by simp
    moreover have "asleep cpu d p t c1"
      by (rule asleep_moves [OF a placedD(3) [OF c1(2)] D(1)]) (use c1(3) in simp_all)
    ultimately show ?thesis by simp
  qed
next
  case (receives i)
  obtain Q T where "placed cpu idle frame P Q T c W" using k by (auto simp: kernel_ok_def)
  note r = receive_switches [OF placedD(1) [OF this] cpu receives(3)]
  have "tmos c' = tmos c" "timeQue c' = timeQue c"
    using switching_frame [OF receives(5) [unfolded r]] by (simp_all add: PREPARE_TO_WAIT_def put_sched_def set_interrupt_def)
  with asleep_same [OF a] show ?thesis by blast
next
  case (blocks q)
  have "tmos c' = tmos c" "timeQue c' = timeQue c"
    using switching_frame [OF blocks(4)] by (simp_all add: PREPARE_TO_WAIT_def put_sched_def)
  with asleep_same [OF a] show ?thesis by blast
next
  case (waits q op ch b len)
  obtain Q T where "placed cpu idle frame P Q T c W" using k by (auto simp: kernel_ok_def)
  from chan_waits [OF waits(4) placedD(1) [OF this] cpu waits(5,6), of b len]
  obtain c1 where c1: "op cpu ch b len c = switching cpu (relinquish cpu) c1" "same_waits c c1" by blast
  have "tmos c' = tmos c" "timeQue c' = timeQue c"
    using switching_frame [OF waits(7) [unfolded c1(1)]] c1(2) by (simp_all add: same_waits_def)
  with asleep_same [OF a] show ?thesis by blast
next
  case (meets op ch b len)
  obtain Q T where pl: "placed cpu idle frame P Q T c W" using k by (auto simp: kernel_ok_def)
  let ?x = "waiting (chans c ch)"
  have x: "?x \<in> W" "io_ptr (chans c ch) \<noteq> NULL" using meets(5) by (simp_all add: partner_waits_def)
  have "?x \<noteq> NULL" using placedD(4,5) [OF pl] x(1) by (auto simp: places_def)
  then obtain c1 where c1: "op cpu ch b len c = wake cpu ?x c1" "same_waits c c1"
    using chan_meets [OF meets(3) placedD(1) [OF pl] cpu meets(4) refl _ x(2) meets(6), of len] by blast
  have "tmos c' = tmos c1" "timeQue c' = timeQue c1" by (subst wake_frame(2) [OF meets(7) [unfolded c1(1)]], simp)+
  with asleep_same [OF a] c1(2) show ?thesis by (simp add: same_waits_def)
next
  case (wakes x)
  have "tmos c' = tmos c" "timeQue c' = timeQue c" by (subst wake_frame(2) [OF wakes(3)], simp)+
  with asleep_same [OF a] show ?thesis by blast
next
  case (sent x other target)
  have "tmos c' = tmos c" "timeQue c' = timeQue c" by (subst wake_frame(2) [OF sent(6)], simp)+
  with asleep_same [OF a] show ?thesis by blast
qed


lemma asleep_until:
  assumes "(kernel_step cpu idle frame)\<^sup>*\<^sup>* s s'" and "kernel_ok cpu idle frame P (fst s) (snd s)" and "cpu < NPUN"
    and "asleep cpu d p t (fst s)"
  shows "asleep cpu d p t (fst s') \<or> (\<exists>c W. (kernel_step cpu idle frame)\<^sup>*\<^sup>* s (c, W) \<and>
    (kernel_step cpu idle frame)\<^sup>*\<^sup>* (c, W) s' \<and> sint t \<le> sint (now_of c))"
  using assms(1)
proof (induction rule: rtranclp_induct)
  case base
  with assms(4) show ?case by simp
next
  case (step u v)
  obtain c W c' W' where uv: "u = (c, W)" "v = (c', W')" by fastforce
  have ok: "kernel_ok cpu idle frame P c W" using kernel_steps_ok [OF step(1) assms(3,2)] by (simp add: uv)
  show ?case
  proof (cases "asleep cpu d p t c")
    case True
    from asleep_step [OF ok assms(3) step(2) [unfolded uv] True] consider "asleep cpu d p t c'" | "sint t \<le> sint (now_of c)"
      by blast
    then show ?thesis
    proof cases
      case 2
      with step(1,2) show ?thesis unfolding uv by blast
    qed (simp add: uv)
  next
    case False
    with step(3) step(2) show ?thesis unfolding uv by (auto intro: rtranclp.rtrancl_into_rtrancl)
  qed
qed

text \<open>
  C6. A process that sleeps until a time is not resumed early: if it calls \<^verbatim>\<open>After\<close> in a
  reachable state in which the time is in the future, then, whatever steps the other processes
  take and whichever signals arrive between the steps, before it is current again, or even made ready, there is a moment at
  which a reading of the clock shows that the time has come.
\<close>

theorem after_never_early:
  assumes "kernel_ok cpu idle frame P c0 W0" and "cpu < NPUN"
    and "(kernel_step cpu idle frame)\<^sup>*\<^sup>* (c0, W0) (c, W)"
    and "current (sch c) cpu = p" and "p \<noteq> idle" and "time_lt (now_of c) t"
    and "sint t - sint (currentTime c) < 2 ^ 31 * NS_PER_SEC"
    and "reaches (After cpu (frame p) t c) c1"
    and "(kernel_step cpu idle frame)\<^sup>*\<^sup>* (c1, W) (c2, W2)"
    and "current (sch c2) cpu = p \<or> p_sched_state (proc_of c2 p) \<noteq> PROC_WAITING"
  shows "\<exists>c' W'. (kernel_step cpu idle frame)\<^sup>*\<^sup>* (c1, W) (c', W') \<and>
    (kernel_step cpu idle frame)\<^sup>*\<^sup>* (c', W') (c2, W2) \<and> time_le t (now_of c')"
proof -
  have ok: "kernel_ok cpu idle frame P c W" using kernel_steps_ok [OF assms(3,2)] assms(1) by simp
  then obtain Q T where pl: "placed cpu idle frame P Q T c W" "serves cpu c" "frames_ok cpu frame P T"
    by (auto simp: kernel_ok_def)
  obtain c1' xs where c1: "After cpu (frame p) t c = Paused c1' (Done ())"
    "placed cpu idle frame P (Q(cpu := xs)) (T(cpu := sort_key (tkey c1') (T cpu @ [frame p]))) c1' W"
    "\<forall>e. t_time (tmos c1' e) = (if e = frame p then t else t_time (tmos c e)) \<and>
       t_proc (tmos c1' e) = (if e = frame p then p else t_proc (tmos c e))"
    using placed_sleep [OF pl assms(2,4,5,7)] unfolding if_P [OF assms(6)] by blast
  have e: "c1' = c1" using c1(1) assms(8) by simp
  have "kernel_step cpu idle frame (c, W) (c1, W)"
    by (rule kernel_step.sleep [where p = p and frame = frame, OF assms(4,5,7,8)])
  then have ok1: "kernel_ok cpu idle frame P c1 W"
    using kernel_step_ok [OF _ assms(2), of idle frame "(c, W)" "(c1, W)" P] ok by simp
  have a: "asleep cpu (frame p) p t c1"
    unfolding asleep_def using placedD(3) [OF c1(2)] c1(3) by (auto simp: e intro: exI)
  have ok2: "kernel_ok cpu idle frame P c2 W2" using kernel_steps_ok [OF assms(9,2)] ok1 by simp
  then obtain Q2 T2 where pl2: "placed cpu idle frame P Q2 T2 c2 W2" by (auto simp: kernel_ok_def)
  have "p \<in> P" using placedD(4) [OF pl(1)] assms(4) by (auto simp: places_def members_def)
  then have "p \<in> members (sch c2) Q2 cpu" using assms(10) placedD(8) [OF pl2] by (auto simp: members_def)
  then have "\<not> asleep cpu (frame p) p t c2" using asleep_away [OF _ pl2 assms(2)] by blast
  then show ?thesis using asleep_until [OF assms(9) _ assms(2), of P "frame p" p t] ok1 a
    by (auto simp: time_le_def)
qed

lemma sample_before:
  "current (sch sample_kernel) 0 = 0x300" "(0x300 :: addr) \<noteq> 0x100" "currentTime sample_kernel = 0"
  "sint (1000000000 :: Time) - sint (currentTime sample_kernel) < 2 ^ 31 * NS_PER_SEC"
  "time_lt (now_of sample_kernel) 1000000000"
proof -
  show ct: "currentTime sample_kernel = 0" by (simp add: sample_kernel_def sample_cxp_def)
  have "now_of sample_kernel = 600000000"
    by (simp add: now_of_def ct) (simp add: sample_kernel_def set_sched_state_def sample_sched_def
      sample_clock_hw_def sample_hw_def ts_time_def Tick_def NS_PER_SEC_def)
  then show "time_lt (now_of sample_kernel) 1000000000" by (simp add: time_lt_def)
  show "sint (1000000000 :: Time) - sint (currentTime sample_kernel) < 2 ^ 31 * NS_PER_SEC"
    unfolding ct by (simp add: NS_PER_SEC_def)
qed (simp_all add: sample_kernel_def, simp add: sample_sched_def)

lemma sample_wakes:
  obtains c c' where "reaches (After 0 (sample_frame 0x300) 1000000000 sample_kernel) c"
    "(kernel_step 0 0x100 sample_frame)\<^sup>*\<^sup>* (c, {0x600}) (c', {0x600})" "p_sched_state (proc_of c' 0x300) = PROC_READY"
proof -
  let ?P = "{0x300, 0x400, 0x500, 0x100, 0x600} :: addr set" and ?d = "sample_frame 0x300"
  have cpu: "(0 :: pun) < NPUN" by (simp add: NPUN_def)
  note p = sample_before(1,2) and ct = sample_before(3) and t = sample_before(4) and lt = sample_before(5)
  obtain Q T where pl: "placed 0 0x100 sample_frame ?P Q T sample_kernel {0x600}" "serves 0 sample_kernel"
    "frames_ok 0 sample_frame ?P T" using sample_kernel_ok by (auto simp: kernel_ok_def)
  obtain c xs where c: "After 0 ?d 1000000000 sample_kernel = Paused c (Done ())" "serves 0 c"
    "placed 0 0x100 sample_frame ?P (Q(0 := xs)) (T(0 := sort_key (tkey c) (T 0 @ [?d]))) c {0x600}"
    "\<forall>e. t_time (tmos c e) = (if e = ?d then 1000000000 else t_time (tmos sample_kernel e)) \<and>
       t_proc (tmos c e) = (if e = ?d then 0x300 else t_proc (tmos sample_kernel e))"
    "currentTime c = currentTime sample_kernel"
    using placed_sleep [OF pl cpu p t] unfolding if_P [OF lt] by blast
  let ?T = "T(0 := sort_key (tkey c) (T 0 @ [?d]))"
  have i: "INTR_ELAPSED \<in> intrs_of 0" "INTR_TIMEOUT \<in> intrs_of 0" "INTR_ELAPSED \<noteq> INTR_TIMEOUT"
    by (simp_all add: intrs_of_def intr_numbers)
  have y: "sint (currentTime c) \<le> year_146" using c(5) ct by (simp add: year_146_def)
  obtain b c1 ys zs where c1: "handle_signal 0 (signal_no (hw (sch c)) 0 INTR_ELAPSED) c = Inr (b, c1)" "serves 0 c1"
    "placed 0 0x100 sample_frame ?P (Q(0 := ys)) (T(0 := ?T 0)) c1 {0x600}" "keeps_late c (?T 0) c1 (?T 0)"
    "ticked INTR_ELAPSED c c1"
    using placed_signal [OF c(3,2) cpu i(1) y] i(3) by auto
  have "currentTime c1 = 1000000000" using c1(5) c(5) ct by (simp add: ticked_def Tick_def)
  then have now: "1000000000 \<le> sint (now_of c1)" using now_range(1) [OF c1(2)] by simp
  obtain b' c2 ys' zs' where c2: "handle_signal 0 (signal_no (hw (sch c1)) 0 INTR_TIMEOUT) c1 = Inr (b', c2)"
    "woken 0 c1 (?T 0) ((Q(0 := ys))(0 := ys')) c2"
    using placed_signal [OF c1(3,2) cpu i(2)] i(3) by auto
  have tm: "tmos c1 = tmos c" using c1(4) by simp
  have k: "t_proc (tmos c1 ?d) = 0x300" "tkey c1 ?d = 1000000000" using c(4) by (simp_all add: tm tkey_def)
  have "p_sched_state (proc_of c2 0x300) = PROC_READY"
    using c2(2) now k unfolding woken_def by (auto dest!: bspec [of _ _ ?d])
  moreover have "kernel_step 0 0x100 sample_frame (c, {0x600}) (c1, {0x600})"
    by (rule kernel_step.signal [OF i(1) _ c1(1)]) (use y in simp)
  moreover have "kernel_step 0 0x100 sample_frame (c1, {0x600}) (c2, {0x600})"
    by (rule kernel_step.signal [OF i(2) _ c2(1)]) (use i(3) in simp)
  ultimately show thesis using that [of c c2] c(1) by (simp add: converse_rtranclp_into_rtranclp r_into_rtranclp)
qed

theorem after_never_early_witness:
  "\<exists>c c'. reaches (After 0 (sample_frame 0x300) 1000000000 sample_kernel) c \<and> time_le 1000000000 (now_of c')"
proof -
  obtain c1 c2 where c: "reaches (After 0 (sample_frame 0x300) 1000000000 sample_kernel) c1"
    "(kernel_step 0 0x100 sample_frame)\<^sup>*\<^sup>* (c1, {0x600}) (c2, {0x600})" "p_sched_state (proc_of c2 0x300) = PROC_READY"
    by (rule sample_wakes)
  note p = sample_before(1,2) and ct = sample_before(3) and t = sample_before(4) and lt = sample_before(5)
  have "(0 :: pun) < NPUN" by (simp add: NPUN_def)
  from after_never_early [where frame = sample_frame, OF sample_kernel_ok this rtranclp.rtrancl_refl p lt t c(1,2)] c(1,3)
  show ?thesis by auto
qed

end
