(* ===== verification/Spec2Isabelle.thy ===== *)
theory Spec2Isabelle
  imports Ping_Pong Barrier Alt_Ready Trace Timer_Queue Ipq_Concurrent Punctual
begin

text \<open>
  CXP is a run-time executive in the style of CSP: parallel processes, channels and alternation on
  a small number of processors that share memory, with preemptive priorities. This theory joins the
  parts of the development and proves what spans them; the other theories hold one component each.

  \<^bold>\<open>The program and its model.\<close> The program is C (in \<^verbatim>\<open>src/\<close>, the files
  \<^verbatim>\<open>.m\<close> are C that is included). Its state is one record \<open>cxp\<close> (\<open>Kernel\<close>), whose field
  \<open>sch\<close> is the state of the scheduler (\<open>sched\<close>, in \<open>Sched\<close>), which in turn holds the state of
  the emulated hardware (\<open>hw_state\<close>, in \<open>Hardware\<close>). Pointers are 32-bit addresses and the fields
  behind them are functions of the address; integers have the width of the source. The processor
  that executes an operation is an argument \<open>cpu\<close>, where the C code asks
  \<^verbatim>\<open>getcpu\<close>. An operation that cannot lose the processor returns a result
  (\<open>res\<close>: an error or a value); every \<^verbatim>\<open>plotz\<close>, null dereference, array overrun and
  endless wait of the source's own code is an error value; the stack pointers that
  \<^verbatim>\<open>swapcontext\<close> gets are not tested, and the invariant of the scheduler makes them the start of the
  record's own stack. An operation of a process that can lose the processor is a
  \<open>run\<close>: it is done, it fails, or it pauses with the state in which the next process runs and with
  its own continuation.

  \<^item> \<open>Cxp_Prelude\<close>: machine types (\<^verbatim>\<open>types.h\<close>), results, linked lists and the search
    loop that three C functions share; \<open>Ordered_Queue\<close>: the locale of a list kept in the order of a
    key, interpreted for the ready queues and the timeout queues.
  \<^item> \<open>Priority\<close>: the macros of \<^verbatim>\<open>sched.h\<close> and the priorities of \<^verbatim>\<open>run.c\<close>.
    Nests of prioritized constructs are ordered as they should be, down to the idle process.
  \<^item> \<open>Ipq\<close>: the ring between two processors (\<^verbatim>\<open>ipq.m\<close>) gives, for every sequence of
    operations, the answers of a bounded first-in first-out list;
    \<open>Ipq_Concurrent\<close>: its single accesses under interleaving, with one adder and with two.
  \<^item> \<open>Hardware\<close>: masks, signal numbers, timers (\<^verbatim>\<open>hardware.c\<close>). The set-up routes
    every signal to its processor and interrupt.
  \<^item> \<open>Sched\<close>, \<open>Sched_Correct\<close>, \<open>Sched_Steps\<close>: ready queues, current process and context switches
    (\<^verbatim>\<open>sched.c\<close>). \<open>sched_inv s Q\<close> says that \<open>Q\<close> lists the ready queues, that queues, rings
    and current processes are disjoint and that records and contexts agree; \<open>top_running\<close> that no
    ready process outranks the running one. Each operation is shown to keep the invariant and to
    run the process it should.
  \<^item> \<open>Kernel\<close>: the whole state, the type of operations and the mutexes (\<^verbatim>\<open>mutex.c\<close>).
  \<^item> \<open>Memory\<close>: the allocator (\<^verbatim>\<open>memory.c\<close>).
  \<^item> \<open>Wakeup\<close>: the atomic accesses to the two state fields of a process (\<^verbatim>\<open>comm.c\<close>,
    \<^verbatim>\<open>alt.c\<close>, \<^verbatim>\<open>timer.c\<close>, \<^verbatim>\<open>sched.c\<close>) as step relations, with
    the properties of the protocols under every interleaving.
  \<^item> \<open>Comm\<close>: channels (\<^verbatim>\<open>comm.c\<close>); \<open>Timer\<close>, \<open>Timer_Correct\<close>, \<open>Timeout_Interrupt\<close>,
    \<open>Timer_Queue\<close>: the clock, the timeout queues, their interrupt, and the timers that an
    alternation enters and takes back (\<^verbatim>\<open>timer.c\<close>).
  \<^item> \<open>Interrupts\<close>: user interrupts (\<^verbatim>\<open>interrupt.c\<close>), the dispatch in
    \<^verbatim>\<open>sched.c\<close> and the signal handler of \<^verbatim>\<open>hardware.c\<close>.
  \<^item> \<open>Quiet\<close>: the part of the scheduler's state that none of its operations changes, and the frame
    lemma of each. \<open>Sleep\<close>: what \<^verbatim>\<open>After\<close> does up to the next process, and when it
    sleeps too long. \<open>Places\<close>, \<open>Processor\<close>: where the processes of a processor are (running or
    ready, sleeping, waiting for an interrupt, waiting for another process) and the step relation
    of a processor whose processes communicate over channels, sleep and receive in any order and
    are woken from both processors, with signals between the steps: every step returns, keeps every
    process in one place and keeps all invariants. The steps are whole operations. Signals inside
    them are not covered, above all not in the window of \<^verbatim>\<open>relinquish\<close> between its
    compare-and-exchange and its \<^verbatim>\<open>disable\<close>, in which \<open>Wakeup\<close> shows that a process can be
    enqueued while it runs; nor are selections, locked channels, and making and ending processes, which
    have their own theorems.
    \<open>Punctual\<close>: a sleeping process stays asleep under all these steps until its time has come.
  \<^item> \<open>Lifecycle\<close>, \<open>Lifecycle_Correct\<close>, \<open>Initialization\<close>: making and ending processes and starting
    the system (\<^verbatim>\<open>sched.c\<close>, \<^verbatim>\<open>hardware.c\<close>).
  \<^item> \<open>Run\<close>, \<open>Run_Correct\<close>, \<open>Barrier\<close>: the parallel constructs (\<^verbatim>\<open>run.c\<close>) and their
    barrier (\<^verbatim>\<open>par_barrier.m\<close>), also under interleaving.
  \<^item> \<open>Alt\<close>, \<open>Alt_Correct\<close>, \<open>Alt_Ready\<close>: alternation (\<^verbatim>\<open>alt.c\<close>).
  \<^item> \<open>System\<close>: a machine that keeps what is left of the code of every process that has lost the
    processor (what \<^verbatim>\<open>swapcontext\<close> does with stacks) and goes on with the process whose
    context has been entered. With it a whole parallel construct runs, from the call to the return:
    its children communicate, end, and the parent goes on. \<open>Commun\<close>: the sample program
    \<^verbatim>\<open>examples/commun.c\<close>, from \<^verbatim>\<open>initialize\<close> to the end of
    \<^verbatim>\<open>main\<close>. \<open>Forever\<close>: endless loops of processes and their law; \<open>Samples\<close>: the other
    sample programs; \<open>Ping_Pong\<close>: \<^verbatim>\<open>examples/ring0arg2.c\<close> runs for ever, and every turn
    increases the number that its two processes hand to each other.
  \<^item> \<open>Trace\<close>: the circular debug trace (\<^verbatim>\<open>dbg.c\<close>).

  \<^bold>\<open>Loops.\<close> Searches of linked lists, the clock read, the loop of the interprocessor interrupt and
  the display are \<open>partial_function (option)\<close>: that they return is part of what is proved. A claim of
  a mutex and a selection can pause any number of times, so \<open>run\<close> is coinductive, and so is an
  endless loop of a process; no fuel is used.

  \<^bold>\<open>Parameters.\<close> The operating system's part is in the state or an argument: the numbers of
  the real-time signals and the readings of the timers are fields of \<open>hw_state\<close>, the results of
  \<^verbatim>\<open>malloc\<close>, \<^verbatim>\<open>fopen\<close> and \<^verbatim>\<open>pthread_create\<close> and the text made by
  \<^verbatim>\<open>vsprintf\<close> are arguments, and so is the code of the user's processes.

  \<^bold>\<open>Not modelled.\<close> The failure of system calls for signal masks, signal sets, contexts and
  the thread key, for which the source calls \<^verbatim>\<open>plotz\<close> (those of timers, threads, memory and the signal
  to another processor are modelled). The order of memory accesses weaker than sequential consistency (the source
  asks for acquire and release order), the real time that operations take, and the operations that
  only print or sleep (\<^verbatim>\<open>display_sigmask\<close>, \<^verbatim>\<open>halt_processor\<close>): what a halted
  processor does is what its signal handler does. What the sample programs print is left
  out, and of \<^verbatim>\<open>examples/intr_pri.c\<close> the loop around the polling of the clock, which
  only interrupts break off.
\<close>

subsection \<open>From the start to the first interrupts\<close>

lemma block_stack:
  assumes "mem_ok lo c F L" and "(b, i) \<in> L"
  shows "proc_stack b \<noteq> NULL"
proof -
  have "(b, i) \<in> blocks F L" using assms(2) by (simp add: blocks_def)
  then have b: "snd (b, i) < NCLASS" "span (b, i) \<subseteq> {lo ..< unat (tail c)}" using assms(1) unfolding mem_ok_def by blast+
  have "18 \<le> class_size i" using b(1) class_sizes(3) by simp
  then have "unat b + 16 \<in> span (b, i)" by (simp add: span_def)
  then have "unat b + 16 < unat (tail c)" using b(2) by auto
  moreover have "unat (tail c) < 2 ^ 32" using unsigned_less [of "tail c"] by simp
  ultimately have "unat (proc_stack b) = unat b + 16"
    by (simp add: proc_stack_def sizeof_Process_def unat_word_ariths)
  then show ?thesis by auto
qed

lemma booting_placed:
  assumes b: "booting b0 b1 b2 i (sch c)" and e: "executing (sch c) 1 = proc_stack b2" and t: "tmo_ok c (\<lambda>_. [])"
    and n: "\<forall>p < NPUN. \<forall>i < NINTR. interrupts c p i = NULL" and b01: "proc_stack b0 \<noteq> NULL" "proc_stack b1 \<noteq> NULL"
  shows "placed 0 b1 frame {b0, b1} (first_queues b1) (\<lambda>_. []) c {}"
proof -
  note B = b [unfolded booting_def] and I = booting_inv [OF b e]
  have z: "(0 :: pun) < NPUN" by (simp add: NPUN_def)
  have "receivers 0 c = {}" using n z by (auto simp: receivers_def)
  then have "places {b0, b1} {b0, b1} (timed c []) (receivers 0 c) {}" by (simp add: places_def timed_def)
  moreover have "\<forall>p \<in> {b0, b1}. p \<noteq> NULL \<and> proc_stack p \<noteq> NULL \<and> p_pun (proc_of c p) = 0 \<and>
      p_stackptr (proc_of c p) = proc_stack p"
    using B b01 by (auto simp: proc_of_def new_process_def)
  ultimately show ?thesis using I(1) I(2) [OF z] t n z unfolding placed_def I(3) by (auto simp: inj_on_def)
qed

lemma initialize_kernel_ok:
  assumes "static_zero (hw (sch c))" and "barrier (hw (sch c)) = 2" and "\<forall>m. \<not> claimed c m"
    and "os_new_timer (hw (sch c)) 0 = Some t" and "os_new_timer (hw (sch c)) 1 = Some u"
    and "os_new_timer (hw (sch c)) 2 = Some v" and "distinct [t, u, v]"
    and "thread 1" and "malloc (tsize - istacksize) = T0" and "T0 \<noteq> NULL"
    and "find_mem_index (istacksize + sizeof_Process) = Inr i" and "i < NCLASS"
    and "unat T0 + class_size i + 2 * class_size idle_class < 2 ^ 32"
    and "class_size i \<le> unat (tsize - istacksize)" and "class_size idle_class \<le> unat (tsize - istacksize)"
    and clk: "currentTime c = 0"
      "\<forall>k. 0 \<le> sint (ts_time (os_readings (hw (sch c)) k)) \<and> sint (ts_time (os_readings (hw (sch c)) k)) \<le> sint Tick"
  shows "\<exists>c1 b0 b1. initialize malloc thread tsize istacksize c = Done () c1 \<and> current (sch c1) 0 = b0 \<and> b0 \<noteq> b1 \<and>
    (\<forall>frame. frame b0 \<noteq> NULL \<and> frame b1 \<noteq> NULL \<and> frame b0 \<noteq> frame b1 \<longrightarrow> kernel_ok 0 b1 frame {b0, b1} c1 {})"
proof -
  obtain c1 F b0 b1 b2 where c1: "initialize malloc thread tsize istacksize c = Done () c1" "booting b0 b1 b2 i (sch c1)"
    "executing (sch c1) 1 = proc_stack b2" "routing 9 (hw (sch c1)) {0, 1} ({0} \<times> intrs_of 0 \<union> {1} \<times> intrs_of 1)"
    "tmo_ok c1 (\<lambda>_. [])" "clock_ok 0 c1" "timeout_timer 0 c1 \<noteq> None"
    "\<forall>p < NPUN. \<forall>i < NINTR. interrupts c1 p i = NULL"
    "currentTime c1 = currentTime c" "os_readings (hw (sch c1)) = os_readings (hw (sch c))"
    "mem_ok (unat T0) c1 F {(b0, i), (b1, idle_class), (b2, idle_class)}"
    using initialize_ok [where thread = thread and malloc = malloc and tsize = tsize and istacksize = istacksize
        and c = c and ks = "[]", OF assms(1-11), simplified] assms(12-15) by auto
  have "serves 0 c1"
    unfolding serves_def using c1(4,6,7,9,10) clk
    by (intro conjI exI [of _ 9] exI [of _ "{0, 1}"] exI [of _ "{0} \<times> intrs_of 0 \<union> {1} \<times> intrs_of 1"])
      (simp_all add: year_146_def)
  moreover have "frames_ok 0 frame {b0, b1} (\<lambda>_. [])"
    if "frame b0 \<noteq> NULL" "frame b1 \<noteq> NULL" "frame b0 \<noteq> frame b1" for frame
    using that by (auto simp: frames_ok_def inj_on_def)
  moreover have "proc_stack b0 \<noteq> NULL" "proc_stack b1 \<noteq> NULL"
    using block_stack [OF c1(11), of b0 i] block_stack [OF c1(11), of b1 idle_class] by simp_all
  ultimately have "kernel_ok 0 b1 frame {b0, b1} c1 {}"
    if "frame b0 \<noteq> NULL" "frame b1 \<noteq> NULL" "frame b0 \<noteq> frame b1" for frame
    unfolding kernel_ok_def using that booting_placed [OF c1(2,3,5,8)] by blast
  moreover have "current (sch c1) 0 = b0" "b0 \<noteq> b1" using c1(2) by (auto simp: booting_def)
  ultimately show ?thesis using c1(1) by blast
qed

text \<open>
  C14. The initialization leaves a system whose initial processor keeps all invariants for ever.
  Its processes are the initial process and the idle process. In every state that the steps of the
  processor reach (whole operations of the running process, signals between them, wake-ups from
  this and the other processor) each of the two is in one place, no ready process outranks the
  running one, the timeout queues are in order, and every operation that is a step there, and
  \<^verbatim>\<open>yield\<close>, returns: every signal is handled to its end, and the initial process, when it
  runs, can sleep, wait for a user interrupt, send and receive on an unlocked channel at which nobody
  waits, and give up the processor, and when it waits it can be woken. The processes that the
  initial process may create are not among the steps.
\<close>

theorem booted_system_stays_sound:
  assumes "static_zero (hw (sch c))" and "barrier (hw (sch c)) = 2" and "\<forall>m. \<not> claimed c m"
    and "os_new_timer (hw (sch c)) 0 = Some t" and "os_new_timer (hw (sch c)) 1 = Some u"
    and "os_new_timer (hw (sch c)) 2 = Some v" and "distinct [t, u, v]"
    and "thread 1" and "malloc (tsize - istacksize) = T0" and "T0 \<noteq> NULL"
    and "find_mem_index (istacksize + sizeof_Process) = Inr i" and "i < NCLASS"
    and "unat T0 + class_size i + 2 * class_size idle_class < 2 ^ 32"
    and "class_size i \<le> unat (tsize - istacksize)" and "class_size idle_class \<le> unat (tsize - istacksize)"
    and "currentTime c = 0"
    and "\<forall>k. 0 \<le> sint (ts_time (os_readings (hw (sch c)) k)) \<and> sint (ts_time (os_readings (hw (sch c)) k)) \<le> sint Tick"
  shows "\<exists>c1 b0 b1. initialize malloc thread tsize istacksize c = Done () c1 \<and> current (sch c1) 0 = b0 \<and> b0 \<noteq> b1 \<and>
    (\<forall>frame c2 W. frame b0 \<noteq> NULL \<and> frame b1 \<noteq> NULL \<and> frame b0 \<noteq> frame b1 \<and>
      (kernel_step 0 b1 frame)\<^sup>*\<^sup>* (c1, {}) (c2, W) \<longrightarrow>
      (\<exists>Q T. sched_inv (sch c2) Q \<and> top_running (sch c2) Q 0 \<and> tmo_ok c2 T \<and>
        places {b0, b1} (members (sch c2) Q 0) (timed c2 (T 0)) (receivers 0 c2) W) \<and>
      all_return 0 b1 frame c2 W)"
proof -
  have z: "(0 :: pun) < NPUN" by (simp add: NPUN_def)
  obtain c1 b0 b1 where c1: "initialize malloc thread tsize istacksize c = Done () c1" "current (sch c1) 0 = b0" "b0 \<noteq> b1"
    "\<And>frame. frame b0 \<noteq> NULL \<Longrightarrow> frame b1 \<noteq> NULL \<Longrightarrow> frame b0 \<noteq> frame b1 \<Longrightarrow>
      kernel_ok 0 b1 frame {b0, b1} c1 {}"
    using initialize_kernel_ok [where thread = thread and malloc = malloc, OF assms] by metis
  have "(\<exists>Q T. sched_inv (sch c2) Q \<and> top_running (sch c2) Q 0 \<and> tmo_ok c2 T \<and>
        places {b0, b1} (members (sch c2) Q 0) (timed c2 (T 0)) (receivers 0 c2) W) \<and>
      all_return 0 b1 frame c2 W"
    if f: "frame b0 \<noteq> NULL" "frame b1 \<noteq> NULL" "frame b0 \<noteq> frame b1"
      and r: "(kernel_step 0 b1 frame)\<^sup>*\<^sup>* (c1, {}) (c2, W)" for frame c2 W
  proof -
    have k: "kernel_ok 0 b1 frame {b0, b1} c2 W" using kernel_steps_ok [OF r z] c1(4) [OF f] by simp
    then obtain Q T where pl: "placed 0 b1 frame {b0, b1} Q T c2 W" by (auto simp: kernel_ok_def)
    show ?thesis using placedD(1-4) [OF pl] kernel_ok_returns [OF k z] by blast
  qed
  with c1(1,2,3) show ?thesis by blast
qed

theorem booted_system_stays_sound_witness:
  "\<exists>c1 b c2 c3. initialize (\<lambda>_. 0x100000) (\<lambda>_. True) 0x20000 1024 sample_cxp = Done () c1 \<and>
    handle_signal 0 (signal_no (hw (sch c1)) 0 INTR_TIMEOUT) c1 = Inr (b, c2) \<and>
    reaches (switching 0 (relinquish 0) (PREPARE_TO_WAIT (current (sch c1) 0) c1)) c3"
proof -
  have h: "static_zero (hw (sch sample_cxp))" "barrier (hw (sch sample_cxp)) = 2" "\<forall>m. \<not> claimed sample_cxp m"
    "os_new_timer (hw (sch sample_cxp)) 0 = Some 1" "os_new_timer (hw (sch sample_cxp)) 1 = Some 2"
    "os_new_timer (hw (sch sample_cxp)) 2 = Some 3" "distinct [1, 2, 3 :: int]"
    by (simp_all add: sample_cxp_def sample_sched_def sample_hw_def static_zero_def)
  have r: "unat (0x100000 :: addr) + class_size 11 + 2 * class_size idle_class < 2 ^ 32"
    "class_size 11 \<le> unat (0x20000 - 1024 :: uint32)" "class_size idle_class \<le> unat (0x20000 - 1024 :: uint32)"
    "(0x100000 :: addr) \<noteq> NULL"
    using sample_class by (simp_all add: class_size_def procmemlen_def idle_class_def)
  have t: "currentTime sample_cxp = 0" "\<forall>k. 0 \<le> sint (ts_time (os_readings (hw (sch sample_cxp)) k)) \<and>
      sint (ts_time (os_readings (hw (sch sample_cxp)) k)) \<le> sint Tick"
    by (simp_all add: sample_cxp_def sample_sched_def sample_hw_def ts_time_def NS_PER_SEC_def)
  have i: "INTR_TIMEOUT \<in> intrs_of 0" "INTR_TIMEOUT \<noteq> INTR_ELAPSED" by (simp_all add: intrs_of_def intr_numbers)
  obtain c1 b0 b1 where c1: "initialize (\<lambda>_. 0x100000) (\<lambda>_. True) 0x20000 1024 sample_cxp = Done () c1"
    "\<forall>frame c2 W. frame b0 \<noteq> NULL \<and> frame b1 \<noteq> NULL \<and> frame b0 \<noteq> frame b1 \<and>
      (kernel_step 0 b1 frame)\<^sup>*\<^sup>* (c1, {}) (c2, W) \<longrightarrow> all_return 0 b1 frame c2 W" "b0 \<noteq> b1" "current (sch c1) 0 = b0"
    using booted_system_stays_sound [where thread = "\<lambda>_. True" and malloc = "\<lambda>_. 0x100000" and tsize = "0x20000"
      and istacksize = 1024, OF h TrueI refl r(4) sample_class(1,3) r(1-3) t] by blast
  let ?f = "\<lambda>p. if p = b0 then 8 else 16 :: addr"
  have "all_return 0 b1 ?f c1 {}" using c1(2) [rule_format, of ?f c1 "{}"] c1(3) by auto
  then have "(\<exists>b c2. handle_signal 0 (signal_no (hw (sch c1)) 0 INTR_TIMEOUT) c1 = Inr (b, c2)) \<and>
      (\<exists>c3. reaches (switching 0 (relinquish 0) (PREPARE_TO_WAIT (current (sch c1) 0) c1)) c3)"
    using i c1(3,4) by (simp add: all_return_def Let_def)
  with c1(1) show ?thesis by blast
qed

subsection \<open>A message to an alternation\<close>

lemma plain_cong: "claimed c' = claimed c \<Longrightarrow> plain gs I c' = plain gs I c"
  by (simp add: plain_def cong: guard.case_cong)

text \<open>
  C7. An alternation of channels at none of which anybody waits, then a send by the process that
  runs next, of lower priority, at one of the channels: the send gives the processor back to
  the alternation, which returns the first guard of that channel; the input that follows gets
  the sender's bytes and leaves the sender ready.
\<close>

theorem alternation_gets_message:
  assumes inv: "sched_inv (sch c) Q" and cpu: "cpu < NPUN" and m: "merged (sch c) cpu (Q cpu) = x # xs"
    and g: "\<forall>j < unat (nrGuards alt). \<exists>ch. guards alt j = Guard_chan ch \<and> waiting (chans c ch) = NULL \<and>
      \<not> claimed c (Mutex_chan ch)"
    and i: "i < unat (nrGuards alt)" "guards alt i = Guard_chan ch" "\<forall>j < i. guards alt j \<noteq> Guard_chan ch"
  defines "p \<equiv> current (sch c) cpu"
  assumes hi: "pri_gt (p_pri (proc_of c p)) (p_pri (proc_of c x))" and ptr: "dest \<noteq> NULL" "src \<noteq> NULL"
  shows "\<exists>c1 k c2 alt' c3 c4. priSelect cpu alt c = Paused c1 k \<and> current (sch c1) cpu = x \<and>
    reaches (chan_out cpu ch src len c1) c2 \<and> current (sch c2) cpu = p \<and>
    k c2 = Done (int i, alt') c3 \<and> chan_in cpu ch dest len c3 = Done () c4 \<and>
    heap c4 = copy_bytes dest src len (heap c) \<and> waiting (chans c4 ch) = NULL \<and>
    p_sched_state (proc_of c4 x) = PROC_READY"
proof -
  let ?n = "unat (nrGuards alt)"
  let ?C = "chans_of (guards alt) {..< ?n}"
  have pl: "plain (guards alt) {..< ?n} c" using g by (fastforce simp: plain_def)
  have no: "\<forall>j < ?n. \<not> ready_guard p (chans c) (guards alt j)" using g by (fastforce simp: ready_guard_def)
  have ch: "ch \<in> ?C" "waiting (chans c ch) = NULL" "\<not> claimed c (Mutex_chan ch)" using g i by (force simp: chans_of_def)+
  have pn: "p \<noteq> NULL" and xp: "x \<noteq> p" using sched_invD(2) [OF inv cpu] merged_props(3) [OF inv cpu] m by (auto simp: p_def)
  have "x \<in> set (merged (sch c) cpu (Q cpu))" using m by simp
  then have xn: "x \<noteq> NULL" using sched_invD(7) [OF inv cpu, of x] by simp
  obtain c1 k where w: "priSelect cpu alt c = Paused c1 k" "chans c1 = announced p ?C (chans c)" "claimed c1 = claimed c"
    "heap c1 = heap c" "key_of (sch c1) = key_of (sch c)" "p_alt_state (proc_of c1 p) = ALT_WAITING" "current (sch c1) cpu = x"
    "sched_inv (sch c1) (Q(cpu := xs))" "top_running (sch c1) (Q(cpu := xs)) cpu" "idle_on (sch c1) (Q(cpu := xs)) cpu p"
    "\<forall>c2 i. plain (guards alt) {..< ?n} c2 \<and> i < ?n \<and>
        ready_guard p (chans c2) (guards alt i) \<and> (\<forall>j < i. \<not> ready_guard p (chans c2) (guards alt j)) \<longrightarrow>
      (\<exists>c3. k c2 = Done (int i, alt\<lparr>favorite := next_favorite (int i) (nrGuards alt)\<rparr>) c3 \<and>
        chans c3 = withdrawn p ?C (chans c2) \<and> c3 = put_sched (set_alt_state p ALT_NONE) (c2\<lparr>chans := chans c3\<rparr>))"
    using pri_select_waits_ok [OF inv cpu m pl no [unfolded p_def], folded p_def] by (elim exE conjE) (rule that)
  have at: "chans c1 ch = \<lparr>waiting = p, io_ptr = NULL\<rparr>" "\<not> claimed c1 (Mutex_chan ch)"
    using ch w(2,3) by (simp_all add: announced_def)
  have "pri_gt (p_pri (proc_of c1 p)) (p_pri (proc_of c1 x))"
    using hi w(5) by (simp add: pri_iffs key_of_def proc_of_def fun_eq_iff)
  then obtain c2 ys where o: "reaches (chan_out cpu ch src len c1) c2" "chans c2 = (chans c1)(ch := \<lparr>waiting = x, io_ptr = src\<rparr>)"
    "heap c2 = heap c1" "claimed c2 = claimed c1" "current (sch c2) cpu = p"
    "p_sched_state (proc_of c2 x) = PROC_PREPARING_TO_WAIT"
    using out_wakes_ok [OF w(8) cpu w(9) at w(10,6), of src len] w(7) by auto
  have ready: "ready_guard p (chans c2) (guards alt j) \<longleftrightarrow> guards alt j = Guard_chan ch" if j: "j < ?n" for j
  proof -
    obtain ch' where g': "guards alt j = Guard_chan ch'" "waiting (chans c ch') = NULL" using g j by blast
    then have "ch' \<in> ?C" using j by (auto simp: chans_of_def)
    then have "waiting (chans c1 ch') = p" using g'(2) w(2) by (simp add: announced_def)
    then show ?thesis using g'(1) o(2) xn xp by (simp add: ready_guard_def)
  qed
  have "ready_guard p (chans c2) (guards alt i)" "\<forall>j < i. \<not> ready_guard p (chans c2) (guards alt j)"
    using ready [OF i(1)] ready i by (simp, auto)
  moreover have "plain (guards alt) {..< ?n} c2" using pl o(4) w(3) plain_cong [of c2 c] by simp
  ultimately obtain c3 where c3: "k c2 = Done (int i, alt\<lparr>favorite := next_favorite (int i) (nrGuards alt)\<rparr>) c3"
    "chans c3 = withdrawn p ?C (chans c2)" "c3 = put_sched (set_alt_state p ALT_NONE) (c2\<lparr>chans := chans c3\<rparr>)"
    using w(11) [rule_format, of c2 i] i(1) by blast
  have s3: "sch c3 = set_alt_state p ALT_NONE (sch c2)" "claimed c3 = claimed c2" "heap c3 = heap c2"
    by (subst c3(3), simp add: put_sched_def)+
  have v: "chans c3 ch = \<lparr>waiting = x, io_ptr = src\<rparr>" using c3(2) o(2) xn xp by (simp add: withdrawn_def)
  let ?c4 = "release_mutex (Mutex_chan ch) (set_chan ch \<lparr>waiting = NULL, io_ptr = NULL\<rparr>
    (c3\<lparr>claimed := (claimed c3)(Mutex_chan ch := True), heap := copy_bytes dest src len (heap c3)\<rparr>))"
  let ?c5 = "?c4\<lparr>sch := set_sched_state x PROC_READY (sch ?c4)\<rparr>"
  have "chan_in cpu ch dest len c3 = Done () ?c5"
    using v ptr xn pn at(2) o(4-6) s3
    by (simp add: chan_in_def memcpy_def wake_def xchg_ready_def proc_of_def Let_def)
  moreover have "heap ?c5 = copy_bytes dest src len (heap c)" using s3(3) o(3) w(4) by simp
  moreover have "waiting (chans ?c5 ch) = NULL" "p_sched_state (proc_of ?c5 x) = PROC_READY" by (simp_all add: proc_of_def)
  ultimately show ?thesis using w(1,7) o(1,5) c3(1) by blast
qed

theorem alternation_gets_message_witness:
  "\<exists>c c1 k c2 alt' c3 c4. priSelect 0 sample_alt c = Paused c1 k \<and> reaches (chan_out 0 0x3000 0x5000 8 c1) c2 \<and>
    k c2 = Done (1, alt') c3 \<and> chan_in 0 0x3000 0x1000 8 c3 = Done () c4"
proof -
  let ?c = "sample_cxp\<lparr>sch := urgent_sched\<rparr>"
  have m: "sched_inv (sch ?c) sample_queues" "(0 :: pun) < NPUN" "merged (sch ?c) 0 (sample_queues 0) = 0x400 # [0x500, 0x100]"
    using urgent_sched_inv urgent_merged by (simp_all add: NPUN_def)
  have g: "\<forall>j < unat (nrGuards sample_alt). \<exists>ch. guards sample_alt j = Guard_chan ch \<and> waiting (chans ?c ch) = NULL \<and>
      \<not> claimed ?c (Mutex_chan ch)" and i: "1 < unat (nrGuards sample_alt)" "guards sample_alt 1 = Guard_chan 0x3000"
      "\<forall>j < 1. guards sample_alt j \<noteq> Guard_chan 0x3000"
    by (simp_all add: sample_alt_facts) (simp add: sample_cxp_def)
  have hi: "pri_gt (p_pri (proc_of ?c (current (sch ?c) 0))) (p_pri (proc_of ?c 0x400))"
    by (simp add: proc_of_def urgent_sched_simps) (simp add: sample_sched_def sample_process_def pri_iffs pval_mod)
  show ?thesis
    using alternation_gets_message [OF m(1,2,3) g i hi, where dest = "0x1000" and src = "0x5000" and len = 8]
    by simp metis
qed

end
